(* ===== verification/Prelude.thy ===== *)
theory Prelude
  imports Main "HOL-Library.Signed_Division" "HOL-Library.Multiset"
begin

text \<open>
  Vocabulary shared by every component: Go's 64-bit integers with their wrap-around, Go's
  truncating division, the result type of fallible calls, and the list lemmas (indexed update,
  first match, prefixes) the component theories use. The collections \<open>go_int\<close> and
  \<open>result_simps\<close> are what the component proofs hand to the simplifier.
\<close>

named_theorems go_int \<open>facts about wrapping 64-bit arithmetic\<close>
named_theorems result_simps \<open>computation rules for fallible calls\<close>

section \<open>Fallible calls\<close>

text \<open>A Go call returning \<open>(value, error)\<close>: \<open>Inl\<close> is the error branch.\<close>

type_synonym ('e, 'a) result = "'e + 'a"

definition bind_result :: "('e, 'a) result \<Rightarrow> ('a \<Rightarrow> ('e, 'b) result) \<Rightarrow> ('e, 'b) result" where
  "bind_result r f = (case r of Inl e \<Rightarrow> Inl e | Inr x \<Rightarrow> f x)"

lemma bind_result_simps [simp, result_simps]:
  "bind_result (Inl e) f = Inl e"
  "bind_result (Inr x) f = f x"
  by (simp_all add: bind_result_def)

lemma bind_result_Inr_iff:
  "bind_result r f = Inr y \<longleftrightarrow> (\<exists>x. r = Inr x \<and> f x = Inr y)"
  by (cases r) auto

lemma bind_result_Inr [simp]: "bind_result r Inr = r"
  by (cases r) auto

definition is_ok :: "('e, 'a) result \<Rightarrow> bool" where
  "is_ok r = (case r of Inl _ \<Rightarrow> False | Inr _ \<Rightarrow> True)"

lemma is_ok_simps [simp, result_simps]: "\<not> is_ok (Inl e)" "is_ok (Inr x)"
  by (simp_all add: is_ok_def)

lemma is_ok_iff: "is_ok r \<longleftrightarrow> (\<exists>x. r = Inr x)"
  by (cases r) auto

section \<open>Go's signed 64-bit integers\<close>

text \<open>
  An \<open>int64\<close> (and an \<open>int\<close>, which is 64 bits wide on every platform the program is
  built for) is an \<open>int\<close> in the signed range; an operation that can leave the range wraps.
\<close>

definition wrap64 :: "int \<Rightarrow> int" where
  "wrap64 x = (x + 2 ^ 63) mod 2 ^ 64 - 2 ^ 63"

definition in64 :: "int \<Rightarrow> bool" where
  "in64 x \<longleftrightarrow> - (2 ^ 63) \<le> x \<and> x < 2 ^ 63"

lemma wrap64_in64 [simp, go_int]: "in64 (wrap64 x)"
  by (simp add: wrap64_def in64_def)

lemma wrap64_id [simp, go_int]: "in64 x \<Longrightarrow> wrap64 x = x"
  by (simp add: wrap64_def in64_def)

lemma wrap64_0 [simp]: "wrap64 0 = 0"
  by (simp add: wrap64_def)

lemma wrap64_mod: "wrap64 x mod 2 ^ 64 = x mod 2 ^ 64"
proof -
  have "wrap64 x mod 2 ^ 64 = ((x + 2 ^ 63) mod 2 ^ 64 - 2 ^ 63) mod 2 ^ 64"
    by (simp only: wrap64_def)
  also have "\<dots> = (x + 2 ^ 63 - 2 ^ 63) mod 2 ^ 64"
    by (rule mod_diff_left_eq)
  finally show ?thesis by simp
qed

lemma wrap64_cong: "x mod 2 ^ 64 = y mod 2 ^ 64 \<Longrightarrow> wrap64 x = wrap64 y"
  unfolding wrap64_def by (metis mod_add_left_eq)

lemma wrap64_add_left [simp, go_int]: "wrap64 (wrap64 x + y) = wrap64 (x + y)"
  by (rule wrap64_cong) (metis mod_add_left_eq wrap64_mod)

lemma wrap64_add_right [simp, go_int]: "wrap64 (x + wrap64 y) = wrap64 (x + y)"
  by (metis add.commute wrap64_add_left)

lemma wrap64_diff_left [simp, go_int]: "wrap64 (wrap64 x - y) = wrap64 (x - y)"
  by (metis diff_conv_add_uminus wrap64_add_left)

lemma wrap64_diff_right [simp, go_int]: "wrap64 (x - wrap64 y) = wrap64 (x - y)"
  by (rule wrap64_cong) (metis mod_diff_right_eq wrap64_mod)

lemma in64_0 [simp]: "in64 0"
  by (simp add: in64_def)

lemma in64_max [simp, go_int]: "in64 x \<Longrightarrow> in64 y \<Longrightarrow> in64 (max x y)"
  by (simp add: max_def)

text \<open>Go's \<open>/\<close> on integers truncates towards zero, and is the \<open>sdiv\<close> of the library.\<close>

definition quot64 :: "int \<Rightarrow> int \<Rightarrow> int" where
  "quot64 a b = wrap64 (a sdiv b)"

lemma quot64_pos: "0 \<le> a \<Longrightarrow> in64 a \<Longrightarrow> 0 < b \<Longrightarrow> quot64 a b = a div b"
proof -
  assume a: "0 \<le> a" "in64 a" and b: "0 < b"
  have "a sdiv b = a div b"
    using a b by (simp add: signed_divide_int_def sgn_if)
  moreover have "0 \<le> a div b" "a div b \<le> a"
    using a b zdiv_mono2 [of a 1 b] by (simp_all add: pos_imp_zdiv_nonneg_iff)
  ultimately show ?thesis
    using a by (simp add: quot64_def in64_def)
qed

lemma quot64_neg: "a \<le> 0 \<Longrightarrow> in64 a \<Longrightarrow> 0 < b \<Longrightarrow> quot64 a b \<le> 0"
proof -
  assume a: "a \<le> 0" "in64 a" and b: "0 < b"
  have eq: "a sdiv b = - ((- a) div b)"
    using a b by (cases "a = 0") (simp_all add: signed_divide_int_def sgn_if)
  have "0 \<le> (- a) div b" "(- a) div b \<le> - a"
    using a b zdiv_mono2 [of "- a" 1 b] by (simp_all add: pos_imp_zdiv_nonneg_iff)
  then show ?thesis
    using a eq by (simp add: quot64_def in64_def)
qed

lemma abs_diff_add:
  "\<bar>a - b\<bar> \<le> e \<Longrightarrow> \<bar>c - d\<bar> \<le> f \<Longrightarrow> \<bar>(a + c) - (b + d)\<bar> \<le> e + (f :: 'a::linordered_idom)"
  by linarith

section \<open>Lists\<close>

text \<open>\<open>upd_first p f xs\<close> updates the first element satisfying \<open>p\<close>, as a loop that
  assigns through an index and returns does; \<open>find_first\<close> is the loop that returns it.\<close>

fun upd_first :: "('a \<Rightarrow> bool) \<Rightarrow> ('a \<Rightarrow> 'a) \<Rightarrow> 'a list \<Rightarrow> 'a list" where
  "upd_first p f [] = []"
| "upd_first p f (x # xs) = (if p x then f x # xs else x # upd_first p f xs)"

lemma length_upd_first [simp]: "length (upd_first p f xs) = length xs"
  by (induction xs) auto

lemma upd_first_id: "\<forall>x \<in> set xs. \<not> p x \<Longrightarrow> upd_first p f xs = xs"
  by (induction xs) auto

lemma map_upd_first: "(\<And>x. p x \<Longrightarrow> g (f x) = g x) \<Longrightarrow> map g (upd_first p f xs) = map g xs"
  by (induction xs) auto

lemma find_upd_first:
  "(\<And>x. p x \<Longrightarrow> p (f x)) \<Longrightarrow> List.find p (upd_first p f xs) = map_option f (List.find p xs)"
  by (induction xs) auto

lemma find_upd_first_other:
  "(\<And>x. p x \<Longrightarrow> \<not> q x \<and> \<not> q (f x)) \<Longrightarrow> List.find q (upd_first p f xs) = List.find q xs"
  by (induction xs) auto

lemma set_upd_first: "set (upd_first p f xs) \<subseteq> set xs \<union> f ` {x \<in> set xs. p x}"
  by (induction xs) auto

lemma find_Some_mem: "List.find p xs = Some x \<Longrightarrow> x \<in> set xs \<and> p x"
  by (induction xs) (auto split: if_splits)

lemma find_map_key:
  "distinct (map k xs) \<Longrightarrow> x \<in> set xs \<Longrightarrow> List.find (\<lambda>y. k y = k x) xs = Some x"
  by (induction xs) auto

section \<open>Logs replayed through a fallible step\<close>

text \<open>\<open>replay\<close> folds the records of a log into a state and stops at the first one its step
  refuses: the loop \<open>for _, rec := range records { if err := step(rec) ... return err }\<close>.\<close>

primrec replay :: "('r \<Rightarrow> 's \<Rightarrow> ('e, 's) result) \<Rightarrow> 'r list \<Rightarrow> 's \<Rightarrow> ('e, 's) result" where
  "replay step [] s = Inr s"
| "replay step (r # rs) s = bind_result (step r s) (replay step rs)"

lemma replay_Nil_fun [simp]: "replay step [] = Inr"
  by (rule ext) simp

lemma replay_single [simp]: "replay step [r] = step r"
  by (rule ext) simp

lemma replay_append [simp]:
  "replay step (xs @ ys) s = bind_result (replay step xs s) (replay step ys)"
  by (induction xs arbitrary: s) (auto simp: bind_result_def split: sum.splits)

lemma replay_snoc_Inr:
  "replay step (xs @ [x]) s = Inr t \<longleftrightarrow> (\<exists>u. replay step xs s = Inr u \<and> step x u = Inr t)"
  by (simp add: bind_result_Inr_iff)

text \<open>
  A log whose records are checked one by one against the state the earlier ones left. \<open>inv\<close>
  relates the records read so far to the state; the contract is that it holds at the start and that
  every accepted record keeps it.
\<close>

locale event_log =
  fixes step :: "'r \<Rightarrow> 's \<Rightarrow> ('e, 's) result" and init :: 's and inv :: "'r list \<Rightarrow> 's \<Rightarrow> bool"
  assumes inv_init: "inv [] init"
    and inv_step: "inv rs s \<Longrightarrow> replay step rs init = Inr s \<Longrightarrow> step r s = Inr s' \<Longrightarrow> inv (rs @ [r]) s'"
begin

lemma replay_inv: "replay step rs init = Inr s \<Longrightarrow> inv rs s"
proof (induction rs arbitrary: s rule: rev_induct)
  case Nil
  then show ?case using inv_init by simp
next
  case (snoc r rs)
  then obtain u where "replay step rs init = Inr u" "step r u = Inr s"
    by (auto simp: bind_result_Inr_iff)
  with snoc.IH show ?case by (blast intro: inv_step)
qed

lemma replay_prefix: "is_ok (replay step (xs @ ys) init) \<Longrightarrow> is_ok (replay step xs init)"
  by (auto simp: is_ok_iff bind_result_Inr_iff)

lemma replay_extend:
  "replay step rs init = Inr s \<Longrightarrow> is_ok (replay step (rs @ [r]) init) \<longleftrightarrow> is_ok (step r s)"
  by (auto simp: is_ok_iff bind_result_Inr_iff)

end

section \<open>Accumulators whose result does not depend on the order of their inputs\<close>

text \<open>
  \<open>step x s\<close> folds one input into a state and \<open>view\<close> is the part of the state that must not
  depend on the order inputs arrive in (goroutines report in whatever order they are run). The
  contract is that steps commute under the view.
\<close>

locale order_free =
  fixes step :: "'x \<Rightarrow> 's \<Rightarrow> 's" and view :: "'s \<Rightarrow> 'v"
  assumes view_step: "view s = view t \<Longrightarrow> view (step x s) = view (step x t)"
    and step_commute: "view (step x (step y s)) = view (step y (step x s))"
begin

lemma view_fold: "view s = view t \<Longrightarrow> view (fold step xs s) = view (fold step xs t)"
proof (induction xs arbitrary: s t)
  case (Cons x xs)
  from Cons.prems have "view (step x s) = view (step x t)" by (rule view_step)
  then have "view (fold step xs (step x s)) = view (fold step xs (step x t))" by (rule Cons.IH)
  then show ?case by simp
qed simp

lemma view_fold_step: "view (fold step xs (step x s)) = view (step x (fold step xs s))"
proof (induction xs arbitrary: s)
  case (Cons y xs)
  have "view (fold step xs (step y (step x s))) = view (fold step xs (step x (step y s)))"
    by (rule view_fold) (rule step_commute)
  with Cons.IH show ?case by simp
qed simp

lemma view_fold_mset: "mset xs = mset ys \<Longrightarrow> view (fold step xs s) = view (fold step ys s)"
proof (induction xs arbitrary: ys s)
  case (Cons x xs)
  then have "x \<in> set ys" by (metis list.set_intros(1) set_mset_mset)
  then obtain us vs where ys: "ys = us @ x # vs" by (meson split_list)
  with Cons.prems have "mset xs = mset (us @ vs)" by simp
  then have "view (fold step xs (step x s)) = view (fold step (us @ vs) (step x s))"
    by (rule Cons.IH)
  also have "\<dots> = view (fold step vs (fold step us (step x s)))" by simp
  also have "\<dots> = view (fold step vs (step x (fold step us s)))"
    by (rule view_fold) (rule view_fold_step)
  finally show ?case by (simp add: ys)
qed simp

end

end
