(* ===== verification/Float64.thy ===== *)
theory Float64
  imports Prelude "HOL-Library.Log_Nat"
begin

text \<open>
  Go's \<open>float64\<close>, as far as the program uses it: money crosses the boundaries of
  internal/budget as a \<open>float64\<close> number of dollars and is held inside as an \<open>int64\<close> number
  of micro-dollars. A finite value is the rational it stands for; every arithmetic operation
  rounds its exact result to 53 significant bits, ties to even, with gradual underflow and
  overflow to infinity (IEEE 754 binary64, the language's definition). The two signed zeros
  are one value here: no operation the program applies tells them apart.
\<close>

datatype float64 = Fin rat | PInf | NInf | NaN

fun is_finite :: "float64 \<Rightarrow> bool" where
  "is_finite (Fin _) = True"
| "is_finite _ = False"

section \<open>Rounding to 53 bits\<close>

definition pow2 :: "int \<Rightarrow> rat" where
  "pow2 e = (if 0 \<le> e then 2 ^ nat e else 1 / 2 ^ nat (- e))"

text \<open>The exponent of the leading bit of a positive rational, from the bit lengths of its
  numerator and denominator.\<close>

definition expo :: "rat \<Rightarrow> int" where
  "expo q = (let (n, d) = quotient_of q; e = int (floorlog 2 (nat n)) - int (floorlog 2 (nat d))
             in if q < pow2 e then e - 1 else e)"

definition roundHalfEven :: "rat \<Rightarrow> int" where
  "roundHalfEven q = (let f = \<lfloor>q\<rfloor>; d = q - of_int f in
     if d < 1/2 then f else if 1/2 < d then f + 1 else if even f then f else f + 1)"

definition ulp :: "rat \<Rightarrow> rat" where
  "ulp a = pow2 (max (expo a) (- 1022) - 52)"

definition round53 :: "rat \<Rightarrow> rat" where
  "round53 a = of_int (roundHalfEven (a / ulp a)) * ulp a"

text \<open>\<open>fl q\<close> is the \<open>float64\<close> nearest to the exact result \<open>q\<close>.\<close>

definition fl :: "rat \<Rightarrow> float64" where
  "fl q = (if q = 0 then Fin 0
           else let r = round53 \<bar>q\<bar> in
             if pow2 1024 \<le> r then (if 0 < q then PInf else NInf) else Fin (sgn q * r))"

text \<open>\<open>math.Round\<close>: the nearest integer, halves away from zero.\<close>

definition roundAway :: "rat \<Rightarrow> int" where
  "roundAway q = (if 0 \<le> q then \<lfloor>q + 1/2\<rfloor> else - \<lfloor>1/2 - q\<rfloor>)"

text \<open>The conversion \<open>int64(x)\<close> truncates. Outside the range the language leaves the result
  to the implementation; the value below is the one amd64 gives.\<close>

definition int64_of_int :: "int \<Rightarrow> int" where
  "int64_of_int n = (if in64 n then n else - (2 ^ 63))"

lemma int64_of_int_in64 [simp]: "in64 (int64_of_int n)"
  by (simp add: int64_of_int_def in64_def)

lemma int64_of_int_id [simp]: "in64 n \<Longrightarrow> int64_of_int n = n"
  by (simp add: int64_of_int_def)

section \<open>The rounding error\<close>

lemma pow2_pos [simp]: "0 < pow2 e"
  by (simp add: pow2_def)

lemma pow2_nonzero [simp]: "pow2 e \<noteq> 0"
  using pow2_pos [of e] by linarith

lemma pow2_0 [simp]: "pow2 0 = 1"
  by (simp add: pow2_def)

lemma pow2_Suc: "pow2 (e + 1) = 2 * pow2 e"
proof (cases "0 \<le> e")
  case True
  then show ?thesis by (simp add: pow2_def nat_add_distrib)
next
  case False
  show ?thesis
  proof (cases "e = -1")
    case True then show ?thesis by (simp add: pow2_def)
  next
    case neq: False
    with False have e: "nat (- e) = Suc (nat (- (e + 1)))" by simp
    with False neq show ?thesis by (simp add: pow2_def)
  qed
qed

lemma pow2_add_nat: "pow2 (e + int n) = 2 ^ n * pow2 e"
proof (induction n)
  case (Suc n)
  have "pow2 (e + int (Suc n)) = pow2 ((e + int n) + 1)" by (simp add: algebra_simps)
  then show ?case by (simp add: pow2_Suc Suc.IH)
qed simp

lemma pow2_diff_nat: "pow2 (e - int n) = pow2 e / 2 ^ n"
  using pow2_add_nat [of "e - int n" n] by (simp add: field_simps)

lemma pow2_mono: "a \<le> b \<Longrightarrow> pow2 a \<le> pow2 b"
proof -
  assume "a \<le> b"
  then obtain n where "b = a + int n" by (metis zle_iff_zadd)
  moreover have "1 * pow2 a \<le> 2 ^ n * pow2 a"
    by (rule mult_right_mono) (simp_all add: less_imp_le)
  ultimately show ?thesis by (simp add: pow2_add_nat)
qed

lemma roundHalfEven_error: "\<bar>of_int (roundHalfEven q) - q\<bar> \<le> 1/2"
proof -
  have "of_int \<lfloor>q\<rfloor> \<le> q" "q < of_int \<lfloor>q\<rfloor> + 1" by linarith+
  then show ?thesis by (auto simp: roundHalfEven_def Let_def abs_le_iff)
qed

lemma roundHalfEven_int [simp]: "roundHalfEven (of_int n) = n"
  by (simp add: roundHalfEven_def)

lemma round53_error: "\<bar>round53 a - a\<bar> \<le> ulp a / 2"
proof -
  have u: "0 < ulp a" by (simp add: ulp_def)
  have "round53 a - a = (of_int (roundHalfEven (a / ulp a)) - a / ulp a) * ulp a"
    using u by (simp add: round53_def field_simps)
  then have "\<bar>round53 a - a\<bar> = \<bar>of_int (roundHalfEven (a / ulp a)) - a / ulp a\<bar> * ulp a"
    using u by (simp add: abs_mult)
  also have "\<dots> \<le> 1/2 * ulp a"
    using roundHalfEven_error [of "a / ulp a"] u by (intro mult_right_mono) simp_all
  finally show ?thesis by simp
qed

lemma expo_le: assumes "0 < q" shows "pow2 (expo q) \<le> q"
proof -
  obtain n d where nd: "quotient_of q = (n, d)" by force
  then have d: "0 < d" and q: "q = of_int n / of_int d"
    using quotient_of_denom_pos quotient_of_div by blast+
  with assms have n: "0 < n" by (simp add: zero_less_divide_iff)
  let ?e = "int (floorlog 2 (nat n)) - int (floorlog 2 (nat d))"
  have ln: "2 ^ (floorlog 2 (nat n) - 1) \<le> nat n"
    using n by (intro floorlog_bounds [THEN conjunct1]) simp_all
  have ld: "nat d < 2 ^ floorlog 2 (nat d)"
    using d by (intro floorlog_bounds [THEN conjunct2]) simp_all
  have gn: "0 < floorlog 2 (nat n)" using n by (simp add: floorlog_def)
  have "pow2 (?e - 1) \<le> q"
  proof -
    have "pow2 (?e - 1) = pow2 (int (floorlog 2 (nat n) - 1) - int (floorlog 2 (nat d)))"
      using gn by (simp add: algebra_simps of_nat_diff)
    also have "\<dots> = 2 ^ (floorlog 2 (nat n) - 1) / 2 ^ floorlog 2 (nat d)"
      unfolding pow2_diff_nat by (simp add: pow2_def)
    also have "\<dots> \<le> of_int n / of_int d"
    proof (rule frac_le)
      show "(2::rat) ^ (floorlog 2 (nat n) - 1) \<le> of_int n"
        using ln n by (metis of_nat_le_iff of_nat_numeral of_nat_power of_int_of_nat_eq int_nat_eq less_imp_le)
      show "of_int d \<le> (2::rat) ^ floorlog 2 (nat d)"
        using ld d by (metis of_nat_le_iff of_nat_numeral of_nat_power of_int_of_nat_eq int_nat_eq less_imp_le)
    qed (use n d in simp_all)
    finally show ?thesis by (simp add: q)
  qed
  then show ?thesis by (auto simp: expo_def nd Let_def)
qed

lemma ulp_le: assumes "pow2 (- 1022) \<le> a" shows "ulp a \<le> a / 2 ^ 52"
proof -
  have a: "0 < a" using assms pow2_pos [of "- 1022"] by linarith
  have "pow2 (max (expo a) (- 1022)) \<le> a"
    using expo_le [OF a] assms by (simp add: max_def)
  moreover have "ulp a = pow2 (max (expo a) (- 1022)) / 2 ^ 52"
    unfolding ulp_def using pow2_diff_nat [of "max (expo a) (- 1022)" 52] by simp
  ultimately show ?thesis by (simp add: divide_right_mono)
qed

text \<open>In the normal range one rounding changes a value by at most one part in \<open>2 ^ 53\<close>.\<close>

lemma round53_relative:
  assumes "pow2 (- 1022) \<le> a" shows "\<bar>round53 a - a\<bar> \<le> a / 2 ^ 53"
  using round53_error [of a] ulp_le [OF assms] by (simp add: field_simps)

text \<open>\<open>in_range a\<close>: positive, normal, and far from overflow.\<close>

definition in_range :: "rat \<Rightarrow> bool" where
  "in_range a \<longleftrightarrow> pow2 (- 1022) \<le> a \<and> a \<le> pow2 1023"

lemma fl_pos:
  assumes "in_range a" shows "\<exists>r. fl a = Fin r \<and> \<bar>r - a\<bar> \<le> a / 2 ^ 53"
proof -
  have a: "0 < a" using assms pow2_pos [of "- 1022"] unfolding in_range_def by linarith
  have err: "\<bar>round53 a - a\<bar> \<le> a / 2 ^ 53"
    using assms unfolding in_range_def by (intro round53_relative) simp
  have "round53 a \<le> a + a / 2 ^ 53" using err by linarith
  also have "\<dots> < 2 * a" using a by simp
  also have "\<dots> \<le> 2 * pow2 1023" using assms by (simp add: in_range_def)
  also have "\<dots> = pow2 1024" using pow2_Suc [of 1023] by simp
  finally have "\<not> pow2 1024 \<le> round53 a" by simp
  then show ?thesis using a err by (simp add: fl_def Let_def)
qed

lemma relative_bounds:
  "\<bar>r - a\<bar> \<le> a / 2 ^ 53 \<Longrightarrow> a - a / 2 ^ 53 \<le> r \<and> r \<le> a + (a / 2 ^ 53 :: rat)"
  by (simp only: abs_le_iff) linarith

lemma fl_neg: "fl (- q) = (case fl q of Fin x \<Rightarrow> Fin (- x) | PInf \<Rightarrow> NInf | NInf \<Rightarrow> PInf | NaN \<Rightarrow> NaN)"
  by (simp add: fl_def Let_def sgn_if)

lemma fl_0 [simp]: "fl 0 = Fin 0"
  by (simp add: fl_def)

lemma roundAway_near: "\<bar>q - of_int n\<bar> < 1/2 \<Longrightarrow> roundAway q = n"
proof -
  assume h: "\<bar>q - of_int n\<bar> < 1/2"
  show ?thesis
  proof (cases "0 \<le> q")
    case True
    have "\<lfloor>q + 1/2\<rfloor> = n" by (rule floor_unique) (use h in linarith)+
    with True show ?thesis by (simp add: roundAway_def)
  next
    case False
    have "\<lfloor>1/2 - q\<rfloor> = - n" by (rule floor_unique) (use h in \<open>simp; linarith\<close>)+
    with False show ?thesis by (simp add: roundAway_def)
  qed
qed

lemma floor_half: "\<lfloor>1 / 2 :: rat\<rfloor> = 0"
  by (rule floor_unique) simp_all

lemma roundAway_neg: "roundAway (- q) = - roundAway q"
  by (cases "q = 0") (auto simp: roundAway_def algebra_simps floor_half)

lemma roundAway_0 [simp]: "roundAway 0 = 0"
  by (simp add: roundAway_def floor_half)

end
