(* ===== verification/Belay.thy ===== *)
theory Belay
  imports Float64
begin

text \<open>
  The contract types of pkg/belay that the rest of the program exchanges: the usage one agent
  call reports (agent.go), the budget error (errors.go), and the severity order, gate verdict
  and quality report of quality.go.
\<close>

section \<open>Usage and the budget error\<close>

record usage =
  InputTokens :: int
  OutputTokens :: int
  USD :: float64
  Estimated :: bool

definition zeroUsage :: usage where
  "zeroUsage = \<lparr>InputTokens = 0, OutputTokens = 0, USD = Fin 0, Estimated = False\<rparr>"

record BudgetError =
  SpentUSD :: float64
  LimitUSD :: float64

section \<open>Severity\<close>

text \<open>A \<open>Severity\<close> is a Go \<open>int\<close>: the five declared values are ordered as numbers, and a
  value outside them can exist, so it is modelled as the number it is.\<close>

type_synonym Severity = int

definition SeverityInfo :: Severity where "SeverityInfo = 0"
definition SeverityMinor :: Severity where "SeverityMinor = 1"
definition SeverityMajor :: Severity where "SeverityMajor = 2"
definition SeverityCritical :: Severity where "SeverityCritical = 3"
definition SeverityBlocker :: Severity where "SeverityBlocker = 4"

lemmas severity_defs =
  SeverityInfo_def SeverityMinor_def SeverityMajor_def SeverityCritical_def SeverityBlocker_def

definition severityNames :: "string list" where
  "severityNames = [''info'', ''minor'', ''major'', ''critical'', ''blocker'']"

definition Severity_valid :: "Severity \<Rightarrow> bool" where
  "Severity_valid s \<longleftrightarrow> 0 \<le> s \<and> s < int (length severityNames)"

text \<open>The text codec of a named value: \<open>Some\<close> is the spelling, \<open>None\<close> the error for a value
  without one; parsing scans the table in order for an exact match.\<close>

fun index_of :: "string list \<Rightarrow> string \<Rightarrow> nat option" where
  "index_of [] x = None"
| "index_of (n # ns) x = (if n = x then Some 0 else map_option Suc (index_of ns x))"

definition Severity_MarshalText :: "Severity \<Rightarrow> string option" where
  "Severity_MarshalText s = (if Severity_valid s then Some (severityNames ! nat s) else None)"

text \<open>\<open>strings.TrimSpace\<close> on the UTF-8 bytes of a string: every encoding of a Unicode space is
  dropped from both ends. UTF-8 is self-synchronising, so matching the encodings at the ends of the
  byte string finds the runes the code decodes.\<close>

definition space_runes :: "string list" where
  "space_runes =
     [[CHR 0x09], [CHR 0x0A], [CHR 0x0B], [CHR 0x0C], [CHR 0x0D], [CHR 0x20], [CHR 0xC2, CHR 0x85], [CHR 0xC2, CHR 0xA0],
      [CHR 0xE1, CHR 0x9A, CHR 0x80], [CHR 0xE2, CHR 0x80, CHR 0x80], [CHR 0xE2, CHR 0x80, CHR 0x81], [CHR 0xE2, CHR 0x80, CHR 0x82], [CHR 0xE2, CHR 0x80, CHR 0x83],
      [CHR 0xE2, CHR 0x80, CHR 0x84], [CHR 0xE2, CHR 0x80, CHR 0x85], [CHR 0xE2, CHR 0x80, CHR 0x86], [CHR 0xE2, CHR 0x80, CHR 0x87],
      [CHR 0xE2, CHR 0x80, CHR 0x88], [CHR 0xE2, CHR 0x80, CHR 0x89], [CHR 0xE2, CHR 0x80, CHR 0x8A],
      [CHR 0xE2, CHR 0x80, CHR 0xA8], [CHR 0xE2, CHR 0x80, CHR 0xA9], [CHR 0xE2, CHR 0x80, CHR 0xAF],
      [CHR 0xE2, CHR 0x81, CHR 0x9F], [CHR 0xE3, CHR 0x80, CHR 0x80]]"

text \<open>\<open>strip rs s\<close> drops leading members of \<open>rs\<close>, at most as often as the string is long.\<close>

fun strip_fuel :: "nat \<Rightarrow> string list \<Rightarrow> string \<Rightarrow> string" where
  "strip_fuel 0 rs s = s"
| "strip_fuel (Suc n) rs s =
     (case List.find (\<lambda>r. take (length r) s = r) rs of
        None \<Rightarrow> s
      | Some r \<Rightarrow> strip_fuel n rs (drop (length r) s))"

definition strip :: "string list \<Rightarrow> string \<Rightarrow> string" where
  "strip rs s = strip_fuel (length s) rs s"

definition TrimSpace :: "string \<Rightarrow> string" where
  "TrimSpace s = rev (strip (map rev space_runes) (rev (strip space_runes s)))"

text \<open>\<open>strings.ToLower\<close>, as far as the result is ASCII: the capital letters, and the two runes
  outside ASCII whose lower case is inside it (the Kelvin sign and the dotted capital I). Other
  bytes keep a value outside ASCII, which no spelling in the tables has.\<close>

definition lower_char :: "char \<Rightarrow> char" where
  "lower_char c = (let n = of_char c :: nat in if 65 \<le> n \<and> n \<le> 90 then char_of (n + 32) else c)"

fun ToLower :: "string \<Rightarrow> string" where
  "ToLower [] = []"
| "ToLower (c # cs) =
     (if take 3 (c # cs) = [CHR 0xE2, CHR 0x84, CHR 0xAA] then CHR ''k'' # ToLower (drop 2 cs)
      else if take 2 (c # cs) = [CHR 0xC4, CHR 0xB0] then CHR ''i'' # ToLower (drop 1 cs)
      else lower_char c # ToLower cs)"

definition ParseSeverity :: "string \<Rightarrow> Severity option" where
  "ParseSeverity s = map_option int (index_of severityNames (ToLower (TrimSpace s)))"

section \<open>Gate verdicts, counts and reports\<close>

datatype GateStatus = GateUnknown | GatePass | GateFail | GateError | GateStatus_other int

record Counts =
  Blocker :: int
  Critical :: int
  Major :: int
  Minor :: int
  Info :: int

definition zeroCounts :: Counts where
  "zeroCounts = \<lparr>Blocker = 0, Critical = 0, Major = 0, Minor = 0, Info = 0\<rparr>"

definition Counts_Total :: "Counts \<Rightarrow> int" where
  "Counts_Total c = wrap64 (Blocker c + Critical c + Major c + Minor c + Info c)"

definition Counts_AtOrAbove :: "Counts \<Rightarrow> Severity \<Rightarrow> int" where
  "Counts_AtOrAbove c threshold = wrap64
     ((if threshold \<le> SeverityBlocker then Blocker c else 0) +
      (if threshold \<le> SeverityCritical then Critical c else 0) +
      (if threshold \<le> SeverityMajor then Major c else 0) +
      (if threshold \<le> SeverityMinor then Minor c else 0) +
      (if threshold \<le> SeverityInfo then Info c else 0))"

record Issue =
  RuleID :: string
  Issue_Severity :: Severity
  File :: string
  Line :: int
  Message :: string

record QualityReport =
  Source :: string
  Gate :: GateStatus
  Report_Counts :: Counts
  Issues :: "Issue list"
  Summary :: string

text \<open>\<open>Counts\<close> is documented as the histogram of the issues; \<open>histogram\<close> is that abstract
  reading, and \<open>AtOrAbove\<close> of it counts the issues at or above the threshold.\<close>

definition count_severity :: "Issue list \<Rightarrow> Severity \<Rightarrow> int" where
  "count_severity is s = int (length (filter (\<lambda>i. Issue_Severity i = s) is))"

definition histogram :: "Issue list \<Rightarrow> Counts" where
  "histogram is = \<lparr>Blocker = count_severity is SeverityBlocker,
     Critical = count_severity is SeverityCritical, Major = count_severity is SeverityMajor,
     Minor = count_severity is SeverityMinor, Info = count_severity is SeverityInfo\<rparr>"

lemma count_severity_simps [simp]:
  "count_severity [] s = 0"
  "count_severity (i # is) s = (if Issue_Severity i = s then 1 else 0) + count_severity is s"
  by (simp_all add: count_severity_def)

lemma count_severity_nonneg [simp]: "0 \<le> count_severity is s"
  by (simp add: count_severity_def)

definition at_or_above :: "Issue list \<Rightarrow> Severity \<Rightarrow> int" where
  "at_or_above is t = int (length (filter (\<lambda>i. t \<le> Issue_Severity i) is))"

lemma at_or_above_histogram:
  assumes "\<forall>i \<in> set is. Severity_valid (Issue_Severity i)"
  shows "at_or_above is t =
    (if t \<le> SeverityBlocker then count_severity is SeverityBlocker else 0) +
    (if t \<le> SeverityCritical then count_severity is SeverityCritical else 0) +
    (if t \<le> SeverityMajor then count_severity is SeverityMajor else 0) +
    (if t \<le> SeverityMinor then count_severity is SeverityMinor else 0) +
    (if t \<le> SeverityInfo then count_severity is SeverityInfo else 0)"
  using assms
proof (induction "is")
  case (Cons i "is")
  then have v: "Severity_valid (Issue_Severity i)"
    and IH: "at_or_above is t = (if t \<le> SeverityBlocker then count_severity is SeverityBlocker else 0) +
    (if t \<le> SeverityCritical then count_severity is SeverityCritical else 0) +
    (if t \<le> SeverityMajor then count_severity is SeverityMajor else 0) +
    (if t \<le> SeverityMinor then count_severity is SeverityMinor else 0) +
    (if t \<le> SeverityInfo then count_severity is SeverityInfo else 0)" by simp_all
  have "at_or_above (i # is) t = (if t \<le> Issue_Severity i then 1 else 0) + at_or_above is t"
    by (simp add: at_or_above_def)
  moreover have "Issue_Severity i \<in> {0, 1, 2, 3, 4}"
    using v by (auto simp: Severity_valid_def severityNames_def)
  ultimately show ?case unfolding IH
    by (auto simp: severity_defs)
qed (simp add: at_or_above_def)

lemma index_of_nth: "distinct ns \<Longrightarrow> i < length ns \<Longrightarrow> index_of ns (ns ! i) = Some i"
proof (induction ns arbitrary: i)
  case (Cons n ns)
  then show ?case by (cases i) auto
qed simp

lemma index_of_Some: "index_of ns x = Some i \<Longrightarrow> i < length ns \<and> ns ! i = x"
  by (induction ns arbitrary: i) (auto split: if_splits)

end
