(* ===== verification/Ndjson.thy ===== *)
theory Ndjson
  imports Prelude "HOL-Library.Sublist"
begin

text \<open>
  internal/ndjson: the byte-level discipline of the append-only logs. A file is the byte string
  it holds (one \<open>char\<close> per byte), or \<open>None\<close> when nothing is at its path. What a line means is
  the caller's: \<open>Scan\<close> takes the caller's decoder, which accumulates a state and answers
  \<open>None\<close> for a line it rejects.
\<close>

type_synonym bytes = string

type_synonym disk = "bytes option"

definition newline :: char where "newline = CHR 0x0A"

definition MaxLineBytes :: nat where "MaxLineBytes = 8 * 1024 * 1024"

section \<open>Reading\<close>

text \<open>\<open>bufio.ScanLines\<close>: lines end at a newline, the last one at the end of the data unless it is
  empty, and one trailing carriage return is dropped from each.\<close>

function raw_lines :: "bytes \<Rightarrow> bytes list" where
  "raw_lines bs =
     (if bs = [] then []
      else case dropWhile (\<lambda>c. c \<noteq> newline) bs of
        [] \<Rightarrow> [bs]
      | _ # rest \<Rightarrow> takeWhile (\<lambda>c. c \<noteq> newline) bs # raw_lines rest)"
  by pat_completeness auto
termination
proof (relation "measure length")
  fix bs x rest
  assume "dropWhile (\<lambda>c. c \<noteq> newline) bs = x # rest"
  then show "(rest, bs) \<in> measure length"
    using length_dropWhile_le [of "\<lambda>c. c \<noteq> newline" bs] by simp
qed simp

declare raw_lines.simps [simp del]

definition drop_cr :: "bytes \<Rightarrow> bytes" where
  "drop_cr l = (if l \<noteq> [] \<and> last l = CHR 0x0D then butlast l else l)"

datatype scan_error = LineError nat | ErrTooLong

text \<open>The loop of \<open>Scan\<close>: \<open>n\<close> lines have been read, and \<open>pending\<close> says whether the one before was
  rejected. The scanner gives up on a line that does not fit its buffer.\<close>

fun scan_loop :: "(bytes \<Rightarrow> 's \<Rightarrow> 's option) \<Rightarrow> bytes list \<Rightarrow> nat \<Rightarrow> bool \<Rightarrow> 's \<Rightarrow> 's \<times> (scan_error, bool) result" where
  "scan_loop each [] n pending s = (s, Inr pending)"
| "scan_loop each (l # ls) n pending s =
     (if MaxLineBytes \<le> length l then (s, Inl ErrTooLong)
      else if pending then (s, Inl (LineError n))
      else case each (drop_cr l) s of
        None \<Rightarrow> scan_loop each ls (Suc n) True s
      | Some s' \<Rightarrow> scan_loop each ls (Suc n) False s')"

definition Scan :: "bytes \<Rightarrow> (bytes \<Rightarrow> 's \<Rightarrow> 's option) \<Rightarrow> 's \<Rightarrow> 's \<times> (scan_error, bool) result" where
  "Scan r each s = scan_loop each (raw_lines r) 0 False s"

section \<open>Writing\<close>

definition terminated :: "bytes \<Rightarrow> bytes" where
  "terminated line = line @ [newline]"

text \<open>An append that fails, or whose process dies inside it, leaves some prefix of the bytes it
  was writing past the old end of the file: \<open>wrote\<close> says how many, \<open>None\<close> that the write and the
  fsync both succeeded. The answer says whether the append reported success.\<close>

definition AppendLine :: "nat option \<Rightarrow> bytes \<Rightarrow> bytes \<Rightarrow> bytes \<times> bool" where
  "AppendLine wrote f line =
     (case wrote of
        None \<Rightarrow> (f @ terminated line, True)
      | Some k \<Rightarrow> (f @ take k (terminated line), False))"

definition clean :: "bytes list \<Rightarrow> bytes" where
  "clean lines = concat (map terminated lines)"

text \<open>The temporary file is installed by one rename, so every failure before it, a crash included,
  leaves the file as it was.\<close>

definition RewriteClean :: "bool \<Rightarrow> disk \<Rightarrow> bytes list \<Rightarrow> disk \<times> bool" where
  "RewriteClean ok f lines = (if ok then (Some (clean lines), True) else (f, False))"

definition EnsureTrailingNewline :: "nat option \<Rightarrow> disk \<Rightarrow> disk \<times> bool" where
  "EnsureTrailingNewline wrote f =
     (case f of
        None \<Rightarrow> (None, True)
      | Some bs \<Rightarrow>
          if bs = [] \<or> last bs = newline then (f, True)
          else case wrote of
            None \<Rightarrow> (Some (bs @ [newline]), True)
          | Some k \<Rightarrow> (Some (bs @ take k [newline]), False))"

datatype create_error = ErrExists | CreateFailed

text \<open>\<open>CreateNew\<close> links a complete temporary file to the path, which fails when anything is there.
  \<open>ok\<close> is whether the temporary file was written and the link made for any other reason;
  \<open>synced\<close> whether the directory was fsynced after it.\<close>

definition CreateNew :: "bool \<Rightarrow> bool \<Rightarrow> disk \<Rightarrow> bytes list \<Rightarrow> disk \<times> (create_error, unit) result" where
  "CreateNew ok synced f lines =
     (if \<not> ok then (f, Inl CreateFailed)
      else case f of
        Some _ \<Rightarrow> (f, Inl ErrExists)
      | None \<Rightarrow> (Some (clean lines), if synced then Inr () else Inl CreateFailed))"

section \<open>Lines\<close>

lemma raw_lines_Nil [simp]: "raw_lines [] = []"
  by (simp add: raw_lines.simps)

lemma raw_lines_terminated:
  assumes "newline \<notin> set l" shows "raw_lines (terminated l @ bs) = l # raw_lines bs"
proof -
  have a: "\<forall>x \<in> set l. x \<noteq> newline" using assms by blast
  then have "dropWhile (\<lambda>c. c \<noteq> newline) (l @ newline # bs) = newline # bs"
    "takeWhile (\<lambda>c. c \<noteq> newline) (l @ newline # bs) = l"
    by (simp_all add: dropWhile_append2 takeWhile_append2)
  then show ?thesis by (subst raw_lines.simps) (simp add: terminated_def)
qed

lemma raw_lines_last: "newline \<notin> set l \<Longrightarrow> raw_lines l = (if l = [] then [] else [l])"
proof -
  assume a: "newline \<notin> set l"
  then have "\<forall>x \<in> set l. x \<noteq> newline" by blast
  then have d: "dropWhile (\<lambda>c. c \<noteq> newline) l = []" by (simp add: dropWhile_eq_Nil_conv)
  show ?thesis by (subst raw_lines.simps) (simp only: d list.case)
qed

lemma clean_simps [simp]: "clean [] = []" "clean (l # ls) = terminated l @ clean ls"
  "clean (ls @ ms) = clean ls @ clean ms"
  by (simp_all add: clean_def)

lemma raw_lines_clean:
  "\<forall>l \<in> set ls. newline \<notin> set l \<Longrightarrow> raw_lines (clean ls @ bs) = ls @ raw_lines bs"
  by (induction ls) (auto simp: raw_lines_terminated)

lemma clean_last: "ls \<noteq> [] \<Longrightarrow> clean ls \<noteq> [] \<and> last (clean ls) = newline"
  by (induction ls rule: rev_induct) (auto simp: terminated_def)

lemma EnsureTrailingNewline_clean [simp]: "EnsureTrailingNewline w (Some (clean ls)) = (Some (clean ls), True)"
  using clean_last [of ls] by (cases "ls = []") (auto simp: EnsureTrailingNewline_def)

text \<open>A line that a record can be written as: it fits the reader's buffer and survives its
  splitting unchanged.\<close>

definition plain_line :: "bytes \<Rightarrow> bool" where
  "plain_line l \<longleftrightarrow> l \<noteq> [] \<and> newline \<notin> set l \<and> CHR 0x0D \<notin> set l \<and> length l < MaxLineBytes"

lemma plain_line_prefix: "plain_line l \<Longrightarrow> prefix p l \<Longrightarrow> p \<noteq> [] \<Longrightarrow> plain_line p"
  by (auto simp: plain_line_def prefix_def)

lemma drop_cr_plain [simp]: "plain_line l \<Longrightarrow> drop_cr l = l"
  by (auto simp: drop_cr_def plain_line_def dest: last_in_set)

text \<open>Reading a run of lines the decoder accepts is folding it over them.\<close>

primrec decode_all :: "(bytes \<Rightarrow> 's \<Rightarrow> 's option) \<Rightarrow> bytes list \<Rightarrow> 's \<Rightarrow> 's option" where
  "decode_all each [] s = Some s"
| "decode_all each (l # ls) s = (case each l s of None \<Rightarrow> None | Some t \<Rightarrow> decode_all each ls t)"

lemma scan_loop_accepted:
  "\<forall>l \<in> set ls. plain_line l \<Longrightarrow> decode_all each ls s = Some t \<Longrightarrow>
   scan_loop each (ls @ ms) n False s = scan_loop each ms (n + length ls) False t"
proof (induction ls arbitrary: n s)
  case (Cons l ls)
  then obtain u where "each l s = Some u" "decode_all each ls u = Some t"
    by (auto split: option.splits)
  with Cons show ?case by (simp add: plain_line_def)
qed simp

text \<open>
  The one damaged shape. After a clean file of accepted lines and a prefix of one more line's bytes,
  \<open>Scan\<close> reports exactly the lines before it, incomplete when the prefix is a proper non-empty one
  that does not decode, and the last line as well when only its delimiter can be missing.
\<close>

lemma Scan_torn:
  assumes ls: "\<forall>l \<in> set ls. plain_line l" "decode_all each ls s = Some t"
    and l: "plain_line l" "each l t = Some u"
    and torn: "\<forall>p. strict_prefix p l \<and> p \<noteq> [] \<longrightarrow> each p t = None"
  shows "Scan (clean ls @ take k (terminated l)) each s =
    (if k = 0 then (t, Inr False) else if k < length l then (t, Inr True) else (u, Inr False))"
proof -
  let ?p = "take k (terminated l)"
  have "\<forall>l \<in> set ls. newline \<notin> set l" using ls(1) by (auto simp: plain_line_def)
  then have "Scan (clean ls @ ?p) each s = scan_loop each (ls @ raw_lines ?p) 0 False s"
    by (simp add: Scan_def raw_lines_clean)
  also have "\<dots> = scan_loop each (raw_lines ?p) (length ls) False t"
    using scan_loop_accepted [OF ls, of "raw_lines ?p" 0] by simp
  also have "\<dots> = (if k = 0 then (t, Inr False) else if k < length l then (t, Inr True) else (u, Inr False))"
  proof (cases "k \<le> length l")
    case True
    then have p: "?p = take k l" by (simp add: terminated_def)
    have nl: "newline \<notin> set (take k l)" using l(1) by (auto simp: plain_line_def dest: in_set_takeD)
    show ?thesis
    proof (cases "k = 0")
      case False
      have ne: "take k l \<noteq> []" using False l(1) by (simp add: plain_line_def)
      then have pl: "plain_line (take k l)" using plain_line_prefix [OF l(1) take_is_prefix] by blast
      define q where "q = take k l"
      have "each (take k l) t = (if k < length l then None else Some u)"
        using torn l(2) True False ne by (auto simp: strict_prefix_def take_is_prefix)
      then have q: "plain_line q" "length q < MaxLineBytes" "each q t = (if k < length l then None else Some u)"
        using pl unfolding q_def [symmetric] by (simp_all add: plain_line_def)
      then have "scan_loop each [q] (length ls) False t =
          (if k < length l then (t, Inr True) else (u, Inr False))"
        by simp
      then show ?thesis using False ne by (simp add: p raw_lines_last [OF nl] q_def)
    qed simp
  next
    case False
    then have "?p = terminated l" by (simp add: terminated_def)
    moreover have "raw_lines (terminated l) = [l]"
      using raw_lines_terminated [of l "[]"] l(1) by (simp add: plain_line_def)
    ultimately show ?thesis using False l by (simp add: plain_line_def)
  qed
  finally show ?thesis .
qed

section \<open>Logs of encoded records\<close>

text \<open>A log of records is read by decoding each line and collecting the records, and rewritten by
  encoding each. The encoding of one record is the caller's.\<close>

definition read_each :: "(bytes \<Rightarrow> 'r option) \<Rightarrow> bytes \<Rightarrow> 'r list \<Rightarrow> 'r list option" where
  "read_each unmarshal line rs = map_option (\<lambda>r. rs @ [r]) (unmarshal line)"

fun encode_lines :: "('r \<Rightarrow> bytes option) \<Rightarrow> 'r list \<Rightarrow> bytes list option" where
  "encode_lines marshal [] = Some []"
| "encode_lines marshal (r # rs) =
     (case marshal r of None \<Rightarrow> None | Some l \<Rightarrow> map_option ((#) l) (encode_lines marshal rs))"

text \<open>What the code relies on of encoding/json for a record it writes: the record has an encoding,
  which holds no line break, fits the reader's buffer and decodes to the record again, and no proper
  non-empty prefix of it decodes (a JSON object ends with its closing brace).\<close>

definition writable :: "('r \<Rightarrow> bytes option) \<Rightarrow> (bytes \<Rightarrow> 'r option) \<Rightarrow> 'r \<Rightarrow> bool" where
  "writable marshal unmarshal r \<longleftrightarrow>
     (case marshal r of
        None \<Rightarrow> False
      | Some l \<Rightarrow> plain_line l \<and> unmarshal l = Some r \<and>
          (\<forall>p. strict_prefix p l \<and> p \<noteq> [] \<longrightarrow> unmarshal p = None))"

definition line_of :: "('r \<Rightarrow> bytes option) \<Rightarrow> 'r \<Rightarrow> bytes" where
  "line_of marshal r = the (marshal r)"

lemma writable_line:
  assumes "writable marshal unmarshal r"
  shows "marshal r = Some (line_of marshal r)" "plain_line (line_of marshal r)"
    "unmarshal (line_of marshal r) = Some r"
    "strict_prefix p (line_of marshal r) \<Longrightarrow> p \<noteq> [] \<Longrightarrow> unmarshal p = None"
  using assms by (auto simp: writable_def line_of_def split: option.splits)

text \<open>The file that holds a history and nothing else.\<close>

definition log_file :: "('r \<Rightarrow> bytes option) \<Rightarrow> 'r list \<Rightarrow> bytes" where
  "log_file marshal rs = clean (map (line_of marshal) rs)"

lemma log_file_snoc: "log_file marshal (rs @ [r]) = log_file marshal rs @ terminated (line_of marshal r)"
  by (simp add: log_file_def)

lemma decode_all_read:
  "\<forall>r \<in> set rs. writable marshal unmarshal r \<Longrightarrow>
   decode_all (read_each unmarshal) (map (line_of marshal) rs) acc = Some (acc @ rs)"
  by (induction rs arbitrary: acc) (auto simp: read_each_def writable_line(3))

lemma encode_all_read:
  "\<forall>r \<in> set rs. writable marshal unmarshal r \<Longrightarrow>
   encode_lines marshal rs = Some (map (line_of marshal) rs)"
  by (induction rs) (auto simp: writable_line(1))

text \<open>Reading a log whose last append was cut short after \<open>k\<close> of its bytes.\<close>

lemma Scan_log:
  assumes "\<forall>r \<in> set rs. writable marshal unmarshal r" "writable marshal unmarshal r"
  shows "Scan (log_file marshal rs @ take k (terminated (line_of marshal r))) (read_each unmarshal) [] =
    (if k < length (line_of marshal r) then (rs, Inr (0 < k)) else (rs @ [r], Inr False))"
proof -
  let ?l = "line_of marshal r"
  have "Scan (log_file marshal rs @ take k (terminated ?l)) (read_each unmarshal) [] =
    (if k = 0 then (rs, Inr False) else if k < length ?l then (rs, Inr True) else (rs @ [r], Inr False))"
    unfolding log_file_def
    by (rule Scan_torn) (use assms decode_all_read [of rs marshal unmarshal "[]"] in
      \<open>auto simp: writable_line read_each_def\<close>)
  moreover have "0 < length ?l" using writable_line(2) [OF assms(2)] by (simp add: plain_line_def)
  ultimately show ?thesis by auto
qed

lemma Scan_log_clean:
  "\<forall>r \<in> set rs. writable marshal unmarshal r \<Longrightarrow>
   Scan (log_file marshal rs) (read_each unmarshal) [] = (rs, Inr False)"
proof (cases rs rule: rev_cases)
  case (snoc rs' r)
  assume a: "\<forall>r \<in> set rs. writable marshal unmarshal r"
  have "take (Suc (length (line_of marshal r))) (terminated (line_of marshal r)) = terminated (line_of marshal r)"
    by (simp add: terminated_def)
  with Scan_log [of rs' marshal unmarshal r "Suc (length (line_of marshal r))"] a
  show ?thesis by (simp add: snoc log_file_snoc)
qed (simp add: log_file_def Scan_def)

end
