(* ===== verification/Journal.thy ===== *)
theory Journal
  imports Belay Ndjson
begin

text \<open>
  internal/journal: the run journal, the record of what a run did and the only source of the
  resume decision. record.go (events, statuses, the record and its validation), journal.go
  (\<open>Open\<close>, \<open>Append\<close>, \<open>Read\<close>, \<open>Validate\<close>, \<open>ResolveStart\<close>, \<open>Stats\<close>), visits.go and create.go. The JSON
  encoding of a record is encoding/json's and is a parameter: \<open>marshal\<close> gives the line of a record
  or fails, \<open>unmarshal\<close> reads one back.
\<close>

section \<open>Events and statuses\<close>

text \<open>A Go enumeration is an \<open>int\<close>; a number outside the declared constants is the last
  constructor.\<close>

datatype Event =
    EventUnknown | EventRunStarted | EventNodeStarted | EventNodeFinished | EventRunPaused
  | EventRunResumed | EventRunCompleted | EventRunFailed | EventRunAborted | Event_other int

definition Events :: "Event list" where
  "Events = [EventUnknown, EventRunStarted, EventNodeStarted, EventNodeFinished, EventRunPaused,
     EventRunResumed, EventRunCompleted, EventRunFailed, EventRunAborted]"

definition eventNames :: "string list" where
  "eventNames = [''unknown'', ''run_started'', ''node_started'', ''node_finished'', ''run_paused'',
     ''run_resumed'', ''run_completed'', ''run_failed'', ''run_aborted'']"

fun Event_valid :: "Event \<Rightarrow> bool" where
  "Event_valid (Event_other _) = False"
| "Event_valid _ = True"

definition nodeScoped :: "Event \<Rightarrow> bool" where
  "nodeScoped e \<longleftrightarrow> e = EventNodeStarted \<or> e = EventNodeFinished"

datatype Status = StatusUnknown | StatusOK | StatusFailed | StatusPaused | StatusAborted | Status_other int

definition Statuses :: "Status list" where
  "Statuses = [StatusUnknown, StatusOK, StatusFailed, StatusPaused, StatusAborted]"

definition statusNames :: "string list" where
  "statusNames = [''unknown'', ''ok'', ''failed'', ''paused'', ''aborted'']"

fun Status_valid :: "Status \<Rightarrow> bool" where
  "Status_valid (Status_other _) = False"
| "Status_valid _ = True"

text \<open>The name of a value is the table's entry at its number; \<open>None\<close> is the error of
  \<open>MarshalText\<close>. Parsing scans the table.\<close>

definition Event_MarshalText :: "Event \<Rightarrow> string option" where
  "Event_MarshalText e = map_option (nth eventNames) (List.find (\<lambda>i. Events ! i = e) [0..<length Events])"

definition ParseEvent :: "string \<Rightarrow> Event option" where
  "ParseEvent s = map_option (nth Events) (index_of eventNames s)"

definition Status_MarshalText :: "Status \<Rightarrow> string option" where
  "Status_MarshalText s = map_option (nth statusNames) (List.find (\<lambda>i. Statuses ! i = s) [0..<length Statuses])"

definition ParseStatus :: "string \<Rightarrow> Status option" where
  "ParseStatus s = map_option (nth Statuses) (index_of statusNames s)"

section \<open>Records\<close>

record JUsage =
  JInputTokens :: int
  JOutputTokens :: int
  JUSD :: float64
  JEstimated :: bool

text \<open>\<open>Seq\<close> is a \<open>uint64\<close> counter that gains one per fsynced line, so it is a natural number here
  (a file of \<open>2 ^ 64\<close> lines is out of reach). A \<open>Time\<close> is its distance from Go's zero time, so zero
  is \<open>IsZero\<close>; an absent usage is the nil pointer.\<close>

record JRecord =
  Seq :: nat
  Attempt :: int
  RNode :: string
  Event :: Event
  Time :: int
  DurationMS :: int
  Status :: Status
  Next :: string
  RUsage :: "JUsage option"
  Note :: string

definition Record0 :: JRecord where
  "Record0 = \<lparr>Seq = 0, Attempt = 0, RNode = [], Event = EventUnknown, Time = 0, DurationMS = 0,
     Status = StatusUnknown, Next = [], RUsage = None, Note = []\<rparr>"

definition Interrupted :: "JRecord \<Rightarrow> bool" where
  "Interrupted r \<longleftrightarrow> Event r = EventNodeFinished \<and> Status r = StatusAborted \<and> Next r \<noteq> [] \<and> Next r = RNode r"

datatype record_error =
    InvalidEvent | MissingNode | InvalidAttempt | StrayNode | MissingStatus | NegativeDuration
  | StrayStatus | UsageNotFinite | NegativeTokens

definition Record_validate :: "JRecord \<Rightarrow> (record_error, unit) result" where
  "Record_validate r =
     (if \<not> Event_valid (Event r) \<or> Event r = EventUnknown then Inl InvalidEvent
      else if nodeScoped (Event r) \<and> TrimSpace (RNode r) = [] then Inl MissingNode
      else if nodeScoped (Event r) \<and> Attempt r < 1 then Inl InvalidAttempt
      else if \<not> nodeScoped (Event r) \<and> RNode r \<noteq> [] then Inl StrayNode
      else if Event r = EventNodeFinished \<and> (\<not> Status_valid (Status r) \<or> Status r = StatusUnknown)
      then Inl MissingStatus
      else if Event r = EventNodeFinished \<and> DurationMS r < 0 then Inl NegativeDuration
      else if Event r \<noteq> EventNodeFinished \<and> Status r \<noteq> StatusUnknown then Inl StrayStatus
      else case RUsage r of
        None \<Rightarrow> Inr ()
      | Some u \<Rightarrow>
          if \<not> is_finite (JUSD u) then Inl UsageNotFinite
          else if JInputTokens u < 0 \<or> JOutputTokens u < 0 then Inl NegativeTokens
          else Inr ())"

section \<open>Validate\<close>

text \<open>A \<open>CorruptionError\<close> names the sequence number of the record it was found at; its text is
  presentation.\<close>

datatype corruption = Corrupt nat

record scan_state =
  prevSeq :: nat
  open_node :: "JRecord option"
  lastFinished :: "JRecord option"

definition scan0 :: scan_state where
  "scan0 = \<lparr>prevSeq = 0, open_node = None, lastFinished = None\<rparr>"

definition scan_step :: "JRecord \<Rightarrow> scan_state \<Rightarrow> (corruption, scan_state) result" where
  "scan_step r s =
     (if Seq r \<noteq> prevSeq s + 1 then Inl (Corrupt (Seq r))
      else let s = s\<lparr>prevSeq := Seq r\<rparr> in
        case Event r of
          EventNodeStarted \<Rightarrow>
            (case open_node s of
               Some _ \<Rightarrow> Inl (Corrupt (Seq r))
             | None \<Rightarrow> Inr (s\<lparr>open_node := Some r\<rparr>))
        | EventNodeFinished \<Rightarrow>
            (case open_node s of
               None \<Rightarrow> Inl (Corrupt (Seq r))
             | Some d \<Rightarrow>
                 if RNode d \<noteq> RNode r \<or> Attempt d \<noteq> Attempt r then Inl (Corrupt (Seq r))
                 else Inr (s\<lparr>lastFinished := Some r, open_node := None\<rparr>))
        | _ \<Rightarrow>
            (case open_node s of
               Some _ \<Rightarrow> Inl (Corrupt (Seq r))
             | None \<Rightarrow> Inr s))"

definition scan :: "JRecord list \<Rightarrow> (corruption, scan_state) result" where
  "scan records = replay scan_step records scan0"

definition Validate :: "JRecord list \<Rightarrow> (corruption, unit) result" where
  "Validate records = bind_result (scan records) (\<lambda>_. Inr ())"

section \<open>The resume decision\<close>

datatype RunState = RunStateRunnable | RunStatePaused | RunStateCompleted | RunStateFailed | RunStateAborted

record Start =
  State :: RunState
  SNode :: string
  SAttempt :: int

definition FirstNode :: string where "FirstNode = ''plan''"

definition ResolveStart :: "JRecord list \<Rightarrow> (corruption, Start) result" where
  "ResolveStart records = bind_result (scan records) (\<lambda>s.
     case open_node s of
       Some d \<Rightarrow> Inr \<lparr>State = RunStateRunnable, SNode = RNode d, SAttempt = wrap64 (Attempt d + 1)\<rparr>
     | None \<Rightarrow>
         (let (node, attempt) =
            (case lastFinished s of
               None \<Rightarrow> (FirstNode, 1)
             | Some f \<Rightarrow> (Next f, if Interrupted f then wrap64 (Attempt f + 1) else 1))
          in if records = [] then Inr \<lparr>State = RunStateRunnable, SNode = node, SAttempt = attempt\<rparr>
             else Inr \<lparr>State =
               (case Event (last records) of
                  EventRunPaused \<Rightarrow> RunStatePaused
                | EventRunCompleted \<Rightarrow> RunStateCompleted
                | EventRunFailed \<Rightarrow> RunStateFailed
                | EventRunAborted \<Rightarrow> RunStateAborted
                | _ \<Rightarrow> RunStateRunnable), SNode = node, SAttempt = attempt\<rparr>))"

section \<open>Statistics\<close>

record NodeStats =
  NSNode :: string
  Executions :: int
  TotalDuration :: int
  ByStatus :: "Status \<Rightarrow> int"

text \<open>\<open>byNode\<close> and \<open>order\<close> together are the list of the nodes' entries in first-seen order. A
  \<open>time.Duration\<close> counts nanoseconds.\<close>

definition Stats_add :: "JRecord \<Rightarrow> NodeStats \<Rightarrow> NodeStats" where
  "Stats_add r s = s\<lparr>Executions := wrap64 (Executions s + 1),
     TotalDuration := wrap64 (TotalDuration s + wrap64 (DurationMS r * 1000000)),
     ByStatus := (ByStatus s)(Status r := wrap64 (ByStatus s (Status r) + 1))\<rparr>"

definition Stats_step :: "JRecord \<Rightarrow> NodeStats list \<Rightarrow> NodeStats list" where
  "Stats_step r out =
     (if Event r \<noteq> EventNodeFinished then out
      else let out = (if \<exists>s \<in> set out. NSNode s = RNode r then out
                      else out @ [\<lparr>NSNode = RNode r, Executions = 0, TotalDuration = 0, ByStatus = (\<lambda>_. 0)\<rparr>])
           in upd_first (\<lambda>s. NSNode s = RNode r) (Stats_add r) out)"

definition Stats :: "JRecord list \<Rightarrow> NodeStats list" where
  "Stats records = fold Stats_step records []"

section \<open>Visits\<close>

record Visit =
  VNode :: string
  Ordinal :: int
  StartSeq :: nat
  EndSeq :: nat
  VExecutions :: int
  VStatus :: Status

definition continuesVisit :: "JRecord \<Rightarrow> string \<Rightarrow> bool" where
  "continuesVisit c node \<longleftrightarrow> RNode c = node \<and> Next c = node \<and>
     (Status c = StatusPaused \<or> Status c = StatusAborted)"

text \<open>The loop's state: the visits so far, the ordinal of each node's last visit, and the record
  that closed the previous execution. The last visit is updated in place; the code indexes it
  without a check, and \<open>butlast\<close> and \<open>last\<close> of an empty list are never reached on a validated
  history (lemma \<open>visits_inv\<close>).\<close>

record visit_state =
  visits :: "Visit list"
  ordinals :: "string \<Rightarrow> int"
  closedBy :: "JRecord option"

definition upd_last :: "('a \<Rightarrow> 'a) \<Rightarrow> 'a list \<Rightarrow> 'a list" where
  "upd_last f xs = butlast xs @ [f (last xs)]"

definition Visits_step :: "JRecord \<Rightarrow> visit_state \<Rightarrow> visit_state" where
  "Visits_step r s =
     (case Event r of
        EventNodeStarted \<Rightarrow>
          if (case closedBy s of Some c \<Rightarrow> continuesVisit c (RNode r) | None \<Rightarrow> False)
          then s\<lparr>visits := upd_last (\<lambda>v. v\<lparr>VExecutions := wrap64 (VExecutions v + 1), EndSeq := 0,
                   VStatus := StatusUnknown\<rparr>) (visits s)\<rparr>
          else let n = wrap64 (ordinals s (RNode r) + 1) in
            s\<lparr>ordinals := (ordinals s)(RNode r := n),
              visits := visits s @ [\<lparr>VNode = RNode r, Ordinal = n, StartSeq = Seq r, EndSeq = 0,
                VExecutions = 1, VStatus = StatusUnknown\<rparr>]\<rparr>
      | EventNodeFinished \<Rightarrow>
          s\<lparr>visits := upd_last (\<lambda>v. v\<lparr>EndSeq := Seq r, VStatus := Status r\<rparr>) (visits s),
            closedBy := Some r\<rparr>
      | _ \<Rightarrow> s)"

definition Visits :: "JRecord list \<Rightarrow> (corruption, Visit list) result" where
  "Visits records = bind_result (Validate records) (\<lambda>_.
     Inr (visits (fold Visits_step records \<lparr>visits = [], ordinals = (\<lambda>_. 0), closedBy = None\<rparr>)))"

section \<open>The file\<close>

datatype journal_error =
    Malformed nat | TooLong | CorruptJournal corruption | InvalidRecord record_error
  | EncodeFailed nat | WriteFailed | Exists

text \<open>\<open>Read\<close>: the records decoded so far are returned with the error as well.\<close>

definition Read :: "(bytes \<Rightarrow> JRecord option) \<Rightarrow> bytes \<Rightarrow> JRecord list \<times> (journal_error, bool) result" where
  "Read unmarshal bs =
     (case Scan bs (read_each unmarshal) [] of
        (rs, Inl (LineError n)) \<Rightarrow> (rs, Inl (Malformed n))
      | (rs, Inl ErrTooLong) \<Rightarrow> (rs, Inl TooLong)
      | (rs, Inr incomplete) \<Rightarrow> (rs, Inr incomplete))"

definition ReadFile :: "(bytes \<Rightarrow> JRecord option) \<Rightarrow> disk \<Rightarrow> JRecord list \<times> (journal_error, bool) result" where
  "ReadFile unmarshal d = (case d of None \<Rightarrow> ([], Inr False) | Some bs \<Rightarrow> Read unmarshal bs)"

record Journal =
  lastSeq :: nat
  recoveredTorn :: bool

text \<open>The outcomes of the file operations of one \<open>Open\<close>: whether the recovery file could be
  installed, what became of the delimiter that had to be completed, and whether the file could be
  opened for appending.\<close>

record open_faults =
  rewrite_ok :: bool
  newline_wrote :: "nat option"
  open_ok :: bool

definition rewriteClean :: "(JRecord \<Rightarrow> bytes option) \<Rightarrow> bool \<Rightarrow> disk \<Rightarrow> JRecord list \<Rightarrow> disk \<times> bool" where
  "rewriteClean marshal ok d rs =
     (case encode_lines marshal rs of None \<Rightarrow> (d, False) | Some lines \<Rightarrow> RewriteClean ok d lines)"

definition Open :: "(JRecord \<Rightarrow> bytes option) \<Rightarrow> (bytes \<Rightarrow> JRecord option) \<Rightarrow> open_faults \<Rightarrow> disk \<Rightarrow>
    disk \<times> (journal_error, Journal) result" where
  "Open marshal unmarshal fault d =
     (case ReadFile unmarshal d of
        (_, Inl e) \<Rightarrow> (d, Inl e)
      | (rs, Inr incomplete) \<Rightarrow>
          (case Validate rs of
             Inl c \<Rightarrow> (d, Inl (CorruptJournal c))
           | Inr _ \<Rightarrow>
               let seq = fold (\<lambda>r m. if Seq r > m then Seq r else m) rs 0;
                   (d, ok) = (if incomplete then rewriteClean marshal (rewrite_ok fault) d rs
                              else EnsureTrailingNewline (newline_wrote fault) d)
               in if \<not> ok then (d, Inl WriteFailed)
                  else if \<not> open_ok fault then (d, Inl WriteFailed)
                  else (Some (case d of None \<Rightarrow> [] | Some bs \<Rightarrow> bs),
                        Inr \<lparr>lastSeq = seq, recoveredTorn = incomplete\<rparr>)))"

text \<open>\<open>wrote\<close> is the outcome of the write and fsync (\<open>AppendLine\<close>), \<open>now\<close> the clock.\<close>

definition prepare :: "int \<Rightarrow> JRecord \<Rightarrow> JRecord" where
  "prepare now r =
     (let r = (if Time r = 0 then r\<lparr>Time := now\<rparr> else r)
      in if nodeScoped (Event r) \<and> Attempt r = 0 then r\<lparr>Attempt := 1\<rparr> else r)"

definition Append :: "(JRecord \<Rightarrow> bytes option) \<Rightarrow> nat option \<Rightarrow> int \<Rightarrow> JRecord \<Rightarrow> Journal \<Rightarrow> bytes \<Rightarrow>
    Journal \<times> bytes \<times> (journal_error, JRecord) result" where
  "Append marshal wrote now r j f =
     (let r = prepare now r in
      case Record_validate r of
        Inl e \<Rightarrow> (j, f, Inl (InvalidRecord e))
      | Inr _ \<Rightarrow>
          let r = r\<lparr>Seq := lastSeq j + 1\<rparr> in
          case marshal r of
            None \<Rightarrow> (j, f, Inl (EncodeFailed (Seq r)))
          | Some data \<Rightarrow>
              let j = j\<lparr>lastSeq := Seq r\<rparr>; (f, ok) = AppendLine wrote f data
              in (j, f, if ok then Inr r else Inl WriteFailed))"

text \<open>\<open>Create\<close> checks and encodes every record, in order, before it checks the history.\<close>

fun create_lines :: "(JRecord \<Rightarrow> bytes option) \<Rightarrow> JRecord list \<Rightarrow> (journal_error, bytes list) result" where
  "create_lines marshal [] = Inr []"
| "create_lines marshal (r # rs) =
     (case Record_validate r of
        Inl e \<Rightarrow> Inl (InvalidRecord e)
      | Inr _ \<Rightarrow>
          (case marshal r of
             None \<Rightarrow> Inl (EncodeFailed (Seq r))
           | Some l \<Rightarrow> bind_result (create_lines marshal rs) (\<lambda>ls. Inr (l # ls))))"

definition Create :: "(JRecord \<Rightarrow> bytes option) \<Rightarrow> bool \<Rightarrow> bool \<Rightarrow> disk \<Rightarrow> JRecord list \<Rightarrow>
    disk \<times> (journal_error, unit) result" where
  "Create marshal ok synced d rs =
     (case create_lines marshal rs of
        Inl e \<Rightarrow> (d, Inl e)
      | Inr lines \<Rightarrow>
          (case Validate rs of
             Inl c \<Rightarrow> (d, Inl (CorruptJournal c))
           | Inr _ \<Rightarrow>
               (case CreateNew ok synced d lines of
                  (d, Inl ErrExists) \<Rightarrow> (d, Inl Exists)
                | (d, Inl CreateFailed) \<Rightarrow> (d, Inl WriteFailed)
                | (d, Inr _) \<Rightarrow> (d, Inr ()))))"

section \<open>Names\<close>

text \<open>A name table codec: the names are distinct, so marshalling and parsing are inverse.\<close>

lemma table_codec:
  assumes "distinct names" "distinct vals" "length names = length vals"
  shows "map_option (nth names) (List.find (\<lambda>i. vals ! i = v) [0..<length vals]) = Some s \<longleftrightarrow>
         map_option (nth vals) (index_of names s) = Some v"
proof
  assume "map_option (nth names) (List.find (\<lambda>i. vals ! i = v) [0..<length vals]) = Some s"
  then obtain i where "List.find (\<lambda>i. vals ! i = v) [0..<length vals] = Some i" "names ! i = s" by auto
  then have "i < length names" "vals ! i = v" "names ! i = s"
    using assms(3) by (auto dest!: find_Some_mem)
  then show "map_option (nth vals) (index_of names s) = Some v"
    using index_of_nth [OF assms(1), of i] by auto
next
  assume "map_option (nth vals) (index_of names s) = Some v"
  then obtain i where i: "index_of names s = Some i" "vals ! i = v" by auto
  from index_of_Some [OF i(1)] have l: "i < length names" "names ! i = s" by auto
  have "List.find (\<lambda>i. vals ! i = v) [0..<length vals] = Some i"
    using i(2) l(1) assms(2,3) by (auto simp: find_Some_iff nth_eq_iff_index_eq)
  then show "map_option (nth names) (List.find (\<lambda>i. vals ! i = v) [0..<length vals]) = Some s"
    using l by simp
qed

text \<open>
  Every event and status round-trips through its name: a value marshals to a name exactly when
  parsing that name gives the value back, so no two values share a spelling and only declared
  values have one.
\<close>

theorem names_roundtrip:
  "(Event_MarshalText e = Some n \<longleftrightarrow> ParseEvent n = Some e) \<and>
   (Status_MarshalText s = Some m \<longleftrightarrow> ParseStatus m = Some s)"
proof
  show "Event_MarshalText e = Some n \<longleftrightarrow> ParseEvent n = Some e"
    unfolding Event_MarshalText_def ParseEvent_def
    by (rule table_codec) (simp_all add: eventNames_def Events_def)
  show "Status_MarshalText s = Some m \<longleftrightarrow> ParseStatus m = Some s"
    unfolding Status_MarshalText_def ParseStatus_def
    by (rule table_codec) (simp_all add: statusNames_def Statuses_def)
qed

section \<open>What Validate accepts\<close>

text \<open>The abstract contract of a history: run-level markers and whole executions, in any order.\<close>

inductive closed_history :: "JRecord list \<Rightarrow> bool" where
  empty: "closed_history []"
| marker: "closed_history h \<Longrightarrow> \<not> nodeScoped (Event r) \<Longrightarrow> closed_history (h @ [r])"
| execution: "closed_history h \<Longrightarrow> Event s = EventNodeStarted \<Longrightarrow> Event f = EventNodeFinished \<Longrightarrow>
    RNode s = RNode f \<Longrightarrow> Attempt s = Attempt f \<Longrightarrow> closed_history (h @ [s, f])"

definition open_history :: "JRecord list \<Rightarrow> JRecord \<Rightarrow> bool" where
  "open_history rs d \<longleftrightarrow> Event d = EventNodeStarted \<and> (\<exists>h. rs = h @ [d] \<and> closed_history h)"

lemma open_historyI: "closed_history h \<Longrightarrow> Event d = EventNodeStarted \<Longrightarrow> open_history (h @ [d]) d"
  by (auto simp: open_history_def)

definition last_finished :: "JRecord list \<Rightarrow> JRecord option" where
  "last_finished rs = List.find (\<lambda>r. Event r = EventNodeFinished) (rev rs)"

lemma last_finished_snoc [simp]:
  "last_finished [] = None"
  "last_finished (rs @ [r]) = (if Event r = EventNodeFinished then Some r else last_finished rs)"
  by (simp_all add: last_finished_def)

text \<open>What one scan knows after the records it accepted.\<close>

definition scan_inv :: "JRecord list \<Rightarrow> scan_state \<Rightarrow> bool" where
  "scan_inv rs s \<longleftrightarrow> prevSeq s = length rs \<and> map Seq rs = [1..<Suc (length rs)] \<and>
     lastFinished s = last_finished rs \<and>
     (case open_node s of None \<Rightarrow> closed_history rs | Some d \<Rightarrow> open_history rs d)"

lemma scan_step_Inr:
  "scan_step r s = Inr t \<longleftrightarrow>
     Seq r = Suc (prevSeq s) \<and> prevSeq t = Seq r \<and>
     (case open_node s of
        None \<Rightarrow> Event r \<noteq> EventNodeFinished \<and> lastFinished t = lastFinished s \<and>
          open_node t = (if Event r = EventNodeStarted then Some r else None)
      | Some d \<Rightarrow> Event r = EventNodeFinished \<and> RNode d = RNode r \<and> Attempt d = Attempt r \<and>
          lastFinished t = Some r \<and> open_node t = None)"
  by (cases s; cases t; cases "Event r")
     (auto simp: scan_step_def Let_def split: option.splits if_splits)

interpretation journal_log: event_log scan_step scan0 scan_inv
proof (unfold_locales, goal_cases)
  case 1
  show ?case by (simp add: scan_inv_def scan0_def closed_history.empty)
next
  case (2 rs s r t)
  from 2(1) have inv: "prevSeq s = length rs" "map Seq rs = [1..<Suc (length rs)]"
    "lastFinished s = last_finished rs"
    "case open_node s of None \<Rightarrow> closed_history rs | Some d \<Rightarrow> open_history rs d"
    by (simp_all add: scan_inv_def)
  note st = 2(3) [unfolded scan_step_Inr]
  have seq: "prevSeq t = length (rs @ [r])" "map Seq (rs @ [r]) = [1..<Suc (length (rs @ [r]))]"
    using st inv by simp_all
  show ?case
  proof (cases "open_node s")
    case None
    then have h: "closed_history rs" using inv(4) by simp
    show ?thesis
    proof (cases "Event r = EventNodeStarted")
      case True
      then show ?thesis using None st inv(3) seq open_historyI [OF h True]
        by (simp add: scan_inv_def)
    next
      case False
      with None st have "\<not> nodeScoped (Event r)" by (simp add: nodeScoped_def)
      from closed_history.marker [OF h this] show ?thesis using None False st inv(3) seq
        by (simp add: scan_inv_def)
    qed
  next
    case (Some d)
    then have "open_history rs d" using inv(4) by simp
    then obtain h where h: "rs = h @ [d]" "closed_history h" "Event d = EventNodeStarted"
      unfolding open_history_def by blast
    with Some st have "closed_history (h @ [d, r])" by (simp add: closed_history.execution)
    moreover have "last_finished (h @ [d, r]) = Some r"
      using last_finished_snoc(2) [of "h @ [d]" r] Some st by simp
    ultimately show ?thesis using Some st seq h(1) by (simp add: scan_inv_def)
  qed
qed

lemma scan_inv: "scan rs = Inr s \<Longrightarrow> scan_inv rs s"
  by (simp add: scan_def journal_log.replay_inv)

lemma scan_snoc: "scan (rs @ [r]) = bind_result (scan rs) (scan_step r)"
  by (simp add: scan_def)

lemma scan_closed:
  "closed_history rs \<Longrightarrow> map Seq rs = [1..<Suc (length rs)] \<Longrightarrow> \<exists>s. scan rs = Inr s \<and> open_node s = None"
proof (induction rs rule: closed_history.induct)
  case empty
  then show ?case by (simp add: scan_def scan0_def)
next
  case (marker h r)
  then obtain s where s: "scan h = Inr s" "open_node s = None" by auto
  from scan_inv [OF s(1)] have "prevSeq s = length h" by (simp add: scan_inv_def)
  with marker s have "scan_step r s = Inr (s\<lparr>prevSeq := Seq r\<rparr>)"
    by (simp add: scan_step_Inr nodeScoped_def)
  with s show ?case by (simp add: scan_snoc)
next
  case (execution h b f)
  then have q: "map Seq h = [1..<Suc (length h)]" "Seq b = Suc (length h)" "Seq f = Suc (Suc (length h))"
    by (simp_all add: upt_Suc_append)
  with execution obtain s where s: "scan h = Inr s" "open_node s = None" by auto
  from scan_inv [OF s(1)] have "prevSeq s = length h" by (simp add: scan_inv_def)
  with execution s q have "scan_step b s = Inr (s\<lparr>prevSeq := Seq b, open_node := Some b\<rparr>)"
    "scan_step f (s\<lparr>prevSeq := Seq b, open_node := Some b\<rparr>) =
       Inr (s\<lparr>prevSeq := Seq f, open_node := None, lastFinished := Some f\<rparr>)"
    by (simp_all add: scan_step_Inr)
  with s have "scan (h @ [b]) = Inr (s\<lparr>prevSeq := Seq b, open_node := Some b\<rparr>)"
    by (simp add: scan_snoc)
  then have "scan ((h @ [b]) @ [f]) = Inr (s\<lparr>prevSeq := Seq f, open_node := None, lastFinished := Some f\<rparr>)"
    using \<open>scan_step f _ = _\<close> by (simp only: scan_snoc bind_result_simps)
  then show ?case by simp
qed

lemma scan_open:
  assumes "open_history rs d" "map Seq rs = [1..<Suc (length rs)]"
  shows "\<exists>s. scan rs = Inr s \<and> open_node s = Some d"
proof -
  obtain h where h: "rs = h @ [d]" "closed_history h" "Event d = EventNodeStarted"
    using assms(1) by (auto simp: open_history_def)
  with assms(2) obtain s where s: "scan h = Inr s" "open_node s = None"
    using scan_closed [of h] by auto
  from scan_inv [OF s(1)] have "prevSeq s = length h" by (simp add: scan_inv_def)
  with h s assms(2) have "scan_step d s = Inr (s\<lparr>prevSeq := Seq d, open_node := Some d\<rparr>)"
    by (simp add: scan_step_Inr)
  with h s show ?thesis by (simp add: scan_snoc)
qed

lemma Validate_ok: "is_ok (Validate rs) \<longleftrightarrow> is_ok (scan rs)"
  by (cases "scan rs") (simp_all add: Validate_def)

text \<open>
  C30. \<open>Validate\<close> accepts exactly the well-formed histories: sequence numbers 1, 2, 3, \<dots> and a series
  of run-level markers and whole executions (a start closed by a finish of the same node and
  attempt, with nothing between), after which at most one execution is still open.
\<close>

theorem Validate_iff_well_formed:
  "is_ok (Validate rs) \<longleftrightarrow>
     map Seq rs = [1..<Suc (length rs)] \<and> (closed_history rs \<or> (\<exists>d. open_history rs d))"
proof
  assume "is_ok (Validate rs)"
  then have "is_ok (scan rs)" by (simp only: Validate_ok)
  then obtain s where "scan rs = Inr s" by (auto simp: is_ok_iff)
  from scan_inv [OF this] show
    "map Seq rs = [1..<Suc (length rs)] \<and> (closed_history rs \<or> (\<exists>d. open_history rs d))"
    by (auto simp: scan_inv_def split: option.splits)
next
  assume "map Seq rs = [1..<Suc (length rs)] \<and> (closed_history rs \<or> (\<exists>d. open_history rs d))"
  then have "is_ok (scan rs)"
    using scan_closed [of rs] scan_open [of rs] by (auto simp: is_ok_iff simp del: upt_Suc)
  then show "is_ok (Validate rs)" by (simp only: Validate_ok)
qed

section \<open>Crashes while appending\<close>

lemma Read_log:
  assumes "\<forall>r \<in> set rs. writable marshal unmarshal r" "writable marshal unmarshal r"
  shows "Read unmarshal (log_file marshal rs @ take k (terminated (line_of marshal r))) =
    (if k < length (line_of marshal r) then (rs, Inr (0 < k)) else (rs @ [r], Inr False))"
  by (simp add: Read_def Scan_log [OF assms])

definition no_faults :: open_faults where
  "no_faults = \<lparr>rewrite_ok = True, newline_wrote = None, open_ok = True\<rparr>"

lemma fold_max_seq: "map Seq rs = [1..<Suc (length rs)] \<Longrightarrow> fold (\<lambda>r m. if Seq r > m then Seq r else m) rs 0 = length rs"
  by (induction rs rule: rev_induct) auto

lemma Validate_seqs: "is_ok (Validate rs) \<Longrightarrow> map Seq rs = [1..<Suc (length rs)]"
proof -
  assume "is_ok (Validate rs)"
  then have "is_ok (scan rs)" by (simp only: Validate_ok)
  then obtain s where "scan rs = Inr s" by (auto simp: is_ok_iff)
  from scan_inv [OF this] show ?thesis by (simp add: scan_inv_def)
qed

text \<open>\<open>Open\<close> without faults on a log whose last append was cut short anywhere.\<close>

lemma Open_log:
  assumes "\<forall>r \<in> set rs. writable marshal unmarshal r" "writable marshal unmarshal r"
    and "is_ok (Validate rs)" "is_ok (Validate (rs @ [r]))"
  shows "Open marshal unmarshal no_faults (Some (log_file marshal rs @ take k (terminated (line_of marshal r)))) =
    (let kept = (if k < length (line_of marshal r) then rs else rs @ [r]) in
     (Some (log_file marshal kept),
      Inr \<lparr>lastSeq = length kept, recoveredTorn = (0 < k \<and> k < length (line_of marshal r))\<rparr>))"
proof -
  let ?l = "line_of marshal r"
  have v: "Validate rs = Inr ()" "Validate (rs @ [r]) = Inr ()" using assms(3,4) by (auto simp: is_ok_iff)
  have m: "fold (\<lambda>r m. if Seq r > m then Seq r else m) rs 0 = length rs"
    "fold (\<lambda>r m. if Seq r > m then Seq r else m) (rs @ [r]) 0 = Suc (length rs)"
    using fold_max_seq [OF Validate_seqs [OF assms(3)]] fold_max_seq [OF Validate_seqs [OF assms(4)]]
    by simp_all
  note R = Read_log [OF assms(1,2), of k]
  have ne: "?l \<noteq> []" "newline \<notin> set ?l" using writable_line(2) [OF assms(2)] by (auto simp: plain_line_def)
  consider "k = 0" | "0 < k" "k < length ?l" | "k = length ?l" | "length ?l < k" by linarith
  then show ?thesis
  proof cases
    case 1
    then show ?thesis using R v m ne
      by (simp add: Open_def ReadFile_def Let_def no_faults_def log_file_def)
  next
    case 2
    then show ?thesis using R v m encode_all_read [OF assms(1)]
      by (simp add: Open_def ReadFile_def Let_def no_faults_def rewriteClean_def RewriteClean_def log_file_def)
  next
    case 3
    have "last (log_file marshal rs @ ?l) \<noteq> newline" using ne last_in_set by fastforce
    moreover have "take k (terminated ?l) = ?l" using 3 by (simp add: terminated_def)
    ultimately show ?thesis using R v m 3 ne
      by (simp add: Open_def ReadFile_def Let_def no_faults_def EnsureTrailingNewline_def log_file_snoc
          terminated_def del: fold_append)
  next
    case 4
    then have "take k (terminated ?l) = terminated ?l" by (simp add: terminated_def)
    moreover have "EnsureTrailingNewline None (Some (log_file marshal (rs @ [r]))) = (Some (log_file marshal (rs @ [r])), True)"
      by (simp only: log_file_def EnsureTrailingNewline_clean)
    ultimately show ?thesis using R v m 4
      by (simp add: Open_def ReadFile_def Let_def no_faults_def log_file_snoc del: fold_append)
  qed
qed

lemma Open_faulty:
  assumes "\<forall>r \<in> set rs. writable marshal unmarshal r" "writable marshal unmarshal r"
    and "is_ok (Validate rs)" "is_ok (Validate (rs @ [r]))"
  shows "fst (Open marshal unmarshal fault (Some (log_file marshal rs @ take k (terminated (line_of marshal r)))))
    \<in> {Some (log_file marshal rs @ take k (terminated (line_of marshal r))),
       Some (log_file marshal (if k < length (line_of marshal r) then rs else rs @ [r]))}"
proof -
  let ?l = "line_of marshal r"
  have v: "Validate rs = Inr ()" "Validate (rs @ [r]) = Inr ()" using assms(3,4) by (auto simp: is_ok_iff)
  note R = Read_log [OF assms(1,2), of k]
  have ne: "?l \<noteq> []" using writable_line(2) [OF assms(2)] by (auto simp: plain_line_def)
  have cl: "EnsureTrailingNewline w (Some (log_file marshal xs)) = (Some (log_file marshal xs), True)" for w xs
    by (simp only: log_file_def EnsureTrailingNewline_clean)
  consider "k = 0" | "0 < k" "k < length ?l" | "k = length ?l" | "length ?l < k" by linarith
  then show ?thesis
  proof cases
    case 1
    then show ?thesis using R v ne cl [of "newline_wrote fault" rs]
      by (simp add: Open_def ReadFile_def Let_def)
  next
    case 2
    then show ?thesis using R v encode_all_read [OF assms(1)]
      by (simp add: Open_def ReadFile_def Let_def rewriteClean_def RewriteClean_def log_file_def)
  next
    case 3
    have t: "take k (terminated ?l) = ?l" using 3 by (simp add: terminated_def)
    have "take n [newline] = [] \<or> take n [newline] = [newline]" for n by (cases n) auto
    then have "fst (EnsureTrailingNewline (newline_wrote fault) (Some (log_file marshal rs @ ?l)))
        \<in> {Some (log_file marshal rs @ ?l), Some (log_file marshal (rs @ [r]))}"
      by (auto simp: EnsureTrailingNewline_def log_file_snoc terminated_def split: option.splits)
    then show ?thesis using R v 3 t
      by (auto simp: Open_def ReadFile_def Let_def EnsureTrailingNewline_def split: option.splits if_splits prod.splits)
  next
    case 4
    then have "take k (terminated ?l) = terminated ?l" by (simp add: terminated_def)
    then show ?thesis using R v 4 cl [of "newline_wrote fault" "rs @ [r]"]
      by (simp add: Open_def ReadFile_def Let_def log_file_snoc)
  qed
qed

text \<open>
  C29. No crash loses a record that was written. Whatever part of a record's line an append leaves in
  the file when it fails or dies, the next \<open>Open\<close> succeeds, keeps every earlier record, keeps the
  record itself when all of its content reached the disk, drops it otherwise, and leaves a clean
  file whose next sequence number continues the history; and an \<open>Open\<close> that fails part-way while
  healing leaves a file the next one heals to the same result.
\<close>

theorem Append_crash_Open:
  fixes marshal unmarshal r now rs
  defines "r' \<equiv> (prepare now r)\<lparr>Seq := Suc (length rs)\<rparr>"
  assumes "\<forall>x \<in> set rs. writable marshal unmarshal x" "is_ok (Validate rs)" "lastSeq j = length rs"
    and "is_ok (Record_validate (prepare now r))" "writable marshal unmarshal r'" "is_ok (Validate (rs @ [r']))"
  shows "\<exists>f. Append marshal (Some k) now r j (log_file marshal rs) = (j\<lparr>lastSeq := Suc (length rs)\<rparr>, f, Inl WriteFailed) \<and>
    (let kept = (if k < length (line_of marshal r') then rs else rs @ [r']) in
       Read unmarshal f = (kept, Inr (0 < k \<and> k < length (line_of marshal r'))) \<and>
       Open marshal unmarshal no_faults (Some f) =
         (Some (log_file marshal kept), Inr \<lparr>lastSeq = length kept, recoveredTorn = (0 < k \<and> k < length (line_of marshal r'))\<rparr>) \<and>
       Open marshal unmarshal no_faults (fst (Open marshal unmarshal fault (Some f))) =
         (Some (log_file marshal kept),
          Inr \<lparr>lastSeq = length kept, recoveredTorn =
            (0 < k \<and> k < length (line_of marshal r') \<and> fst (Open marshal unmarshal fault (Some f)) = Some f)\<rparr>))"
proof -
  let ?l = "line_of marshal r'" and ?f = "log_file marshal rs @ take k (terminated (line_of marshal r'))"
  let ?kept = "if k < length ?l then rs else rs @ [r']"
  obtain q where "Record_validate (prepare now r) = Inr q" using assms(5) by (auto simp: is_ok_iff)
  moreover have "marshal ((prepare now r)\<lparr>Seq := Suc (length rs)\<rparr>) = Some ?l"
    using writable_line(1) [OF assms(6)] by (simp only: r'_def)
  ultimately have A: "Append marshal (Some k) now r j (log_file marshal rs) = (j\<lparr>lastSeq := Suc (length rs)\<rparr>, ?f, Inl WriteFailed)"
    using assms(4) by (simp add: Append_def Let_def AppendLine_def)
  note O = Open_log [OF assms(2,6,3,7)]
  have again: "Open marshal unmarshal no_faults (Some (log_file marshal ?kept)) =
      (Some (log_file marshal ?kept), Inr \<lparr>lastSeq = length ?kept, recoveredTorn = False\<rparr>)"
    using O [of 0] O [of "Suc (length ?l)"] by (auto simp: Let_def log_file_snoc terminated_def)
  have F: "fst (Open marshal unmarshal fault (Some ?f)) \<in> {Some ?f, Some (log_file marshal ?kept)}"
    by (rule Open_faulty [OF assms(2,6,3,7)])
  have "Open marshal unmarshal no_faults (fst (Open marshal unmarshal fault (Some ?f))) =
         (Some (log_file marshal ?kept),
          Inr \<lparr>lastSeq = length ?kept, recoveredTorn =
            (0 < k \<and> k < length ?l \<and> fst (Open marshal unmarshal fault (Some ?f)) = Some ?f)\<rparr>)"
  proof (cases "fst (Open marshal unmarshal fault (Some ?f)) = Some ?f")
    case True
    then show ?thesis using O [of k] by (simp only: Let_def) simp
  next
    case False
    then show ?thesis using F again by (simp del: length_append)
  qed
  then show ?thesis using A Read_log [OF assms(2,6), of k] O [of k] by (simp only: Let_def) simp
qed

text \<open>A codec with one record, for the concrete instances below.\<close>

definition marshal1 :: "'r \<Rightarrow> 'r \<Rightarrow> bytes option" where
  "marshal1 r0 r = (if r = r0 then Some ''{}'' else None)"

definition unmarshal1 :: "'r \<Rightarrow> bytes \<Rightarrow> 'r option" where
  "unmarshal1 r0 l = (if l = ''{}'' then Some r0 else None)"

lemma writable1: "writable (marshal1 r) (unmarshal1 r) r"
  by (auto simp: writable_def marshal1_def unmarshal1_def plain_line_def newline_def MaxLineBytes_def
      strict_prefix_def)

definition started1 :: JRecord where
  "started1 = Record0\<lparr>Event := EventRunStarted, Time := 5, Seq := Suc 0\<rparr>"

theorem Append_crash_Open_witness:
  "Open (marshal1 started1) (unmarshal1 started1) no_faults
     (Some (fst (snd (Append (marshal1 started1) (Some 1) 5 (Record0\<lparr>Event := EventRunStarted\<rparr>)
       \<lparr>lastSeq = 0, recoveredTorn = False\<rparr> [])))) =
   (Some [], Inr \<lparr>lastSeq = 0, recoveredTorn = True\<rparr>)"
proof -
  have p: "(prepare 5 (Record0\<lparr>Event := EventRunStarted\<rparr>))\<lparr>Seq := Suc (length [])\<rparr> = started1"
    by (simp add: prepare_def Record0_def started1_def Let_def nodeScoped_def)
  have v: "is_ok (Validate [])" "is_ok (Validate [started1])"
    by (simp_all add: Validate_def scan_def scan_step_def scan0_def started1_def Record0_def Let_def)
  have r: "is_ok (Record_validate (prepare 5 (Record0\<lparr>Event := EventRunStarted\<rparr>)))"
    by (simp add: Record_validate_def prepare_def Record0_def Let_def nodeScoped_def)
  have l: "line_of (marshal1 started1) started1 = ''{}''" by (simp add: line_of_def marshal1_def)
  from Append_crash_Open [of "[]" "marshal1 started1" "unmarshal1 started1" "\<lparr>lastSeq = 0, recoveredTorn = False\<rparr>"
      5 "Record0\<lparr>Event := EventRunStarted\<rparr>" 1 no_faults, unfolded p]
  show ?thesis using v r writable1 [of started1] by (auto simp: l Let_def log_file_def)
qed

section \<open>Resuming\<close>

text \<open>
  Healing an attempt a crash left open does not change the resume decision: closing it with a
  record that hands it back to its node (\<open>Interrupted\<close>, what the dispatcher writes before it goes
  on) leaves \<open>ResolveStart\<close> at the same node, at the same next attempt, and still runnable, so a
  crash in the middle of healing and a crash after it resume alike.
\<close>

theorem ResolveStart_heal:
  assumes "open_history rs d" "map Seq rs = [1..<Suc (length rs)]"
    and "Interrupted f" "RNode f = RNode d" "Attempt f = Attempt d" "Seq f = Suc (length rs)"
  shows "ResolveStart rs = Inr \<lparr>State = RunStateRunnable, SNode = RNode d, SAttempt = wrap64 (Attempt d + 1)\<rparr> \<and>
    ResolveStart (rs @ [f]) = ResolveStart rs"
proof -
  obtain s where s: "scan rs = Inr s" "open_node s = Some d" using scan_open [OF assms(1,2)] by auto
  from scan_inv [OF s(1)] have q: "prevSeq s = length rs" by (simp add: scan_inv_def)
  have "scan (rs @ [f]) = Inr (s\<lparr>prevSeq := Seq f, open_node := None, lastFinished := Some f\<rparr>)"
    using s q assms(3-6) by (simp add: scan_snoc scan_step_Inr Interrupted_def)
  with s assms(3-5) show ?thesis
    by (simp add: ResolveStart_def) (simp add: Interrupted_def)
qed

text \<open>
  What a resume does is fixed by the last execution: on a valid history with no attempt open the
  decision is the state of the last record, at the node the last execution named as next (the first
  node when none ran), at attempt 1, unless that execution was cut short and handed back to its own
  node, in which case the attempt is one more than the one it replaces.
\<close>

theorem ResolveStart_closed:
  assumes "closed_history rs" "map Seq rs = [1..<Suc (length rs)]"
  shows "\<exists>st. ResolveStart rs = Inr st \<and>
    SNode st = (case last_finished rs of None \<Rightarrow> FirstNode | Some f \<Rightarrow> Next f) \<and>
    SAttempt st = (case last_finished rs of None \<Rightarrow> 1
      | Some f \<Rightarrow> if Interrupted f then wrap64 (Attempt f + 1) else 1) \<and>
    (State st = RunStatePaused \<longleftrightarrow> (\<exists>h r. rs = h @ [r] \<and> Event r = EventRunPaused)) \<and>
    (State st = RunStateRunnable \<longleftrightarrow>
       \<not> (\<exists>h r. rs = h @ [r] \<and> Event r \<in> {EventRunPaused, EventRunCompleted, EventRunFailed, EventRunAborted}))"
proof -
  obtain s where s: "scan rs = Inr s" "open_node s = None" using scan_closed [OF assms] by auto
  from scan_inv [OF s(1)] have l: "lastFinished s = last_finished rs" by (simp add: scan_inv_def)
  show ?thesis
  proof (cases rs rule: rev_cases)
    case Nil
    with s l show ?thesis by (simp add: ResolveStart_def)
  next
    case (snoc h r)
    with s l show ?thesis
      by (cases "Event r") (auto simp: ResolveStart_def simp del: last_finished_snoc split: option.splits)
  qed
qed

theorem ResolveStart_heal_witness:
  "ResolveStart [Record0\<lparr>Event := EventNodeStarted, RNode := ''plan'', Attempt := 1, Seq := 1\<rparr>,
     Record0\<lparr>Event := EventNodeFinished, RNode := ''plan'', Attempt := 1, Seq := 2, Status := StatusAborted, Next := ''plan''\<rparr>] =
   ResolveStart [Record0\<lparr>Event := EventNodeStarted, RNode := ''plan'', Attempt := 1, Seq := 1\<rparr>]"
  using ResolveStart_heal [of "[Record0\<lparr>Event := EventNodeStarted, RNode := ''plan'', Attempt := 1, Seq := 1\<rparr>]"
      "Record0\<lparr>Event := EventNodeStarted, RNode := ''plan'', Attempt := 1, Seq := 1\<rparr>"
      "Record0\<lparr>Event := EventNodeFinished, RNode := ''plan'', Attempt := 1, Seq := 2, Status := StatusAborted, Next := ''plan''\<rparr>"]
  by (simp add: Interrupted_def open_history_def closed_history.empty)

theorem ResolveStart_closed_witness:
  "\<exists>st. ResolveStart [Record0\<lparr>Event := EventRunStarted, Seq := 1\<rparr>] = Inr st \<and> SNode st = FirstNode \<and> SAttempt st = 1"
proof -
  have "closed_history ([] @ [Record0\<lparr>Event := EventRunStarted, Seq := 1\<rparr>])"
    by (intro closed_history.marker closed_history.empty) (simp add: nodeScoped_def)
  then show ?thesis
    using ResolveStart_closed [of "[Record0\<lparr>Event := EventRunStarted, Seq := 1\<rparr>]"]
    by (auto simp: last_finished_def)
qed

section \<open>Visits\<close>

definition started_count :: "JRecord list \<Rightarrow> int" where
  "started_count rs = int (length (filter (\<lambda>r. Event r = EventNodeStarted) rs))"

lemma started_count_simps [simp]:
  "started_count [] = 0"
  "started_count (rs @ [r]) = started_count rs + (if Event r = EventNodeStarted then 1 else 0)"
  by (simp_all add: started_count_def)

lemma started_count_le: "0 \<le> started_count rs" "started_count rs \<le> int (length rs)"
  by (simp_all add: started_count_def)

definition visits_to :: "string \<Rightarrow> Visit list \<Rightarrow> int" where
  "visits_to n vs = int (length (filter (\<lambda>v. VNode v = n) vs))"

lemma visits_to_simps [simp]:
  "visits_to n [] = 0" "visits_to n (vs @ [v]) = visits_to n vs + (if VNode v = n then 1 else 0)"
  by (simp_all add: visits_to_def)

lemma visits_to_le: "0 \<le> visits_to n vs" "visits_to n vs \<le> int (length vs)"
  by (simp_all add: visits_to_def)

text \<open>The ordinal of each visit counts the visits to its node up to it.\<close>

definition numbered :: "Visit list \<Rightarrow> bool" where
  "numbered vs \<longleftrightarrow> (\<forall>i < length vs. Ordinal (vs ! i) = visits_to (VNode (vs ! i)) (take i vs) + 1)"

lemma numbered_snoc [simp]:
  "numbered []"
  "numbered (vs @ [v]) \<longleftrightarrow> numbered vs \<and> Ordinal v = visits_to (VNode v) vs + 1"
  by (auto simp: numbered_def nth_append all_conj_distrib less_Suc_eq)

definition visits_inv :: "JRecord list \<Rightarrow> visit_state \<Rightarrow> bool" where
  "visits_inv rs s \<longleftrightarrow>
     closedBy s = last_finished rs \<and>
     (visits s = [] \<longleftrightarrow> started_count rs = 0) \<and>
     (\<forall>v \<in> set (visits s). 1 \<le> VExecutions v) \<and>
     (\<Sum>v\<leftarrow>visits s. VExecutions v) = started_count rs \<and>
     sorted_wrt (<) (map StartSeq (visits s)) \<and>
     (\<forall>v \<in> set (visits s). StartSeq v \<le> length rs \<and>
        (\<exists>r \<in> set rs. Event r = EventNodeStarted \<and> Seq r = StartSeq v \<and> RNode r = VNode v)) \<and>
     ordinals s = (\<lambda>n. visits_to n (visits s)) \<and> numbered (visits s)"

lemma upd_last_snoc [simp]: "upd_last f (xs @ [x]) = xs @ [f x]"
  by (simp add: upd_last_def)

lemma length_le_sum: "\<forall>v \<in> set vs. 1 \<le> f v \<Longrightarrow> int (length vs) \<le> (\<Sum>v\<leftarrow>vs. f v)"
  by (induction vs) auto

lemma started_before_finished:
  "is_ok (scan rs) \<Longrightarrow> last_finished rs = Some f \<Longrightarrow> 0 < started_count rs"
proof (induction rs rule: rev_induct)
  case (snoc r rs)
  then obtain u t where u: "scan rs = Inr u" "scan_step r u = Inr t"
    by (auto simp: scan_snoc is_ok_iff bind_result_Inr_iff)
  show ?case
  proof (cases "Event r = EventNodeFinished")
    case True
    then obtain d where "open_node u = Some d" using u(2) by (auto simp: scan_step_Inr split: option.splits)
    with scan_inv [OF u(1)] have "open_history rs d" by (simp add: scan_inv_def)
    then obtain h where "rs = h @ [d]" "Event d = EventNodeStarted" by (auto simp: open_history_def)
    then show ?thesis using started_count_le(1) [of h] True started_count_simps(2) [of "h @ [d]" r] by simp
  next
    case False
    then show ?thesis using snoc u by simp
  qed
qed simp

lemma Visits_step_inv:
  assumes inv: "visits_inv rs s" and scan: "scan (rs @ [r]) = Inr t" and len: "int (length rs) < 2 ^ 63 - 1"
  shows "visits_inv (rs @ [r]) (Visits_step r s)"
proof -
  obtain u where u: "scan rs = Inr u" "scan_step r u = Inr t"
    using scan by (auto simp: scan_snoc bind_result_Inr_iff)
  from scan_inv [OF u(1)] have su: "prevSeq u = length rs"
    "case open_node u of None \<Rightarrow> closed_history rs | Some d \<Rightarrow> open_history rs d"
    by (simp_all add: scan_inv_def)
  have seq: "Seq r = Suc (length rs)" using u(2) su by (simp add: scan_step_Inr)
  have n: "int (length (visits s)) \<le> started_count rs"
    using inv length_le_sum [of "visits s" VExecutions] by (simp add: visits_inv_def)
  have vt: "in64 (visits_to m (visits s) + 1)" for m
    using n visits_to_le [of m "visits s"] started_count_le [of rs] len by (auto simp: in64_def)
  consider (start) "Event r = EventNodeStarted" | (finish) "Event r = EventNodeFinished"
    | (other) "Event r \<noteq> EventNodeStarted" "Event r \<noteq> EventNodeFinished" by blast
  then show ?thesis
  proof cases
    case start
    show ?thesis
    proof (cases "case closedBy s of Some c \<Rightarrow> continuesVisit c (RNode r) | None \<Rightarrow> False")
      case True
      then obtain f where "last_finished rs = Some f" using inv by (auto simp: visits_inv_def split: option.splits)
      then have "started_count rs \<noteq> 0"
        using u(1) started_before_finished [of rs] by (auto simp: is_ok_iff)
      then obtain vs v where vs: "visits s = vs @ [v]"
        using inv by (cases "visits s" rule: rev_cases) (auto simp: visits_inv_def)
      have "0 \<le> (\<Sum>v\<leftarrow>vs. VExecutions v)"
        using inv vs length_le_sum [of vs VExecutions] by (simp add: visits_inv_def)
      then have "in64 (VExecutions v + 1)"
        using inv vs started_count_le [of rs] len by (auto simp: visits_inv_def in64_def)
      then show ?thesis using inv start True vs
        by (auto simp: visits_inv_def Visits_step_def seq visits_to_def fun_eq_iff started_count_def)
    next
      case False
      then show ?thesis using inv start seq vt started_count_le(1) [of rs]
        by (auto simp: visits_inv_def Visits_step_def Let_def fun_eq_iff sorted_wrt_append)
    qed
  next
    case finish
    then obtain d where "open_history rs d" using u(2) su by (auto simp: scan_step_Inr split: option.splits)
    then obtain h where "rs = h @ [d]" "Event d = EventNodeStarted" by (auto simp: open_history_def)
    then have "started_count rs \<noteq> 0" using started_count_le(1) [of h] by simp
    then obtain vs v where vs: "visits s = vs @ [v]"
      using inv by (cases "visits s" rule: rev_cases) (auto simp: visits_inv_def)
    then show ?thesis using inv finish
      by (auto simp: visits_inv_def Visits_step_def visits_to_def fun_eq_iff)
  next
    case other
    then have "Visits_step r s = s" by (cases "Event r") (simp_all add: Visits_step_def)
    then show ?thesis using inv other by (auto simp: visits_inv_def)
  qed
qed

lemma visits_inv:
  "scan rs = Inr t \<Longrightarrow> int (length rs) < 2 ^ 63 \<Longrightarrow>
   visits_inv rs (fold Visits_step rs \<lparr>visits = [], ordinals = (\<lambda>_. 0), closedBy = None\<rparr>)"
proof (induction rs arbitrary: t rule: rev_induct)
  case Nil
  show ?case by (simp add: visits_inv_def)
next
  case (snoc r rs)
  then obtain u where "scan rs = Inr u" by (auto simp: scan_snoc bind_result_Inr_iff)
  with snoc have "visits_inv rs (fold Visits_step rs \<lparr>visits = [], ordinals = (\<lambda>_. 0), closedBy = None\<rparr>)"
    by simp
  from Visits_step_inv [OF this snoc.prems(1)] snoc.prems(2) show ?case by simp
qed

text \<open>
  \<open>Visits\<close> groups a run's executions without losing or inventing one: the executions of the visits
  add up to the node starts of the journal, every visit is named by the start that began it and the
  names increase strictly, and the ordinals number the visits to each node 1, 2, 3, \<dots> in the order
  the run paid them.
\<close>

theorem Visits_partition:
  assumes "Visits rs = Inr vs" "int (length rs) < 2 ^ 63"
  shows "(\<Sum>v\<leftarrow>vs. VExecutions v) = int (length (filter (\<lambda>r. Event r = EventNodeStarted) rs)) \<and>
    sorted_wrt (<) (map StartSeq vs) \<and>
    (\<forall>v \<in> set vs. 1 \<le> VExecutions v \<and>
       (\<exists>r \<in> set rs. Event r = EventNodeStarted \<and> Seq r = StartSeq v \<and> RNode r = VNode v)) \<and>
    (\<forall>i < length vs. Ordinal (vs ! i) =
       int (length (filter (\<lambda>v. VNode v = VNode (vs ! i)) (take i vs))) + 1)"
proof -
  have "is_ok (Validate rs)" using assms(1) by (auto simp: Visits_def bind_result_Inr_iff)
  then have "is_ok (scan rs)" by (simp only: Validate_ok)
  then obtain t where t: "scan rs = Inr t" by (auto simp: is_ok_iff)
  let ?s = "fold Visits_step rs \<lparr>visits = [], ordinals = (\<lambda>_. 0), closedBy = None\<rparr>"
  have "visits_inv rs ?s" by (rule visits_inv [OF t assms(2)])
  moreover have "vs = visits ?s" using assms(1) by (auto simp: Visits_def bind_result_Inr_iff)
  ultimately show ?thesis
    by (simp add: visits_inv_def started_count_def numbered_def visits_to_def)
qed

theorem Visits_partition_witness:
  "Visits [Record0\<lparr>Event := EventNodeStarted, RNode := ''test'', Attempt := 1, Seq := 1\<rparr>] =
     Inr [\<lparr>VNode = ''test'', Ordinal = 1, StartSeq = 1, EndSeq = 0, VExecutions = 1, VStatus = StatusUnknown\<rparr>] \<and>
   (\<Sum>v\<leftarrow>[\<lparr>VNode = ''test'', Ordinal = 1, StartSeq = 1, EndSeq = 0, VExecutions = 1, VStatus = StatusUnknown\<rparr>]. VExecutions v) =
     int (length (filter (\<lambda>r. Event r = EventNodeStarted)
       [Record0\<lparr>Event := EventNodeStarted, RNode := ''test'', Attempt := 1, Seq := 1\<rparr>]))"
proof -
  have v: "Visits [Record0\<lparr>Event := EventNodeStarted, RNode := ''test'', Attempt := 1, Seq := 1\<rparr>] =
     Inr [\<lparr>VNode = ''test'', Ordinal = 1, StartSeq = 1, EndSeq = 0, VExecutions = 1, VStatus = StatusUnknown\<rparr>]"
    by (simp add: Visits_def Validate_def scan_def scan_step_def scan0_def Record0_def Visits_step_def Let_def in64_def)
  from Visits_partition [OF v] v show ?thesis by simp
qed

end
