(* ===== verification/Ledger.thy ===== *)
theory Ledger
  imports Belay "HOL-Library.Multiset"
begin

text \<open>
  internal/budget: the cost ledger (ledger.go), its enforcement points \<open>Check\<close> and
  \<open>CanAfford\<close> (budget.go) and the division of a ceiling between fanout candidates
  (partition.go). Every operation of the package runs under the ledger's mutex, so a
  concurrent history is one of the sequences of operations below.
\<close>

section \<open>Micro-dollars\<close>

definition microsPerUSD :: rat where
  "microsPerUSD = 1000000"

fun usdToMicros :: "float64 \<Rightarrow> int" where
  "usdToMicros (Fin usd) =
     (case fl (usd * microsPerUSD) of
        Fin x \<Rightarrow> int64_of_int (roundAway x)
      | _ \<Rightarrow> - (2 ^ 63))"
| "usdToMicros _ = 0"

definition microsToUSD :: "int \<Rightarrow> float64" where
  "microsToUSD micros =
     (case fl (of_int micros) of Fin x \<Rightarrow> fl (x / microsPerUSD) | y \<Rightarrow> y)"

section \<open>The accumulator\<close>

record totals =
  inputTokens :: int
  outputTokens :: int
  micros :: int
  estimated :: bool

definition totals0 :: totals where
  "totals0 = \<lparr>inputTokens = 0, outputTokens = 0, micros = 0, estimated = False\<rparr>"

definition totals_add :: "usage \<Rightarrow> totals \<Rightarrow> totals" where
  "totals_add u t = \<lparr>
     inputTokens = wrap64 (inputTokens t + InputTokens u),
     outputTokens = wrap64 (outputTokens t + OutputTokens u),
     micros = wrap64 (micros t + usdToMicros (USD u)),
     estimated = (estimated t \<or> Estimated u)\<rparr>"

definition atLeast :: "totals \<Rightarrow> totals \<Rightarrow> totals" where
  "atLeast least t = \<lparr>
     inputTokens = max (inputTokens t) (inputTokens least),
     outputTokens = max (outputTokens t) (outputTokens least),
     micros = max (micros t) (micros least),
     estimated = (estimated t \<or> estimated least)\<rparr>"

definition totals_usage :: "totals \<Rightarrow> usage" where
  "totals_usage t = \<lparr>InputTokens = inputTokens t, OutputTokens = outputTokens t,
     USD = microsToUSD (micros t), Estimated = estimated t\<rparr>"

section \<open>The ledger\<close>

record Ledger =
  nodes :: "string \<rightharpoonup> totals"
  order :: "string list"
  total :: totals
  largest :: totals

definition New :: Ledger where
  "New = \<lparr>nodes = Map.empty, order = [], total = totals0, largest = totals0\<rparr>"

text \<open>\<open>entry\<close> returns a pointer into the map, creating it in first-seen order; here the ledger
  with the entry present is returned, and the caller updates the entry through the map.\<close>

definition Ledger_entry :: "string \<Rightarrow> Ledger \<Rightarrow> Ledger" where
  "Ledger_entry node l =
     (case nodes l node of
        Some _ \<Rightarrow> l
      | None \<Rightarrow> l\<lparr>nodes := (nodes l)(node \<mapsto> totals0), order := order l @ [node]\<rparr>)"

definition RecordSum :: "string \<Rightarrow> usage \<Rightarrow> Ledger \<Rightarrow> Ledger" where
  "RecordSum node u l =
     (let l = Ledger_entry node l in
      l\<lparr>nodes := (nodes l)(node := map_option (totals_add u) (nodes l node)),
        total := totals_add u (total l)\<rparr>)"

definition Record :: "string \<Rightarrow> usage \<Rightarrow> Ledger \<Rightarrow> Ledger" where
  "Record node u l =
     (let l = Ledger_entry node l;
          l = l\<lparr>nodes := (nodes l)(node := map_option (totals_add u) (nodes l node)),
                total := totals_add u (total l)\<rparr>;
          call = totals_add u totals0
      in l\<lparr>largest := atLeast call (largest l)\<rparr>)"

definition Of :: "Ledger \<Rightarrow> string \<Rightarrow> usage" where
  "Of l node = (case nodes l node of Some t \<Rightarrow> totals_usage t | None \<Rightarrow> zeroUsage)"

definition Unrecorded :: "Ledger \<Rightarrow> string \<Rightarrow> usage \<Rightarrow> usage" where
  "Unrecorded l node cumulative =
     (let seen = (case nodes l node of Some t \<Rightarrow> t | None \<Rightarrow> totals0) in
      \<lparr>InputTokens = max 0 (wrap64 (InputTokens cumulative - inputTokens seen)),
       OutputTokens = max 0 (wrap64 (OutputTokens cumulative - outputTokens seen)),
       USD = microsToUSD (max 0 (wrap64 (usdToMicros (USD cumulative) - micros seen))),
       Estimated = Estimated cumulative\<rparr>)"

text \<open>\<open>Without\<close> copies the ledger node by node, in order, leaving one node out.\<close>

definition Without_step :: "string \<Rightarrow> Ledger \<Rightarrow> string \<Rightarrow> Ledger \<Rightarrow> Ledger" where
  "Without_step node l name out =
     (let t = (case nodes l name of Some t \<Rightarrow> t | None \<Rightarrow> totals0) in
      if name = node
      then out\<lparr>total := (total out)\<lparr>
             inputTokens := wrap64 (inputTokens (total out) - inputTokens t),
             outputTokens := wrap64 (outputTokens (total out) - outputTokens t),
             micros := wrap64 (micros (total out) - micros t)\<rparr>\<rparr>
      else out\<lparr>nodes := (nodes out)(name \<mapsto> t), order := order out @ [name]\<rparr>)"

definition Without :: "string \<Rightarrow> Ledger \<Rightarrow> Ledger" where
  "Without node l =
     fold (Without_step node l) (order l) (New\<lparr>total := total l, largest := largest l\<rparr>)"

definition Ledger_Total :: "Ledger \<Rightarrow> usage" where
  "Ledger_Total l = totals_usage (total l)"

definition Ledger_Largest :: "Ledger \<Rightarrow> usage" where
  "Ledger_Largest l = totals_usage (largest l)"

record NodeUsage =
  Node :: string
  Usage :: usage
  Sum :: bool

definition Breakdown :: "Ledger \<Rightarrow> NodeUsage list" where
  "Breakdown l = map (\<lambda>name. \<lparr>Node = name,
      Usage = (case nodes l name of Some t \<Rightarrow> totals_usage t | None \<Rightarrow> zeroUsage),
      Sum = False\<rparr>) (order l)"

record Snapshot =
  Snap_LimitUSD :: float64
  Snap_SpentUSD :: float64
  Snap_TokensIn :: int
  Snap_TokensOut :: int
  Snap_Estimated :: bool

definition Ledger_Snapshot :: "Ledger \<Rightarrow> float64 \<Rightarrow> Snapshot" where
  "Ledger_Snapshot l limitUSD =
     (let u = totals_usage (total l) in
      \<lparr>Snap_LimitUSD = limitUSD, Snap_SpentUSD = USD u, Snap_TokensIn = InputTokens u,
       Snap_TokensOut = OutputTokens u, Snap_Estimated = Estimated u\<rparr>)"

definition snapshot_totals :: "Snapshot \<Rightarrow> totals" where
  "snapshot_totals snap = \<lparr>inputTokens = Snap_TokensIn snap, outputTokens = Snap_TokensOut snap,
     micros = usdToMicros (Snap_SpentUSD snap), estimated = Snap_Estimated snap\<rparr>"

definition Restore :: "Snapshot \<Rightarrow> Ledger" where
  "Restore snap = New\<lparr>total := snapshot_totals snap\<rparr>"

definition Rebuild_entry :: "NodeUsage \<Rightarrow> Ledger \<Rightarrow> Ledger" where
  "Rebuild_entry e l = (if Sum e then RecordSum (Node e) (Usage e) l else Record (Node e) (Usage e) l)"

definition Rebuild :: "NodeUsage list \<Rightarrow> Snapshot \<Rightarrow> Ledger" where
  "Rebuild entries least =
     (let l = fold Rebuild_entry entries New in
      l\<lparr>total := atLeast (snapshot_totals least) (total l)\<rparr>)"

section \<open>Enforcement\<close>

text \<open>The budget section of the configuration (internal/config); \<open>OnExceed\<close> is a string type
  there, and only the spelling \<open>warn\<close> is treated differently.\<close>

record BudgetConfig =
  MaxUSD :: float64
  MaxTokens :: int
  OnExceed :: string

definition OnExceedAbort :: string where "OnExceedAbort = ''abort''"
definition OnExceedWarn :: string where "OnExceedWarn = ''warn''"

text \<open>\<open>None\<close> is the nil error. The warning the code logs is no result and is left out.\<close>

definition Check :: "Ledger \<Rightarrow> BudgetConfig \<Rightarrow> BudgetError option" where
  "Check l cfg =
     (let spentMicros = micros (total l);
          tokens = wrap64 (inputTokens (total l) + outputTokens (total l));
          limitMicros = usdToMicros (MaxUSD cfg);
          overUSD = (limitMicros > 0 \<and> spentMicros > limitMicros);
          overTokens = (MaxTokens cfg > 0 \<and> tokens > MaxTokens cfg)
      in if \<not> overUSD \<and> \<not> overTokens then None
         else if OnExceed cfg = OnExceedWarn then None
         else Some \<lparr>SpentUSD = microsToUSD spentMicros, LimitUSD = MaxUSD cfg\<rparr>)"

definition CanAfford :: "Ledger \<Rightarrow> int \<Rightarrow> usage \<Rightarrow> BudgetConfig \<Rightarrow> BudgetError option" where
  "CanAfford l n projected cfg =
     (if n \<le> 0 then None
      else let spentMicros = micros (total l);
               tokens = wrap64 (inputTokens (total l) + outputTokens (total l));
               projMicros = wrap64 (usdToMicros (USD projected) * n);
               projTokens = wrap64 (wrap64 (InputTokens projected + OutputTokens projected) * n);
               limitMicros = usdToMicros (MaxUSD cfg)
           in if limitMicros > 0 \<and> wrap64 (spentMicros + projMicros) > limitMicros
              then Some \<lparr>SpentUSD = microsToUSD (wrap64 (spentMicros + projMicros)), LimitUSD = MaxUSD cfg\<rparr>
              else if MaxTokens cfg > 0 \<and> wrap64 (tokens + projTokens) > MaxTokens cfg
              then Some \<lparr>SpentUSD = microsToUSD spentMicros, LimitUSD = MaxUSD cfg\<rparr>
              else None)"

section \<open>Partition\<close>

datatype partition_error = ErrNoCandidates | ErrNoCeiling | Exhausted BudgetError

definition Partition :: "Snapshot \<Rightarrow> BudgetConfig \<Rightarrow> int \<Rightarrow> (partition_error, float64 \<times> int) result" where
  "Partition spent cfg n =
     (if n \<le> 0 then Inl ErrNoCandidates
      else let limitMicros = usdToMicros (MaxUSD cfg) in
      if limitMicros \<le> 0 then Inl ErrNoCeiling
      else let exhausted = \<lparr>SpentUSD = Snap_SpentUSD spent, LimitUSD = MaxUSD cfg\<rparr>;
               shareMicros = quot64 (wrap64 (limitMicros - usdToMicros (Snap_SpentUSD spent))) n
      in if shareMicros \<le> 0 then Inl (Exhausted exhausted)
      else if MaxTokens cfg > 0
      then let shareTokens =
                 quot64 (wrap64 (wrap64 (MaxTokens cfg - Snap_TokensIn spent) - Snap_TokensOut spent)) n
           in if shareTokens \<le> 0 then Inl (Exhausted exhausted)
              else Inr (microsToUSD shareMicros, shareTokens)
      else Inr (microsToUSD shareMicros, 0))"

text \<open>\<open>raise\<close>; zero or less reads as no ceiling, the higher of the two.\<close>

definition raise_ceiling :: "int \<Rightarrow> int \<Rightarrow> int" where
  "raise_ceiling persisted share = (if persisted \<le> 0 \<or> share \<le> 0 then 0 else max persisted share)"

definition PartitionAtLeast ::
  "float64 \<Rightarrow> int \<Rightarrow> Snapshot \<Rightarrow> BudgetConfig \<Rightarrow> int \<Rightarrow> float64 \<times> int" where
  "PartitionAtLeast persistedUSD persistedTokens spent cfg n =
     (case Partition spent cfg n of
        Inl _ \<Rightarrow> (persistedUSD, persistedTokens)
      | Inr (shareUSD, shareTokens) \<Rightarrow>
          (microsToUSD (raise_ceiling (usdToMicros persistedUSD) (usdToMicros shareUSD)),
           raise_ceiling persistedTokens shareTokens))"

section \<open>Money: one rounding per conversion\<close>

lemma pow2_64: "pow2 64 = 2 ^ 64" "pow2 (- 64) = 1 / 2 ^ 64"
  by (simp_all add: pow2_def)

lemma in_rangeI: "1 / 2 ^ 64 \<le> a \<Longrightarrow> a \<le> 2 ^ 64 \<Longrightarrow> in_range a"
  using pow2_mono [of "- 1022" "- 64"] pow2_mono [of 64 1023]
  unfolding in_range_def pow2_64 by linarith

lemma microsToUSD_neg:
  "microsToUSD (- m) = (case microsToUSD m of Fin x \<Rightarrow> Fin (- x) | PInf \<Rightarrow> NInf | NInf \<Rightarrow> PInf | NaN \<Rightarrow> NaN)"
proof -
  have "fl (rat_of_int (- m)) = (case fl (rat_of_int m) of Fin x \<Rightarrow> Fin (- x) | PInf \<Rightarrow> NInf | NInf \<Rightarrow> PInf | NaN \<Rightarrow> NaN)"
    using fl_neg [of "rat_of_int m"] by simp
  moreover have "fl (- x / microsPerUSD) = (case fl (x / microsPerUSD) of Fin y \<Rightarrow> Fin (- y) | PInf \<Rightarrow> NInf | NInf \<Rightarrow> PInf | NaN \<Rightarrow> NaN)" for x
    using fl_neg [of "x / microsPerUSD"] by simp
  ultimately show ?thesis
    by (simp add: microsToUSD_def split: float64.split)
qed

lemma micros_chain:
  assumes m: "0 < m" "m \<le> 2 ^ 50"
  shows "\<exists>x y z. fl (of_int m) = Fin x \<and> fl (x / microsPerUSD) = Fin y \<and>
           fl (y * microsPerUSD) = Fin z \<and> \<bar>z - of_int m\<bar> < 1/2"
proof -
  let ?m = "rat_of_int m"
  have m1: "1 \<le> ?m" "?m \<le> 2 ^ 50"
    using m of_int_le_iff [of m "2 ^ 50", where 'a = rat] by simp_all
  obtain x where x: "fl ?m = Fin x" "\<bar>x - ?m\<bar> \<le> ?m / 2 ^ 53"
    using fl_pos [of ?m] in_rangeI [of ?m] m1 by auto
  from relative_bounds [OF x(2)] have xb: "1/2 \<le> x" "x \<le> 2 ^ 51"
    using m1 by simp_all
  obtain y where y: "fl (x / microsPerUSD) = Fin y"
      "\<bar>y - x / microsPerUSD\<bar> \<le> x / microsPerUSD / 2 ^ 53"
    using fl_pos [of "x / microsPerUSD"] in_rangeI [of "x / microsPerUSD"] xb
    by (auto simp: microsPerUSD_def)
  then have y2: "\<bar>y * microsPerUSD - x\<bar> \<le> x / 2 ^ 53"
    by (simp add: microsPerUSD_def abs_le_iff field_simps)
  from relative_bounds [OF y2] have yb: "1/4 \<le> y * microsPerUSD" "y * microsPerUSD \<le> 2 ^ 52"
    using xb by simp_all
  obtain z where z: "fl (y * microsPerUSD) = Fin z"
      "\<bar>z - y * microsPerUSD\<bar> \<le> y * microsPerUSD / 2 ^ 53"
    using fl_pos [of "y * microsPerUSD"] in_rangeI [of "y * microsPerUSD"] yb by auto
  have e1: "\<bar>x - ?m\<bar> \<le> 1/8" using x(2) m1 by simp
  then have "x \<le> 2 ^ 50 + 1/8" using m1 by linarith
  then have "x / 2 ^ 53 \<le> 1/7" by simp
  then have e2: "\<bar>y * microsPerUSD - x\<bar> \<le> 1/7" using y2 by linarith
  then have "y * microsPerUSD \<le> 2 ^ 50 + 1/2" using e1 m1 by linarith
  then have "y * microsPerUSD / 2 ^ 53 \<le> 1/7" by simp
  then have "\<bar>z - y * microsPerUSD\<bar> \<le> 1/7" using z(2) by linarith
  then have "\<bar>z - ?m\<bar> < 1/2" using e1 e2 by linarith
  with x y z show ?thesis by blast
qed

lemma in64_small: "\<bar>m\<bar> \<le> 2 ^ 62 \<Longrightarrow> in64 m"
  by (auto simp: in64_def abs_le_iff)

lemma usdToMicros_neg:
  "is_finite (fl (q * microsPerUSD)) \<Longrightarrow> \<bar>usdToMicros (Fin q)\<bar> < 2 ^ 63 \<Longrightarrow>
   usdToMicros (Fin (- q)) = - usdToMicros (Fin q)"
  using fl_neg [of "q * microsPerUSD"]
  by (cases "fl (q * microsPerUSD)")
     (auto simp: roundAway_neg int64_of_int_def in64_def split: if_splits)

lemma usd_roundtrip_pos:
  assumes "0 < m" "m \<le> 2 ^ 50" shows "usdToMicros (microsToUSD m) = m"
    and "\<exists>q. microsToUSD m = Fin q \<and> is_finite (fl (q * microsPerUSD))"
  using micros_chain [OF assms] in64_small [of m] assms
  by (auto simp: microsToUSD_def roundAway_near)

text \<open>
  C37. The money boundary loses nothing: converting an accumulated amount of micro-dollars to the
  \<open>float64\<close> the manifest stores and back gives the same amount, for every amount up to
  \<open>2 ^ 50\<close> micro-dollars (more than a billion dollars), negative ones included.
\<close>

theorem usd_roundtrip:
  assumes "\<bar>m\<bar> \<le> 2 ^ 50" shows "usdToMicros (microsToUSD m) = m"
proof -
  consider "0 < m" | "m = 0" | "0 < - m" by linarith
  then show ?thesis
  proof cases
    case 1 with assms show ?thesis by (simp add: usd_roundtrip_pos)
  next
    case 2 then show ?thesis by (simp add: microsToUSD_def)
  next
    case 3
    with assms have le: "- m \<le> 2 ^ 50" by simp
    from usd_roundtrip_pos(2) [OF 3 le] obtain q where
      q: "microsToUSD (- m) = Fin q" "is_finite (fl (q * microsPerUSD))" by blast
    have "microsToUSD (- (- m)) = Fin (- q)" using microsToUSD_neg [of "- m"] q by simp
    moreover have "usdToMicros (Fin q) = - m" using usd_roundtrip_pos(1) [OF 3 le] q by simp
    ultimately show ?thesis using usdToMicros_neg [OF q(2)] assms by simp
  qed
qed

theorem usd_roundtrip_witness: "usdToMicros (microsToUSD 1234567) = 1234567"
  by (rule usd_roundtrip) simp

lemma usdToMicros_error:
  assumes q: "q = 0 \<or> 1 / 2 ^ 40 \<le> q" "q \<le> 2 ^ 40"
  shows "\<bar>of_int (usdToMicros (Fin q)) - q * microsPerUSD\<bar> \<le> 1/2 + q * microsPerUSD / 2 ^ 53"
proof (cases "q = 0")
  case False
  define p where "p = q * microsPerUSD"
  have p: "1 / 2 ^ 40 \<le> p" "p \<le> 2 ^ 60"
    using q False by (simp_all add: p_def microsPerUSD_def)
  obtain x where x: "fl p = Fin x" "\<bar>x - p\<bar> \<le> p / 2 ^ 53"
    using fl_pos [of p] in_rangeI [of p] p by auto
  have x0: "0 \<le> x" "x \<le> 2 ^ 61"
    using relative_bounds [OF x(2)] p by simp_all
  have f: "roundAway x = \<lfloor>x + 1/2\<rfloor>" using x0 by (simp add: roundAway_def)
  then have r: "\<bar>of_int (roundAway x) - x\<bar> \<le> 1/2" by linarith
  have "0 \<le> roundAway x" using x0 by (simp add: roundAway_def)
  moreover have "roundAway x \<le> 2 ^ 62" using x0 by (simp add: f floor_le_iff)
  ultimately have "in64 (roundAway x)" by (simp add: in64_def)
  then have "usdToMicros (Fin q) = roundAway x" using x(1) by (simp add: p_def)
  then show ?thesis using r x(2) unfolding p_def [symmetric] by linarith
qed simp

section \<open>Order independence\<close>

lemma totals_add_commute: "totals_add u (totals_add v t) = totals_add v (totals_add u t)"
  by (auto simp: totals_add_def algebra_simps)

lemma atLeast_commute: "atLeast a (atLeast b t) = atLeast b (atLeast a t)"
  by (auto simp: atLeast_def max_def)

text \<open>What a ledger says to its readers apart from the order of its breakdown.\<close>

definition ledger_view :: "Ledger \<Rightarrow> (string \<rightharpoonup> totals) \<times> totals \<times> totals" where
  "ledger_view l = (nodes l, total l, largest l)"

definition node_add :: "usage \<Rightarrow> totals option \<Rightarrow> totals option" where
  "node_add u t = Some (totals_add u (case t of Some t \<Rightarrow> t | None \<Rightarrow> totals0))"

lemma Record_simps [simp]:
  "nodes (Record n u l) = (nodes l)(n := node_add u (nodes l n))"
  "total (Record n u l) = totals_add u (total l)"
  "largest (Record n u l) = atLeast (totals_add u totals0) (largest l)"
  "order (Record n u l) = (if nodes l n = None then order l @ [n] else order l)"
  by (auto simp: Record_def Ledger_entry_def Let_def node_add_def split: option.splits)

lemma RecordSum_simps [simp]:
  "nodes (RecordSum n u l) = (nodes l)(n := node_add u (nodes l n))"
  "total (RecordSum n u l) = totals_add u (total l)"
  "largest (RecordSum n u l) = largest l"
  "order (RecordSum n u l) = (if nodes l n = None then order l @ [n] else order l)"
  by (auto simp: RecordSum_def Ledger_entry_def Let_def node_add_def split: option.splits)

lemma Rebuild_entry_simps [simp]:
  "nodes (Rebuild_entry e l) = (nodes l)(Node e := node_add (Usage e) (nodes l (Node e)))"
  "total (Rebuild_entry e l) = totals_add (Usage e) (total l)"
  "largest (Rebuild_entry e l) =
     (if Sum e then largest l else atLeast (totals_add (Usage e) totals0) (largest l))"
  "order (Rebuild_entry e l) = (if nodes l (Node e) = None then order l @ [Node e] else order l)"
  by (simp_all add: Rebuild_entry_def)

lemma node_add_commute: "node_add u (node_add v t) = node_add v (node_add u t)"
  by (simp add: node_add_def totals_add_commute)

interpretation charges: order_free Rebuild_entry ledger_view
proof (unfold_locales, goal_cases)
  case (1 s t x)
  then show ?case by (simp add: ledger_view_def)
next
  case (2 x y s)
  show ?case
    by (auto simp: ledger_view_def fun_eq_iff node_add_commute totals_add_commute atLeast_commute)
qed

text \<open>
  The ledger does not depend on the order concurrent candidates report in: any two orders of
  the same reports give the same per-node totals, the same grand total and the same largest step,
  wrap-around included.
\<close>

theorem ledger_order_independent:
  assumes "mset entries = mset entries'"
  shows "ledger_view (Rebuild entries least) = ledger_view (Rebuild entries' least)"
  using charges.view_fold_mset [OF assms, of New]
  by (simp add: Rebuild_def Let_def ledger_view_def)

theorem ledger_order_independent_witness:
  "ledger_view (Rebuild [\<lparr>Node = ''a'', Usage = zeroUsage, Sum = False\<rparr>,
                         \<lparr>Node = ''b'', Usage = zeroUsage, Sum = True\<rparr>] (Ledger_Snapshot New (Fin 5))) =
   ledger_view (Rebuild [\<lparr>Node = ''b'', Usage = zeroUsage, Sum = True\<rparr>,
                         \<lparr>Node = ''a'', Usage = zeroUsage, Sum = False\<rparr>] (Ledger_Snapshot New (Fin 5)))"
  by (rule ledger_order_independent) simp

declare usdToMicros.simps [simp del]

section \<open>Accumulated error\<close>

text \<open>
  The exact sum of the contributions, against which the integer total is compared.
\<close>

fun dollars :: "float64 \<Rightarrow> rat" where
  "dollars (Fin q) = q"
| "dollars _ = 0"

definition plausible_cost :: "float64 \<Rightarrow> bool" where
  "plausible_cost x \<longleftrightarrow> (\<exists>q. x = Fin q \<and> (q = 0 \<or> 1 / 2 ^ 40 \<le> q) \<and> q \<le> 2 ^ 20)"

lemma plausible_error:
  assumes "plausible_cost x"
  shows "\<bar>of_int (usdToMicros x) - dollars x * microsPerUSD\<bar> \<le> 1/2 + 1 / 2 ^ 13"
    and "\<bar>usdToMicros x\<bar> \<le> 2 ^ 41"
proof -
  obtain q where x: "x = Fin q" "q = 0 \<or> 1 / 2 ^ 40 \<le> q" "q \<le> 2 ^ 20"
    using assms by (auto simp: plausible_cost_def)
  have e: "\<bar>of_int (usdToMicros x) - q * microsPerUSD\<bar> \<le> 1/2 + q * microsPerUSD / 2 ^ 53"
    unfolding x(1) using x by (intro usdToMicros_error) simp_all
  have m: "0 \<le> q * microsPerUSD" "q * microsPerUSD \<le> 2 ^ 40"
    using x by (auto simp: microsPerUSD_def)
  then have "q * microsPerUSD / 2 ^ 53 \<le> 1 / 2 ^ 13" by (simp add: field_simps)
  with e have e': "\<bar>of_int (usdToMicros x) - q * microsPerUSD\<bar> \<le> 1/2 + 1 / 2 ^ 13"
    unfolding x(1) by linarith
  then show "\<bar>of_int (usdToMicros x) - dollars x * microsPerUSD\<bar> \<le> 1/2 + 1 / 2 ^ 13"
    by (simp only: x(1) dollars.simps)
  have "\<bar>rat_of_int (usdToMicros x)\<bar> \<le> 2 ^ 40 + 1/2 + 1 / 2 ^ 13"
    using e' m by linarith
  also have "\<dots> \<le> of_int (2 ^ 41)" by simp
  finally show "\<bar>usdToMicros x\<bar> \<le> 2 ^ 41"
    by (simp only: of_int_abs [symmetric] of_int_le_iff)
qed

lemma fold_total: "total (fold Rebuild_entry es l) = fold (totals_add \<circ> Usage) es (total l)"
  by (induction es arbitrary: l) simp_all

lemma fold_micros:
  "micros (fold (totals_add \<circ> Usage) es t) = wrap64 (micros t + (\<Sum>e\<leftarrow>es. usdToMicros (USD (Usage e))))
   \<or> es = []"
proof (induction es arbitrary: t)
  case (Cons e es)
  show ?case using Cons.IH [of "totals_add (Usage e) t"]
    by (auto simp: totals_add_def algebra_simps)
qed simp

lemma sum_costs_bound:
  "\<forall>e \<in> set es. plausible_cost (USD (Usage e)) \<Longrightarrow>
   \<bar>\<Sum>e\<leftarrow>es. usdToMicros (USD (Usage e))\<bar> \<le> int (length es) * 2 ^ 41"
proof (induction es)
  case (Cons e es)
  then have "\<bar>usdToMicros (USD (Usage e))\<bar> \<le> 2 ^ 41" by (intro plausible_error(2)) simp
  with Cons show ?case by simp
qed simp

lemma sum_costs_error:
  "\<forall>e \<in> set es. plausible_cost (USD (Usage e)) \<Longrightarrow>
   \<bar>of_int (\<Sum>e\<leftarrow>es. usdToMicros (USD (Usage e))) - (\<Sum>e\<leftarrow>es. dollars (USD (Usage e))) * microsPerUSD\<bar>
     \<le> of_nat (length es) * (1/2 + 1 / 2 ^ 13)"
proof (induction es)
  case (Cons e es)
  have "\<bar>of_int (usdToMicros (USD (Usage e))) - dollars (USD (Usage e)) * microsPerUSD\<bar> \<le> 1/2 + 1 / 2 ^ 13"
    using Cons.prems by (intro plausible_error(1)) simp
  from abs_diff_add [OF this Cons.IH] Cons.prems show ?case
    by (simp only: list.map sum_list.Cons of_int_add distrib_right list.size of_nat_add of_nat_1 mult_1
          list.set ball_simps add.commute) simp
qed simp

text \<open>
  Rounding never compounds. After any number of reports up to about a million, each of at most
  about a million dollars, the ledger's integer total differs from the exact sum of the dollars
  reported by at most half a micro-dollar per report (and the part in \<open>2 ^ 13\<close> the one
  floating-point multiplication adds), whatever the reports were.
\<close>

theorem ledger_drift_bounded:
  assumes "\<forall>e \<in> set entries. plausible_cost (USD (Usage e))" "length entries \<le> 2 ^ 20"
  shows "\<bar>of_int (micros (total (fold Rebuild_entry entries New)))
          - (\<Sum>e\<leftarrow>entries. dollars (USD (Usage e))) * microsPerUSD\<bar>
         \<le> of_nat (length entries) * (1/2 + 1 / 2 ^ 13)"
proof -
  let ?s = "\<Sum>e\<leftarrow>entries. usdToMicros (USD (Usage e))"
  have "int (length entries) \<le> 2 ^ 20" using assms(2) by (metis of_nat_le_iff of_nat_numeral of_nat_power)
  then have "int (length entries) * 2 ^ 41 \<le> 2 ^ 61" by simp
  then have "in64 ?s" using sum_costs_bound [OF assms(1)] by (intro in64_small) simp
  then have "micros (total (fold Rebuild_entry entries New)) = ?s"
    using fold_micros [of entries totals0] by (auto simp: fold_total New_def totals0_def)
  then show ?thesis using sum_costs_error [OF assms(1)] by simp
qed

theorem ledger_drift_bounded_witness:
  "\<bar>of_int (micros (total (fold Rebuild_entry [\<lparr>Node = ''plan'', Usage = zeroUsage\<lparr>USD := Fin (1/8)\<rparr>, Sum = False\<rparr>] New)))
    - (\<Sum>e\<leftarrow>[\<lparr>Node = ''plan'', Usage = zeroUsage\<lparr>USD := Fin (1/8)\<rparr>, Sum = False\<rparr>]. dollars (USD (Usage e))) * microsPerUSD\<bar>
   \<le> of_nat (length [\<lparr>Node = ''plan'', Usage = zeroUsage\<lparr>USD := Fin (1/8)\<rparr>, Sum = False\<rparr>]) * (1/2 + 1 / 2 ^ 13)"
  by (rule ledger_drift_bounded) (simp_all add: plausible_cost_def exI [of _ "1/8"])

section \<open>The breakdown and the total\<close>

text \<open>
  The well-formedness of a ledger: the breakdown's order lists every node with an entry once, and
  the per-node entries add up to the grand total.
\<close>

definition node_totals :: "Ledger \<Rightarrow> string \<Rightarrow> totals" where
  "node_totals l n = (case nodes l n of Some t \<Rightarrow> t | None \<Rightarrow> totals0)"

definition ledger_wf :: "Ledger \<Rightarrow> bool" where
  "ledger_wf l \<longleftrightarrow> distinct (order l) \<and> set (order l) = dom (nodes l) \<and>
     micros (total l) = wrap64 (\<Sum>n\<leftarrow>order l. micros (node_totals l n)) \<and>
     inputTokens (total l) = wrap64 (\<Sum>n\<leftarrow>order l. inputTokens (node_totals l n)) \<and>
     outputTokens (total l) = wrap64 (\<Sum>n\<leftarrow>order l. outputTokens (node_totals l n))"

lemma ledger_wf_New [simp]: "ledger_wf New"
  by (simp add: ledger_wf_def New_def totals0_def)

text \<open>Adding \<open>d\<close> to the value of one key of a list of distinct keys adds \<open>d\<close> to the sum.\<close>

lemma sum_list_upd:
  "distinct ns \<Longrightarrow> n \<in> set ns \<Longrightarrow> (\<forall>m \<in> set ns. m \<noteq> n \<longrightarrow> g m = f m) \<Longrightarrow>
   (\<Sum>m\<leftarrow>ns. g m) = (\<Sum>m\<leftarrow>ns. f m) + (g n - f n :: int)"
proof (induction ns)
  case (Cons a ns)
  show ?case
  proof (cases "a = n")
    case True
    then have "map g ns = map f ns" using Cons.prems by (auto intro!: map_cong)
    then have "sum_list (map g ns) = sum_list (map f ns)" by (rule arg_cong)
    with True show ?thesis by simp
  next
    case False
    with Cons show ?thesis by simp
  qed
qed simp

lemma wrap64_sum_upd:
  assumes "distinct ns" "n \<in> set ns" "\<forall>m \<in> set ns. m \<noteq> n \<longrightarrow> g m = f m"
    and "g n = wrap64 (f n + d)"
  shows "wrap64 (\<Sum>m\<leftarrow>ns. g m) = wrap64 (wrap64 (\<Sum>m\<leftarrow>ns. f m) + d)"
proof -
  have "wrap64 (\<Sum>m\<leftarrow>ns. g m) = wrap64 ((\<Sum>m\<leftarrow>ns. f m) - f n + wrap64 (f n + d))"
    using sum_list_upd [OF assms(1,2,3)] assms(4) by (intro arg_cong [of _ _ wrap64]) linarith
  then show ?thesis by simp
qed

lemma node_totals_entry:
  "node_totals (Rebuild_entry e l) n =
     (if n = Node e then totals_add (Usage e) (node_totals l n) else node_totals l n)"
  by (auto simp: node_totals_def node_add_def)

lemma node_totals_new: "nodes l n = None \<Longrightarrow> node_totals l n = totals0"
  by (simp add: node_totals_def)

lemma ledger_wf_entry:
  assumes wf: "ledger_wf l" shows "ledger_wf (Rebuild_entry e l)"
proof -
  let ?l = "Rebuild_entry e l" and ?n = "Node e"
  have d: "distinct (order ?l)" "set (order ?l) = dom (nodes ?l)" "?n \<in> set (order ?l)"
    using wf by (auto simp: ledger_wf_def node_add_def domIff)
  have old: "(\<Sum>m\<leftarrow>order ?l. f (node_totals l m)) = (\<Sum>m\<leftarrow>order l. f (node_totals l m))"
    if "f totals0 = 0" for f :: "totals \<Rightarrow> int"
    using that by (auto simp: node_totals_new)
  have "wrap64 (\<Sum>m\<leftarrow>order ?l. f (node_totals ?l m)) = wrap64 (wrap64 (\<Sum>m\<leftarrow>order l. f (node_totals l m)) + c)"
    if "f totals0 = 0" "\<And>t. f (totals_add (Usage e) t) = wrap64 (f t + c)" for f :: "totals \<Rightarrow> int" and c
  proof -
    have "wrap64 (\<Sum>m\<leftarrow>order ?l. f (node_totals ?l m)) =
          wrap64 (wrap64 (\<Sum>m\<leftarrow>order ?l. f (node_totals l m)) + c)"
      by (rule wrap64_sum_upd [OF d(1,3)]) (use that in \<open>auto simp: node_totals_entry\<close>)
    then show ?thesis using old [of f] that(1) by simp
  qed
  from this [of micros "usdToMicros (USD (Usage e))"] this [of inputTokens "InputTokens (Usage e)"]
    this [of outputTokens "OutputTokens (Usage e)"]
  show ?thesis using wf d by (simp add: ledger_wf_def totals_add_def totals0_def)
qed

lemma ledger_wf_fold: "ledger_wf l \<Longrightarrow> ledger_wf (fold Rebuild_entry es l)"
  by (induction es arbitrary: l) (simp_all add: ledger_wf_entry)

lemma Record_is_entry: "Record n u l = Rebuild_entry \<lparr>Node = n, Usage = u, Sum = False\<rparr> l"
  "RecordSum n u l = Rebuild_entry \<lparr>Node = n, Usage = u, Sum = True\<rparr> l"
  by (simp_all add: Rebuild_entry_def)

text \<open>The ledger a sequence of reports builds from an empty one.\<close>

abbreviation ledger_of :: "NodeUsage list \<Rightarrow> Ledger" where
  "ledger_of entries \<equiv> fold Rebuild_entry entries New"

lemma ledger_wf_of: "ledger_wf (ledger_of es)"
  by (rule ledger_wf_fold) simp

lemma dom_fold: "dom (nodes (fold Rebuild_entry es l)) = dom (nodes l) \<union> Node ` set es"
  by (induction es arbitrary: l) (auto simp: node_add_def)

lemma Breakdown_names: "map Node (Breakdown l) = order l"
  by (simp add: Breakdown_def comp_def)

text \<open>
  The breakdown is the total, split by node: for every history of \<open>Record\<close> and \<open>RecordSum\<close>
  calls, each node that reported appears once, and the per-node figures sum to the grand total in
  every dimension.
\<close>

theorem breakdown_sums_to_total:
  "distinct (map Node (Breakdown (ledger_of entries))) \<and>
   set (map Node (Breakdown (ledger_of entries))) = Node ` set entries \<and>
   micros (total (ledger_of entries)) =
     wrap64 (\<Sum>n\<leftarrow>map Node (Breakdown (ledger_of entries)). micros (node_totals (ledger_of entries) n)) \<and>
   inputTokens (total (ledger_of entries)) =
     wrap64 (\<Sum>n\<leftarrow>map Node (Breakdown (ledger_of entries)). inputTokens (node_totals (ledger_of entries) n)) \<and>
   outputTokens (total (ledger_of entries)) =
     wrap64 (\<Sum>n\<leftarrow>map Node (Breakdown (ledger_of entries)). outputTokens (node_totals (ledger_of entries) n))"
  using ledger_wf_of [of entries] dom_fold [of entries New]
  by (simp only: Breakdown_names ledger_wf_def) (simp add: New_def)

section \<open>Leaving a node out\<close>

text \<open>What \<open>Without\<close> keeps, seen entry by entry.\<close>

lemma Without_fold:
  assumes "distinct ns" "set ns \<subseteq> dom (nodes l)"
  shows "nodes (fold (Without_step node l) ns out) n =
           (if n \<in> set ns \<and> n \<noteq> node then nodes l n else nodes out n)"
    and "order (fold (Without_step node l) ns out) = order out @ filter (\<lambda>n. n \<noteq> node) ns"
    and "largest (fold (Without_step node l) ns out) = largest out"
    and "estimated (total (fold (Without_step node l) ns out)) = estimated (total out)"
  using assms
  by (induction ns arbitrary: out) (auto simp: Without_step_def Let_def split: option.splits)

lemma Without_fold_total:
  assumes "distinct ns" and f: "f \<in> {inputTokens, outputTokens, micros}"
  shows "f (total (fold (Without_step node l) ns out)) =
    (if node \<in> set ns then wrap64 (f (total out) - f (node_totals l node)) else f (total out))"
  using assms
  by (induction ns arbitrary: out) (auto simp: Without_step_def Let_def node_totals_def)

lemma Without_order: "ledger_wf l \<Longrightarrow> order (Without node l) = filter (\<lambda>n. n \<noteq> node) (order l)"
  by (simp add: Without_def Without_fold ledger_wf_def New_def)

lemma Without_nodes: "ledger_wf l \<Longrightarrow> nodes (Without node l) = (nodes l)(node := None)"
  by (auto simp: Without_def Without_fold ledger_wf_def New_def fun_eq_iff domIff)

lemma Without_total:
  assumes "ledger_wf l" "f \<in> {inputTokens, outputTokens, micros}"
  shows "f (total (Without node l)) =
    (if node \<in> dom (nodes l) then wrap64 (f (total l) - f (node_totals l node)) else f (total l))"
  using assms Without_fold_total [of "order l" f node l "New\<lparr>total := total l, largest := largest l\<rparr>"]
  by (simp add: Without_def ledger_wf_def)

text \<open>\<open>left_out n l k\<close>: \<open>k\<close> is \<open>l\<close> with the charges of \<open>n\<close> taken out. Every report keeps it,
  reported to \<open>k\<close> only when it is not for \<open>n\<close>.\<close>

definition left_out :: "string \<Rightarrow> Ledger \<Rightarrow> Ledger \<Rightarrow> bool" where
  "left_out n l k \<longleftrightarrow> nodes k = (nodes l)(n := None) \<and> order k = filter (\<lambda>m. m \<noteq> n) (order l) \<and>
     inputTokens (total k) = wrap64 (inputTokens (total l) - inputTokens (node_totals l n)) \<and>
     outputTokens (total k) = wrap64 (outputTokens (total l) - outputTokens (node_totals l n)) \<and>
     micros (total k) = wrap64 (micros (total l) - micros (node_totals l n))"

lemma wrap64_diff_same: "wrap64 (wrap64 (a + c) - wrap64 (b + c)) = wrap64 (a - b)"
  by simp

lemma wrap64_add_diff: "wrap64 (wrap64 (a - b) + c) = wrap64 (wrap64 (a + c) - b)"
  by (simp add: algebra_simps)

lemma left_out_entry_same:
  "left_out n l k \<Longrightarrow> Node e = n \<Longrightarrow> left_out n (Rebuild_entry e l) k"
  unfolding left_out_def node_totals_entry
  by (simp add: totals_add_def wrap64_diff_same del: wrap64_diff_left wrap64_diff_right)

lemma left_out_entry_other:
  "left_out n l k \<Longrightarrow> Node e \<noteq> n \<Longrightarrow> left_out n (Rebuild_entry e l) (Rebuild_entry e k)"
  unfolding left_out_def node_totals_entry
  by (simp add: totals_add_def wrap64_add_diff fun_upd_twist
        del: wrap64_diff_left wrap64_diff_right wrap64_add_left)

lemma left_out_fold:
  "left_out n l k \<Longrightarrow> left_out n (fold Rebuild_entry es l) (fold Rebuild_entry (filter (\<lambda>e. Node e \<noteq> n) es) k)"
  by (induction es arbitrary: l k) (auto simp: left_out_entry_same left_out_entry_other)

lemma left_out_Without: "ledger_wf l \<Longrightarrow> (\<forall>f \<in> {inputTokens, outputTokens, micros}. in64 (f (total l))) \<Longrightarrow>
  left_out n l (Without n l)"
  by (auto simp: left_out_def Without_nodes Without_order Without_total node_totals_def totals0_def domIff)

lemma total_in64: "\<forall>f \<in> {inputTokens, outputTokens, micros}. in64 (f (total (ledger_of es)))"
  using ledger_wf_of [of es] by (auto simp: ledger_wf_def)

text \<open>
  \<open>Without\<close> is the run as it would stand had the node never been charged: after any history of
  reports, leaving a node out gives the same entries, the same breakdown order and the same money
  and token totals as the history with every report of that node struck out.
\<close>

theorem Without_as_never_charged:
  "nodes (Without n (ledger_of entries)) = nodes (ledger_of (filter (\<lambda>e. Node e \<noteq> n) entries)) \<and>
   map Node (Breakdown (Without n (ledger_of entries))) =
     map Node (Breakdown (ledger_of (filter (\<lambda>e. Node e \<noteq> n) entries))) \<and>
   micros (total (Without n (ledger_of entries))) =
     micros (total (ledger_of (filter (\<lambda>e. Node e \<noteq> n) entries))) \<and>
   inputTokens (total (Without n (ledger_of entries))) =
     inputTokens (total (ledger_of (filter (\<lambda>e. Node e \<noteq> n) entries))) \<and>
   outputTokens (total (Without n (ledger_of entries))) =
     outputTokens (total (ledger_of (filter (\<lambda>e. Node e \<noteq> n) entries)))"
proof -
  have "left_out n New New" by (auto simp: left_out_def New_def totals0_def node_totals_def)
  from left_out_fold [OF this, of entries] left_out_Without [OF ledger_wf_of total_in64, of n entries]
  show ?thesis by (simp add: Breakdown_names left_out_def)
qed

section \<open>Resuming\<close>

text \<open>What a list of reports adds up to, and the figures of its largest single call: sums and maxima over the list, in 64 bits,
  with no ledger in them.\<close>

definition reports_sum :: "NodeUsage list \<Rightarrow> totals" where
  "reports_sum es = \<lparr>inputTokens = wrap64 (\<Sum>e\<leftarrow>es. InputTokens (Usage e)), outputTokens = wrap64 (\<Sum>e\<leftarrow>es. OutputTokens (Usage e)),
     micros = wrap64 (\<Sum>e\<leftarrow>es. usdToMicros (USD (Usage e))), estimated = (\<exists>e \<in> set es. Estimated (Usage e))\<rparr>"

definition largest_call :: "NodeUsage list \<Rightarrow> totals" where
  "largest_call es = (let calls = filter (\<lambda>e. \<not> Sum e) es in
     \<lparr>inputTokens = Max (insert 0 ((\<lambda>e. wrap64 (InputTokens (Usage e))) ` set calls)),
      outputTokens = Max (insert 0 ((\<lambda>e. wrap64 (OutputTokens (Usage e))) ` set calls)),
      micros = Max (insert 0 ((\<lambda>e. wrap64 (usdToMicros (USD (Usage e)))) ` set calls)),
      estimated = (\<exists>e \<in> set calls. Estimated (Usage e))\<rparr>)"

definition first_seen :: "string list \<Rightarrow> string list" where
  "first_seen ns = rev (remdups (rev ns))"

lemma reports_sum_Nil [simp]: "reports_sum [] = totals0"
  by (simp add: reports_sum_def totals0_def)

lemma reports_sum_snoc: "reports_sum (es @ [e]) = totals_add (Usage e) (reports_sum es)"
  by (auto simp: reports_sum_def totals_add_def)

lemma reports_sum_single [simp]: "reports_sum [e] = totals_add (Usage e) totals0"
  using reports_sum_snoc [of "[]" e] by simp

lemma Max_insert_0: "finite A \<Longrightarrow> Max (insert (0::int) (insert x A)) = max (Max (insert 0 A)) x"
  by (subst insert_commute, subst Max_insert) (auto simp: max.commute)

lemma largest_call_snoc:
  "largest_call (es @ [e]) = (if Sum e then largest_call es else atLeast (totals_add (Usage e) totals0) (largest_call es))"
  by (auto simp: largest_call_def atLeast_def totals_add_def totals0_def Let_def Max_insert_0 simp del: Max.insert)

lemma ledger_of_reports:
  "total (ledger_of es) = reports_sum es" "largest (ledger_of es) = largest_call es"
  "order (ledger_of es) = first_seen (map Node es)"
  "nodes (ledger_of es) n = (if n \<in> Node ` set es then Some (reports_sum (filter (\<lambda>e. Node e = n) es)) else None)"
proof (induction es arbitrary: n rule: rev_induct)
  case Nil
  { case 1 show ?case by (simp add: New_def)
  next case 2 show ?case by (simp add: New_def largest_call_def totals0_def)
  next case 3 show ?case by (simp add: New_def first_seen_def)
  next case 4 show ?case by (simp add: New_def) }
next
  case (snoc e es)
  { case 1 show ?case using snoc.IH(1) by (simp add: reports_sum_snoc)
  next case 2 show ?case using snoc.IH(2) by (simp add: largest_call_snoc)
  next case 3
    have "nodes (ledger_of es) (Node e) = None \<longleftrightarrow> Node e \<notin> set (map Node es)" using snoc.IH(4) [of "Node e"] by auto
    then show ?case using snoc.IH(3) by (simp add: first_seen_def)
  next case 4
    show ?case
    proof (cases "n = Node e")
      case True
      have "filter (\<lambda>e. Node e = n) es = []" if "n \<notin> Node ` set es" using that by (auto simp: filter_empty_conv)
      then show ?thesis using True snoc.IH(4) [of n] by (cases "n \<in> Node ` set es") (simp_all add: node_add_def reports_sum_snoc)
    next
      case False
      then show ?thesis using snoc.IH(4) [of n] by auto
    qed }
qed

text \<open>
  C38. A resumed run never forgets spend. The ledger rebuilt from a journal's reports and the manifest's floor stands, in
  money and in tokens, at the larger of the floor and the sum of what was reported, exactly the sum when the floor lags
  behind it, as it does when a crash lands between the journal append and the manifest save; its breakdown lists every node that
  reported, once, in the order they first did, with the sums of that node's own reports; and the step the next one
  is projected from is the largest single call reported, the summed reports of a candidate left out.
\<close>

theorem Rebuild_covers:
  "micros (total (Rebuild entries least)) =
     max (wrap64 (\<Sum>e\<leftarrow>entries. usdToMicros (USD (Usage e)))) (usdToMicros (Snap_SpentUSD least)) \<and>
   inputTokens (total (Rebuild entries least)) = max (wrap64 (\<Sum>e\<leftarrow>entries. InputTokens (Usage e))) (Snap_TokensIn least) \<and>
   outputTokens (total (Rebuild entries least)) = max (wrap64 (\<Sum>e\<leftarrow>entries. OutputTokens (Usage e))) (Snap_TokensOut least) \<and>
   (estimated (total (Rebuild entries least)) \<longleftrightarrow> (\<exists>e \<in> set entries. Estimated (Usage e)) \<or> Snap_Estimated least) \<and>
   largest (Rebuild entries least) = largest_call entries \<and>
   Breakdown (Rebuild entries least) = map (\<lambda>n. let own = filter (\<lambda>e. Node e = n) entries in
     \<lparr>Node = n,
      Usage = \<lparr>InputTokens = wrap64 (\<Sum>e\<leftarrow>own. InputTokens (Usage e)), OutputTokens = wrap64 (\<Sum>e\<leftarrow>own. OutputTokens (Usage e)),
        USD = microsToUSD (wrap64 (\<Sum>e\<leftarrow>own. usdToMicros (USD (Usage e)))), Estimated = (\<exists>e \<in> set own. Estimated (Usage e))\<rparr>,
      Sum = False\<rparr>) (first_seen (map Node entries))"
proof -
  have b: "Breakdown (Rebuild entries least) = Breakdown (ledger_of entries)" by (simp add: Rebuild_def Let_def Breakdown_def)
  have "nodes (ledger_of entries) n = Some (reports_sum (filter (\<lambda>e. Node e = n) entries))" if "n \<in> set (first_seen (map Node entries))" for n
    using that ledger_of_reports(4) [of entries n] by (simp add: first_seen_def)
  then show ?thesis unfolding b
    by (simp add: Breakdown_def ledger_of_reports(3)) (simp add: Rebuild_def Let_def atLeast_def snapshot_totals_def ledger_of_reports(1,2)
        totals_usage_def reports_sum_def)
qed

text \<open>
  Saving and restoring the ledger any number of times changes nothing: a ledger rebuilt from
  the journal and a snapshot of the very ledger the journal gives has the same totals.
\<close>

theorem Rebuild_own_snapshot:
  assumes "\<bar>micros (total (Rebuild entries least))\<bar> \<le> 2 ^ 50"
  shows "Rebuild entries (Ledger_Snapshot (Rebuild entries least) limit) = Rebuild entries least"
proof -
  have "snapshot_totals (Ledger_Snapshot l lim) = (total l)\<lparr>micros := usdToMicros (microsToUSD (micros (total l)))\<rparr>" for l lim
    by (simp add: snapshot_totals_def Ledger_Snapshot_def totals_usage_def Let_def)
  then have "snapshot_totals (Ledger_Snapshot (Rebuild entries least) limit) = total (Rebuild entries least)"
    using usd_roundtrip [OF assms] by simp
  then show ?thesis by (simp add: Rebuild_def Let_def atLeast_def)
qed

theorem Rebuild_own_snapshot_witness:
  "Rebuild [] (Ledger_Snapshot (Rebuild [] (Ledger_Snapshot New (Fin 5))) (Fin 5)) =
   Rebuild [] (Ledger_Snapshot New (Fin 5))"
proof (rule Rebuild_own_snapshot)
  have "usdToMicros (microsToUSD 0) = 0" by (rule usd_roundtrip) simp
  then show "\<bar>micros (total (Rebuild [] (Ledger_Snapshot New (Fin 5))))\<bar> \<le> 2 ^ 50"
    by (simp add: Rebuild_def Let_def atLeast_def snapshot_totals_def Ledger_Snapshot_def
        totals_usage_def New_def totals0_def)
qed

text \<open>Recording what \<open>Unrecorded\<close> gives lifts each figure of the node to the larger of what it
  held and the cumulative reading.\<close>

lemma wrap64_lift:
  "in64 b \<Longrightarrow> in64 a \<Longrightarrow> wrap64 (b + max 0 (a - b)) = max b a"
  by (auto simp: max_def)

text \<open>
  A node's own account of its spend is charged exactly once: recording what \<open>Unrecorded\<close>
  leaves of a cumulative reading brings the node's entry up to the larger of what was already
  charged and the reading, in every dimension, so reporting the same cumulative figure again adds
  nothing and a figure below what was charged takes nothing back.
\<close>

theorem Unrecorded_charged_once:
  assumes "\<forall>f \<in> {inputTokens, outputTokens, micros}. 0 \<le> f (node_totals l n) \<and> f (node_totals l n) \<le> 2 ^ 50"
    and "0 \<le> InputTokens u" "InputTokens u \<le> 2 ^ 50" "0 \<le> OutputTokens u" "OutputTokens u \<le> 2 ^ 50"
    and "0 \<le> usdToMicros (USD u)" "usdToMicros (USD u) \<le> 2 ^ 50"
  shows "node_totals (Record n (Unrecorded l n u) l) n =
    \<lparr>inputTokens = max (inputTokens (node_totals l n)) (InputTokens u),
     outputTokens = max (outputTokens (node_totals l n)) (OutputTokens u),
     micros = max (micros (node_totals l n)) (usdToMicros (USD u)),
     estimated = (estimated (node_totals l n) \<or> Estimated u)\<rparr>"
proof -
  let ?t = "node_totals l n" and ?m = "usdToMicros (USD u)"
  have b: "in64 (inputTokens ?t)" "in64 (outputTokens ?t)" "in64 (micros ?t)" "in64 (InputTokens u)"
      "in64 (OutputTokens u)" "in64 ?m" "in64 (InputTokens u - inputTokens ?t)"
      "in64 (OutputTokens u - outputTokens ?t)" "in64 (?m - micros ?t)"
    using assms by (auto simp: in64_def)
  have "usdToMicros (microsToUSD (max 0 (?m - micros ?t))) = max 0 (?m - micros ?t)"
    using assms by (intro usd_roundtrip) auto
  with b have "totals_add (Unrecorded l n u) ?t =
    \<lparr>inputTokens = max (inputTokens ?t) (InputTokens u), outputTokens = max (outputTokens ?t) (OutputTokens u),
     micros = max (micros ?t) ?m, estimated = (estimated ?t \<or> Estimated u)\<rparr>"
    by (simp add: totals_add_def Unrecorded_def Let_def node_totals_def [symmetric] wrap64_lift)
  then show ?thesis by (simp add: Record_is_entry node_totals_entry)
qed

lemma usdToMicros_0 [simp]: "usdToMicros (Fin 0) = 0"
  by code_simp

theorem Unrecorded_charged_once_witness:
  "node_totals (Record ''fanout'' (Unrecorded New ''fanout'' (zeroUsage\<lparr>InputTokens := 7\<rparr>)) New) ''fanout'' =
    \<lparr>inputTokens = max (inputTokens (node_totals New ''fanout'')) (InputTokens (zeroUsage\<lparr>InputTokens := 7\<rparr>)),
     outputTokens = max (outputTokens (node_totals New ''fanout'')) (OutputTokens (zeroUsage\<lparr>InputTokens := 7\<rparr>)),
     micros = max (micros (node_totals New ''fanout'')) (usdToMicros (USD (zeroUsage\<lparr>InputTokens := 7\<rparr>))),
     estimated = (estimated (node_totals New ''fanout'') \<or> Estimated (zeroUsage\<lparr>InputTokens := 7\<rparr>))\<rparr>"
  by (rule Unrecorded_charged_once)
     (simp_all add: node_totals_def New_def totals0_def zeroUsage_def usdToMicros_0)

section \<open>Affordability\<close>

text \<open>The cost of one report within a projection, in both of the dimensions a ceiling caps.\<close>

definition fits :: "usage \<Rightarrow> usage \<Rightarrow> bool" where
  "fits projected u \<longleftrightarrow>
     0 \<le> usdToMicros (USD u) \<and> usdToMicros (USD u) \<le> usdToMicros (USD projected) \<and>
     0 \<le> InputTokens u \<and> 0 \<le> OutputTokens u \<and>
     InputTokens u + OutputTokens u \<le> InputTokens projected + OutputTokens projected"

lemma wrap64_small: "\<bar>x\<bar> \<le> 2 ^ 62 \<Longrightarrow> wrap64 x = x"
  by (simp add: in64_small)

lemma fold_within:
  assumes "\<forall>e \<in> set es. fits p (Usage e)"
    and "0 \<le> micros t" "micros t + int (length es) * usdToMicros (USD p) \<le> 2 ^ 61"
    and "0 \<le> inputTokens t" "0 \<le> outputTokens t"
    and "inputTokens t + outputTokens t + int (length es) * (InputTokens p + OutputTokens p) \<le> 2 ^ 61"
  shows "let r = fold (totals_add \<circ> Usage) es t in
    0 \<le> micros r \<and> micros r \<le> micros t + int (length es) * usdToMicros (USD p) \<and>
    0 \<le> inputTokens r \<and> 0 \<le> outputTokens r \<and>
    inputTokens r + outputTokens r \<le> inputTokens t + outputTokens t + int (length es) * (InputTokens p + OutputTokens p)"
  using assms
proof (induction es arbitrary: t)
  case (Cons e es)
  let ?t = "totals_add (Usage e) t"
  have w: "fits p (Usage e)" using Cons.prems by simp
  define c where "c = int (length es) * usdToMicros (USD p)"
  define k where "k = int (length es) * (InputTokens p + OutputTokens p)"
  have n: "0 \<le> c" "0 \<le> k"
    using w by (auto simp: fits_def c_def k_def intro!: mult_nonneg_nonneg)
  have l: "int (length (e # es)) * usdToMicros (USD p) = c + usdToMicros (USD p)"
    "int (length (e # es)) * (InputTokens p + OutputTokens p) = k + InputTokens p + OutputTokens p"
    by (simp_all add: c_def k_def algebra_simps)
  have t: "micros ?t = micros t + usdToMicros (USD (Usage e))"
    "inputTokens ?t = inputTokens t + InputTokens (Usage e)"
    "outputTokens ?t = outputTokens t + OutputTokens (Usage e)"
    using Cons.prems(2-) w n unfolding l
    by (auto simp: totals_add_def fits_def intro!: wrap64_small)
  show ?case
    using Cons.IH [of ?t] Cons.prems w n unfolding l t c_def [symmetric] k_def [symmetric]
    by (auto simp: fits_def Let_def)
qed (simp add: Let_def)

text \<open>
  C39. A fanout \<open>CanAfford\<close> lets start cannot take the run over its ceiling: if it answers that
  \<open>n\<close> candidates of the projected cost fit, then after any \<open>n\<close> reports, each within the
  projection, the check before the next node still passes, in dollars and in tokens, whatever
  \<open>on_exceed\<close> says.
\<close>

theorem CanAfford_sound:
  assumes "CanAfford l (int (length es)) p cfg = None" "Check l cfg = None"
    and "OnExceed cfg \<noteq> OnExceedWarn"
    and "\<forall>e \<in> set es. fits p (Usage e)"
    and "0 \<le> micros (total l)" "micros (total l) + int (length es) * usdToMicros (USD p) \<le> 2 ^ 61"
    and "0 \<le> inputTokens (total l)" "0 \<le> outputTokens (total l)"
    and "inputTokens (total l) + outputTokens (total l) + int (length es) * (InputTokens p + OutputTokens p) \<le> 2 ^ 61"
  shows "Check (fold Rebuild_entry es l) cfg = None"
proof (cases "es = []")
  case True
  with assms(2) show ?thesis by simp
next
  case False
  let ?n = "int (length es)" and ?r = "total (fold Rebuild_entry es l)"
  have w: "fits p (Usage (hd es))" using False assms(4) by simp
  then have c: "0 \<le> usdToMicros (USD p)" "0 \<le> InputTokens p + OutputTokens p"
    by (auto simp: fits_def)
  have n: "1 \<le> ?n" using False by (cases es) simp_all
  have k: "0 \<le> ?n * usdToMicros (USD p)" "InputTokens p + OutputTokens p \<le> ?n * (InputTokens p + OutputTokens p)"
    using n c mult_right_mono [of 1 ?n "InputTokens p + OutputTokens p"] by simp_all
  have r: "0 \<le> micros ?r" "micros ?r \<le> micros (total l) + ?n * usdToMicros (USD p)"
    "0 \<le> inputTokens ?r" "0 \<le> outputTokens ?r"
    "inputTokens ?r + outputTokens ?r \<le> inputTokens (total l) + outputTokens (total l) + ?n * (InputTokens p + OutputTokens p)"
    using fold_within [OF assms(4) assms(5-9)] by (simp_all add: fold_total Let_def)
  have wr: "wrap64 (usdToMicros (USD p) * ?n) = usdToMicros (USD p) * ?n"
    "wrap64 (micros (total l) + usdToMicros (USD p) * ?n) = micros (total l) + ?n * usdToMicros (USD p)"
    "wrap64 (InputTokens p + OutputTokens p) = InputTokens p + OutputTokens p"
    "wrap64 ((InputTokens p + OutputTokens p) * ?n) = (InputTokens p + OutputTokens p) * ?n"
    "wrap64 (inputTokens (total l) + outputTokens (total l)) = inputTokens (total l) + outputTokens (total l)"
    "wrap64 (inputTokens (total l) + outputTokens (total l) + (InputTokens p + OutputTokens p) * ?n) =
      inputTokens (total l) + outputTokens (total l) + ?n * (InputTokens p + OutputTokens p)"
    "wrap64 (inputTokens ?r + outputTokens ?r) = inputTokens ?r + outputTokens ?r"
    using assms(5-9) c k r by (auto simp: mult.commute intro!: wrap64_small)
  have "CanAfford l ?n p cfg = None" by (fact assms(1))
  then have a: "usdToMicros (MaxUSD cfg) > 0 \<Longrightarrow> micros (total l) + ?n * usdToMicros (USD p) \<le> usdToMicros (MaxUSD cfg)"
    "MaxTokens cfg > 0 \<Longrightarrow> inputTokens (total l) + outputTokens (total l) + ?n * (InputTokens p + OutputTokens p) \<le> MaxTokens cfg"
    using False by (auto simp: CanAfford_def Let_def wr split: if_splits)
  show ?thesis using r a by (auto simp: Check_def Let_def wr)
qed

theorem CanAfford_sound_witness:
  "Check (fold Rebuild_entry [\<lparr>Node = ''c1'', Usage = zeroUsage\<lparr>InputTokens := 3\<rparr>, Sum = True\<rparr>] New)
     \<lparr>MaxUSD = Fin 0, MaxTokens = 10, OnExceed = OnExceedAbort\<rparr> = None"
  by (rule CanAfford_sound [where p = "zeroUsage\<lparr>InputTokens := 5\<rparr>"])
     (simp_all add: CanAfford_def Check_def New_def totals0_def zeroUsage_def fits_def OnExceedAbort_def
       OnExceedWarn_def wrap64_small)

section \<open>Dividing a ceiling\<close>

lemma usdToMicros_in64: "in64 (usdToMicros x)"
  by (cases x) (auto simp: usdToMicros.simps int64_of_int_def in64_def split: float64.split)

lemma Partition_Inr:
  assumes "Partition spent cfg n = Inr (shareUSD, shareTokens)" "in64 n"
    and "0 \<le> usdToMicros (Snap_SpentUSD spent)" "usdToMicros (MaxUSD cfg) \<le> 2 ^ 50"
  shows "0 < n" "usdToMicros shareUSD = (usdToMicros (MaxUSD cfg) - usdToMicros (Snap_SpentUSD spent)) div n"
    and "0 < usdToMicros shareUSD" "usdToMicros shareUSD \<le> 2 ^ 50"
    and "shareUSD = microsToUSD (usdToMicros shareUSD)"
proof -
  let ?lim = "usdToMicros (MaxUSD cfg)" and ?s = "usdToMicros (Snap_SpentUSD spent)"
  let ?q = "quot64 (wrap64 (?lim - ?s)) n"
  have n: "0 < n" and lim: "0 < ?lim" and q: "0 < ?q" and u: "shareUSD = microsToUSD ?q"
    using assms(1) by (auto simp: Partition_def Let_def split: if_splits)
  have "in64 ?s" by (rule usdToMicros_in64)
  then have d: "in64 (?lim - ?s)" using assms lim by (auto simp: in64_def)
  have pos: "0 < ?lim - ?s" using q quot64_neg [of "?lim - ?s" n] d n by (cases "?lim \<le> ?s") auto
  then have eq: "?q = (?lim - ?s) div n" using d n by (simp add: quot64_pos)
  also have "\<dots> \<le> ?lim - ?s" using pos n zdiv_mono2 [of "?lim - ?s" 1 n] by simp
  finally have le: "?q \<le> 2 ^ 50" using assms by linarith
  have "usdToMicros shareUSD = ?q" unfolding u using q le by (intro usd_roundtrip_pos) auto
  with n eq q le u show "0 < n" "usdToMicros shareUSD = (?lim - ?s) div n" "0 < usdToMicros shareUSD"
    "usdToMicros shareUSD \<le> 2 ^ 50" "shareUSD = microsToUSD (usdToMicros shareUSD)" by simp_all
qed

text \<open>
  C40. The envelopes a fanout hands out never exceed the ceiling: what was spent before, and \<open>n\<close>
  times the share, stay within \<open>max_usd\<close>, and the same for tokens when they are capped; the
  remainder left unallocated is less than one micro-dollar per candidate; and no share is zero,
  which a candidate's ledger would read as no ceiling at all.
\<close>

theorem Partition_within_ceiling:
  assumes "Partition spent cfg n = Inr (shareUSD, shareTokens)" "in64 n"
    and "0 \<le> usdToMicros (Snap_SpentUSD spent)" "usdToMicros (MaxUSD cfg) \<le> 2 ^ 50"
    and "0 \<le> Snap_TokensIn spent" "Snap_TokensIn spent \<le> 2 ^ 60" "0 \<le> Snap_TokensOut spent"
    and "Snap_TokensOut spent \<le> 2 ^ 60" "MaxTokens cfg \<le> 2 ^ 60"
  shows "usdToMicros (Snap_SpentUSD spent) + n * usdToMicros shareUSD \<le> usdToMicros (MaxUSD cfg) \<and>
    usdToMicros (MaxUSD cfg) < usdToMicros (Snap_SpentUSD spent) + n * usdToMicros shareUSD + n \<and>
    0 < usdToMicros shareUSD \<and>
    (if MaxTokens cfg > 0
     then 0 < shareTokens \<and> Snap_TokensIn spent + Snap_TokensOut spent + n * shareTokens \<le> MaxTokens cfg
     else shareTokens = 0)"
proof -
  have dm: "n * (a div n) \<le> a \<and> a < n * (a div n) + n" if "0 < n" for a :: int
    using that pos_mod_bound [of n a] pos_mod_sign [of n a] mult_div_mod_eq [of n a] by linarith
  note P = Partition_Inr [OF assms(1-4)]
  let ?t = "MaxTokens cfg - Snap_TokensIn spent - Snap_TokensOut spent"
  have tk: "0 < shareTokens \<and> Snap_TokensIn spent + Snap_TokensOut spent + n * shareTokens \<le> MaxTokens cfg"
    if m: "MaxTokens cfg > 0"
  proof -
    have q: "shareTokens = quot64 (wrap64 (wrap64 (MaxTokens cfg - Snap_TokensIn spent) - Snap_TokensOut spent)) n"
      "0 < shareTokens" using assms(1) m by (auto simp: Partition_def Let_def split: if_splits)
    have i: "in64 ?t" using assms m by (auto simp: in64_def)
    then have q2: "shareTokens = quot64 ?t n" using q by simp
    then have "0 < ?t" using q(2) quot64_neg [of ?t n] i P(1) by (cases "?t \<le> 0") auto
    then have "shareTokens = ?t div n" using q2 i P(1) by (simp add: quot64_pos)
    then show ?thesis using dm [OF P(1), of ?t] q(2) by simp
  qed
  have "shareTokens = 0" if "\<not> MaxTokens cfg > 0"
    using assms(1) that by (auto simp: Partition_def Let_def split: if_splits)
  with tk dm [OF P(1), of "usdToMicros (MaxUSD cfg) - usdToMicros (Snap_SpentUSD spent)"] P
  show ?thesis by auto
qed

text \<open>A concrete division the witnesses use: one dollar, nothing spent, two candidates.\<close>

lemma one_dollar:
  "usdToMicros (microsToUSD 1000000) = 1000000" "usdToMicros (microsToUSD 500000) = 500000"
  "usdToMicros (microsToUSD 250000) = 250000" "usdToMicros (microsToUSD 0) = 0"
  by (rule usd_roundtrip, simp)+

lemma Partition_example:
  "Partition (Ledger_Snapshot New (Fin 1))
     \<lparr>MaxUSD = microsToUSD 1000000, MaxTokens = 9, OnExceed = OnExceedAbort\<rparr> 2 =
   Inr (microsToUSD 500000, 4)"
  by (simp add: Partition_def Let_def one_dollar Ledger_Snapshot_def totals_usage_def New_def totals0_def
      wrap64_small quot64_pos in64_small)

theorem Partition_within_ceiling_witness:
  "usdToMicros (Snap_SpentUSD (Ledger_Snapshot New (Fin 1))) + 2 * usdToMicros (microsToUSD 500000)
     \<le> usdToMicros (microsToUSD 1000000) \<and> 0 < usdToMicros (microsToUSD 500000)"
  using Partition_within_ceiling [OF Partition_example]
  by (simp add: one_dollar Ledger_Snapshot_def totals_usage_def New_def totals0_def in64_small)

text \<open>
  An envelope is never lowered, and resuming again changes nothing: continuing a claimed
  candidate gives it at least what its manifest already promised, or leaves a dimension uncapped
  that was, and applying the same division to the result gives the same envelope.
\<close>

theorem PartitionAtLeast_monotone_idempotent:
  assumes "PartitionAtLeast pUSD pTokens spent cfg n = (eUSD, eTokens)" "in64 n"
    and "0 \<le> usdToMicros (Snap_SpentUSD spent)" "usdToMicros (MaxUSD cfg) \<le> 2 ^ 50"
    and "usdToMicros pUSD \<le> 2 ^ 50"
  shows "(usdToMicros eUSD \<le> 0 \<or> usdToMicros pUSD \<le> usdToMicros eUSD \<and> 0 < usdToMicros pUSD) \<and>
    (eTokens \<le> 0 \<or> pTokens \<le> eTokens \<and> 0 < pTokens) \<and>
    (usdToMicros pUSD \<le> 0 \<longrightarrow> usdToMicros eUSD \<le> 0) \<and> (pTokens \<le> 0 \<longrightarrow> eTokens \<le> 0) \<and>
    PartitionAtLeast eUSD eTokens spent cfg n = (eUSD, eTokens)"
proof (cases "Partition spent cfg n")
  case (Inl e)
  then show ?thesis using assms(1) by (auto simp: PartitionAtLeast_def)
next
  case (Inr sh)
  obtain sU sT where sh: "Partition spent cfg n = Inr (sU, sT)" using Inr by (cases sh) auto
  note P = Partition_Inr [OF sh assms(2-4)]
  let ?r = "raise_ceiling (usdToMicros pUSD) (usdToMicros sU)"
  have "\<bar>?r\<bar> \<le> 2 ^ 50" using P assms(5) by (auto simp: raise_ceiling_def max_def)
  then have rt: "usdToMicros (microsToUSD ?r) = ?r" by (rule usd_roundtrip)
  have e: "eUSD = microsToUSD ?r" "eTokens = raise_ceiling pTokens sT"
    using assms(1) by (simp_all add: PartitionAtLeast_def sh)
  have again: "raise_ceiling (raise_ceiling a b) b = raise_ceiling a b" for a b
    by (auto simp: raise_ceiling_def max_def)
  have "PartitionAtLeast eUSD eTokens spent cfg n = (eUSD, eTokens)"
    by (simp add: PartitionAtLeast_def sh e rt again)
  then show ?thesis using P unfolding e rt by (auto simp: raise_ceiling_def max_def)
qed

theorem PartitionAtLeast_monotone_idempotent_witness:
  "PartitionAtLeast (microsToUSD 500000) 4 (Ledger_Snapshot New (Fin 1))
     \<lparr>MaxUSD = microsToUSD 1000000, MaxTokens = 9, OnExceed = OnExceedAbort\<rparr> 2 = (microsToUSD 500000, 4)"
proof -
  have "PartitionAtLeast (microsToUSD 250000) 2 (Ledger_Snapshot New (Fin 1))
     \<lparr>MaxUSD = microsToUSD 1000000, MaxTokens = 9, OnExceed = OnExceedAbort\<rparr> 2 = (microsToUSD 500000, 4)"
    by (simp add: PartitionAtLeast_def Partition_example one_dollar raise_ceiling_def)
  from PartitionAtLeast_monotone_idempotent [OF this] show ?thesis
    by (simp add: one_dollar Ledger_Snapshot_def totals_usage_def New_def totals0_def in64_small)
qed

end
