(* ===== verification/Blackboard.thy ===== *)
theory Blackboard
  imports Ledger "HOL-Library.List_Lexorder" "HOL-Library.Char_ord"
begin

text \<open>
  internal/state: the blackboard (state.go), the patches nodes return (patch.go), the capability
  list (requires.go), the manifest with its pins (manifest.go, candidate_run.go, origin.go,
  policy.go, changes.go) and the write-once snapshots (snapshot.go). A Go slice is a list; the code
  tells a nil slice from an empty one only in how it is spelled in JSON, so both are the empty list
  here. A document on disk is the value it decodes to: every write goes through a rename, so a
  reader sees the whole old document or the whole new one.
\<close>

section \<open>Capabilities\<close>

definition CapabilityOutputBranch :: string where "CapabilityOutputBranch = ''output.branch''"
definition CapabilityPlanRegenerate :: string where "CapabilityPlanRegenerate = ''plan.regenerate''"
definition CapabilityFanoutCandidateRuns :: string where
  "CapabilityFanoutCandidateRuns = ''fanout.candidate-runs''"
definition CapabilityPolicyGate :: string where "CapabilityPolicyGate = ''policy.gate''"
definition CapabilityForkGiveUp :: string where "CapabilityForkGiveUp = ''fork.give-up''"

lemmas capability_defs = CapabilityOutputBranch_def CapabilityPlanRegenerate_def
  CapabilityFanoutCandidateRuns_def CapabilityPolicyGate_def CapabilityForkGiveUp_def

definition knownCapabilities :: "string \<Rightarrow> bool" where
  "knownCapabilities name \<longleftrightarrow> name \<in> {CapabilityOutputBranch, CapabilityPlanRegenerate,
     CapabilityFanoutCandidateRuns, CapabilityPolicyGate, CapabilityForkGiveUp}"

text \<open>\<open>slices.Compact\<close> drops adjacent repeats.\<close>

definition addCapability :: "string list \<Rightarrow> string \<Rightarrow> string list" where
  "addCapability req name = remdups_adj (sort (req @ [name]))"

definition dropCapability :: "string list \<Rightarrow> string \<Rightarrow> string list" where
  "dropCapability req name = filter (\<lambda>have. have \<noteq> name) req"

definition unknownCapabilities :: "string list \<Rightarrow> (string \<Rightarrow> bool) \<Rightarrow> string list" where
  "unknownCapabilities req known = remdups_adj (sort (filter (\<lambda>name. \<not> known name) req))"

section \<open>The blackboard\<close>

record Regeneration =
  Request :: int
  Guidance :: string
  Served :: int

definition Pending :: "Regeneration \<Rightarrow> bool" where
  "Pending r \<longleftrightarrow> Request r > Served r"

record Plan =
  P_Path :: string
  Approved :: bool
  Digest :: string
  Regenerate :: Regeneration

record Code =
  SessionID :: string
  LastDiff :: string
  ChangedFiles :: "string list"
  Unreported :: "string list"

record TestFailure =
  F_Name :: string
  F_File :: string
  F_Line :: int
  F_Message :: string

record Test =
  Passed :: int
  T_Total :: int
  Failed :: int
  Failures :: "TestFailure list"
  T_ReportPath :: string

record Review =
  R_Source :: string
  R_Gate :: GateStatus
  R_Issues :: "Issue list"
  R_Counts :: Counts
  R_Summary :: string
  R_ReportPath :: string

record Fix =
  Attempts :: int
  GiveUp :: bool

record Policy =
  Pol_Gate :: GateStatus
  Violations :: "Issue list"
  Pol_Counts :: Counts
  Pol_Summary :: string
  Pol_ReportPath :: string

record Candidate =
  C_ID :: string
  C_Dir :: string
  TestPassed :: bool
  IssueCount :: int
  PolicyViolations :: int
  Ephemeral :: bool
  Outcome :: string
  C_RunDir :: string
  C_SpentUSD :: float64
  C_Estimated :: bool
  C_DurationMS :: int
  C_Note :: string
  C_ChangedFiles :: "string list"
  C_Unreported :: "string list"

record Promotion =
  Pr_Branch :: string
  Pr_Base :: string
  Pr_Commit :: string
  Pr_Candidate :: string
  Pr_Files :: int

record HistoryEntry =
  H_Seq :: nat
  H_Node :: string
  H_Attempt :: int
  H_Status :: string
  H_Next :: string
  H_Time :: int
  H_Summary :: string

record Blackboard =
  B_SchemaVersion :: int
  B_Requires :: "string list"
  Goal :: string
  B_Plan :: Plan
  B_Code :: Code
  B_Test :: Test
  B_Review :: Review
  B_Fix :: Fix
  B_Policy :: Policy
  Candidates :: "Candidate list"
  Winner :: string
  B_Promotion :: Promotion
  History :: "HistoryEntry list"

definition StateSchemaVersion :: int where "StateSchemaVersion = 2"

definition Regeneration0 :: Regeneration where
  "Regeneration0 = \<lparr>Request = 0, Guidance = [], Served = 0\<rparr>"

definition Plan0 :: Plan where
  "Plan0 = \<lparr>P_Path = [], Approved = False, Digest = [], Regenerate = Regeneration0\<rparr>"

definition NewState :: "string \<Rightarrow> Blackboard" where
  "NewState goal = \<lparr>B_SchemaVersion = StateSchemaVersion, B_Requires = [], Goal = goal, B_Plan = Plan0,
     B_Code = \<lparr>SessionID = [], LastDiff = [], ChangedFiles = [], Unreported = []\<rparr>,
     B_Test = \<lparr>Passed = 0, T_Total = 0, Failed = 0, Failures = [], T_ReportPath = []\<rparr>,
     B_Review = \<lparr>R_Source = [], R_Gate = GateUnknown, R_Issues = [], R_Counts = zeroCounts,
       R_Summary = [], R_ReportPath = []\<rparr>,
     B_Fix = \<lparr>Attempts = 0, GiveUp = False\<rparr>,
     B_Policy = \<lparr>Pol_Gate = GateUnknown, Violations = [], Pol_Counts = zeroCounts, Pol_Summary = [],
       Pol_ReportPath = []\<rparr>,
     Candidates = [], Winner = [],
     B_Promotion = \<lparr>Pr_Branch = [], Pr_Base = [], Pr_Commit = [], Pr_Candidate = [], Pr_Files = 0\<rparr>,
     History = []\<rparr>"

definition requireRegeneration :: "Blackboard \<Rightarrow> Blackboard" where
  "requireRegeneration s =
     (if Pending (Regenerate (B_Plan s))
      then s\<lparr>B_Requires := addCapability (B_Requires s) CapabilityPlanRegenerate\<rparr>
      else s\<lparr>B_Requires := dropCapability (B_Requires s) CapabilityPlanRegenerate\<rparr>)"

definition SetRegeneration :: "Regeneration \<Rightarrow> Blackboard \<Rightarrow> Blackboard" where
  "SetRegeneration r s = requireRegeneration (s\<lparr>B_Plan := (B_Plan s)\<lparr>Regenerate := r\<rparr>\<rparr>)"

text \<open>The projections of the adapters' reports. \<open>Raw\<close> and \<open>Duration\<close> are not on the blackboard.\<close>

definition NewReview :: "QualityReport \<Rightarrow> string \<Rightarrow> Review" where
  "NewReview q reportPath = \<lparr>R_Source = Source q, R_Gate = Gate q, R_Issues = Issues q,
     R_Counts = Report_Counts q, R_Summary = Summary q, R_ReportPath = reportPath\<rparr>"

definition Review_QualityReport :: "Review \<Rightarrow> QualityReport" where
  "Review_QualityReport r = \<lparr>Source = R_Source r, Gate = R_Gate r, Report_Counts = R_Counts r,
     Issues = R_Issues r, Summary = R_Summary r\<rparr>"

definition NewPolicy :: "QualityReport \<Rightarrow> string \<Rightarrow> Policy" where
  "NewPolicy q reportPath = \<lparr>Pol_Gate = Gate q, Violations = Issues q, Pol_Counts = Report_Counts q,
     Pol_Summary = Summary q, Pol_ReportPath = reportPath\<rparr>"

definition SeedCandidateState :: "Blackboard \<Rightarrow> Blackboard" where
  "SeedCandidateState parent = (NewState (Goal parent))\<lparr>B_Plan :=
     \<lparr>P_Path = P_Path (B_Plan parent), Approved = Approved (B_Plan parent), Digest = Digest (B_Plan parent),
      Regenerate = Regeneration0\<rparr>\<rparr>"

section \<open>Patches\<close>

record Patch =
  Patch_Goal :: "string option"
  Patch_Plan :: "Plan option"
  Patch_Code :: "Code option"
  Patch_Test :: "Test option"
  Patch_Review :: "Review option"
  Patch_Fix :: "Fix option"
  Patch_Policy :: "Policy option"
  Patch_Candidates :: "Candidate list option"
  Patch_Winner :: "string option"
  Patch_Promotion :: "Promotion option"
  Patch_History :: "HistoryEntry option"

definition Patch0 :: Patch where
  "Patch0 = \<lparr>Patch_Goal = None, Patch_Plan = None, Patch_Code = None, Patch_Test = None,
     Patch_Review = None, Patch_Fix = None, Patch_Policy = None, Patch_Candidates = None,
     Patch_Winner = None, Patch_Promotion = None, Patch_History = None\<rparr>"

datatype patch_error = ErrInvalidPatch

definition upsertHistory :: "HistoryEntry \<Rightarrow> HistoryEntry list \<Rightarrow> HistoryEntry list" where
  "upsertHistory entry h =
     (if \<exists>e \<in> set h. H_Seq e = H_Seq entry
      then upd_first (\<lambda>e. H_Seq e = H_Seq entry) (\<lambda>_. entry) h
      else h @ [entry])"

text \<open>One \<open>if p.X != nil\<close> of \<open>Apply\<close>.\<close>

definition when_set :: "'a option \<Rightarrow> ('a \<Rightarrow> 's \<Rightarrow> 's) \<Rightarrow> 's \<Rightarrow> 's" where
  "when_set v f s = (case v of None \<Rightarrow> s | Some x \<Rightarrow> f x s)"

definition Apply_fields :: "Patch \<Rightarrow> Blackboard \<Rightarrow> Blackboard" where
  "Apply_fields p s =
     (let s = when_set (Patch_Goal p) (\<lambda>x s. s\<lparr>Goal := x\<rparr>) s;
          s = when_set (Patch_Plan p) (\<lambda>x s. requireRegeneration (s\<lparr>B_Plan := x\<rparr>)) s;
          s = when_set (Patch_Code p) (\<lambda>x s. s\<lparr>B_Code := x\<rparr>) s;
          s = when_set (Patch_Test p) (\<lambda>x s. s\<lparr>B_Test := x\<rparr>) s;
          s = when_set (Patch_Review p) (\<lambda>x s. s\<lparr>B_Review := x\<rparr>) s;
          s = when_set (Patch_Fix p) (\<lambda>x s. s\<lparr>B_Fix := x\<rparr>) s;
          s = when_set (Patch_Policy p) (\<lambda>x s. s\<lparr>B_Policy := x\<rparr>) s;
          s = when_set (Patch_Candidates p) (\<lambda>x s. s\<lparr>Candidates := x\<rparr>) s;
          s = when_set (Patch_Winner p) (\<lambda>x s. s\<lparr>Winner := x\<rparr>) s;
          s = when_set (Patch_Promotion p) (\<lambda>x s. s\<lparr>B_Promotion := x\<rparr>) s
      in when_set (Patch_History p) (\<lambda>e s. s\<lparr>History := upsertHistory e (History s)\<rparr>) s)"

definition Apply :: "Patch \<Rightarrow> Blackboard \<Rightarrow> (patch_error, Blackboard) result" where
  "Apply p s =
     (if (case Patch_History p of Some e \<Rightarrow> H_Seq e = 0 | None \<Rightarrow> False)
      then Inl ErrInvalidPatch
      else Inr (Apply_fields p s))"

section \<open>Capability lists\<close>

lemma distinct_compact_sorted: "sorted xs \<Longrightarrow> distinct (remdups_adj (xs :: 'a::linorder list))"
  by (induction xs rule: remdups_adj.induct) (auto simp: le_less)

lemma compact_sort: "remdups_adj (sort xs) = sorted_list_of_set (set (xs :: 'a::linorder list))"
  by (rule sorted_distinct_set_unique) (simp_all add: distinct_compact_sorted sorted_remdups_adj)

lemma addCapability_eq: "addCapability req name = sorted_list_of_set (insert name (set req))"
  by (simp only: addCapability_def compact_sort set_append list.set Un_insert_right Un_empty_right)

lemma set_addCapability [simp]: "set (addCapability req name) = insert name (set req)"
  unfolding addCapability_eq by (rule set_sorted_list_of_set) simp

lemma set_dropCapability [simp]: "set (dropCapability req name) = set req - {name}"
  by (auto simp: dropCapability_def)

lemma addCapability_sorted: "sorted (addCapability req name)" "distinct (addCapability req name)"
  unfolding addCapability_eq by (rule sorted_sorted_list_of_set, rule distinct_sorted_list_of_set)

lemma addCapability_again [simp]: "addCapability (addCapability req name) name = addCapability req name"
  by (simp only: addCapability_eq [of "addCapability req name"] set_addCapability insert_absorb2)
     (simp only: addCapability_eq)

lemma dropCapability_again [simp]: "dropCapability (dropCapability req name) name = dropCapability req name"
  by (simp add: dropCapability_def)

lemma dropCapability_sorted:
  "sorted req \<Longrightarrow> sorted (dropCapability req name)" "distinct req \<Longrightarrow> distinct (dropCapability req name)"
  by (simp_all add: dropCapability_def sorted_wrt_filter)

section \<open>What a patch does, field by field\<close>

definition or_else :: "'a option \<Rightarrow> 'a \<Rightarrow> 'a" where
  "or_else v d = (case v of None \<Rightarrow> d | Some x \<Rightarrow> x)"

lemma or_else_again [simp]: "or_else v (or_else v d) = or_else v d"
  by (cases v) (simp_all add: or_else_def)

definition regen_requires :: "Plan \<Rightarrow> string list \<Rightarrow> string list" where
  "regen_requires p req = (if Pending (Regenerate p) then addCapability req CapabilityPlanRegenerate
     else dropCapability req CapabilityPlanRegenerate)"

lemma regen_requires_again [simp]: "regen_requires p (regen_requires p req) = regen_requires p req"
  by (simp add: regen_requires_def)

lemma requireRegeneration_eq:
  "requireRegeneration s = s\<lparr>B_Requires := regen_requires (B_Plan s) (B_Requires s)\<rparr>"
  by (simp add: requireRegeneration_def regen_requires_def)

definition or_else_with :: "'a option \<Rightarrow> ('a \<Rightarrow> 'b \<Rightarrow> 'b) \<Rightarrow> 'b \<Rightarrow> 'b" where
  "or_else_with v f d = (case v of None \<Rightarrow> d | Some x \<Rightarrow> f x d)"

lemma when_set_fields:
  "when_set a (\<lambda>x s. s\<lparr>Goal := x\<rparr>) s = s\<lparr>Goal := or_else a (Goal s)\<rparr>"
  "when_set b (\<lambda>x s. requireRegeneration (s\<lparr>B_Plan := x\<rparr>)) s =
     s\<lparr>B_Plan := or_else b (B_Plan s), B_Requires := or_else_with b regen_requires (B_Requires s)\<rparr>"
  "when_set c (\<lambda>x s. s\<lparr>B_Code := x\<rparr>) s = s\<lparr>B_Code := or_else c (B_Code s)\<rparr>"
  "when_set d (\<lambda>x s. s\<lparr>B_Test := x\<rparr>) s = s\<lparr>B_Test := or_else d (B_Test s)\<rparr>"
  "when_set e (\<lambda>x s. s\<lparr>B_Review := x\<rparr>) s = s\<lparr>B_Review := or_else e (B_Review s)\<rparr>"
  "when_set f (\<lambda>x s. s\<lparr>B_Fix := x\<rparr>) s = s\<lparr>B_Fix := or_else f (B_Fix s)\<rparr>"
  "when_set g (\<lambda>x s. s\<lparr>B_Policy := x\<rparr>) s = s\<lparr>B_Policy := or_else g (B_Policy s)\<rparr>"
  "when_set h (\<lambda>x s. s\<lparr>Candidates := x\<rparr>) s = s\<lparr>Candidates := or_else h (Candidates s)\<rparr>"
  "when_set i (\<lambda>x s. s\<lparr>Winner := x\<rparr>) s = s\<lparr>Winner := or_else i (Winner s)\<rparr>"
  "when_set j (\<lambda>x s. s\<lparr>B_Promotion := x\<rparr>) s = s\<lparr>B_Promotion := or_else j (B_Promotion s)\<rparr>"
  "when_set k (\<lambda>e s. s\<lparr>History := upsertHistory e (History s)\<rparr>) s =
     s\<lparr>History := or_else_with k upsertHistory (History s)\<rparr>"
  by (simp_all add: when_set_def or_else_def or_else_with_def requireRegeneration_eq split: option.split)

lemma Apply_fields_eq:
  "Apply_fields p s = s\<lparr>
     B_Requires := or_else_with (Patch_Plan p) regen_requires (B_Requires s),
     Goal := or_else (Patch_Goal p) (Goal s), B_Plan := or_else (Patch_Plan p) (B_Plan s),
     B_Code := or_else (Patch_Code p) (B_Code s), B_Test := or_else (Patch_Test p) (B_Test s),
     B_Review := or_else (Patch_Review p) (B_Review s), B_Fix := or_else (Patch_Fix p) (B_Fix s),
     B_Policy := or_else (Patch_Policy p) (B_Policy s),
     Candidates := or_else (Patch_Candidates p) (Candidates s),
     Winner := or_else (Patch_Winner p) (Winner s),
     B_Promotion := or_else (Patch_Promotion p) (B_Promotion s),
     History := or_else_with (Patch_History p) upsertHistory (History s)\<rparr>"
  by (simp add: Apply_fields_def Let_def when_set_fields)

section \<open>History\<close>

lemma upsertHistory_again [simp]: "upsertHistory e (upsertHistory e h) = upsertHistory e h"
proof (cases "\<exists>x \<in> set h. H_Seq x = H_Seq e")
  case True
  then have "\<exists>x \<in> set (upd_first (\<lambda>x. H_Seq x = H_Seq e) (\<lambda>_. e) h). H_Seq x = H_Seq e"
    by (induction h) auto
  moreover have "upd_first (\<lambda>x. H_Seq x = H_Seq e) (\<lambda>_. e) (upd_first (\<lambda>x. H_Seq x = H_Seq e) (\<lambda>_. e) h) =
      upd_first (\<lambda>x. H_Seq x = H_Seq e) (\<lambda>_. e) h"
    by (induction h) auto
  ultimately show ?thesis using True by (simp add: upsertHistory_def)
next
  case False
  then have "upd_first (\<lambda>x. H_Seq x = H_Seq e) (\<lambda>_. e) (h @ [e]) = h @ [e]"
    by (induction h) auto
  then show ?thesis using False by (simp add: upsertHistory_def)
qed

lemma map_Seq_upsertHistory:
  "map H_Seq (upsertHistory e h) = (if H_Seq e \<in> set (map H_Seq h) then map H_Seq h else map H_Seq h @ [H_Seq e])"
proof (cases "\<exists>x \<in> set h. H_Seq x = H_Seq e")
  case True
  then have "H_Seq e \<in> set (map H_Seq h)" by (auto intro: rev_image_eqI)
  moreover have "map H_Seq (upd_first (\<lambda>x. H_Seq x = H_Seq e) (\<lambda>_. e) h) = map H_Seq h"
    by (rule map_upd_first) simp
  ultimately show ?thesis using True by (simp add: upsertHistory_def)
next
  case False
  then show ?thesis by (auto simp: upsertHistory_def)
qed

lemma upsertHistory_mem: "e \<in> set (upsertHistory e h)"
proof (cases "\<exists>x \<in> set h. H_Seq x = H_Seq e")
  case True
  then show ?thesis by (simp add: upsertHistory_def) (induction h, auto)
qed (simp add: upsertHistory_def)

lemma upsertHistory_other:
  "x \<in> set h \<Longrightarrow> H_Seq x \<noteq> H_Seq e \<Longrightarrow> x \<in> set (upsertHistory e h)"
proof (induction h)
  case (Cons a h)
  then show ?case by (auto simp: upsertHistory_def split: if_splits)
qed simp

text \<open>
  C31. A patch may be applied twice: applying it to the blackboard it already produced changes nothing,
  the history entry and the capability list included. It is what lets a run re-apply the patch of a
  node whose completion a crash lost.
\<close>

theorem Apply_idempotent:
  assumes "Apply p s = Inr t" shows "Apply p t = Inr t"
proof -
  have t: "t = Apply_fields p s" "\<not> (case Patch_History p of Some e \<Rightarrow> H_Seq e = 0 | None \<Rightarrow> False)"
    using assms by (auto simp: Apply_def split: if_splits)
  have "or_else_with v f (or_else_with v f d) = or_else_with v f d"
    if "\<And>x d. f x (f x d) = f x d" for v :: "'a option" and f :: "'a \<Rightarrow> 'b \<Rightarrow> 'b" and d
    using that by (cases v) (simp_all add: or_else_with_def)
  note [simp] = this [of regen_requires, OF regen_requires_again] this [of upsertHistory, OF upsertHistory_again]
  have "Apply_fields p t = t" unfolding t(1) by (simp add: Apply_fields_eq)
  with t(2) show ?thesis by (simp add: Apply_def)
qed

theorem Apply_idempotent_witness:
  "Apply (Patch0\<lparr>Patch_Fix := Some \<lparr>Attempts = 2, GiveUp = False\<rparr>\<rparr>)
     ((NewState ''g'')\<lparr>B_Fix := \<lparr>Attempts = 2, GiveUp = False\<rparr>\<rparr>) =
   Inr ((NewState ''g'')\<lparr>B_Fix := \<lparr>Attempts = 2, GiveUp = False\<rparr>\<rparr>)"
proof -
  have "Apply (Patch0\<lparr>Patch_Fix := Some \<lparr>Attempts = 2, GiveUp = False\<rparr>\<rparr>) (NewState ''g'') =
    Inr ((NewState ''g'')\<lparr>B_Fix := \<lparr>Attempts = 2, GiveUp = False\<rparr>\<rparr>)"
    by (simp add: Apply_def Patch0_def Apply_fields_def when_set_def Let_def)
  then show ?thesis by (rule Apply_idempotent)
qed

section \<open>Invariants of the blackboard\<close>

text \<open>The blackboard declares the regeneration capability exactly while a request is unserved, and
  its history has one entry per sequence number.\<close>

definition blackboard_ok :: "Blackboard \<Rightarrow> bool" where
  "blackboard_ok s \<longleftrightarrow>
     (CapabilityPlanRegenerate \<in> set (B_Requires s) \<longleftrightarrow> Pending (Regenerate (B_Plan s))) \<and>
     sorted (B_Requires s) \<and> distinct (B_Requires s) \<and>
     distinct (map H_Seq (History s)) \<and> 0 \<notin> set (map H_Seq (History s))"

lemma blackboard_ok_New: "blackboard_ok (NewState goal)"
  by (simp add: blackboard_ok_def NewState_def Plan0_def Regeneration0_def Pending_def)

lemma regen_requires_props:
  "CapabilityPlanRegenerate \<in> set (regen_requires p req) \<longleftrightarrow> Pending (Regenerate p)"
  "sorted req \<Longrightarrow> sorted (regen_requires p req)" "distinct req \<Longrightarrow> distinct (regen_requires p req)"
  "set (regen_requires p req) - {CapabilityPlanRegenerate} = set req - {CapabilityPlanRegenerate}"
  by (auto simp: regen_requires_def addCapability_sorted dropCapability_sorted)

text \<open>
  C34. The blackboard always says what a reader must understand: after any patch and any request for
  a new plan, \<open>plan.regenerate\<close> is required exactly while a request is unserved, every other
  requirement is kept, the list stays sorted without duplicates, and the history keeps one entry
  per journal sequence number.
\<close>

theorem blackboard_ok_preserved:
  assumes "blackboard_ok s"
  shows "blackboard_ok (SetRegeneration r s) \<and>
    (case Apply p s of
       Inl _ \<Rightarrow> True
     | Inr t \<Rightarrow> blackboard_ok t \<and>
         set (B_Requires t) - {CapabilityPlanRegenerate} = set (B_Requires s) - {CapabilityPlanRegenerate})"
proof
  show "blackboard_ok (SetRegeneration r s)"
    using assms by (simp add: SetRegeneration_def requireRegeneration_eq blackboard_ok_def regen_requires_props)
  have "distinct (map H_Seq (upsertHistory e h))" if "distinct (map H_Seq h)" for e h
    using that by (auto simp: map_Seq_upsertHistory simp del: set_map)
  moreover have "0 \<notin> set (map H_Seq (upsertHistory e h))" if "0 \<notin> set (map H_Seq h)" "H_Seq e \<noteq> 0" for e h
    using that by (auto simp: map_Seq_upsertHistory simp del: set_map)
  ultimately show "case Apply p s of Inl _ \<Rightarrow> True | Inr t \<Rightarrow> blackboard_ok t \<and>
      set (B_Requires t) - {CapabilityPlanRegenerate} = set (B_Requires s) - {CapabilityPlanRegenerate}"
    using assms
    by (cases "Patch_Plan p"; cases "Patch_History p")
       (auto simp: Apply_def Apply_fields_eq or_else_def or_else_with_def blackboard_ok_def
          regen_requires_props simp del: set_map)
qed

theorem blackboard_ok_preserved_witness:
  "blackboard_ok (SetRegeneration \<lparr>Request = 1, Guidance = ''shorter'', Served = 0\<rparr> (NewState ''g''))"
  using blackboard_ok_preserved [OF blackboard_ok_New, of "\<lparr>Request = 1, Guidance = ''shorter'', Served = 0\<rparr>"]
  by blast

end
