(* ===== verification/Manifest.thy ===== *)
theory Manifest
  imports Blackboard Ndjson "HOL-Library.AList"
begin

text \<open>
  The rest of internal/state: the manifest and the pins a run is held to (manifest.go,
  candidate_run.go, origin.go, policy.go, changes.go), the versioned, capability-checked decoding of
  both documents (state.go, migrate.go, requires.go), the confinement of paths (atomic.go) and the
  write-once snapshots (snapshot.go). The configuration is the part of internal/config the pins and
  the dispatcher read.
\<close>

section \<open>Configuration\<close>

record TestRule =
  When :: string
  Require :: string

record ContentRule =
  Pattern :: string
  Paths :: "string list"
  Reason :: string

record PolicyRules =
  ForbiddenPaths :: "string list"
  MaxChangedFiles :: int
  MaxChangedLines :: int
  NoNewDependencies :: bool
  RequiredTests :: "TestRule list"
  ForbiddenContent :: "ContentRule list"

definition PolicyRules0 :: PolicyRules where
  "PolicyRules0 = \<lparr>ForbiddenPaths = [], MaxChangedFiles = 0, MaxChangedLines = 0,
     NoNewDependencies = False, RequiredTests = [], ForbiddenContent = []\<rparr>"

record GraphConfig =
  G_GiveUp :: int
  MaxSteps :: int
  NodeTimeout :: int
  Approval :: bool

record FanoutConfig =
  Enabled :: bool
  FC_Candidates :: int
  Concurrency :: int
  Isolator :: string
  FC_Select :: string

record Config =
  Cfg_Graph :: GraphConfig
  Cfg_Budget :: BudgetConfig
  Cfg_Fanout :: FanoutConfig
  Cfg_Policy :: PolicyRules

section \<open>The manifest\<close>

datatype RunStatus =
    RunStatusUnknown | RunStatusRunning | RunStatusPaused | RunStatusCompleted | RunStatusFailed
  | RunStatusAborted | RunStatus_other int

record Budget =
  LimitUSD' :: float64
  SpentUSD' :: float64
  TokensIn :: int
  TokensOut :: int
  Budget_Estimated :: bool

record AgentInfo =
  Backend :: string
  Model :: string
  Mode :: string

definition OutputInPlace :: string where "OutputInPlace = ''in_place''"
definition OutputBranch :: string where "OutputBranch = ''branch''"

record Output =
  O_Mode :: string
  Repo :: string
  Branch :: string
  Base :: string
  BaseRef :: string
  WorkTree :: string
  Prefix :: string
  PullRequest :: bool

definition Branched :: "Output \<Rightarrow> bool" where
  "Branched out \<longleftrightarrow> O_Mode out = OutputBranch"

record ArchivedPlan =
  A_Dir :: string
  A_Path :: string

record FanoutPin =
  FP_Candidates :: int
  FP_Select :: string

record Workspace =
  W_ID :: string
  W_Dir :: string
  W_Ephemeral :: bool

record Envelope =
  E_LimitUSD :: float64
  E_LimitTokens :: int

record CandidateRun =
  ParentRunID :: string
  CR_ID :: string
  Index :: int
  CR_Workspace :: Workspace
  Provision :: string
  ProvisionNote :: string
  CR_Envelope :: Envelope

record Dependency =
  D_Manifest :: string
  D_Name :: string

record PolicyPin =
  PP_Policy :: PolicyRules
  Baseline :: "Dependency list"
  FoldCase :: bool

record Origin =
  Or_RunID :: string
  Or_Workspace :: string
  Tree :: string
  Or_Node :: string
  Visit :: int
  Or_StartSeq :: nat
  InheritedUSD :: float64
  InheritedEstimated :: bool
  Deviations :: "string list"

record Changes =
  From :: string
  Ch_Base :: string
  Ch_Record :: bool
  Why :: string

record Manifest =
  SchemaVersion :: int
  Requires :: "string list"
  RunID :: string
  CreatedAt :: int
  UpdatedAt :: int
  M_Workspace :: string
  M_Goal :: string
  M_Status :: RunStatus
  CurrentNode :: string
  Step :: int
  ConfigDigest :: string
  ConfigSnapshot :: "string \<rightharpoonup> string"
  M_Budget :: Budget
  Agent :: AgentInfo
  M_Output :: Output
  M_ArchivedPlan :: ArchivedPlan
  M_Fanout :: "FanoutPin option"
  M_Candidate :: "CandidateRun option"
  M_Policy :: "PolicyPin option"
  M_Origin :: "Origin option"
  M_Changes :: "Changes option"
  GiveUpFloor :: int

text \<open>A control field and the capability that protects it are set together.\<close>

definition SetOutput :: "Output \<Rightarrow> Manifest \<Rightarrow> Manifest" where
  "SetOutput out m =
     (let m = m\<lparr>M_Output := out\<rparr> in
      if Branched out then m\<lparr>Requires := addCapability (Requires m) CapabilityOutputBranch\<rparr> else m)"

definition SetFanout :: "FanoutPin \<Rightarrow> Manifest \<Rightarrow> Manifest" where
  "SetFanout p m = m\<lparr>M_Fanout := Some p,
     Requires := addCapability (Requires m) CapabilityFanoutCandidateRuns\<rparr>"

definition SetCandidate :: "CandidateRun \<Rightarrow> Manifest \<Rightarrow> Manifest" where
  "SetCandidate c m = m\<lparr>M_Candidate := Some c,
     Requires := addCapability (Requires m) CapabilityFanoutCandidateRuns\<rparr>"

definition SetPolicy :: "PolicyPin \<Rightarrow> Manifest \<Rightarrow> Manifest" where
  "SetPolicy p m = m\<lparr>M_Policy := Some p, Requires := addCapability (Requires m) CapabilityPolicyGate\<rparr>"

definition SetGiveUpFloor :: "int \<Rightarrow> Manifest \<Rightarrow> Manifest" where
  "SetGiveUpFloor n m = m\<lparr>GiveUpFloor := n, Requires := addCapability (Requires m) CapabilityForkGiveUp\<rparr>"

definition SetChanges :: "Changes \<Rightarrow> Manifest \<Rightarrow> Manifest" where
  "SetChanges c m = m\<lparr>M_Changes := Some c\<rparr>"

definition GiveUpFor :: "Manifest \<Rightarrow> int \<Rightarrow> int" where
  "GiveUpFor m live = max live (GiveUpFloor m)"

definition PinnedConfig :: "Manifest \<Rightarrow> Config \<Rightarrow> Config" where
  "PinnedConfig m cfg =
     (let cfg = cfg\<lparr>Cfg_Policy := PolicyRules0\<rparr>;
          cfg = cfg\<lparr>Cfg_Graph := (Cfg_Graph cfg)\<lparr>G_GiveUp := GiveUpFor m (G_GiveUp (Cfg_Graph cfg))\<rparr>\<rparr>
      in case M_Fanout m of
           None \<Rightarrow> cfg
         | Some p \<Rightarrow> cfg\<lparr>Cfg_Fanout := (Cfg_Fanout cfg)\<lparr>Enabled := True,
             FC_Candidates := FP_Candidates p, FC_Select := FP_Select p\<rparr>\<rparr>)"

definition Touch :: "int \<Rightarrow> Manifest \<Rightarrow> Manifest" where
  "Touch now m = m\<lparr>UpdatedAt := now\<rparr>"

section \<open>Paths\<close>

datatype segment_error = EmptySegment | HasSeparator | HasDotDot | IsAbs | HasNUL

fun contains :: "string \<Rightarrow> string \<Rightarrow> bool" where
  "contains [] p = (p = [])"
| "contains (c # cs) p = (take (length p) (c # cs) = p \<or> contains cs p)"

text \<open>\<open>None\<close> is the nil error. An absolute path begins with a slash, which the second case has
  already refused.\<close>

definition validateSegment :: "string \<Rightarrow> segment_error option" where
  "validateSegment s =
     (if s = [] then Some EmptySegment
      else if CHR ''/'' \<in> set s \<or> CHR 0x5C \<in> set s then Some HasSeparator
      else if contains s ''..'' then Some HasDotDot
      else if hd s = CHR ''/'' then Some IsAbs
      else if CHR 0x00 \<in> set s then Some HasNUL
      else None)"

section \<open>Decoding a versioned document\<close>

text \<open>
  \<open>decodeState\<close> and \<open>decodeManifest\<close> are one loop over different types. encoding/json is a
  parameter: \<open>probe\<close> reads a document's schema version, \<open>heads\<close> its requires list, \<open>decode\<close> the whole;
  each answers \<open>None\<close> for a document it cannot read. \<open>migrations\<close> is the table of registered
  migrations. The loop may not end if a migration does not advance the version, so it is a partial
  function: \<open>None\<close> is the loop that never returns.
\<close>

datatype decode_error = Undecodable | Unsupported int | MigrationFailed int | CapabilityError "string list"


partial_function (option) migrate_loop ::
  "(bytes \<Rightarrow> int option) \<Rightarrow> (int \<Rightarrow> (bytes \<Rightarrow> bytes option) option) \<Rightarrow> int \<Rightarrow> bytes \<Rightarrow>
   (decode_error, bytes) result option" where
  "migrate_loop probe migrations current raw =
     (case probe raw of
        None \<Rightarrow> Some (Inl Undecodable)
      | Some v \<Rightarrow>
          if v = current then Some (Inr raw)
          else case migrations v of
            None \<Rightarrow> Some (Inl (Unsupported v))
          | Some migrate \<Rightarrow>
              (case migrate raw of
                 None \<Rightarrow> Some (Inl (MigrationFailed v))
               | Some migrated \<Rightarrow> migrate_loop probe migrations current migrated))"


text \<open>Migrating from version 1 works on the document's keys and raw values; \<open>parse\<close> and \<open>render\<close> are
  encoding/json on such a map. \<open>EqualFold\<close> is exact for the ten bytes of \<open>requires\<close>, whose letters
  fold with their capitals and, for the \<open>s\<close>, with the long s.\<close>

fun fold_key :: "string \<Rightarrow> string" where
  "fold_key [] = []"
| "fold_key (c # cs) =
     (if take 2 (c # cs) = [CHR 0xC5, CHR 0xBF] then CHR ''s'' # fold_key (drop 1 cs)
      else lower_char c # fold_key cs)"

definition hasRequiresList :: "(string \<times> bytes) list \<Rightarrow> bool" where
  "hasRequiresList doc \<longleftrightarrow> (\<exists>(key, value) \<in> set doc. fold_key key = ''requires'' \<and> value \<noteq> ''null'')"

definition migrateFromVersion1 ::
  "(bytes \<Rightarrow> (string \<times> bytes) list option) \<Rightarrow> ((string \<times> bytes) list \<Rightarrow> bytes option) \<Rightarrow> bytes \<Rightarrow> bytes option" where
  "migrateFromVersion1 parse render raw =
     (case parse raw of
        None \<Rightarrow> None
      | Some doc \<Rightarrow>
          (let doc = AList.update ''schema_version'' ''2'' doc;
               doc = (if hasRequiresList doc then doc else AList.update ''requires'' ''[]'' doc)
           in render doc))"

definition stateMigrations ::
  "(bytes \<Rightarrow> (string \<times> bytes) list option) \<Rightarrow> ((string \<times> bytes) list \<Rightarrow> bytes option) \<Rightarrow>
   int \<Rightarrow> (bytes \<Rightarrow> bytes option) option" where
  "stateMigrations parse render v = (if v = 1 then Some (migrateFromVersion1 parse render) else None)"



section \<open>Snapshots\<close>

record BoardSnapshot =
  Sn_RunID :: string
  Sn_Node :: string
  Sn_Seq :: nat
  Sn_Step :: int
  TakenAt :: int
  WorkspaceDigest :: string
  Sn_State :: Blackboard

text \<open>A snapshot's path spells its sequence number, a dash and its node, so the pair names it. The
  path is refused for sequence number 0 and for a node that is no path segment.\<close>

definition SnapshotPath :: "nat \<Rightarrow> string \<Rightarrow> (nat \<times> string) option" where
  "SnapshotPath seq node = (if seq = 0 \<or> validateSegment node \<noteq> None then None else Some (seq, node))"

type_synonym snapshots = "nat \<times> string \<rightharpoonup> BoardSnapshot"

text \<open>\<open>None\<close> is the error of a key that is no path. The second component says whether it wrote.\<close>

definition SaveSnapshotOnce :: "BoardSnapshot \<Rightarrow> snapshots \<Rightarrow> (snapshots \<times> bool) option" where
  "SaveSnapshotOnce snap disk =
     (case SnapshotPath (Sn_Seq snap) (Sn_Node snap) of
        None \<Rightarrow> None
      | Some path \<Rightarrow>
          (case disk path of
             Some _ \<Rightarrow> Some (disk, False)
           | None \<Rightarrow> Some (disk(path \<mapsto> snap), True)))"

section \<open>Pins and their capabilities\<close>

text \<open>Every control field a manifest carries is declared, so a reader that does not know the field
  refuses the run instead of dropping it.\<close>

definition pins_declared :: "Manifest \<Rightarrow> bool" where
  "pins_declared m \<longleftrightarrow>
     (Branched (M_Output m) \<longrightarrow> CapabilityOutputBranch \<in> set (Requires m)) \<and>
     (M_Fanout m \<noteq> None \<or> M_Candidate m \<noteq> None \<longrightarrow> CapabilityFanoutCandidateRuns \<in> set (Requires m)) \<and>
     (M_Policy m \<noteq> None \<longrightarrow> CapabilityPolicyGate \<in> set (Requires m)) \<and>
     (GiveUpFloor m \<noteq> 0 \<longrightarrow> CapabilityForkGiveUp \<in> set (Requires m)) \<and>
     (\<forall>c \<in> set (Requires m). knownCapabilities c)"

text \<open>The setters, as one operation.\<close>

datatype pin = PinOutput Output | PinFanout FanoutPin | PinCandidate CandidateRun | PinPolicy PolicyPin
  | PinGiveUp int | PinChanges Changes

fun set_pin :: "pin \<Rightarrow> Manifest \<Rightarrow> Manifest" where
  "set_pin (PinOutput out) m = SetOutput out m"
| "set_pin (PinFanout p) m = SetFanout p m"
| "set_pin (PinCandidate c) m = SetCandidate c m"
| "set_pin (PinPolicy p) m = SetPolicy p m"
| "set_pin (PinGiveUp n) m = SetGiveUpFloor n m"
| "set_pin (PinChanges c) m = SetChanges c m"

text \<open>
  C36. However a run's shape is pinned, and in whatever order, its manifest declares the capability of
  every control field it carries and none that this program does not itself know, so no pin can be
  dropped in silence by a reader and no pinned run refuses its own program.
\<close>

theorem pins_always_declared:
  assumes "pins_declared m" shows "pins_declared (fold set_pin pins m)"
proof -
  have "pins_declared (set_pin p m)" if "pins_declared m" for p m
    using that
    by (cases p) (auto simp: pins_declared_def SetOutput_def SetFanout_def SetCandidate_def SetPolicy_def
        SetGiveUpFloor_def SetChanges_def knownCapabilities_def Let_def)
  then show ?thesis using assms by (induction pins arbitrary: m) auto
qed

definition Manifest0 :: Manifest where
  "Manifest0 = \<lparr>SchemaVersion = 2, Requires = [], RunID = ''r'', CreatedAt = 0, UpdatedAt = 0,
     M_Workspace = ''/w'', M_Goal = ''g'', M_Status = RunStatusRunning, CurrentNode = [], Step = 0,
     ConfigDigest = [], ConfigSnapshot = Map.empty,
     M_Budget = \<lparr>LimitUSD' = Fin 5, SpentUSD' = Fin 0, TokensIn = 0, TokensOut = 0, Budget_Estimated = False\<rparr>,
     Agent = \<lparr>Backend = [], Model = [], Mode = []\<rparr>,
     M_Output = \<lparr>O_Mode = [], Repo = [], Branch = [], Base = [], BaseRef = [], WorkTree = [], Prefix = [],
       PullRequest = False\<rparr>,
     M_ArchivedPlan = \<lparr>A_Dir = [], A_Path = []\<rparr>, M_Fanout = None, M_Candidate = None, M_Policy = None,
     M_Origin = None, M_Changes = None, GiveUpFloor = 0\<rparr>"

theorem pins_always_declared_witness:
  "pins_declared (fold set_pin [PinFanout \<lparr>FP_Candidates = 3, FP_Select = ''fastest''\<rparr>, PinGiveUp 2] Manifest0)"
  by (rule pins_always_declared) (simp add: pins_declared_def Manifest0_def Branched_def OutputBranch_def)

text \<open>
  The configuration a node sees is the run's own shape and the person's current limits: whatever
  the file says now, a pinned fanout has the pinned candidates and strategy, no live policy reaches
  a node and the fix loop has at least its pinned rounds, while budget, step cap, node timeout and
  concurrency are the live ones; and overlaying the pins twice is overlaying them once.
\<close>

theorem PinnedConfig_shape_and_limits:
  "(case M_Fanout m of
      None \<Rightarrow> Cfg_Fanout (PinnedConfig m cfg) = Cfg_Fanout cfg
    | Some p \<Rightarrow> Enabled (Cfg_Fanout (PinnedConfig m cfg)) \<and>
      FC_Candidates (Cfg_Fanout (PinnedConfig m cfg)) = FP_Candidates p \<and>
      FC_Select (Cfg_Fanout (PinnedConfig m cfg)) = FP_Select p) \<and>
   Cfg_Policy (PinnedConfig m cfg) = PolicyRules0 \<and>
   G_GiveUp (Cfg_Graph (PinnedConfig m cfg)) \<ge> GiveUpFloor m \<and>
   G_GiveUp (Cfg_Graph (PinnedConfig m cfg)) \<ge> G_GiveUp (Cfg_Graph cfg) \<and>
   Cfg_Budget (PinnedConfig m cfg) = Cfg_Budget cfg \<and>
   MaxSteps (Cfg_Graph (PinnedConfig m cfg)) = MaxSteps (Cfg_Graph cfg) \<and>
   NodeTimeout (Cfg_Graph (PinnedConfig m cfg)) = NodeTimeout (Cfg_Graph cfg) \<and>
   Concurrency (Cfg_Fanout (PinnedConfig m cfg)) = Concurrency (Cfg_Fanout cfg) \<and>
   PinnedConfig m (PinnedConfig m cfg) = PinnedConfig m cfg"
  by (simp add: PinnedConfig_def GiveUpFor_def Let_def max.assoc split: option.split)

section \<open>Decoding\<close>















text \<open>Nothing ends the loop on a document that stays at version 1: encoding/json reads the version from a key spelled another
  way as well, and the migration adds the plain one beside it.\<close>

lemma migrate_loop_stuck:
  assumes "\<And>r. r \<in> X \<Longrightarrow> probe r = Some 1 \<and> (\<exists>r' \<in> X. migrateFromVersion1 parse render r = Some r')" "raw \<in> X"
  shows "migrate_loop probe (stateMigrations parse render) 2 raw = None"
proof (rule ccontr)
  assume "migrate_loop probe (stateMigrations parse render) 2 raw \<noteq> None"
  then obtain r where q: "migrate_loop probe (stateMigrations parse render) 2 raw = Some r" by blast
  have "m = stateMigrations parse render \<and> p = probe \<and> c = 2 \<longrightarrow> raw' \<notin> X" if "migrate_loop p m c raw' = Some r" for p m c raw' r
    using that
  proof (rule migrate_loop.raw_induct [rotated])
    fix loop p m c raw' r
    assume ih: "\<And>p m c raw' r. loop p m c raw' = Some r \<Longrightarrow>
        m = stateMigrations parse render \<and> p = probe \<and> c = 2 \<longrightarrow> raw' \<notin> X"
      and b: "(case p raw' of None \<Rightarrow> Some (Inl Undecodable)
      | Some v \<Rightarrow> if v = c then Some (Inr raw') else case m v of None \<Rightarrow> Some (Inl (Unsupported v))
          | Some migrate \<Rightarrow> (case migrate raw' of None \<Rightarrow> Some (Inl (MigrationFailed v)) | Some out \<Rightarrow> loop p m c out)) = Some r"
    show "m = stateMigrations parse render \<and> p = probe \<and> c = 2 \<longrightarrow> raw' \<notin> X"
    proof (intro impI notI)
      assume m: "m = stateMigrations parse render \<and> p = probe \<and> c = 2" "raw' \<in> X"
      from assms(1) [OF m(2)] obtain out where out: "probe raw' = Some 1" "out \<in> X" "migrateFromVersion1 parse render raw' = Some out"
        by blast
      have "loop p m c out = Some r" using b m(1) out by (simp add: stateMigrations_def)
      from ih [OF this] m(1) out(2) show False by blast
    qed
  qed
  with assms(2) q show False by blast
qed







text \<open>
  Upgrading a version 1 document touches two keys only: every key other than the version keeps its
  value byte for byte, and a requires list that is already there, however it is spelled, is not
  emptied by the one a version 1 document lacks.
\<close>

theorem migrateFromVersion1_keeps:
  assumes "parse raw = Some doc" "migrateFromVersion1 parse render raw = Some out"
  shows "\<exists>doc'. render doc' = Some out \<and> map_of doc' ''schema_version'' = Some ''2'' \<and>
    (\<forall>key. key \<noteq> ''schema_version'' \<and> key \<noteq> ''requires'' \<longrightarrow> map_of doc' key = map_of doc key) \<and>
    (if hasRequiresList doc then map_of doc' ''requires'' = map_of doc ''requires''
     else map_of doc' ''requires'' = Some ''[]'')"
proof -
  have fk: "fold_key ''schema_version'' \<noteq> ''requires''"
    by (simp add: lower_char_def Let_def)
  have keep: "hasRequiresList (AList.update ''schema_version'' v d) \<longleftrightarrow> hasRequiresList d" for v d
    using fk by (induction d) (auto simp: hasRequiresList_def)
  let ?doc = "AList.update ''schema_version'' ''2'' doc"
  let ?doc' = "if hasRequiresList doc then ?doc else AList.update ''requires'' ''[]'' ?doc"
  have "render ?doc' = Some out"
    using assms by (simp add: migrateFromVersion1_def Let_def keep)
  moreover have "map_of ?doc' ''schema_version'' = Some ''2''"
    "\<forall>key. key \<noteq> ''schema_version'' \<and> key \<noteq> ''requires'' \<longrightarrow> map_of ?doc' key = map_of doc key"
    "if hasRequiresList doc then map_of ?doc' ''requires'' = map_of doc ''requires''
     else map_of ?doc' ''requires'' = Some ''[]''"
    by (simp_all add: update_conv)
  ultimately show ?thesis by blast
qed

theorem migrateFromVersion1_keeps_witness:
  "\<exists>doc'. map_of doc' ''schema_version'' = Some ''2'' \<and> map_of doc' ''requires'' = Some ''[]''"
proof -
  let ?doc = "[(''schema_version'', ''1'')]"
  have h: "\<not> hasRequiresList ?doc" by (simp add: hasRequiresList_def lower_char_def)
  have "migrateFromVersion1 (\<lambda>_. Some ?doc) (\<lambda>doc. map_of doc ''schema_version'') ''raw'' = Some ''2''"
    by (simp add: migrateFromVersion1_def Let_def h)
  from migrateFromVersion1_keeps [of "\<lambda>_. Some ?doc" "''raw''" ?doc, OF refl this] h
  show ?thesis by (simp only: if_False) blast
qed

section \<open>Snapshots are written once\<close>

text \<open>A store whose writes never replace what is there.\<close>

locale write_once =
  fixes put :: "'v \<Rightarrow> ('k \<rightharpoonup> 'v) \<Rightarrow> ('k \<rightharpoonup> 'v)"
  assumes put_keeps: "m k = Some v \<Longrightarrow> put x m k = Some v"
begin

lemma kept: "m k = Some v \<Longrightarrow> fold put xs m k = Some v"
  by (induction xs arbitrary: m) (simp_all add: put_keeps)

end

definition put_snapshot :: "BoardSnapshot \<Rightarrow> snapshots \<Rightarrow> snapshots" where
  "put_snapshot snap disk = (case SaveSnapshotOnce snap disk of None \<Rightarrow> disk | Some (disk', _) \<Rightarrow> disk')"

lemma put_snapshot_eq:
  "put_snapshot s m = (case SnapshotPath (Sn_Seq s) (Sn_Node s) of None \<Rightarrow> m
     | Some path \<Rightarrow> if m path = None then m(path \<mapsto> s) else m)"
  by (auto simp: put_snapshot_def SaveSnapshotOnce_def split: option.split)

interpretation snaps: write_once put_snapshot
  by unfold_locales (auto simp: put_snapshot_eq split: option.split)

end
