(* ===== verification/Graph.thy ===== *)
theory Graph
  imports Journal Manifest
begin

text \<open>
  internal/graph: the contract of a node (node.go) and the durable world the dispatcher writes to.
  A node's own code, its adapters and everything it asks the machine are its \<open>N_Run\<close>, a parameter: a
  function of the moment it is asked (so that it may answer differently each time) and of the
  context it is shown. The journal is the list of its records: theory Journal shows that a crash in
  an append leaves, after the next \<open>Open\<close>, the history with or without the record being written.
\<close>

section \<open>Nodes\<close>

definition End :: string where "End = ''END''"

record Result =
  Res_Next :: string
  Res_Status :: Status
  Res_Patch :: Patch
  Res_Usage :: usage
  Res_Note :: string

datatype result_error = StatusUnset | NextEmpty

text \<open>\<open>None\<close> is the nil error.\<close>

definition Result_Validate :: "Result \<Rightarrow> result_error option" where
  "Result_Validate r =
     (if Res_Status r = StatusUnknown then Some StatusUnset
      else if Res_Status r = StatusOK \<and> Res_Next r = [] then Some NextEmpty
      else None)"

definition Done :: "Result \<Rightarrow> bool" where
  "Done r \<longleftrightarrow> Res_Status r = StatusOK \<and> Res_Next r = End"

text \<open>An error a node returns, as far as the dispatcher looks into it: which of the limits it wraps
  (\<open>errors.Is\<close>) and its text.\<close>

record NodeError =
  IsBudgetExceeded :: bool
  IsNoCeiling :: bool
  IsMaxSteps :: bool
  IsNodeTimeout :: bool
  ErrText :: string

record RunContext =
  RC_Goal :: string
  RC_State :: Blackboard
  RC_Config :: Config
  RC_Workspace :: string
  RC_RunID :: string
  RC_Budget :: Snapshot
  NodeName :: string
  RC_Step :: int
  RC_Attempt :: int
  RC_Output :: Output
  ArchiveDir :: string
  RC_Policy :: "PolicyPin option"

text \<open>\<open>Unpriced\<close> and \<open>Supervisor\<close> are marker interfaces.\<close>

record Node =
  N_Name :: string
  N_Unpriced :: bool
  N_Supervisor :: bool
  N_Run :: "nat \<Rightarrow> RunContext \<Rightarrow> Result \<times> NodeError option"

type_synonym Registry = "string \<rightharpoonup> Node"

datatype registry_error = ErrInvalidNodeName | ErrDuplicateNode

definition Register :: "Node \<Rightarrow> Registry \<Rightarrow> (registry_error, Registry) result" where
  "Register n reg =
     (if N_Name n = [] \<or> N_Name n = End then Inl ErrInvalidNodeName
      else case reg (N_Name n) of
        Some _ \<Rightarrow> Inl ErrDuplicateNode
      | None \<Rightarrow> Inr (reg(N_Name n \<mapsto> n)))"

text \<open>What \<open>Register\<close> keeps: a node is found under the name it calls itself, and \<open>End\<close> names none.\<close>

definition registry_ok :: "Registry \<Rightarrow> bool" where
  "registry_ok reg \<longleftrightarrow> (\<forall>name n. reg name = Some n \<longrightarrow> N_Name n = name) \<and> reg End = None \<and> reg [] = None"

lemma registry_ok_empty: "registry_ok Map.empty"
  by (simp add: registry_ok_def)

lemma registry_ok_Register: "registry_ok reg \<Longrightarrow> Register n reg = Inr reg' \<Longrightarrow> registry_ok reg'"
  by (auto simp: registry_ok_def Register_def End_def split: if_splits option.splits)

section \<open>What is on disk\<close>

text \<open>The documents of one run directory. \<open>ManifestVersion\<close> is the schema version manifest.json has on
  disk, below the current one in a run an older release wrote.\<close>

record Disk =
  D_Manifest :: Manifest
  ManifestVersion :: int
  D_State :: Blackboard
  D_Journal :: "JRecord list"
  D_Snapshots :: snapshots

definition ManifestSchemaVersion :: int where "ManifestSchemaVersion = 2"

datatype disk_write = WAppend JRecord | WManifest Manifest | WState Blackboard | WSnapshot BoardSnapshot

fun apply_write :: "disk_write \<Rightarrow> Disk \<Rightarrow> Disk" where
  "apply_write (WAppend r) D = D\<lparr>D_Journal := D_Journal D @ [r]\<rparr>"
| "apply_write (WManifest m) D = D\<lparr>D_Manifest := m, ManifestVersion := ManifestSchemaVersion\<rparr>"
| "apply_write (WState s) D = D\<lparr>D_State := s\<rparr>"
| "apply_write (WSnapshot s) D = D\<lparr>D_Snapshots := put_snapshot s (D_Snapshots D)\<rparr>"

text \<open>An operation on a file succeeds, fails without an effect, or reports a failure after its effect
  is on disk (a rename whose directory could not be fsynced, a line whose fsync failed).\<close>

datatype io = IO_ok | IO_failed | IO_landed

text \<open>Everything the dispatcher asks the machine, by the moment it asks: the clock, whether the
  caller has cancelled the run, whether a node's own deadline or the caller's has passed, what a file operation does and
  what the workspace's fingerprint is; and how many processes a dead dispatcher had left running.\<close>

record Env =
  E_clock :: "nat \<Rightarrow> int"
  E_cancelled :: "nat \<Rightarrow> bool"
  E_expired :: "nat \<Rightarrow> bool"
  E_ctx_expired :: "nat \<Rightarrow> bool"
  E_io :: "nat \<Rightarrow> io"
  E_digest :: "nat \<Rightarrow> string"
  E_killed :: nat

text \<open>One node execution, as it was shown to the node: kept to state properties about, never read.\<close>

record Execution =
  X_Node :: Node
  X_Context :: RunContext
  X_Key :: nat
  X_Disk :: Disk
  X_Ledger :: Ledger

text \<open>The dispatcher's world: the disk, the durable writes made so far in order (a crash keeps a
  prefix of them), the journal handle's counter, the moment, and the executions so far.\<close>

record World =
  disk :: Disk
  wlog :: "disk_write list"
  seqno :: nat
  tick :: nat
  runs :: "Execution list"

definition emit :: "disk_write \<Rightarrow> World \<Rightarrow> World" where
  "emit wr w = w\<lparr>disk := apply_write wr (disk w), wlog := wlog w @ [wr]\<rparr>"

definition next_tick :: "World \<Rightarrow> World" where
  "next_tick w = w\<lparr>tick := Suc (tick w)\<rparr>"

definition io_ok :: "Env \<Rightarrow> World \<Rightarrow> World \<times> bool" where
  "io_ok e w = (next_tick w, E_io e (tick w) = IO_ok)"

definition try_write :: "Env \<Rightarrow> disk_write \<Rightarrow> World \<Rightarrow> World \<times> bool" where
  "try_write e wr w =
     (case E_io e (tick w) of
        IO_ok \<Rightarrow> (emit wr (next_tick w), True)
      | IO_failed \<Rightarrow> (next_tick w, False)
      | IO_landed \<Rightarrow> (emit wr (next_tick w), False))"

text \<open>\<open>Journal.Append\<close> on the list of records (theory Journal has it on the file's bytes): the record
  written, or \<open>None\<close> for any of its errors.\<close>

definition jappend :: "Env \<Rightarrow> JRecord \<Rightarrow> World \<Rightarrow> World \<times> JRecord option" where
  "jappend e r w =
     (let r = prepare (E_clock e (tick w)) r in
      case Record_validate r of
        Inl _ \<Rightarrow> (w, None)
      | Inr _ \<Rightarrow>
          let r = r\<lparr>Seq := Suc (seqno w)\<rparr>;
              (w, ok) = try_write e (WAppend r) (w\<lparr>seqno := Seq r\<rparr>)
          in (w, if ok then Some r else None))"

text \<open>\<open>Store.ApplyPatch\<close>: load, apply, save under one lock. The answer says whether it succeeded.\<close>

definition ApplyPatch :: "Env \<Rightarrow> Patch \<Rightarrow> World \<Rightarrow> World \<times> bool" where
  "ApplyPatch e p w =
     (let (w, ok) = io_ok e w in
      if \<not> ok then (w, False)
      else case Apply p (D_State (disk w)) of
        Inl _ \<Rightarrow> (w, False)
      | Inr st \<Rightarrow> try_write e (WState st) w)"

text \<open>\<open>Store.Preflight\<close>: state.json is read first, then the manifest is saved at the current schema
  version if it is below it.\<close>

definition Preflight :: "Env \<Rightarrow> World \<Rightarrow> World \<times> bool" where
  "Preflight e w =
     (let (w, ok) = io_ok e w in
      if \<not> ok then (w, False)
      else let (w, ok) = io_ok e w in
      if \<not> ok then (w, False)
      else if ManifestVersion (disk w) \<ge> ManifestSchemaVersion then (w, True)
      else try_write e (WManifest (D_Manifest (disk w))) w)"

end
