(* ===== verification/Dispatcher.thy ===== *)
theory Dispatcher
  imports Graph
begin

text \<open>
  internal/graph/dispatcher.go: the loop that drives a run and owns every durable write it makes.
  Each function is the Go function of that name, taking the world and returning it with the answer;
  an early return is a branch. Logging, and what fmt, the redactor and termsafe make of a message,
  are not modelled: a note is a value of \<open>message\<close>, spelled by the parameter \<open>spell\<close>.
\<close>

section \<open>Answers\<close>

definition ExitOK :: int where "ExitOK = 0"
definition ExitFailed :: int where "ExitFailed = 1"
definition ExitAborted :: int where "ExitAborted = 3"
definition ExitPaused :: int where "ExitPaused = 4"

record Outcome =
  Out_Status :: RunStatus
  ExitCode :: int
  Out_Node :: string
  Steps :: int
  Out_Usage :: usage
  Out_Note :: string

datatype dispatch_error =
    ErrIO string | ErrCorrupt corruption | ErrRunPaused | ErrRunEnded | ErrNoResumePoint
  | ErrUnknownNode string | ErrBudget string BudgetError | ErrMaxSteps int int | ErrInterrupted string
  | ErrNodeTimeout string | ErrNodeCanceled string | ErrNodeAborted string | ErrNodeFailed string
  | ErrNodeErr string NodeError | ErrInvalidResult string result_error | ErrNotRun string
  | ErrNodeLimit NodeError

datatype message =
    NText string | NCause dispatch_error | NLimit dispatch_error "string list" | NHealed int
  | NCharged usage | NChargedNothing | NKilled nat | NRerunning | NInterrupted int | NInterruptedAt string
  | NNotRun dispatch_error | NNodeError NodeError | NInvalidResult result_error | NPausedAt string
  | NUseResume | NPausedAsAsked string int | NCompleted | NAlready string | NPausedRefused string
  | NJoin "message list"

record Dispatcher =
  registry :: Registry
  cfg :: Config
  entry_node :: string
  interruptedFloor :: usage
  pauseOnCancel :: bool
  pauseAfter :: int
  workspace :: string
  fingerprint :: bool
  spell :: "message \<Rightarrow> string"

datatype options_error = NoNodes | NegativePauseAfter

text \<open>\<open>names\<close> are the registry's names, so that its being empty can be asked.\<close>

definition NewDispatcher :: "string list \<Rightarrow> Dispatcher \<Rightarrow> (options_error, Dispatcher) result" where
  "NewDispatcher names opts =
     (if names = [] then Inl NoNodes
      else if pauseAfter opts < 0 then Inl NegativePauseAfter
      else Inr opts)"

type_synonym answer = "Outcome \<times> dispatch_error option"

text \<open>The answer of a dispatch that stopped on an error of its own.\<close>

definition broken :: "string \<Rightarrow> int \<Rightarrow> Ledger \<Rightarrow> dispatch_error \<Rightarrow> answer" where
  "broken node steps ledger err =
     (\<lparr>Out_Status = RunStatusUnknown, ExitCode = ExitFailed, Out_Node = node, Steps = steps,
       Out_Usage = Ledger_Total ledger, Out_Note = []\<rparr>, Some err)"

definition broken0 :: "dispatch_error \<Rightarrow> answer" where
  "broken0 err =
     (\<lparr>Out_Status = RunStatusUnknown, ExitCode = ExitFailed, Out_Node = [], Steps = 0,
       Out_Usage = zeroUsage, Out_Note = []\<rparr>, Some err)"

section \<open>Usage, charges and the ledger\<close>

definition journalUsage :: "usage \<Rightarrow> JUsage option" where
  "journalUsage u = Some \<lparr>JInputTokens = InputTokens u, JOutputTokens = OutputTokens u, JUSD = USD u,
     JEstimated = Estimated u\<rparr>"

definition restoreSnapshot :: "Budget \<Rightarrow> Snapshot" where
  "restoreSnapshot b = \<lparr>Snap_LimitUSD = LimitUSD' b, Snap_SpentUSD = SpentUSD' b, Snap_TokensIn = TokensIn b,
     Snap_TokensOut = TokensOut b, Snap_Estimated = Budget_Estimated b\<rparr>"

definition manifestBudget :: "Snapshot \<Rightarrow> Budget" where
  "manifestBudget s = \<lparr>LimitUSD' = Snap_LimitUSD s, SpentUSD' = Snap_SpentUSD s, TokensIn = Snap_TokensIn s,
     TokensOut = Snap_TokensOut s, Budget_Estimated = Snap_Estimated s\<rparr>"

definition supervises :: "Dispatcher \<Rightarrow> string \<Rightarrow> bool" where
  "supervises d node = (case registry d node of None \<Rightarrow> False | Some n \<Rightarrow> N_Supervisor n)"

definition estimable :: "Dispatcher \<Rightarrow> string \<Rightarrow> bool" where
  "estimable d node =
     (case registry d node of None \<Rightarrow> True | Some n \<Rightarrow> \<not> N_Unpriced n \<and> \<not> N_Supervisor n)"

text \<open>The loop of \<open>rebuildLedger\<close>: the usage of every \<open>node_finished\<close>.\<close>

definition usage_entries :: "(string \<Rightarrow> bool) \<Rightarrow> JRecord list \<Rightarrow> NodeUsage list" where
  "usage_entries is_sum records = List.map_filter (\<lambda>r.
     case RUsage r of
       None \<Rightarrow> None
     | Some u \<Rightarrow>
         if Event r \<noteq> EventNodeFinished then None
         else Some \<lparr>Node = RNode r, Usage = \<lparr>InputTokens = JInputTokens u, OutputTokens = JOutputTokens u,
           USD = JUSD u, Estimated = JEstimated u\<rparr>, Sum = is_sum (RNode r)\<rparr>) records"

definition rebuildLedger :: "JRecord list \<Rightarrow> Budget \<Rightarrow> (string \<Rightarrow> bool) \<Rightarrow> Ledger" where
  "rebuildLedger records saved is_sum = Rebuild (usage_entries is_sum records) (restoreSnapshot saved)"

definition charge :: "Dispatcher \<Rightarrow> Ledger \<Rightarrow> string \<Rightarrow> usage \<Rightarrow> Ledger" where
  "charge d ledger node u = (if supervises d node then RecordSum node u ledger else Record node u ledger)"

definition spentBefore :: "Dispatcher \<Rightarrow> Ledger \<Rightarrow> string \<Rightarrow> Ledger" where
  "spentBefore d ledger node = (if supervises d node then Without node ledger else ledger)"

definition isZeroUsage :: "usage \<Rightarrow> bool" where
  "isZeroUsage u \<longleftrightarrow> InputTokens u = 0 \<and> OutputTokens u = 0 \<and> USD u = Fin 0"

text \<open>Go's \<open>max\<close> on \<open>float64\<close>: NaN if either is.\<close>

fun float_max :: "float64 \<Rightarrow> float64 \<Rightarrow> float64" where
  "float_max (Fin a) (Fin b) = Fin (max a b)"
| "float_max NaN _ = NaN"
| "float_max _ NaN = NaN"
| "float_max PInf _ = PInf"
| "float_max _ PInf = PInf"
| "float_max NInf y = y"
| "float_max x NInf = x"

definition interruptedCharge :: "Dispatcher \<Rightarrow> Ledger \<Rightarrow> usage" where
  "interruptedCharge d ledger =
     (let most = Ledger_Largest ledger;
          c = \<lparr>InputTokens = max (InputTokens most) (InputTokens (interruptedFloor d)),
               OutputTokens = max (OutputTokens most) (OutputTokens (interruptedFloor d)),
               USD = float_max (USD most) (USD (interruptedFloor d)), Estimated = False\<rparr>
      in if isZeroUsage c then zeroUsage else c\<lparr>Estimated := True\<rparr>)"

definition cutShortCharge :: "Dispatcher \<Rightarrow> Ledger \<Rightarrow> string \<Rightarrow> usage \<Rightarrow> usage \<times> message list" where
  "cutShortCharge d ledger node reported =
     (if \<not> isZeroUsage reported \<or> \<not> estimable d node then (reported, [])
      else let c = interruptedCharge d ledger in
        if isZeroUsage c then (c, []) else (c, [NCharged c]))"

text \<open>\<open>LimitSettings\<close>: the settings that get a run past an error.\<close>

definition LimitSettings :: "NodeError option \<Rightarrow> string list" where
  "LimitSettings err =
     (case err of
        None \<Rightarrow> []
      | Some x \<Rightarrow>
          (if IsBudgetExceeded x then [''budget.max_usd or budget.max_tokens''] else []) @
          (if IsNoCeiling x then [''budget.max_usd''] else []) @
          (if IsMaxSteps x then [''graph.max_steps''] else []) @
          (if IsNodeTimeout x then [''graph.node_timeout''] else []))"

section \<open>Ending a dispatch\<close>

definition record0 :: "Event \<Rightarrow> JRecord" where
  "record0 ev = Record0\<lparr>Event := ev\<rparr>"

definition Milliseconds :: "int \<Rightarrow> int" where
  "Milliseconds t = quot64 t 1000000"

definition interruptedAttempt :: "string \<Rightarrow> int \<Rightarrow> int \<Rightarrow> usage \<Rightarrow> string \<Rightarrow> JRecord" where
  "interruptedAttempt node attempt t u nt = (record0 EventNodeFinished)\<lparr>RNode := node, Attempt := attempt,
     DurationMS := Milliseconds t, Status := StatusAborted, Next := node, RUsage := journalUsage u, Note := nt\<rparr>"

definition persist :: "Dispatcher \<Rightarrow> Env \<Rightarrow> Manifest \<Rightarrow> RunStatus \<Rightarrow> string \<Rightarrow> Ledger \<Rightarrow> World \<Rightarrow>
    World \<times> Manifest \<times> bool" where
  "persist d e man status current ledger w =
     (let man = man\<lparr>M_Status := status, CurrentNode := current,
            M_Budget := manifestBudget (Ledger_Snapshot ledger (MaxUSD (Cfg_Budget (cfg d))))\<rparr>;
          man = Touch (E_clock e (tick w)) man;
          (w, ok) = try_write e (WManifest man) (next_tick w)
      in (w, man, ok))"

definition endRun :: "Dispatcher \<Rightarrow> Env \<Rightarrow> Manifest \<Rightarrow> Ledger \<Rightarrow> Event \<Rightarrow> RunStatus \<Rightarrow> int \<Rightarrow> string \<Rightarrow> int \<Rightarrow>
    string \<Rightarrow> dispatch_error option \<Rightarrow> World \<Rightarrow> World \<times> answer" where
  "endRun d e man ledger ev runStatus exitCode node steps nt cause w =
     (let out = \<lparr>Out_Status = runStatus, ExitCode = exitCode, Out_Node = node, Steps = steps,
            Out_Usage = Ledger_Total ledger, Out_Note = nt\<rparr>;
          (w, r) = jappend e ((record0 ev)\<lparr>Note := nt\<rparr>) w
      in case r of
        None \<Rightarrow> (w, (out\<lparr>ExitCode := ExitFailed\<rparr>, Some (ErrIO ''journal'')))
      | Some _ \<Rightarrow>
          (let (w, _, ok) = persist d e man runStatus node ledger w
           in if \<not> ok then (w, (out\<lparr>ExitCode := ExitFailed\<rparr>, Some (ErrIO ''save manifest'')))
              else (w, (out, cause))))"

definition pauseAtLimit :: "Dispatcher \<Rightarrow> Env \<Rightarrow> Manifest \<Rightarrow> Ledger \<Rightarrow> string \<Rightarrow> int \<Rightarrow> string \<Rightarrow>
    dispatch_error \<Rightarrow> World \<Rightarrow> World \<times> answer" where
  "pauseAtLimit d e man ledger node steps nt cause w =
     endRun d e man ledger EventRunPaused RunStatusPaused ExitAborted node steps nt (Some cause) w"

definition pauseInterrupted :: "Dispatcher \<Rightarrow> Env \<Rightarrow> Manifest \<Rightarrow> Ledger \<Rightarrow> string \<Rightarrow> int \<Rightarrow> World \<Rightarrow> World \<times> answer" where
  "pauseInterrupted d e man ledger node steps w =
     pauseAtLimit d e man ledger node steps (spell d (NInterruptedAt node)) (ErrInterrupted node) w"

definition pauseInsideNode :: "Dispatcher \<Rightarrow> Env \<Rightarrow> Manifest \<Rightarrow> Ledger \<Rightarrow> string \<Rightarrow> int \<Rightarrow> int \<Rightarrow> int \<Rightarrow> usage \<Rightarrow>
    string \<Rightarrow> dispatch_error \<Rightarrow> World \<Rightarrow> World \<times> answer" where
  "pauseInsideNode d e man ledger node attempt steps t u nt cause w =
     (let ledger = charge d ledger node u;
          (w, r) = jappend e (interruptedAttempt node attempt t u nt) w
      in case r of
        None \<Rightarrow> (w, broken node steps ledger (ErrIO ''journal''))
      | Some _ \<Rightarrow> pauseAtLimit d e man ledger node steps nt cause w)"

definition terminal :: "Dispatcher \<Rightarrow> Env \<Rightarrow> Manifest \<Rightarrow> Ledger \<Rightarrow> string \<Rightarrow> int \<Rightarrow> int \<Rightarrow> int \<Rightarrow> usage \<Rightarrow>
    Status \<Rightarrow> Event \<Rightarrow> RunStatus \<Rightarrow> int \<Rightarrow> string \<Rightarrow> dispatch_error \<Rightarrow> World \<Rightarrow> World \<times> answer" where
  "terminal d e man ledger node attempt steps t u status ev runStatus exitCode nt cause w =
     (let ledger = charge d ledger node u;
          (w, r) = jappend e ((record0 EventNodeFinished)\<lparr>RNode := node, Attempt := attempt,
            DurationMS := Milliseconds t, Status := status, RUsage := journalUsage u, Note := nt\<rparr>) w
      in case r of
        None \<Rightarrow> (w, broken node steps ledger (ErrIO ''journal''))
      | Some _ \<Rightarrow> endRun d e man ledger ev runStatus exitCode node steps nt (Some cause) w)"

definition notRun :: "Dispatcher \<Rightarrow> Env \<Rightarrow> Ledger \<Rightarrow> string \<Rightarrow> int \<Rightarrow> int \<Rightarrow> World \<Rightarrow> World \<times> answer" where
  "notRun d e ledger node attempt steps w =
     (let nt = spell d (NNotRun (ErrNotRun node));
          (w, _) = jappend e (interruptedAttempt node attempt 0 zeroUsage nt) w
      in (w, (\<lparr>Out_Status = RunStatusUnknown, ExitCode = ExitFailed, Out_Node = node, Steps = steps,
           Out_Usage = Ledger_Total ledger, Out_Note = nt\<rparr>, Some (ErrNotRun node))))"

section \<open>One execution\<close>

definition runContext :: "Dispatcher \<Rightarrow> Manifest \<Rightarrow> Blackboard \<Rightarrow> Ledger \<Rightarrow> string \<Rightarrow> int \<Rightarrow> int \<Rightarrow> RunContext" where
  "runContext d man st ledger node step attempt = \<lparr>RC_Goal = M_Goal man, RC_State = st,
     RC_Config = PinnedConfig man (cfg d), RC_Workspace = workspace d, RC_RunID = RunID man,
     RC_Budget = Ledger_Snapshot (spentBefore d ledger node) (MaxUSD (Cfg_Budget (cfg d))),
     NodeName = node, RC_Step = step, RC_Attempt = attempt, RC_Output = M_Output man,
     ArchiveDir = A_Dir (M_ArchivedPlan man), RC_Policy = M_Policy man\<rparr>"

text \<open>\<open>None\<close> is an error: a key that is no path, a snapshot that cannot be read, or one that cannot be
  saved. Reading the snapshot is one file operation, saving it another.\<close>

definition blackboardFor :: "Dispatcher \<Rightarrow> Env \<Rightarrow> RunContext \<Rightarrow> nat \<Rightarrow> World \<Rightarrow> World \<times> Blackboard option" where
  "blackboardFor d e rc key w =
     (case SnapshotPath key (NodeName rc) of
        None \<Rightarrow> (w, None)
      | Some path \<Rightarrow>
          (let (w, ok) = io_ok e w in
           if \<not> ok then (w, None)
           else case D_Snapshots (disk w) path of
             Some snap \<Rightarrow> (w, Some (Sn_State snap))
           | None \<Rightarrow>
               (let snap = \<lparr>Sn_RunID = RC_RunID rc, Sn_Node = NodeName rc, Sn_Seq = key, Sn_Step = RC_Step rc,
                      TakenAt = E_clock e (tick w),
                      WorkspaceDigest = (if fingerprint d then E_digest e (tick w) else []),
                      Sn_State = RC_State rc\<rparr>;
                    (w, ok) = try_write e (WSnapshot snap) (next_tick w)
                in (w, if ok then Some (RC_State rc) else None))))"

record nodeOutcome =
  res :: Result
  err :: "NodeError option"
  elapsed :: int
  timedOut :: bool
  canceled :: bool

definition execute :: "Dispatcher \<Rightarrow> Env \<Rightarrow> Node \<Rightarrow> RunContext \<Rightarrow> World \<Rightarrow> World \<times> nodeOutcome" where
  "execute d e n rc w =
     (let capped = (0 < NodeTimeout (Cfg_Graph (cfg d)) \<and> \<not> N_Supervisor n);
          t0 = tick w; w = next_tick w;
          (r, er) = N_Run n (tick w) rc; w = next_tick w;
          dt = min (2 ^ 63 - 1) (max 0 (E_clock e (tick w) - E_clock e t0)); w = next_tick w
      in (w, \<lparr>res = r, err = er, elapsed = dt, timedOut = (E_ctx_expired e (tick w) \<or> capped \<and> E_expired e (tick w)),
              canceled = E_cancelled e (tick w)\<rparr>))"

section \<open>Settling an execution\<close>

fun decimal :: "nat \<Rightarrow> string" where
  "decimal n = (if n < 10 then [char_of (48 + n)] else decimal (n div 10) @ [char_of (48 + n mod 10)])"

declare decimal.simps [simp del]

definition Itoa :: "int \<Rightarrow> string" where
  "Itoa i = (if i < 0 then CHR ''-'' # decimal (nat (- i)) else decimal (nat i))"

definition Status_String :: "Status \<Rightarrow> string" where
  "Status_String s =
     (case s of
        Status_other i \<Rightarrow> ''Status('' @ Itoa i @ '')''
      | _ \<Rightarrow> (case Status_MarshalText s of Some name \<Rightarrow> name | None \<Rightarrow> []))"

definition history_entry :: "Env \<Rightarrow> nat \<Rightarrow> string \<Rightarrow> int \<Rightarrow> Result \<Rightarrow> World \<Rightarrow> HistoryEntry" where
  "history_entry e startedSeq node attempt r w = \<lparr>H_Seq = startedSeq, H_Node = node, H_Attempt = attempt,
     H_Status = Status_String (Res_Status r), H_Next = Res_Next r, H_Time = E_clock e (tick w),
     H_Summary = Res_Note r\<rparr>"

definition next_of :: "string \<Rightarrow> Result \<Rightarrow> string" where
  "next_of node r = (case Res_Status r of StatusOK \<Rightarrow> Res_Next r | StatusPaused \<Rightarrow> node | _ \<Rightarrow> [])"

text \<open>The accepted path: the patch first, then the journal, then the marker or the manifest. The last
  component is \<open>None\<close> when the run goes on.\<close>

definition accept :: "Dispatcher \<Rightarrow> Env \<Rightarrow> Manifest \<Rightarrow> Ledger \<Rightarrow> string \<Rightarrow> int \<Rightarrow> nat \<Rightarrow> int \<Rightarrow> int \<Rightarrow>
    Result \<Rightarrow> int \<Rightarrow> World \<Rightarrow> World \<times> Manifest \<times> Ledger \<times> answer option" where
  "accept d e man ledger node attempt startedSeq step steps r t w =
     (let man = man\<lparr>Step := step\<rparr>;
          patch = (Res_Patch r)\<lparr>Patch_History := Some (history_entry e startedSeq node attempt r w)\<rparr>;
          (w, ok) = ApplyPatch e patch (next_tick w)
      in if \<not> ok then (w, man, ledger, Some (broken node steps ledger (ErrIO ''apply patch'')))
      else let ledger = charge d ledger node (Res_Usage r);
               (w, rec) = jappend e ((record0 EventNodeFinished)\<lparr>RNode := node, Attempt := attempt,
                 DurationMS := Milliseconds t, Status := Res_Status r, Next := next_of node r,
                 RUsage := journalUsage (Res_Usage r), Note := Res_Note r\<rparr>) w
           in case rec of
             None \<Rightarrow> (w, man, ledger, Some (broken node steps ledger (ErrIO ''journal'')))
           | Some _ \<Rightarrow>
               if Done r
               then let (w, a) = endRun d e man ledger EventRunCompleted RunStatusCompleted ExitOK End steps
                      (spell d NCompleted) None w in (w, man, ledger, Some a)
               else case Res_Status r of
                 StatusOK \<Rightarrow>
                   (let (w, man, ok) = persist d e man RunStatusRunning (Res_Next r) ledger w
                    in (w, man, ledger, if ok then None else Some (broken node steps ledger (ErrIO ''save manifest''))))
               | StatusPaused \<Rightarrow>
                   (let nt = spell d (NJoin [if Res_Note r = [] then NPausedAt node else NText (Res_Note r), NUseResume]);
                        (w, a) = endRun d e man ledger EventRunPaused RunStatusPaused ExitOK node steps nt None w
                    in (w, man, ledger, Some a))
               | StatusAborted \<Rightarrow>
                   (let (w, a) = endRun d e man ledger EventRunAborted RunStatusAborted ExitAborted node steps
                      (Res_Note r) (Some (ErrNodeAborted node)) w in (w, man, ledger, Some a))
               | _ \<Rightarrow>
                   (let (w, a) = endRun d e man ledger EventRunFailed RunStatusFailed ExitFailed node steps
                      (Res_Note r) (Some (ErrNodeFailed node)) w in (w, man, ledger, Some a)))"

definition settle :: "Dispatcher \<Rightarrow> Env \<Rightarrow> Manifest \<Rightarrow> Ledger \<Rightarrow> string \<Rightarrow> int \<Rightarrow> nat \<Rightarrow> int \<Rightarrow> int \<Rightarrow>
    nodeOutcome \<Rightarrow> World \<Rightarrow> World \<times> Manifest \<times> Ledger \<times> answer option" where
  "settle d e man ledger node attempt startedSeq step steps exec w =
     (let u = (if supervises d node then Unrecorded ledger node (Res_Usage (res exec)) else Res_Usage (res exec));
          r = (res exec)\<lparr>Res_Usage := u\<rparr>;
          t = elapsed exec;
          (cut, charged) = cutShortCharge d ledger node u;
          stop = (\<lambda>(w, a). (w, man, ledger, Some a))
      in if timedOut exec
         then let cause = ErrNodeTimeout node in
           stop (pauseInsideNode d e man ledger node attempt steps t cut
             (spell d (NJoin (NLimit cause [''graph.node_timeout''] # charged))) cause w)
         else if canceled exec \<and> pauseOnCancel d
         then stop (pauseInsideNode d e man ledger node attempt steps t cut
             (spell d (NJoin (NInterrupted attempt # charged))) (ErrInterrupted node) w)
         else if canceled exec
         then let cause = ErrNodeCanceled node in
           stop (terminal d e man ledger node attempt steps t cut StatusAborted EventRunAborted
             RunStatusAborted ExitAborted (spell d (NJoin (NCause cause # charged))) cause w)
         else case err exec of
           Some x \<Rightarrow>
             if LimitSettings (Some x) \<noteq> []
             then stop (pauseInsideNode d e man ledger node attempt steps t u
               (spell d (NLimit (ErrNodeLimit x) (LimitSettings (Some x)))) (ErrNodeLimit x) w)
             else stop (terminal d e man ledger node attempt steps t u StatusFailed EventRunFailed
               RunStatusFailed ExitFailed (spell d (NNodeError x)) (ErrNodeErr node x) w)
         | None \<Rightarrow>
             (case Result_Validate r of
                Some x \<Rightarrow> stop (terminal d e man ledger node attempt steps t u StatusFailed EventRunFailed
                  RunStatusFailed ExitFailed (spell d (NInvalidResult x)) (ErrInvalidResult node x) w)
              | None \<Rightarrow> accept d e man ledger node attempt startedSeq step steps r t w))"

section \<open>Recovery\<close>

definition startedANode :: "JRecord list \<Rightarrow> bool" where
  "startedANode records \<longleftrightarrow> (\<exists>r \<in> set records. Event r = EventNodeStarted \<or> Event r = EventNodeFinished)"

definition attemptOneSeq :: "JRecord list \<Rightarrow> string \<Rightarrow> nat" where
  "attemptOneSeq records node =
     (case List.find (\<lambda>r. Event r = EventNodeStarted \<and> RNode r = node \<and> Attempt r = 1) (rev records) of
        Some r \<Rightarrow> Seq r
      | None \<Rightarrow> 0)"

definition owedRunMarker :: "JRecord \<Rightarrow> (Event \<times> RunState) option" where
  "owedRunMarker r =
     (if Interrupted r then None
      else case Status r of
        StatusFailed \<Rightarrow> Some (EventRunFailed, RunStateFailed)
      | StatusAborted \<Rightarrow> Some (EventRunAborted, RunStateAborted)
      | StatusPaused \<Rightarrow> Some (EventRunPaused, RunStatePaused)
      | _ \<Rightarrow> None)"

fun runStatusFor :: "RunState \<Rightarrow> RunStatus" where
  "runStatusFor RunStatePaused = RunStatusPaused"
| "runStatusFor RunStateCompleted = RunStatusCompleted"
| "runStatusFor RunStateFailed = RunStatusFailed"
| "runStatusFor RunStateAborted = RunStatusAborted"
| "runStatusFor RunStateRunnable = RunStatusRunning"

text \<open>The last component is whether anything was healed, or \<open>None\<close> for an error. Killing what a dead
  dispatcher left running has no effect on the run's documents.\<close>

definition heal :: "Dispatcher \<Rightarrow> Env \<Rightarrow> JRecord list \<Rightarrow> Start \<Rightarrow> Ledger \<Rightarrow> World \<Rightarrow>
    World \<times> Start \<times> Ledger \<times> bool option" where
  "heal d e records start ledger w =
     (if records = [] then (w, start, ledger, Some False)
      else let r = last records in
      case Event r of
        EventNodeStarted \<Rightarrow>
          (let c = (if estimable d (RNode r) then interruptedCharge d ledger else zeroUsage);
               nt = spell d (NJoin ([NHealed (Attempt r),
                  if estimable d (RNode r) then NCharged c else NChargedNothing] @
                  (if 0 < E_killed e then [NKilled (E_killed e)] else []) @ [NRerunning]));
               (w, rec) = jappend e (interruptedAttempt (RNode r) (Attempt r) 0 c nt) w
           in case rec of
                None \<Rightarrow> (w, start, ledger, None)
              | Some _ \<Rightarrow> (w, start, charge d ledger (RNode r) c, Some True))
      | EventNodeFinished \<Rightarrow>
          (case owedRunMarker r of
             None \<Rightarrow> (w, start, ledger, Some False)
           | Some (ev, st) \<Rightarrow>
               (let (w, rec) = jappend e ((record0 ev)\<lparr>Note := Note r\<rparr>) w
                in case rec of
                     None \<Rightarrow> (w, start, ledger, None)
                   | Some _ \<Rightarrow> (w, start\<lparr>State := st\<rparr>, ledger, Some True)))
      | _ \<Rightarrow> (w, start, ledger, Some False))"

text \<open>\<open>None\<close>: the dispatch goes on.\<close>

definition checkStartState :: "Dispatcher \<Rightarrow> Env \<Rightarrow> Start \<Rightarrow> bool \<Rightarrow> Ledger \<Rightarrow> World \<Rightarrow> World \<times> answer option" where
  "checkStartState d e start resuming ledger w =
     (let already = (\<lambda>status code node nt er. (\<lparr>Out_Status = status, ExitCode = code, Out_Node = node,
            Steps = 0, Out_Usage = Ledger_Total ledger, Out_Note = spell d nt\<rparr>, er))
      in case State start of
        RunStatePaused \<Rightarrow>
          if \<not> resuming
          then (w, Some (already RunStatusPaused ExitPaused (SNode start) (NPausedRefused (SNode start)) (Some ErrRunPaused)))
          else (let (w, rec) = jappend e (record0 EventRunResumed) w
                in (w, if rec = None then Some (broken0 (ErrIO ''journal'')) else None))
      | RunStateCompleted \<Rightarrow> (w, Some (already RunStatusCompleted ExitOK End (NAlready ''completed'') None))
      | RunStateFailed \<Rightarrow>
          (w, Some (already RunStatusFailed ExitFailed (SNode start) (NAlready ''failed'') (Some ErrRunEnded)))
      | RunStateAborted \<Rightarrow>
          (w, Some (already RunStatusAborted ExitAborted (SNode start) (NAlready ''aborted'') (Some ErrRunEnded)))
      | RunStateRunnable \<Rightarrow>
          if seqno w = 0
          then (let (w, rec) = jappend e (record0 EventRunStarted) w
                in (w, if rec = None then Some (broken0 (ErrIO ''journal'')) else None))
          else (w, None))"

section \<open>The loop\<close>

text \<open>The guards in front of a node, in order: \<open>Some\<close> is the answer of a run that stops there.\<close>

definition guards :: "Dispatcher \<Rightarrow> Env \<Rightarrow> Manifest \<Rightarrow> Ledger \<Rightarrow> string \<Rightarrow> int \<Rightarrow> World \<Rightarrow> World \<times> answer option" where
  "guards d e man ledger current steps w =
     (let stop = (\<lambda>(w, a). (w, Some a));
          unpriced = (case registry d current of Some n \<Rightarrow> N_Unpriced n | None \<Rightarrow> False);
          maxSteps = MaxSteps (Cfg_Graph (cfg d));
          over = Check (spentBefore d ledger current) (Cfg_Budget (cfg d))
      in case (over, unpriced) of
        (Some x, False) \<Rightarrow>
          let cause = ErrBudget current x in
          stop (pauseAtLimit d e man ledger current steps
            (spell d (NLimit cause [''budget.max_usd or budget.max_tokens''])) cause w)
      | _ \<Rightarrow>
          if 0 < maxSteps \<and> maxSteps \<le> Step man
          then let cause = ErrMaxSteps (Step man) maxSteps in
            stop (pauseAtLimit d e man ledger current steps (spell d (NLimit cause [''graph.max_steps''])) cause w)
          else let cancelled = E_cancelled e (tick w); w = next_tick w in
          if pauseOnCancel d \<and> cancelled
          then stop (pauseInterrupted d e man ledger current steps w)
          else case registry d current of
            None \<Rightarrow>
              let cause = ErrUnknownNode current in
              stop (endRun d e man ledger EventRunFailed RunStatusFailed ExitFailed current steps
                (spell d (NCause cause)) (Some cause) w)
          | Some _ \<Rightarrow> (w, None))"

text \<open>One turn of the loop past the guards: load the blackboard, journal the start, find the blackboard
  the node is given, run it, settle it. On an error before the node runs the answer is the last
  component; the ledger and the manifest are the ones to go on with.\<close>

definition run_node :: "Dispatcher \<Rightarrow> Env \<Rightarrow> Manifest \<Rightarrow> Ledger \<Rightarrow> Node \<Rightarrow> string \<Rightarrow> int \<Rightarrow> nat \<Rightarrow> int \<Rightarrow> World \<Rightarrow>
    World \<times> Manifest \<times> Ledger \<times> string \<times> answer option" where
  "run_node d e man ledger node current attempt repeats steps w =
     (let (w, ok) = io_ok e w in
      if \<not> ok then (w, man, ledger, [], Some (broken current steps ledger (ErrIO ''load state'')))
      else let st = D_State (disk w);
               step = wrap64 (Step man + 1);
               (w, started) = jappend e ((record0 EventNodeStarted)\<lparr>RNode := current, Attempt := attempt\<rparr>) w
      in case started of
        None \<Rightarrow> (w, man, ledger, [], Some (broken current steps ledger (ErrIO ''journal'')))
      | Some started \<Rightarrow>
          (let rc = runContext d man st ledger current step attempt;
               key = (if 1 < attempt \<and> repeats \<noteq> 0 then repeats else Seq started);
               (w, view) = blackboardFor d e rc key w
           in case view of
             None \<Rightarrow> (let (w, a) = notRun d e ledger current attempt steps w in (w, man, ledger, [], Some a))
           | Some view \<Rightarrow>
               (let rc = rc\<lparr>RC_State := view\<rparr>;
                    w = w\<lparr>runs := runs w @ [\<lparr>X_Node = node, X_Context = rc, X_Key = key,
                      X_Disk = disk w, X_Ledger = ledger\<rparr>]\<rparr>;
                    (w, exec) = execute d e node rc w;
                    (w, man, ledger, a) = settle d e man ledger (N_Name node) attempt (Seq started) step
                      (wrap64 (steps + 1)) exec w
                in (w, man, ledger, Res_Next (res exec), a))))"

text \<open>The \<open>for\<close> loop may go round for ever when no step cap is set, so it takes fuel; \<open>None\<close> is fuel
  run out. Theory Dispatch_Steps shows how much is enough.\<close>

fun loop :: "nat \<Rightarrow> Dispatcher \<Rightarrow> Env \<Rightarrow> Manifest \<Rightarrow> Ledger \<Rightarrow> string \<Rightarrow> int \<Rightarrow> nat \<Rightarrow> int \<Rightarrow> World \<Rightarrow>
    World \<times> answer option" where
  "loop 0 d e man ledger current attempt repeats steps w = (w, None)"
| "loop (Suc fuel) d e man ledger current attempt repeats steps w =
     (let stop = (\<lambda>(w, a). (w, Some a)) in
      if current = End
      then stop (endRun d e man ledger EventRunCompleted RunStatusCompleted ExitOK End steps (spell d NCompleted) None w)
      else if current = []
      then stop (endRun d e man ledger EventRunFailed RunStatusFailed ExitFailed current steps
        (spell d (NCause ErrNoResumePoint)) (Some ErrNoResumePoint) w)
      else case guards d e man ledger current steps w of
        (w, Some a) \<Rightarrow> (w, Some a)
      | (w, None) \<Rightarrow>
          (case registry d current of
             None \<Rightarrow> (w, Some (broken0 (ErrUnknownNode current)))
           | Some node \<Rightarrow>
               (case run_node d e man ledger node current attempt repeats steps w of
                  (w, man, ledger, nxt, Some a) \<Rightarrow> (w, Some a)
                | (w, man, ledger, nxt, None) \<Rightarrow>
                    let steps = wrap64 (steps + 1) in
                    if 0 < pauseAfter d \<and> pauseAfter d \<le> steps
                    then stop (endRun d e man ledger EventRunPaused RunStatusPaused ExitOK nxt steps
                      (spell d (NPausedAsAsked nxt steps)) None w)
                    else loop fuel d e man ledger nxt 1 repeats steps w)))"

section \<open>Dispatch\<close>

text \<open>\<open>dispatch\<close> in two parts. The second is what it does once the journal is healed: the manifest
  a healed run that has ended is owed, the start state, the loop.\<close>

definition dispatch_healed :: "nat \<Rightarrow> Dispatcher \<Rightarrow> Env \<Rightarrow> bool \<Rightarrow> JRecord list \<Rightarrow> Manifest \<Rightarrow> Start \<Rightarrow> Ledger \<Rightarrow> bool \<Rightarrow>
    World \<Rightarrow> World \<times> answer option" where
  "dispatch_healed fuel d e resuming records man start ledger healed w =
     (let (w, man, ok) =
        (if healed \<and> State start \<noteq> RunStateRunnable
         then persist d e man (runStatusFor (State start)) (SNode start) ledger w
         else (w, man, True))
      in if \<not> ok then (w, Some (broken0 (ErrIO ''save manifest'')))
      else case checkStartState d e start resuming ledger w of
        (w, Some a) \<Rightarrow> (w, Some a)
      | (w, None) \<Rightarrow>
          (let repeats = (if 1 < SAttempt start then attemptOneSeq records (SNode start) else 0)
           in loop fuel d e man ledger (SNode start) (SAttempt start) repeats 0 w))"

definition dispatch :: "nat \<Rightarrow> Dispatcher \<Rightarrow> Env \<Rightarrow> bool \<Rightarrow> World \<Rightarrow> World \<times> answer option" where
  "dispatch fuel d e resuming w =
     (let (w, ok) = io_ok e w in
      if \<not> ok then (w, Some (broken0 (ErrIO ''load manifest'')))
      else let man = D_Manifest (disk w); (w, ok) = Preflight e w in
      if \<not> ok then (w, Some (broken0 (ErrIO ''preflight'')))
      else let (w, ok) = io_ok e w; records = D_Journal (disk w) in
      if \<not> ok then (w, Some (broken0 (ErrIO ''open journal'')))
      else case Validate records of
        Inl c \<Rightarrow> (w, Some (broken0 (ErrCorrupt c)))
      | Inr _ \<Rightarrow>
          (let w = w\<lparr>seqno := fold (\<lambda>r m. if Seq r > m then Seq r else m) records 0\<rparr>;
               (w, ok) = io_ok e w in
           if \<not> ok then (w, Some (broken0 (ErrIO ''read journal'')))
           else case ResolveStart records of
             Inl c \<Rightarrow> (w, Some (broken0 (ErrCorrupt c)))
           | Inr start \<Rightarrow>
               (let start = (if entry_node d \<noteq> [] \<and> \<not> startedANode records
                             then start\<lparr>SNode := entry_node d, SAttempt := 1\<rparr> else start);
                    ledger = rebuildLedger records (M_Budget man) (supervises d)
                in case heal d e records start ledger w of
                  (w, start, ledger, None) \<Rightarrow> (w, Some (broken0 (ErrIO ''heal'')))
                | (w, start, ledger, Some healed) \<Rightarrow>
                    dispatch_healed fuel d e resuming records man start ledger healed w)))"

definition Run :: "nat \<Rightarrow> Dispatcher \<Rightarrow> Env \<Rightarrow> World \<Rightarrow> World \<times> answer option" where
  "Run fuel d e w = dispatch fuel d e False w"

definition Resume :: "nat \<Rightarrow> Dispatcher \<Rightarrow> Env \<Rightarrow> World \<Rightarrow> World \<times> answer option" where
  "Resume fuel d e w = dispatch fuel d e True w"

end
