(* ===== verification/Dispatch_Protocol.thy ===== *)
theory Dispatch_Protocol
  imports Dispatcher
begin

text \<open>
  What the dispatcher's writes promise. \<open>legal\<close> is the protocol every durable write obeys, stated on
  the documents alone, and the invariants of a run follow from it. Theory Dispatch_Safety shows that
  the dispatcher keeps to it.
\<close>

section \<open>The journal's shape\<close>

definition jstate :: "JRecord list \<Rightarrow> JRecord option \<Rightarrow> bool" where
  "jstate rs d \<longleftrightarrow> (\<exists>s. scan rs = Inr s \<and> open_node s = d)"

lemma jstate_valid: "jstate rs d \<Longrightarrow> is_ok (Validate rs)"
  by (auto simp: jstate_def Validate_def is_ok_iff)

lemma jstate_ex: "is_ok (Validate rs) \<Longrightarrow> \<exists>d. jstate rs d"
proof -
  assume "is_ok (Validate rs)"
  then have "is_ok (scan rs)" by (simp only: Validate_ok)
  then show ?thesis by (auto simp: jstate_def is_ok_iff)
qed

lemma jstate_unique: "jstate rs d \<Longrightarrow> jstate rs d' \<Longrightarrow> d' = d"
  by (auto simp: jstate_def)

lemma jstate_Nil [simp]: "jstate [] d \<longleftrightarrow> d = None"
  by (auto simp: jstate_def scan_def scan0_def)

lemma jstate_seq:
  assumes "jstate rs d" shows "map Seq rs = [1..<Suc (length rs)]"
proof -
  from assms obtain s where "scan rs = Inr s" by (auto simp: jstate_def)
  from scan_inv [OF this] show ?thesis by (simp only: scan_inv_def)
qed

lemma jstate_open:
  assumes "jstate rs (Some d)"
  shows "Event d = EventNodeStarted" "\<exists>h. rs = h @ [d] \<and> jstate h None" "Seq d = length rs"
proof -
  from assms obtain s where s: "scan rs = Inr s" "open_node s = Some d" by (auto simp: jstate_def)
  from scan_inv [OF s(1)] s(2) have "open_history rs d" "map Seq rs = [1..<Suc (length rs)]"
    by (simp_all add: scan_inv_def)
  then obtain h where h: "rs = h @ [d]" "closed_history h" "Event d = EventNodeStarted"
    by (auto simp: open_history_def)
  moreover have "map Seq h = [1..<Suc (length h)]" "Seq d = Suc (length h)"
    using \<open>map Seq rs = _\<close> h(1) by simp_all
  moreover have "jstate h None" using scan_closed [of h] calculation by (simp add: jstate_def)
  ultimately show "Event d = EventNodeStarted" "\<exists>h. rs = h @ [d] \<and> jstate h None" "Seq d = length rs"
    by simp_all
qed

lemma jstate_last_started:
  assumes "jstate rs d" "rs \<noteq> []" shows "Event (last rs) = EventNodeStarted \<longleftrightarrow> d = Some (last rs)"
proof
  assume l: "Event (last rs) = EventNodeStarted"
  obtain h where h: "rs = h @ [last rs]" using assms(2) by (metis append_butlast_last_id)
  from assms(1) obtain s where s: "scan rs = Inr s" "open_node s = d" by (auto simp: jstate_def)
  have "bind_result (scan h) (scan_step (last rs)) = Inr s" using s(1) scan_snoc [of h "last rs"] h by simp
  then obtain u where "scan_step (last rs) u = Inr s" unfolding bind_result_Inr_iff by blast
  with l s(2) show "d = Some (last rs)" by (auto simp: scan_step_Inr split: option.splits)
next
  assume "d = Some (last rs)"
  with assms(1) show "Event (last rs) = EventNodeStarted" using jstate_open(1) by blast
qed

text \<open>What may follow.\<close>

definition follows :: "JRecord option \<Rightarrow> JRecord \<Rightarrow> JRecord option \<Rightarrow> bool" where
  "follows d r d' \<longleftrightarrow>
     (case d of
        None \<Rightarrow> Event r \<noteq> EventNodeFinished \<and> d' = (if Event r = EventNodeStarted then Some r else None)
      | Some s \<Rightarrow> Event r = EventNodeFinished \<and> RNode s = RNode r \<and> Attempt s = Attempt r \<and> d' = None)"

lemma jstate_snoc:
  assumes "jstate rs d" "follows d r d'" "Seq r = Suc (length rs)" shows "jstate (rs @ [r]) d'"
proof -
  from assms(1) obtain s where s: "scan rs = Inr s" "open_node s = d" by (auto simp: jstate_def)
  from scan_inv [OF s(1)] have "prevSeq s = length rs" by (simp add: scan_inv_def)
  let ?t = "s\<lparr>prevSeq := Seq r, open_node := d',
    lastFinished := if d = None then lastFinished s else Some r\<rparr>"
  have "scan_step r s = Inr ?t"
    using assms(2,3) s(2) \<open>prevSeq s = _\<close>
    by (cases d) (auto simp: scan_step_Inr follows_def)
  with s(1) have "scan (rs @ [r]) = Inr ?t" by (simp add: scan_snoc)
  then show ?thesis by (simp add: jstate_def)
qed

section \<open>The protocol\<close>

text \<open>The execution an open attempt belongs to is named by the start of its attempt 1.\<close>

definition execution_key :: "JRecord list \<Rightarrow> JRecord \<Rightarrow> nat" where
  "execution_key rs d = (let k = attemptOneSeq rs (RNode d) in if k = 0 then Seq d else k)"

text \<open>What no dispatch changes about a run: every field of its manifest but the lifecycle ones.\<close>

definition lifecycle :: "Manifest \<Rightarrow> RunStatus \<Rightarrow> string \<Rightarrow> Budget \<Rightarrow> int \<Rightarrow> int \<Rightarrow> Manifest" where
  "lifecycle m status current b upd n = m\<lparr>M_Status := status, CurrentNode := current, M_Budget := b,
     UpdatedAt := upd, Step := n\<rparr>"

definition same_run :: "Manifest \<Rightarrow> Manifest \<Rightarrow> bool" where
  "same_run m m' \<longleftrightarrow> (\<exists>status current b upd n. m' = lifecycle m status current b upd n)"

lemma same_run_refl [simp]: "same_run m m"
  unfolding same_run_def lifecycle_def
  by (rule exI [of _ "M_Status m"], rule exI [of _ "CurrentNode m"], rule exI [of _ "M_Budget m"],
      rule exI [of _ "UpdatedAt m"], rule exI [of _ "Step m"]) simp

lemma same_run_trans: "same_run a b \<Longrightarrow> same_run b c \<Longrightarrow> same_run a c"
proof -
  assume "same_run a b" "same_run b c"
  then obtain s1 c1 b1 a1 n1 s2 c2 b2 a2 n2 where
    "b = lifecycle a s1 c1 b1 a1 n1" "c = lifecycle b s2 c2 b2 a2 n2" unfolding same_run_def by blast
  then have "c = lifecycle a s2 c2 b2 a2 n2" by (simp add: lifecycle_def)
  then show ?thesis unfolding same_run_def by blast
qed

lemma same_run_sym: "same_run a b \<Longrightarrow> same_run b a"
proof -
  assume "same_run a b"
  then obtain s c b1 a1 n where "b = lifecycle a s c b1 a1 n" unfolding same_run_def by blast
  then have "a = lifecycle b (M_Status a) (CurrentNode a) (M_Budget a) (UpdatedAt a) (Step a)"
    by (simp add: lifecycle_def)
  then show ?thesis unfolding same_run_def by blast
qed

inductive legal :: "Disk \<Rightarrow> disk_write \<Rightarrow> bool" where
  append: "jstate (D_Journal D) d \<Longrightarrow> follows d r d' \<Longrightarrow> Seq r = Suc (length (D_Journal D)) \<Longrightarrow>
    is_ok (Record_validate r) \<Longrightarrow>
    (case d of
       None \<Rightarrow> True
     | Some s \<Rightarrow> Status r \<noteq> StatusOK \<and> Status r \<noteq> StatusPaused \<or>
         (\<exists>h \<in> set (History (D_State D)). H_Seq h = Seq s \<and> H_Node h = RNode s)) \<Longrightarrow>
    legal D (WAppend r)"
| state: "jstate (D_Journal D) (Some s) \<Longrightarrow> Apply p (D_State D) = Inr st \<Longrightarrow>
    Patch_History p = Some h \<Longrightarrow> H_Seq h = Seq s \<Longrightarrow> H_Node h = RNode s \<Longrightarrow>
    D_Snapshots D (execution_key (D_Journal D) s, RNode s) \<noteq> None \<Longrightarrow> legal D (WState st)"
| snapshot: "jstate (D_Journal D) (Some s) \<Longrightarrow> Sn_Seq snap = execution_key (D_Journal D) s \<Longrightarrow>
    Sn_Node snap = RNode s \<Longrightarrow> Sn_State snap = D_State D \<Longrightarrow>
    D_Snapshots D (Sn_Seq snap, Sn_Node snap) = None \<Longrightarrow> legal D (WSnapshot snap)"
| manifest: "same_run (D_Manifest D) m \<Longrightarrow> jstate (D_Journal D) None \<or> m = D_Manifest D \<Longrightarrow>
    legal D (WManifest m)"

fun legal_seq :: "Disk \<Rightarrow> disk_write list \<Rightarrow> bool" where
  "legal_seq D [] = True"
| "legal_seq D (x # xs) = (legal D x \<and> legal_seq (apply_write x D) xs)"

lemma legal_seq_append [simp]:
  "legal_seq D (xs @ ys) \<longleftrightarrow> legal_seq D xs \<and> legal_seq (fold apply_write xs D) ys"
  by (induction xs arbitrary: D) auto

section \<open>What the protocol keeps\<close>

text \<open>The completion of an accepted execution is on the blackboard: its history entry, and with it
  the patch it came in, reached the disk before the record that claims it.\<close>

definition committed :: "Disk \<Rightarrow> bool" where
  "committed D \<longleftrightarrow> (\<forall>xs s f ys. D_Journal D = xs @ s # f # ys \<and> Event f = EventNodeFinished \<and>
     (Status f = StatusOK \<or> Status f = StatusPaused) \<longrightarrow>
     (\<exists>h \<in> set (History (D_State D)). H_Seq h = Seq s \<and> H_Node h = RNode s))"

lemma committedD:
  "committed D \<Longrightarrow> D_Journal D = xs @ s # f # ys \<Longrightarrow> Event f = EventNodeFinished \<Longrightarrow>
   Status f = StatusOK \<or> Status f = StatusPaused \<Longrightarrow>
   \<exists>h \<in> set (History (D_State D)). H_Seq h = Seq s \<and> H_Node h = RNode s"
  unfolding committed_def by blast

text \<open>The journal is one history of records that \<open>Append\<close> takes, and what it claims is on disk.\<close>

definition disk_ok :: "Disk \<Rightarrow> bool" where
  "disk_ok D \<longleftrightarrow> is_ok (Validate (D_Journal D)) \<and> (\<forall>r \<in> set (D_Journal D). is_ok (Record_validate r)) \<and> committed D"

lemma snoc_split:
  "rs @ [r] = xs @ s # f # ys \<longleftrightarrow>
     (ys = [] \<and> f = r \<and> rs = xs @ [s]) \<or> (\<exists>zs. ys = zs @ [r] \<and> rs = xs @ s # f # zs)"
  by (cases ys rule: rev_cases) auto

lemma entry_kept:
  assumes "Apply p s = Inr t" "Patch_History p = Some e" "x \<in> set (History s)"
  shows "\<exists>y \<in> set (History t). H_Seq y = H_Seq x \<and> (H_Seq x \<noteq> H_Seq e \<longrightarrow> y = x) \<and> (H_Seq x = H_Seq e \<longrightarrow> y = e)"
proof -
  have t: "History t = upsertHistory e (History s)"
    using assms by (auto simp: Apply_def Apply_fields_eq or_else_with_def split: if_splits)
  show ?thesis
  proof (cases "H_Seq x = H_Seq e")
    case True
    then show ?thesis using t upsertHistory_mem [of e "History s"] by auto
  next
    case False
    then show ?thesis using t upsertHistory_other [OF assms(3) False] by auto
  qed
qed

lemma jstate_pair:
  assumes "jstate (xs @ s # f # ys) d" "Event f = EventNodeFinished"
  shows "Event s = EventNodeStarted" "Seq s = Suc (length xs)" "Seq s < Seq f"
proof -
  from assms(1) have ok: "is_ok (scan ((xs @ [s]) @ f # ys))" by (auto simp: jstate_def is_ok_iff)
  have q: "map Seq (xs @ s # f # ys) = [1..<Suc (length (xs @ s # f # ys))]" by (rule jstate_seq [OF assms(1)])
  have "Seq s = Suc (length xs)" "Seq f = Suc (Suc (length xs))"
    using arg_cong [OF q, of "\<lambda>l. l ! length xs"] arg_cong [OF q, of "\<lambda>l. l ! Suc (length xs)"]
    by (simp_all add: nth_append del: upt_Suc)
  then show "Seq s = Suc (length xs)" "Seq s < Seq f" by simp_all
  from ok obtain u where "scan ((xs @ [s]) @ [f]) = Inr u"
    using journal_log.replay_prefix [of "(xs @ [s]) @ [f]" ys] by (auto simp: scan_def is_ok_iff)
  then obtain v where v: "scan (xs @ [s]) = Inr v" "scan_step f v = Inr u"
    by (auto simp only: scan_snoc bind_result_Inr_iff)
  then obtain o' where "open_node v = Some o'" using assms(2) by (auto simp: scan_step_Inr split: option.splits)
  then have "jstate (xs @ [s]) (Some o')" using v(1) by (auto simp: jstate_def)
  from jstate_open [OF this] show "Event s = EventNodeStarted" by auto
qed

lemma legal_disk_ok:
  assumes "legal D x" "disk_ok D" shows "disk_ok (apply_write x D)"
  using assms
proof (cases rule: legal.cases)
  case (append d r d')
  have j: "jstate (D_Journal D @ [r]) d'" using append(2,3,4) by (rule jstate_snoc)
  have "committed (apply_write (WAppend r) D)"
    unfolding committed_def
  proof (intro allI impI, elim conjE)
    fix xs s f ys
    assume a: "D_Journal (apply_write (WAppend r) D) = xs @ s # f # ys" "Event f = EventNodeFinished"
      "Status f = StatusOK \<or> Status f = StatusPaused"
    then consider "ys = []" "f = r" "D_Journal D = xs @ [s]"
      | zs where "D_Journal D = xs @ s # f # zs" by (auto simp: snoc_split)
    then show "\<exists>h \<in> set (History (D_State (apply_write (WAppend r) D))). H_Seq h = Seq s \<and> H_Node h = RNode s"
    proof cases
      case 1
      then obtain s' where "d = Some s'" using append(3) a(2) by (auto simp: follows_def split: option.splits)
      moreover have "s' = s" using jstate_open(2) [of "D_Journal D" s'] append(2) 1 calculation by auto
      ultimately show ?thesis using append(6) a(3) 1(2) by auto
    next
      case 2
      have "committed D" using assms(2) by (simp add: disk_ok_def)
      from committedD [OF this 2 a(2,3)] show ?thesis by simp
    qed
  qed
  then show ?thesis using append(1,5) j assms(2) by (auto simp: disk_ok_def jstate_valid)
next
  case (state s p st h)
  have "committed (apply_write (WState st) D)"
    unfolding committed_def
  proof (intro allI impI, elim conjE)
    fix xs b f ys
    assume a: "D_Journal (apply_write (WState st) D) = xs @ b # f # ys" "Event f = EventNodeFinished"
      "Status f = StatusOK \<or> Status f = StatusPaused"
    have "committed D" using assms(2) by (simp add: disk_ok_def)
    from committedD [OF this, of xs b f ys] a obtain x where
      x: "x \<in> set (History (D_State D))" "H_Seq x = Seq b" "H_Node x = RNode b"
      by auto
    have "Seq s = length (D_Journal D)" by (rule jstate_open(3) [OF state(2)])
    moreover have "jstate (xs @ b # f # ys) (Some s)" using state(2) a(1) by simp
    from jstate_pair [OF this a(2)] a(1) have "Seq b < length (D_Journal D)" by simp
    ultimately have "H_Seq x \<noteq> H_Seq h" using x(2) state(5) by simp
    with entry_kept [OF state(3,4) x(1)] x
    show "\<exists>h \<in> set (History (D_State (apply_write (WState st) D))). H_Seq h = Seq b \<and> H_Node h = RNode b"
      by auto
  qed
  then show ?thesis using state(1) assms(2) by (simp add: disk_ok_def)
next
  case (snapshot s snap)
  then show ?thesis using assms(2) by (simp add: disk_ok_def committed_def)
next
  case (manifest m)
  then show ?thesis using assms(2) by (simp add: disk_ok_def committed_def)
qed

lemma legal_kept:
  assumes "legal D x"
  shows "prefix (D_Journal D) (D_Journal (apply_write x D))"
    "D_Snapshots D key = Some sn \<Longrightarrow> D_Snapshots (apply_write x D) key = Some sn"
    "same_run (D_Manifest D) (D_Manifest (apply_write x D))"
  using assms by (cases x, auto elim: legal.cases simp: snaps.put_keeps)+

lemma legal_seq_kept:
  "legal_seq D xs \<Longrightarrow> prefix (D_Journal D) (D_Journal (fold apply_write xs D)) \<and>
    (\<forall>key sn. D_Snapshots D key = Some sn \<longrightarrow> D_Snapshots (fold apply_write xs D) key = Some sn) \<and>
    same_run (D_Manifest D) (D_Manifest (fold apply_write xs D))"
proof (induction xs arbitrary: D)
  case (Cons x xs)
  then have l: "legal D x" and s: "legal_seq (apply_write x D) xs" by simp_all
  from Cons.IH [OF s] legal_kept [OF l] show ?case
    by simp (meson prefix_order.trans same_run_trans)
qed simp

lemma legal_seq_disk_ok: "legal_seq D xs \<Longrightarrow> disk_ok D \<Longrightarrow> disk_ok (fold apply_write xs D)"
  by (induction xs arbitrary: D) (auto intro: legal_disk_ok)

end
