(* ===== verification/Dispatch_Safety.thy ===== *)
theory Dispatch_Safety
  imports Dispatch_Protocol
begin

text \<open>
  Every write of every function of theory Dispatcher is legal, whatever the nodes return, whatever the
  machine answers and wherever the process dies; and every execution is shown what theory Dispatch_Runs
  states of it.
\<close>

section \<open>Safe steps of the world\<close>

definition safe :: "World \<Rightarrow> World \<Rightarrow> bool" where
  "safe w w' \<longleftrightarrow> (\<exists>ws. wlog w' = wlog w @ ws \<and> legal_seq (disk w) ws \<and> disk w' = fold apply_write ws (disk w))"

text \<open>A step that runs no node.\<close>

definition quiet :: "World \<Rightarrow> World \<Rightarrow> bool" where
  "quiet w w' \<longleftrightarrow> safe w w' \<and> runs w' = runs w"

lemma safe_refl [simp]: "safe w w"
  unfolding safe_def by (rule exI [of _ "[]"]) simp

lemma safe_trans: "safe u v \<Longrightarrow> safe v w \<Longrightarrow> safe u w"
  unfolding safe_def by (elim exE conjE, rule_tac x = "ws @ wsa" in exI) simp

lemma quiet_refl [simp]: "quiet w w"
  by (simp add: quiet_def)

lemma quiet_trans: "quiet u v \<Longrightarrow> quiet v w \<Longrightarrow> quiet u w"
  unfolding quiet_def using safe_trans by auto

lemma quiet_same: "disk w' = disk w \<Longrightarrow> wlog w' = wlog w \<Longrightarrow> runs w' = runs w \<Longrightarrow> quiet w w'"
  unfolding quiet_def safe_def by (intro conjI exI [of _ "[]"]) simp_all

lemma quiet_runs: "quiet w w' \<Longrightarrow> runs w' = runs w"
  by (simp add: quiet_def)

lemma quiet_tick [simp]: "quiet w (next_tick w)"
  by (rule quiet_same) (simp_all add: next_tick_def)

lemma next_tick_simps [simp]:
  "disk (next_tick w) = disk w" "wlog (next_tick w) = wlog w" "seqno (next_tick w) = seqno w"
  "runs (next_tick w) = runs w" "tick (next_tick w) = Suc (tick w)"
  by (simp_all add: next_tick_def)

lemma io_ok_eq [simp]: "io_ok e w = (next_tick w, E_io e (tick w) = IO_ok)"
  by (simp add: io_ok_def)

lemma quiet_emit: "legal (disk w) wr \<Longrightarrow> quiet w (emit wr w)"
  unfolding quiet_def safe_def emit_def by (intro conjI exI [of _ "[wr]"]) simp_all

lemma try_write_quiet:
  assumes "legal (disk w) wr" "try_write e wr w = (w', ok)"
  shows "quiet w w'" "seqno w' = seqno w" "ok \<Longrightarrow> disk w' = apply_write wr (disk w)"
proof -
  have q: "quiet w (emit wr (next_tick w))"
    using quiet_trans [OF quiet_tick quiet_emit [of "next_tick w" wr]] assms(1) by simp
  show "quiet w w'" "seqno w' = seqno w" "ok \<Longrightarrow> disk w' = apply_write wr (disk w)"
    using assms(2) q by (auto simp: try_write_def emit_def split: io.splits)
qed

section \<open>Appending to the journal\<close>

definition ready :: "World \<Rightarrow> JRecord option \<Rightarrow> bool" where
  "ready w d \<longleftrightarrow> jstate (D_Journal (disk w)) d \<and> seqno w = length (D_Journal (disk w))"

definition fit :: "Manifest \<Rightarrow> World \<Rightarrow> bool" where
  "fit man w \<longleftrightarrow> same_run (D_Manifest (disk w)) man"

lemma ready_tick [simp]: "ready (next_tick w) d = ready w d"
  by (simp add: ready_def)

lemma fit_tick [simp]: "fit man (next_tick w) = fit man w"
  by (simp add: fit_def)

lemma prepare_simps [simp]:
  "Event (prepare now r) = Event r" "RNode (prepare now r) = RNode r" "Status (prepare now r) = Status r"
  "Next (prepare now r) = Next r" "RUsage (prepare now r) = RUsage r" "DurationMS (prepare now r) = DurationMS r"
  "Attempt (prepare now r) = (if nodeScoped (Event r) \<and> Attempt r = 0 then 1 else Attempt r)"
  by (simp_all add: prepare_def Let_def)

lemma Record_validate_Seq [simp]: "Record_validate (r\<lparr>Seq := n\<rparr>) = Record_validate r"
  by (simp add: Record_validate_def split: option.split)

text \<open>The record an append of \<open>r\<close> writes.\<close>

definition written :: "Env \<Rightarrow> JRecord \<Rightarrow> World \<Rightarrow> JRecord" where
  "written e r w = (prepare (E_clock e (tick w)) r)\<lparr>Seq := Suc (seqno w)\<rparr>"

lemma written_simps [simp]:
  "Event (written e r w) = Event r" "RNode (written e r w) = RNode r" "Status (written e r w) = Status r"
  "Next (written e r w) = Next r" "RUsage (written e r w) = RUsage r"
  "Attempt (written e r w) = (if nodeScoped (Event r) \<and> Attempt r = 0 then 1 else Attempt r)"
  "Seq (written e r w) = Suc (seqno w)"
  by (simp_all add: written_def)

definition commits :: "Disk \<Rightarrow> JRecord option \<Rightarrow> JRecord \<Rightarrow> bool" where
  "commits D d r \<longleftrightarrow> (case d of
       None \<Rightarrow> True
     | Some s \<Rightarrow> Status r \<noteq> StatusOK \<and> Status r \<noteq> StatusPaused \<or>
         (\<exists>h \<in> set (History (D_State D)). H_Seq h = Seq s \<and> H_Node h = RNode s))"

lemma jappend_quiet:
  assumes "ready w d" "follows d (written e r w) d'" "commits (disk w) d r" "jappend e r w = (w', x)"
  shows "quiet w w'"
    and "x = Some y \<Longrightarrow> y = written e r w \<and> is_ok (Record_validate y) \<and> ready w' d' \<and>
           disk w' = (disk w)\<lparr>D_Journal := D_Journal (disk w) @ [y]\<rparr>"
proof -
  let ?r = "written e r w" and ?v = "w\<lparr>seqno := Suc (seqno w)\<rparr>"
  have q: "quiet w ?v" by (rule quiet_same) simp_all
  have *: "quiet w w' \<and> (x = Some y \<longrightarrow> y = ?r \<and> is_ok (Record_validate y) \<and> ready w' d' \<and>
           disk w' = (disk w)\<lparr>D_Journal := D_Journal (disk w) @ [y]\<rparr>)"
  proof (cases "Record_validate (prepare (E_clock e (tick w)) r)")
    case (Inl z)
    then show ?thesis using assms(4) by (auto simp: jappend_def Let_def)
  next
    case (Inr z)
    then have v: "is_ok (Record_validate ?r)" by (simp add: written_def)
    obtain ok where tw: "try_write e (WAppend ?r) ?v = (w', ok)" "x = (if ok then Some ?r else None)"
      using assms(4) Inr
      by (auto simp: jappend_def Let_def written_def split: prod.splits)
    have l: "legal (disk ?v) (WAppend ?r)"
      using assms(1-3) v
      by (intro legal.append [where d = d and d' = d']) (auto simp: ready_def commits_def split: option.splits)
    note t = try_write_quiet [OF l tw(1)]
    have "ready w' d'" if ok
      using t(2) t(3) [OF that] assms(1,2) jstate_snoc [of "D_Journal (disk w)" d ?r d']
      by (simp add: ready_def)
    with tw(2) t v quiet_trans [OF q t(1)] show ?thesis by auto
  qed
  then show "quiet w w'" "x = Some y \<Longrightarrow> y = ?r \<and> is_ok (Record_validate y) \<and> ready w' d' \<and>
           disk w' = (disk w)\<lparr>D_Journal := D_Journal (disk w) @ [y]\<rparr>"
    by auto
qed

lemma jappend_marker:
  assumes "ready w None" "\<not> nodeScoped (Event r)" "jappend e r w = (w', x)"
  shows "quiet w w'"
    and "x = Some y \<Longrightarrow> ready w' None \<and> y = written e r w \<and> disk w' = (disk w)\<lparr>D_Journal := D_Journal (disk w) @ [y]\<rparr>"
  using jappend_quiet [of w None e r None w' x] assms
  by (auto simp: follows_def commits_def nodeScoped_def)

lemma jappend_finish:
  assumes "ready w (Some d)" "Event r = EventNodeFinished" "RNode r = RNode d"
    "Attempt d = (if Attempt r = 0 then 1 else Attempt r)"
    "commits (disk w) (Some d) r" "jappend e r w = (w', x)"
  shows "quiet w w'"
    and "x = Some y \<Longrightarrow> ready w' None \<and> y = written e r w \<and> disk w' = (disk w)\<lparr>D_Journal := D_Journal (disk w) @ [y]\<rparr>"
  using jappend_quiet [of w "Some d" e r None w' x] assms
  by (auto simp: follows_def nodeScoped_def)

lemma jappend_start:
  assumes "ready w None" "Event r = EventNodeStarted" "jappend e r w = (w', x)"
  shows "quiet w w'"
    and "x = Some y \<Longrightarrow> ready w' (Some y) \<and> y = written e r w \<and> is_ok (Record_validate y) \<and>
           disk w' = (disk w)\<lparr>D_Journal := D_Journal (disk w) @ [y]\<rparr>"
  using jappend_quiet [of w None e r "Some (written e r w)" w' x] assms
  by (auto simp: follows_def commits_def)

section \<open>Ending a dispatch\<close>

lemma persist_quiet:
  assumes "ready w None" "fit man w" "persist d e man status current ledger w = (w', man', ok)"
  shows "quiet w w'" "ok \<Longrightarrow> ready w' None \<and> fit man' w' \<and> D_Journal (disk w') = D_Journal (disk w)"
    "Step man' = Step man"
proof -
  let ?m = "Touch (E_clock e (tick w)) (man\<lparr>M_Status := status, CurrentNode := current,
            M_Budget := manifestBudget (Ledger_Snapshot ledger (MaxUSD (Cfg_Budget (cfg d))))\<rparr>)"
  have m: "?m = lifecycle man status current (manifestBudget (Ledger_Snapshot ledger (MaxUSD (Cfg_Budget (cfg d)))))
      (E_clock e (tick w)) (Step man)"
    by (simp add: Touch_def lifecycle_def)
  then have "same_run man ?m" unfolding same_run_def by blast
  with assms(2) have s: "same_run (D_Manifest (disk w)) ?m" unfolding fit_def by (rule same_run_trans)
  have l: "legal (disk (next_tick w)) (WManifest ?m)"
    using assms(1) s by (intro legal.manifest) (simp_all add: ready_def)
  have tw: "try_write e (WManifest ?m) (next_tick w) = (w', ok)" "man' = ?m"
    using assms(3) by (auto simp: persist_def Let_def split: prod.splits)
  note t = try_write_quiet [OF l tw(1)]
  show "quiet w w'" using quiet_trans [OF quiet_tick t(1)] .
  show "Step man' = Step man" by (simp add: tw(2) Touch_def)
  show "ready w' None \<and> fit man' w' \<and> D_Journal (disk w') = D_Journal (disk w)" if ok
    using t(2) t(3) [OF that] assms(1) tw(2) by (simp add: ready_def fit_def)
qed

lemma endRun_quiet:
  assumes "ready w None" "fit man w" "\<not> nodeScoped ev"
    and "endRun d e man ledger ev runStatus exitCode node steps nt cause w = (w', a)"
  shows "quiet w w'"
proof -
  obtain v x where j: "jappend e ((record0 ev)\<lparr>Note := nt\<rparr>) w = (v, x)" by fastforce
  have q: "quiet w v" "x = Some y \<Longrightarrow> ready v None \<and> fit man v" for y
    using jappend_marker [OF assms(1) _ j] assms(2,3) by (simp_all add: record0_def fit_def)
  show ?thesis
  proof (cases x)
    case None
    then show ?thesis using assms(4) j q(1) by (simp add: endRun_def Let_def)
  next
    case (Some y)
    obtain u m ok where p: "persist d e man runStatus node ledger v = (u, m, ok)" by (cases "persist d e man runStatus node ledger v") auto
    have "quiet v u" by (rule persist_quiet(1) [OF _ _ p]) (use q(2) [OF Some] in auto)
    moreover have "w' = u" using assms(4) j Some p by (auto simp: endRun_def Let_def split: if_splits)
    ultimately show ?thesis using quiet_trans [OF q(1)] by simp
  qed
qed

lemma same_run_Step [simp]: "same_run a (b\<lparr>Step := n\<rparr>) = same_run a b"
proof -
  have "same_run b (b\<lparr>Step := n\<rparr>)"
    unfolding same_run_def lifecycle_def
    by (rule exI [of _ "M_Status b"], rule exI [of _ "CurrentNode b"], rule exI [of _ "M_Budget b"],
        rule exI [of _ "UpdatedAt b"], rule exI [of _ n]) simp
  then show ?thesis using same_run_trans same_run_sym by blast
qed

lemma fit_Step [simp]: "fit (man\<lparr>Step := n\<rparr>) w = fit man w"
  by (simp add: fit_def)

text \<open>An attempt of \<open>node\<close> numbered \<open>attempt\<close> is open.\<close>

definition inside :: "World \<Rightarrow> string \<Rightarrow> int \<Rightarrow> JRecord \<Rightarrow> bool" where
  "inside w node attempt s \<longleftrightarrow>
     ready w (Some s) \<and> RNode s = node \<and> Attempt s = (if attempt = 0 then 1 else attempt)"

lemma inside_tick [simp]: "inside (next_tick w) node attempt s = inside w node attempt s"
  by (simp add: inside_def)

text \<open>The attempt ends as the dispatcher reports an attempt it did not accept.\<close>

lemma jappend_reject:
  assumes "inside w node attempt s" "Event r = EventNodeFinished" "RNode r = node" "Attempt r = attempt"
    "Status r \<noteq> StatusOK" "Status r \<noteq> StatusPaused" "jappend e r w = (w', x)"
  shows "quiet w w'"
    and "x = Some y \<Longrightarrow> ready w' None \<and> y = written e r w \<and>
           disk w' = (disk w)\<lparr>D_Journal := D_Journal (disk w) @ [y]\<rparr>"
  using jappend_finish [of w s r e w' x] assms by (auto simp: inside_def commits_def)

lemma pauseAtLimit_quiet:
  "ready w None \<Longrightarrow> fit man w \<Longrightarrow> pauseAtLimit d e man ledger node steps nt cause w = (w', a) \<Longrightarrow> quiet w w'"
  unfolding pauseAtLimit_def by (rule endRun_quiet [of w man EventRunPaused]) (simp_all add: nodeScoped_def)

lemma interruptedAttempt_simps [simp]:
  "Event (interruptedAttempt node attempt t u nt) = EventNodeFinished"
  "RNode (interruptedAttempt node attempt t u nt) = node"
  "Attempt (interruptedAttempt node attempt t u nt) = attempt"
  "Status (interruptedAttempt node attempt t u nt) = StatusAborted"
  "RUsage (interruptedAttempt node attempt t u nt) = journalUsage u"
  by (simp_all add: interruptedAttempt_def record0_def)

lemma pauseInsideNode_quiet:
  assumes "inside w node attempt s" "fit man w"
    "pauseInsideNode d e man ledger node attempt steps t u nt cause w = (w', a)"
  shows "quiet w w'"
proof -
  obtain v x where j: "jappend e (interruptedAttempt node attempt t u nt) w = (v, x)" by fastforce
  note q = jappend_reject [OF assms(1) _ _ _ _ _ j, simplified]
  show ?thesis
  proof (cases x)
    case None
    then show ?thesis using assms(3) j q(1) by (simp add: pauseInsideNode_def Let_def)
  next
    case (Some y)
    with q(2) [OF Some] assms(2) have "ready v None" "fit man v" by (simp_all add: fit_def)
    moreover have "pauseAtLimit d e man (charge d ledger node u) node steps nt cause v = (w', a)"
      using assms(3) j Some by (simp add: pauseInsideNode_def Let_def)
    ultimately show ?thesis using pauseAtLimit_quiet quiet_trans [OF q(1)] by blast
  qed
qed

lemma terminal_quiet:
  assumes "inside w node attempt s" "fit man w" "status = StatusAborted \<or> status = StatusFailed" "\<not> nodeScoped ev"
    "terminal d e man ledger node attempt steps t u status ev runStatus exitCode nt cause w = (w', a)"
  shows "quiet w w'"
proof -
  let ?r = "(record0 EventNodeFinished)\<lparr>RNode := node, Attempt := attempt,
            DurationMS := Milliseconds t, Status := status, RUsage := journalUsage u, Note := nt\<rparr>"
  obtain v x where j: "jappend e ?r w = (v, x)" by fastforce
  have q: "quiet w v" "x = Some y \<Longrightarrow> ready v None \<and> fit man v" for y
    using jappend_reject [OF assms(1) _ _ _ _ _ j] assms(2,3) by (auto simp: record0_def fit_def)
  show ?thesis
  proof (cases x)
    case None
    then show ?thesis using assms(5) j q(1) by (simp add: terminal_def Let_def)
  next
    case (Some y)
    have "endRun d e man (charge d ledger node u) ev runStatus exitCode node steps nt (Some cause) v = (w', a)"
      using assms(5) j Some by (simp add: terminal_def Let_def)
    with q(2) [OF Some] show ?thesis using endRun_quiet [OF _ _ assms(4)] quiet_trans [OF q(1)] by blast
  qed
qed

lemma notRun_quiet:
  assumes "inside w node attempt s" "notRun d e ledger node attempt steps w = (w', a)"
  shows "quiet w w'"
proof -
  let ?r = "interruptedAttempt node attempt 0 zeroUsage (spell d (NNotRun (ErrNotRun node)))"
  obtain v x where j: "jappend e ?r w = (v, x)" by fastforce
  have "w' = v" using assms(2) j by (simp add: notRun_def Let_def)
  then show ?thesis using jappend_reject(1) [OF assms(1) _ _ _ _ _ j, simplified] by simp
qed

section \<open>The blackboard's writes\<close>

lemma ApplyPatch_quiet:
  assumes "inside w node attempt s" "Patch_History p = Some h" "H_Seq h = Seq s" "H_Node h = node"
    "D_Snapshots (disk w) (execution_key (D_Journal (disk w)) s, node) \<noteq> None"
    "ApplyPatch e p w = (w', ok)"
  shows "quiet w w'"
    and "ok \<Longrightarrow> inside w' node attempt s \<and> commits (disk w') (Some s) r \<and>
           Apply p (D_State (disk w)) = Inr (D_State (disk w')) \<and>
           disk w' = (disk w)\<lparr>D_State := D_State (disk w')\<rparr>"
proof -
  have *: "quiet w w' \<and> (ok \<longrightarrow> inside w' node attempt s \<and> commits (disk w') (Some s) r \<and>
           Apply p (D_State (disk w)) = Inr (D_State (disk w')) \<and>
           disk w' = (disk w)\<lparr>D_State := D_State (disk w')\<rparr>)"
  proof (cases "E_io e (tick w) = IO_ok")
    case False
    then show ?thesis using assms(6) by (auto simp: ApplyPatch_def)
  next
    case True
    show ?thesis
    proof (cases "Apply p (D_State (disk w))")
      case (Inl x)
      then show ?thesis using assms(6) True by (auto simp: ApplyPatch_def)
    next
      case (Inr st)
      with assms(6) True have tw: "try_write e (WState st) (next_tick w) = (w', ok)" by (simp add: ApplyPatch_def)
      have l: "legal (disk (next_tick w)) (WState st)"
        by (rule legal.state [where s = s and p = p and h = h])
           (use assms(1-5) Inr in \<open>simp_all add: inside_def ready_def\<close>)
      note t = try_write_quiet [OF l tw]
      have "h \<in> set (History st)"
        using Inr assms(2) upsertHistory_mem by (auto simp: Apply_def Apply_fields_eq or_else_with_def split: if_splits)
      with t(2) t(3) assms(1-4) Inr
      have "ok \<longrightarrow> inside w' node attempt s \<and> commits (disk w') (Some s) r \<and>
           Apply p (D_State (disk w)) = Inr (D_State (disk w')) \<and>
           disk w' = (disk w)\<lparr>D_State := D_State (disk w')\<rparr>"
        by (auto simp: inside_def ready_def commits_def)
      with quiet_trans [OF quiet_tick t(1)] show ?thesis by blast
    qed
  qed
  then show "quiet w w'" "ok \<Longrightarrow> inside w' node attempt s \<and> commits (disk w') (Some s) r \<and>
           Apply p (D_State (disk w)) = Inr (D_State (disk w')) \<and>
           disk w' = (disk w)\<lparr>D_State := D_State (disk w')\<rparr>" by blast+
qed

text \<open>The blackboard a node is given is the one its execution's snapshot holds.\<close>

lemma blackboardFor_quiet:
  assumes "inside w node attempt s" "NodeName rc = node" "key = execution_key (D_Journal (disk w)) s"
    "RC_State rc = D_State (disk w)" "blackboardFor d e rc key w = (w', view)"
  shows "quiet w w'" "D_Journal (disk w') = D_Journal (disk w)" "D_Manifest (disk w') = D_Manifest (disk w)"
    "D_State (disk w') = D_State (disk w)" "inside w' node attempt s"
    and "view = Some st \<Longrightarrow> \<exists>sn. D_Snapshots (disk w') (key, node) = Some sn \<and> Sn_State sn = st"
proof -
  have g: "quiet w w' \<and> D_Journal (disk w') = D_Journal (disk w) \<and> D_Manifest (disk w') = D_Manifest (disk w) \<and>
    D_State (disk w') = D_State (disk w) \<and> seqno w' = seqno w \<and>
    (view = Some st \<longrightarrow> (\<exists>sn. D_Snapshots (disk w') (key, node) = Some sn \<and> Sn_State sn = st))" for st
  proof (cases "SnapshotPath key node = None \<or> E_io e (tick w) \<noteq> IO_ok \<or> D_Snapshots (disk w) (key, node) \<noteq> None")
    case True
    then show ?thesis using assms(2,5)
      by (auto simp: blackboardFor_def SnapshotPath_def Let_def split: if_splits option.splits)
  next
    case False
    then have p: "SnapshotPath key node = Some (key, node)" by (auto simp: SnapshotPath_def split: if_splits)
    define snap where "snap = \<lparr>Sn_RunID = RC_RunID rc, Sn_Node = node, Sn_Seq = key, Sn_Step = RC_Step rc,
      TakenAt = E_clock e (tick (next_tick w)),
      WorkspaceDigest = (if fingerprint d then E_digest e (tick (next_tick w)) else []), Sn_State = D_State (disk w)\<rparr>"
    obtain v ok where "try_write e (WSnapshot snap) (next_tick (next_tick w)) = (v, ok)" by fastforce
    then have tw: "try_write e (WSnapshot snap) (next_tick (next_tick w)) = (w', ok)" "view = (if ok then Some (D_State (disk w)) else None)"
      using assms(2,4,5) False p by (auto simp: blackboardFor_def Let_def snap_def)
    have s: "Sn_Seq snap = key" "Sn_Node snap = node" "Sn_State snap = D_State (disk w)" by (simp_all add: snap_def)
    have l: "legal (disk (next_tick (next_tick w))) (WSnapshot snap)"
      by (rule legal.snapshot [where s = s]) (use assms(1,3) s False in \<open>auto simp: inside_def ready_def\<close>)
    note t = try_write_quiet [OF l tw(1)]
    have "quiet w w'" by (rule quiet_trans [OF quiet_tick quiet_trans [OF quiet_tick t(1)]])
    moreover have "disk w' = disk w \<or> disk w' = apply_write (WSnapshot snap) (disk w)"
      using tw(1) by (auto simp: try_write_def emit_def split: io.splits)
    ultimately show ?thesis using t(2) t(3) tw(2) s p False by (auto simp: put_snapshot_eq)
  qed
  from g [of st] show "quiet w w'" "D_Journal (disk w') = D_Journal (disk w)" "D_Manifest (disk w') = D_Manifest (disk w)"
    "D_State (disk w') = D_State (disk w)" "inside w' node attempt s"
    "view = Some st \<Longrightarrow> \<exists>sn. D_Snapshots (disk w') (key, node) = Some sn \<and> Sn_State sn = st"
    using assms(1) by (auto simp: inside_def ready_def)
qed

section \<open>Settling\<close>

lemma usage_entries_append [simp]:
  "usage_entries f (xs @ ys) = usage_entries f xs @ usage_entries f ys"
  by (simp add: usage_entries_def List.map_filter_def)

lemma usage_entries_Nil [simp]: "usage_entries f [] = []"
  by (simp add: usage_entries_def List.map_filter_def)

lemma usage_entries_other: "Event r \<noteq> EventNodeFinished \<Longrightarrow> usage_entries f [r] = []"
  by (simp add: usage_entries_def List.map_filter_def split: option.splits)

text \<open>The charge in memory is the charge the record carries.\<close>

lemma charge_is_entry:
  assumes "Event y = EventNodeFinished" "RNode y = node" "RUsage y = journalUsage u"
  shows "fold Rebuild_entry (usage_entries (supervises d) [y]) ledger = charge d ledger node u"
  using assms
  by (cases u) (simp add: usage_entries_def List.map_filter_def journalUsage_def charge_def Rebuild_entry_def)

lemma accept_quiet:
  assumes "inside w node attempt s" "fit man w" "startedSeq = Seq s"
    "D_Snapshots (disk w) (execution_key (D_Journal (disk w)) s, node) \<noteq> None"
    "accept d e man ledger node attempt startedSeq step steps r t w = (w', man', ledger', a)"
  shows "quiet w w'"
    and "a = None \<Longrightarrow> ready w' None \<and> fit man' w' \<and> Step man' = step \<and>
      (\<exists>y. D_Journal (disk w') = D_Journal (disk w) @ [y] \<and>
           ledger' = fold Rebuild_entry (usage_entries (supervises d) [y]) ledger)"
proof -
  let ?p = "(Res_Patch r)\<lparr>Patch_History := Some (history_entry e startedSeq node attempt r w)\<rparr>"
  let ?f = "(record0 EventNodeFinished)\<lparr>RNode := node, Attempt := attempt,
                 DurationMS := Milliseconds t, Status := Res_Status r, Next := next_of node r,
                 RUsage := journalUsage (Res_Usage r), Note := Res_Note r\<rparr>"
  let ?G = "quiet w w' \<and> (a = None \<longrightarrow> ready w' None \<and> fit man' w' \<and> Step man' = step \<and>
      (\<exists>y. D_Journal (disk w') = D_Journal (disk w) @ [y] \<and>
           ledger' = fold Rebuild_entry (usage_entries (supervises d) [y]) ledger))"
  obtain v ok where ap: "ApplyPatch e ?p (next_tick w) = (v, ok)" by fastforce
  have h: "H_Seq (history_entry e startedSeq node attempt r w) = Seq s"
    "H_Node (history_entry e startedSeq node attempt r w) = node"
    using assms(3) by (simp_all add: history_entry_def)
  have "inside (next_tick w) node attempt s" "Patch_History ?p = Some (history_entry e startedSeq node attempt r w)"
    "D_Snapshots (disk (next_tick w)) (execution_key (D_Journal (disk (next_tick w))) s, node) \<noteq> None"
    using assms(1,4) by simp_all
  note q = ApplyPatch_quiet [OF this(1,2) h this(3) ap, unfolded next_tick_simps]
  have qv: "quiet w v" by (rule quiet_trans [OF quiet_tick q(1)])
  have ?G
  proof (cases ok)
    case False
    then show ?thesis using assms(5) ap qv by (auto simp: accept_def Let_def)
  next
    case True
    from q(2) [OF True, of ?f] have iv: "inside v node attempt s" "commits (disk v) (Some s) ?f"
      and dv: "disk v = (disk w)\<lparr>D_State := D_State (disk v)\<rparr>" by blast+
    have iv': "D_Journal (disk v) = D_Journal (disk w)" "D_Manifest (disk v) = D_Manifest (disk w)"
      using arg_cong [OF dv, of D_Journal] arg_cong [OF dv, of D_Manifest] by simp_all
    obtain u x where jf: "jappend e ?f v = (u, x)" by fastforce
    have qf: "quiet v u" "x = Some y \<Longrightarrow> ready u None \<and> y = written e ?f v \<and>
        disk u = (disk v)\<lparr>D_Journal := D_Journal (disk v) @ [y]\<rparr>" for y
      using jappend_finish [OF _ _ _ _ iv(2) jf] iv(1) by (simp_all add: inside_def record0_def)
    have qu: "quiet w u" by (rule quiet_trans [OF qv qf(1)])
    show ?thesis
    proof (cases x)
      case None
      then show ?thesis using assms(5) ap jf True qu by (auto simp: accept_def Let_def)
    next
      case (Some y)
      let ?m = "man\<lparr>Step := step\<rparr>" and ?l = "charge d ledger node (Res_Usage r)"
      note y = qf(2) [OF Some]
      have fu: "fit ?m u" using assms(2) iv'(2) y by (simp add: fit_def)
      have er: "\<not> nodeScoped ev \<Longrightarrow> endRun d e ?m ?l ev rs c n st nt cs u = (b, o') \<Longrightarrow> quiet w b" for ev rs c n st nt cs b o'
        using endRun_quiet [of u ?m] y fu quiet_trans [OF qu] by blast
      have ns: "\<not> nodeScoped EventRunCompleted" "\<not> nodeScoped EventRunPaused" "\<not> nodeScoped EventRunAborted"
        "\<not> nodeScoped EventRunFailed" by (simp_all add: nodeScoped_def)
      have l: "?l = fold Rebuild_entry (usage_entries (supervises d) [y]) ledger"
        by (rule charge_is_entry [symmetric]) (use y in \<open>simp_all add: record0_def\<close>)
      show ?thesis
      proof (cases "Res_Status r = StatusOK \<and> \<not> Done r")
        case True
        obtain b m ok' where pe: "persist d e ?m RunStatusRunning (Res_Next r) ?l u = (b, m, ok')"
          by (cases "persist d e ?m RunStatusRunning (Res_Next r) ?l u") auto
        have "w' = b" "man' = m" "ledger' = ?l" "a = None \<Longrightarrow> ok'"
          using assms(5) ap jf Some \<open>ok\<close> True pe by (auto simp: accept_def Let_def split: if_splits)
        with persist_quiet [OF _ fu pe] y iv'(1) l quiet_trans [OF qu] show ?thesis by auto
      next
        case False
        then show ?thesis
          using assms(5) ap jf Some \<open>ok\<close> er [OF ns(1)] er [OF ns(2)] er [OF ns(3)] er [OF ns(4)]
          by (auto simp: accept_def Let_def split: if_splits prod.splits Status.splits)
      qed
    qed
  qed
  then show "quiet w w'" "a = None \<Longrightarrow> ready w' None \<and> fit man' w' \<and> Step man' = step \<and>
      (\<exists>y. D_Journal (disk w') = D_Journal (disk w) @ [y] \<and>
           ledger' = fold Rebuild_entry (usage_entries (supervises d) [y]) ledger)" by blast+
qed

lemma settle_quiet:
  assumes "inside w node attempt s" "fit man w" "startedSeq = Seq s"
    "D_Snapshots (disk w) (execution_key (D_Journal (disk w)) s, node) \<noteq> None"
    "settle d e man ledger node attempt startedSeq step steps exec w = (w', man', ledger', a)"
  shows "quiet w w'"
    and "a = None \<Longrightarrow> ready w' None \<and> fit man' w' \<and> Step man' = step \<and>
      (\<exists>y. D_Journal (disk w') = D_Journal (disk w) @ [y] \<and>
           ledger' = fold Rebuild_entry (usage_entries (supervises d) [y]) ledger)"
proof -
  let ?G = "quiet w w' \<and> (a = None \<longrightarrow> ready w' None \<and> fit man' w' \<and> Step man' = step \<and>
      (\<exists>y. D_Journal (disk w') = D_Journal (disk w) @ [y] \<and>
           ledger' = fold Rebuild_entry (usage_entries (supervises d) [y]) ledger))"
  have stop: "(case X of (w, a) \<Rightarrow> (w, man, ledger, Some a)) = (w', man', ledger', a) \<Longrightarrow>
      (\<And>b a'. X = (b, a') \<Longrightarrow> quiet w b) \<Longrightarrow> ?G" for X
    by (cases X) auto
  have pause: "(case pauseInsideNode d e man ledger node attempt steps t u nt cs w of (w, a) \<Rightarrow> (w, man, ledger, Some a)) =
      (w', man', ledger', a) \<Longrightarrow> ?G" for t u nt cs
    by (erule stop) (rule pauseInsideNode_quiet [OF assms(1,2)])
  have trm: "(case terminal d e man ledger node attempt steps t u st ev rs c nt cs w of (w, a) \<Rightarrow> (w, man, ledger, Some a)) =
      (w', man', ledger', a) \<Longrightarrow> st = StatusAborted \<or> st = StatusFailed \<Longrightarrow> ev = EventRunAborted \<or> ev = EventRunFailed \<Longrightarrow> ?G"
    for t u st ev rs c nt cs
    by (erule stop) (rule terminal_quiet [OF assms(1,2)], assumption, auto simp: nodeScoped_def)
  let ?u = "if supervises d node then Unrecorded ledger node (Res_Usage (res exec)) else Res_Usage (res exec)"
  obtain cut charged where cc: "cutShortCharge d ledger node ?u = (cut, charged)" by fastforce
  note eq = assms(5) [unfolded settle_def Let_def cc prod.case]
  have ?G
  proof (cases "timedOut exec \<or> canceled exec")
    case True
    then consider (1) "timedOut exec" | (2) "\<not> timedOut exec" "canceled exec" "pauseOnCancel d"
      | (3) "\<not> timedOut exec" "canceled exec" "\<not> pauseOnCancel d" by blast
    then show ?thesis
    proof cases
      case 1
      show ?thesis by (rule pause [OF eq [unfolded eqTrueI [OF 1] simp_thms if_True]])
    next
      case 2
      show ?thesis by (rule pause [OF eq [unfolded eqTrueI [OF 2(2)] eqTrueI [OF 2(3)] Eq_FalseI [OF 2(1)] simp_thms if_True if_False]])
    next
      case 3
      show ?thesis by (rule trm [OF eq [unfolded eqTrueI [OF 3(2)] Eq_FalseI [OF 3(3)] Eq_FalseI [OF 3(1)] simp_thms if_True if_False]]) simp_all
    qed
  next
    case False
    then have f: "timedOut exec = False" "canceled exec = False" by simp_all
    note eq = eq [unfolded f simp_thms if_False]
    show ?thesis
    proof (cases "err exec")
      case (Some x)
      note e = eq [unfolded Some option.case]
      show ?thesis
      proof (cases "LimitSettings (Some x) \<noteq> []")
        case True
        show ?thesis by (rule pause [OF e [unfolded if_P [OF True]]])
      next
        case g: False
        show ?thesis by (rule trm [OF e [unfolded if_not_P [OF g]]]) simp_all
      qed
    next
      case None
      note n = this
      show ?thesis
      proof (cases "Result_Validate ((res exec)\<lparr>Res_Usage := ?u\<rparr>)")
        case (Some x)
        show ?thesis by (rule trm [OF eq [unfolded n Some option.case]]) simp_all
      next
        case None
        then have "accept d e man ledger node attempt startedSeq step steps ((res exec)\<lparr>Res_Usage := ?u\<rparr>) (elapsed exec) w =
          (w', man', ledger', a)" using eq n by simp
        from accept_quiet [OF assms(1-4) this] show ?thesis by blast
      qed
    qed
  qed
  then show "quiet w w'" "a = None \<Longrightarrow> ready w' None \<and> fit man' w' \<and> Step man' = step \<and>
      (\<exists>y. D_Journal (disk w') = D_Journal (disk w) @ [y] \<and>
           ledger' = fold Rebuild_entry (usage_entries (supervises d) [y]) ledger)" by blast+
qed

section \<open>Executions\<close>

text \<open>What holds of the moment a node is run: its attempt is open in the journal, the blackboard it is
  given is the one saved for its execution, the ledger is the journal's charges on top of \<open>L0\<close> (the
  ledger after the first \<open>n\<close> records), and a priced node is run only under a ceiling not yet reached.\<close>

definition booked :: "Dispatcher \<Rightarrow> nat \<Rightarrow> Ledger \<Rightarrow> Ledger \<Rightarrow> Disk \<Rightarrow> bool" where
  "booked d n L0 L D \<longleftrightarrow> n \<le> length (D_Journal D) \<and>
     L = fold Rebuild_entry (usage_entries (supervises d) (drop n (D_Journal D))) L0"

definition allowed :: "Dispatcher \<Rightarrow> Ledger \<Rightarrow> Node \<Rightarrow> bool" where
  "allowed d L node \<longleftrightarrow> N_Unpriced node \<or> Check (spentBefore d L (N_Name node)) (Cfg_Budget (cfg d)) = None"

definition shown :: "Dispatcher \<Rightarrow> nat \<Rightarrow> Ledger \<Rightarrow> Execution \<Rightarrow> bool" where
  "shown d n L0 X \<longleftrightarrow> registry d (N_Name (X_Node X)) = Some (X_Node X) \<and>
     NodeName (X_Context X) = N_Name (X_Node X) \<and>
     (\<exists>s sn. jstate (D_Journal (X_Disk X)) (Some s) \<and> RNode s = N_Name (X_Node X) \<and>
        Attempt s = (if RC_Attempt (X_Context X) = 0 then 1 else RC_Attempt (X_Context X)) \<and>
        X_Key X = execution_key (D_Journal (X_Disk X)) s \<and>
        D_Snapshots (X_Disk X) (X_Key X, RNode s) = Some sn \<and> Sn_State sn = RC_State (X_Context X)) \<and>
     booked d n L0 (X_Ledger X) (X_Disk X) \<and> allowed d (X_Ledger X) (X_Node X) \<and>
     RC_Budget (X_Context X) =
       Ledger_Snapshot (spentBefore d (X_Ledger X) (N_Name (X_Node X))) (MaxUSD (Cfg_Budget (cfg d)))"

definition goes :: "(Execution \<Rightarrow> bool) \<Rightarrow> World \<Rightarrow> World \<Rightarrow> bool" where
  "goes P w w' \<longleftrightarrow> (\<exists>ws Xs. wlog w' = wlog w @ ws \<and> legal_seq (disk w) ws \<and> disk w' = fold apply_write ws (disk w) \<and>
     runs w' = runs w @ Xs \<and>
     (\<forall>X \<in> set Xs. P X \<and> (\<exists>us. prefix us ws \<and> X_Disk X = fold apply_write us (disk w))))"

lemma goes_quiet: "quiet w w' \<Longrightarrow> goes P w w'"
  unfolding quiet_def safe_def goes_def by fastforce

lemma goes_refl [simp]: "goes P w w"
  by (simp add: goes_quiet)

lemma goes_trans:
  assumes "goes P u v" "goes P v w" shows "goes P u w"
proof -
  from assms(1) obtain ws Xs where 1: "wlog v = wlog u @ ws" "legal_seq (disk u) ws" "disk v = fold apply_write ws (disk u)"
     "runs v = runs u @ Xs" "\<forall>X \<in> set Xs. P X \<and> (\<exists>us. prefix us ws \<and> X_Disk X = fold apply_write us (disk u))"
    unfolding goes_def by blast
  from assms(2) obtain vs Ys where 2: "wlog w = wlog v @ vs" "legal_seq (disk v) vs" "disk w = fold apply_write vs (disk v)"
     "runs w = runs v @ Ys" "\<forall>X \<in> set Ys. P X \<and> (\<exists>us. prefix us vs \<and> X_Disk X = fold apply_write us (disk v))"
    unfolding goes_def by blast
  have "\<forall>X \<in> set (Xs @ Ys). P X \<and> (\<exists>us. prefix us (ws @ vs) \<and> X_Disk X = fold apply_write us (disk u))"
  proof
    fix X assume "X \<in> set (Xs @ Ys)"
    then consider "X \<in> set Xs" | "X \<in> set Ys" by auto
    then show "P X \<and> (\<exists>us. prefix us (ws @ vs) \<and> X_Disk X = fold apply_write us (disk u))"
    proof cases
      case 1
      with \<open>\<forall>X \<in> set Xs. _\<close> show ?thesis using prefix_prefix by blast
    next
      case x: 2
      with 2(5) obtain us where us: "P X" "prefix us vs" "X_Disk X = fold apply_write us (disk v)" by blast
      then have "prefix (ws @ us) (ws @ vs) \<and> X_Disk X = fold apply_write (ws @ us) (disk u)" using 1(3) by simp
      with us(1) show ?thesis by blast
    qed
  qed
  then show ?thesis unfolding goes_def using 1 2 by (intro exI [of _ "ws @ vs"] exI [of _ "Xs @ Ys"]) simp
qed

lemma goes_run:
  assumes "quiet w v" "P X" "X_Disk X = disk v" shows "goes P w (v\<lparr>runs := runs v @ [X]\<rparr>)"
proof -
  from assms(1) obtain ws where ws: "wlog v = wlog w @ ws" "legal_seq (disk w) ws" "disk v = fold apply_write ws (disk w)"
    "runs v = runs w" unfolding quiet_def safe_def by blast
  then show ?thesis unfolding goes_def using assms(2,3)
    by (intro exI [of _ ws] exI [of _ "[X]"]) (auto intro: exI [of _ ws])
qed

lemma execute_same:
  "execute d e n rc w = (w', ex) \<Longrightarrow>
   disk w' = disk w \<and> wlog w' = wlog w \<and> runs w' = runs w \<and> seqno w' = seqno w"
  by (auto simp: execute_def Let_def split: prod.splits)

lemma guards_quiet:
  assumes "ready w None" "fit man w" "guards d e man ledger current steps w = (w', a)"
  shows "quiet w w'"
    and "a = None \<Longrightarrow> disk w' = disk w \<and> ready w' None \<and> fit man w' \<and>
      (\<exists>n. registry d current = Some n \<and> (N_Unpriced n \<or> Check (spentBefore d ledger current) (Cfg_Budget (cfg d)) = None)) \<and>
      \<not> (0 < MaxSteps (Cfg_Graph (cfg d)) \<and> MaxSteps (Cfg_Graph (cfg d)) \<le> Step man)"
proof -
  let ?G = "quiet w w' \<and> (a = None \<longrightarrow> disk w' = disk w \<and> ready w' None \<and> fit man w' \<and>
      (\<exists>n. registry d current = Some n \<and> (N_Unpriced n \<or> Check (spentBefore d ledger current) (Cfg_Budget (cfg d)) = None)) \<and>
      \<not> (0 < MaxSteps (Cfg_Graph (cfg d)) \<and> MaxSteps (Cfg_Graph (cfg d)) \<le> Step man))"
  have lim: "pauseAtLimit d e man ledger current steps nt c w = (b, x) \<Longrightarrow> quiet w b" for nt c b x
    using pauseAtLimit_quiet [OF assms(1,2)] by blast
  have int: "pauseInterrupted d e man ledger current steps (next_tick w) = (b, x) \<Longrightarrow> quiet w b" for b x
    unfolding pauseInterrupted_def
    using pauseAtLimit_quiet [of "next_tick w" man] quiet_trans [OF quiet_tick] assms(1,2) by auto
  have fin: "endRun d e man ledger EventRunFailed rs c current steps nt cs (next_tick w) = (b, x) \<Longrightarrow> quiet w b" for rs c nt cs b x
    using endRun_quiet [of "next_tick w" man EventRunFailed] quiet_trans [OF quiet_tick] assms(1,2)
    by (auto simp: nodeScoped_def)
  have ?G
  proof (cases "\<exists>x. Check (spentBefore d ledger current) (Cfg_Budget (cfg d)) = Some x \<and>
      \<not> (case registry d current of Some n \<Rightarrow> N_Unpriced n | None \<Rightarrow> False)")
    case True
    then show ?thesis using assms(3) lim
      by (auto simp: guards_def Let_def split: option.splits prod.splits)
  next
    case False
    then show ?thesis using assms lim int fin
      by (auto simp: guards_def Let_def split: option.splits prod.splits if_splits)
  qed
  then show "quiet w w'" "a = None \<Longrightarrow> disk w' = disk w \<and> ready w' None \<and> fit man w' \<and>
      (\<exists>n. registry d current = Some n \<and> (N_Unpriced n \<or> Check (spentBefore d ledger current) (Cfg_Budget (cfg d)) = None)) \<and>
      \<not> (0 < MaxSteps (Cfg_Graph (cfg d)) \<and> MaxSteps (Cfg_Graph (cfg d)) \<le> Step man)" by blast+
qed

lemma attemptOneSeq_snoc [simp]:
  "attemptOneSeq (rs @ [r]) node =
     (if Event r = EventNodeStarted \<and> RNode r = node \<and> Attempt r = 1 then Seq r else attemptOneSeq rs node)"
  by (simp add: attemptOneSeq_def)

text \<open>One more node was run: which, at which attempt, and under which key a repeated execution goes.\<close>

definition ran :: "World \<Rightarrow> World \<Rightarrow> string \<Rightarrow> int \<Rightarrow> nat \<Rightarrow> bool" where
  "ran w w' node attempt repeats \<longleftrightarrow>
     (\<exists>X. runs w' = runs w @ [X] \<and> N_Name (X_Node X) = node \<and> RC_Attempt (X_Context X) = attempt \<and>
          (1 < attempt \<and> repeats \<noteq> 0 \<longrightarrow> X_Key X = repeats))"

lemma run_node_goes:
  assumes "ready w None" "fit man w" "booked d n L0 ledger (disk w)" "N_Name node = current" "registry d current = Some node"
    "allowed d ledger node" "1 < attempt \<longrightarrow> repeats = attemptOneSeq (D_Journal (disk w)) current"
    "run_node d e man ledger node current attempt repeats steps w = (w', man', ledger', nxt, a)"
  shows "goes (shown d n L0) w w'"
    and "a = None \<Longrightarrow> ready w' None \<and> fit man' w' \<and> booked d n L0 ledger' (disk w') \<and> Step man' = wrap64 (Step man + 1)"
    and "(a \<noteq> None \<and> runs w' = runs w) \<or> ran w w' current attempt repeats"
proof -
  let ?R = "(a \<noteq> None \<and> runs w' = runs w) \<or> ran w w' current attempt repeats"
  let ?G = "?R \<and> goes (shown d n L0) w w' \<and> (a = None \<longrightarrow> ready w' None \<and> fit man' w' \<and> booked d n L0 ledger' (disk w') \<and>
      Step man' = wrap64 (Step man + 1))"
  let ?s = "(record0 EventNodeStarted)\<lparr>RNode := current, Attempt := attempt\<rparr>" and ?step = "wrap64 (Step man + 1)"
  obtain v x where js: "jappend e ?s (next_tick w) = (v, x)" by fastforce
  have qs: "quiet w v" "x = Some y \<Longrightarrow> ready v (Some y) \<and> y = written e ?s (next_tick w) \<and> is_ok (Record_validate y) \<and>
       disk v = (disk w)\<lparr>D_Journal := D_Journal (disk w) @ [y]\<rparr>" for y
    using jappend_start [OF _ _ js] quiet_trans [OF quiet_tick, of w v] assms(1) by (auto simp: record0_def)
  have ?G
  proof (cases "E_io e (tick w) = IO_ok \<and> x \<noteq> None")
    case False
    then show ?thesis using assms(8) js goes_quiet [OF qs(1)] goes_quiet [OF quiet_tick] quiet_runs [OF qs(1)]
      by (cases "E_io e (tick w) = IO_ok") (auto simp: run_node_def)
  next
    case True
    then obtain y where y: "x = Some y" by blast
    from qs(2) [OF y] have ry: "ready v (Some y)" and wy: "y = written e ?s (next_tick w)" and vy: "is_ok (Record_validate y)"
      and dy: "disk v = (disk w)\<lparr>D_Journal := D_Journal (disk w) @ [y]\<rparr>" by blast+
    have sy: "Event y = EventNodeStarted" "RNode y = current" "Attempt y = (if attempt = 0 then 1 else attempt)"
      by (subst wy, simp add: record0_def nodeScoped_def)+
    have "Attempt y \<ge> 1" using vy sy by (auto simp: Record_validate_def nodeScoped_def split: if_splits)
    then have pos: "attempt = 0 \<or> attempt = 1 \<or> 1 < attempt" using sy(3) by (auto split: if_splits)
    have iy: "inside v current attempt y" using ry sy by (simp add: inside_def)
    have yj: "D_Journal (disk v) = D_Journal (disk w) @ [y]" "D_Manifest (disk v) = D_Manifest (disk w)" using dy by simp_all
    define rc where "rc = runContext d man (D_State (disk w)) ledger current ?step attempt"
    define key where "key = (if 1 < attempt \<and> repeats \<noteq> 0 then repeats else Seq y)"
    have k: "key = execution_key (D_Journal (disk v)) y"
      using pos sy assms(7) yj by (auto simp: key_def execution_key_def Let_def)
    obtain u view where bb: "blackboardFor d e rc key v = (u, view)" by fastforce
    have rcs: "NodeName rc = current" "RC_State rc = D_State (disk v)"
      using dy by (simp_all add: rc_def runContext_def)
    note qb = blackboardFor_quiet [OF iy rcs(1) k rcs(2) bb]
    have qu: "quiet w u" by (rule quiet_trans [OF qs(1) qb(1)])
    show ?thesis
    proof (cases view)
      case None
      obtain b o' where nr: "notRun d e ledger current attempt steps u = (b, o')" by (meson surj_pair)
      have "w' = b \<and> a \<noteq> None" using assms(8) True js y bb None nr by (auto simp: run_node_def Let_def rc_def key_def)
      moreover have qb': "quiet w b" by (rule quiet_trans [OF qu notRun_quiet [OF qb(5) nr]])
      ultimately show ?thesis using goes_quiet [OF qb'] quiet_runs [OF qb'] by auto
    next
      case (Some st)
      define X where "X = \<lparr>X_Node = node, X_Context = rc\<lparr>RC_State := st\<rparr>, X_Key = key, X_Disk = disk u, X_Ledger = ledger\<rparr>"
      let ?u = "u\<lparr>runs := runs u @ [X]\<rparr>"
      obtain sn where sn: "D_Snapshots (disk u) (key, current) = Some sn" "Sn_State sn = st" using qb(6) [OF Some] by blast
      have bk: "booked d n L0 ledger (disk u)"
        using assms(3) qb(2) yj(1) usage_entries_other [of y] sy(1) by (simp add: booked_def)
      have sh: "shown d n L0 X"
        unfolding shown_def X_def using assms(4-6) bk sn qb(2,5) k sy
        by (auto simp: rc_def runContext_def inside_def ready_def intro!: exI [of _ y])
      have g: "goes (shown d n L0) w ?u" using goes_run [of w u "shown d n L0" X, OF qu sh] by (simp add: X_def)
      obtain c exec where ex: "execute d e node (rc\<lparr>RC_State := st\<rparr>) ?u = (c, exec)" by fastforce
      note exs = execute_same [OF ex]
      have g2: "goes (shown d n L0) w c" by (rule goes_trans [OF g goes_quiet [OF quiet_same]]) (use exs in simp_all)
      obtain b m l o' where st: "settle d e man ledger (N_Name node) attempt (Seq y) ?step (wrap64 (steps + 1)) exec c = (b, m, l, o')"
        by (metis prod_cases4)
      have i: "inside c (N_Name node) attempt y" "fit man c" "Seq y = Seq y"
        "D_Snapshots (disk c) (execution_key (D_Journal (disk c)) y, N_Name node) \<noteq> None"
        using qb(2,3,5) exs assms(2,4) yj sn k by (simp_all add: inside_def ready_def fit_def)
      note q = settle_quiet [OF i st]
      have r: "w' = b" "man' = m" "ledger' = l" "a = o'"
        using assms(8) True js y bb Some ex st by (simp_all add: run_node_def Let_def rc_def key_def X_def)
      have "booked d n L0 l (disk b) " if "o' = None"
        using q(2) [OF that] bk exs by (auto simp: booked_def)
      moreover have "ran w b current attempt repeats"
        using quiet_runs [OF q(1)] exs quiet_runs [OF qu] assms(4) by (simp add: ran_def X_def rc_def runContext_def key_def)
      ultimately show ?thesis using q r goes_trans [OF g2 goes_quiet [OF q(1)]] by auto
    qed
  qed
  then show "goes (shown d n L0) w w'" ?R
    "a = None \<Longrightarrow> ready w' None \<and> fit man' w' \<and> booked d n L0 ledger' (disk w') \<and> Step man' = wrap64 (Step man + 1)"
    by blast+
qed

text \<open>One turn of the loop: it ends the dispatch, or it has run one node, below the step cap, and goes on.\<close>

definition below_cap :: "Dispatcher \<Rightarrow> Manifest \<Rightarrow> bool" where
  "below_cap d man \<longleftrightarrow> \<not> (0 < MaxSteps (Cfg_Graph (cfg d)) \<and> MaxSteps (Cfg_Graph (cfg d)) \<le> Step man)"

lemma loop_turn:
  assumes "registry_ok (registry d)" "ready w None" "fit man w" "booked d n L0 ledger (disk w)"
    "1 < attempt \<longrightarrow> repeats = attemptOneSeq (D_Journal (disk w)) current"
    "loop (Suc fuel) d e man ledger current attempt repeats steps w = (w', a)"
  shows "a \<noteq> None \<and> goes (shown d n L0) w w' \<and> (runs w' = runs w \<or> ran w w' current attempt repeats \<and> below_cap d man) \<or>
    (\<exists>u m l nxt. goes (shown d n L0) w u \<and> ran w u current attempt repeats \<and> below_cap d man \<and> ready u None \<and> fit m u \<and>
       booked d n L0 l (disk u) \<and> Step m = wrap64 (Step man + 1) \<and>
       loop fuel d e m l nxt 1 repeats (wrap64 (steps + 1)) u = (w', a))"
proof -
  let ?E = "a \<noteq> None \<and> goes (shown d n L0) w w' \<and> (runs w' = runs w \<or> ran w w' current attempt repeats \<and> below_cap d man)"
  have er: "\<not> nodeScoped ev \<Longrightarrow> endRun d e man ledger ev rs c nd st nt cs w = (b, x) \<Longrightarrow> quiet w b" for ev rs c nd st nt cs b x
    using endRun_quiet [OF assms(2,3)] by blast
  have quietE: "quiet w w' \<Longrightarrow> a \<noteq> None \<Longrightarrow> ?E" by (simp add: goes_quiet quiet_runs)
  have ns: "\<not> nodeScoped EventRunCompleted" "\<not> nodeScoped EventRunFailed" "\<not> nodeScoped EventRunPaused"
    by (simp_all add: nodeScoped_def)
  show ?thesis
  proof (cases "current = End \<or> current = []")
    case True
    then have "quiet w w' \<and> a \<noteq> None" using assms(6) er [OF ns(1)] er [OF ns(2)]
      by (auto simp: Let_def End_def split: prod.splits if_splits)
    then show ?thesis using quietE by blast
  next
    case False
    obtain v x where gu: "guards d e man ledger current steps w = (v, x)" by fastforce
    note q = guards_quiet [OF assms(2,3) gu]
    show ?thesis
    proof (cases x)
      case (Some y)
      then show ?thesis using assms(6) False gu quietE q(1) by (auto simp: Let_def)
    next
      case None
      from q(2) [OF this] obtain node where node: "disk v = disk w" "ready v None" "fit man v" "registry d current = Some node"
        "N_Unpriced node \<or> Check (spentBefore d ledger current) (Cfg_Budget (cfg d)) = None" and cap: "below_cap d man"
        unfolding below_cap_def by blast
      have nm: "N_Name node = current" using assms(1) node(4) by (simp add: registry_ok_def)
      obtain u m l nxt y where rn: "run_node d e man ledger node current attempt repeats steps v = (u, m, l, nxt, y)"
        by (metis prod_cases5)
      have "booked d n L0 ledger (disk v)" "allowed d ledger node" using assms(4) node nm by (simp_all add: allowed_def)
      note r = run_node_goes [OF node(2,3) this(1) nm node(4) this(2) _ rn, unfolded node(1), OF assms(5)]
      have g: "goes (shown d n L0) w u" by (rule goes_trans [OF goes_quiet [OF q(1)] r(1)])
      have one: "y \<noteq> None \<and> runs u = runs w \<or> ran w u current attempt repeats"
        using r(3) quiet_runs [OF q(1)] by (auto simp: ran_def)
      show ?thesis
      proof (cases y)
        case (Some z)
        then show ?thesis using assms(6) False gu None node(4) rn g one cap by (auto simp: Let_def)
      next
        case yn: None
        note ru = r(2) [OF yn]
        let ?steps = "wrap64 (steps + 1)"
        show ?thesis
        proof (cases "0 < pauseAfter d \<and> pauseAfter d \<le> ?steps")
          case True
          then obtain b where b: "endRun d e m l EventRunPaused RunStatusPaused ExitOK nxt ?steps (spell d (NPausedAsAsked nxt ?steps)) None u = (w', b)"
            "a = Some b" using assms(6) False gu None node(4) rn yn by (auto simp: Let_def split: prod.splits)
          have "quiet u w'" using endRun_quiet [OF _ _ ns(3) b(1)] ru by blast
          with b(2) goes_trans [OF g goes_quiet] quiet_runs one yn cap show ?thesis by (simp add: ran_def)
        next
          case f: False
          then have "loop fuel d e m l nxt 1 repeats ?steps u = (w', a)"
            using assms(6) False gu None node(4) rn yn by (auto simp: Let_def)
          with g one yn cap ru show ?thesis by blast
        qed
      qed
    qed
  qed
qed

lemma loop_goes:
  assumes "registry_ok (registry d)"
  shows "ready w None \<Longrightarrow> fit man w \<Longrightarrow> booked d n L0 ledger (disk w) \<Longrightarrow>
    (1 < attempt \<longrightarrow> repeats = attemptOneSeq (D_Journal (disk w)) current) \<Longrightarrow>
    loop fuel d e man ledger current attempt repeats steps w = (w', a) \<Longrightarrow> goes (shown d n L0) w w'"
proof (induction fuel arbitrary: man ledger current attempt steps w)
  case (Suc fuel)
  from loop_turn [OF assms Suc.prems] show ?case
  proof (elim disjE exE conjE)
    fix u m l nxt
    assume "goes (shown d n L0) w u" "ready u None" "fit m u" "booked d n L0 l (disk u)"
      "loop fuel d e m l nxt 1 repeats (wrap64 (steps + 1)) u = (w', a)"
    then show ?case using Suc.IH [of u m l 1 nxt] goes_trans by simp
  qed
qed simp

text \<open>With a step cap, fuel above the steps that are left is enough, and no more nodes than that are run.\<close>

lemma loop_answers:
  assumes "registry_ok (registry d)" and cap: "0 < MaxSteps (Cfg_Graph (cfg d))" "in64 (MaxSteps (Cfg_Graph (cfg d)))"
  shows "ready w None \<Longrightarrow> fit man w \<Longrightarrow> booked d n L0 ledger (disk w) \<Longrightarrow>
    (1 < attempt \<longrightarrow> repeats = attemptOneSeq (D_Journal (disk w)) current) \<Longrightarrow>
    in64 (Step man) \<Longrightarrow> nat (MaxSteps (Cfg_Graph (cfg d)) - Step man) < fuel \<Longrightarrow>
    loop fuel d e man ledger current attempt repeats steps w = (w', a) \<Longrightarrow>
    a \<noteq> None \<and> length (runs w') \<le> length (runs w) + nat (MaxSteps (Cfg_Graph (cfg d)) - Step man)"
proof (induction fuel arbitrary: man ledger current attempt steps w)
  case (Suc fuel)
  let ?m = "MaxSteps (Cfg_Graph (cfg d))"
  have one: "ran w u current attempt repeats \<Longrightarrow> length (runs u) = Suc (length (runs w))" for u
    by (auto simp: ran_def)
  from loop_turn [OF assms(1) Suc.prems(1-4,7)] show ?case
  proof (elim disjE exE conjE)
    assume "a \<noteq> None" "ran w w' current attempt repeats" "below_cap d man"
    then show ?thesis using one cap(1) by (fastforce simp: below_cap_def)
  next
    fix u m l nxt
    assume u: "ran w u current attempt repeats" "below_cap d man" "ready u None" "fit m u" "booked d n L0 l (disk u)"
      "Step m = wrap64 (Step man + 1)" "loop fuel d e m l nxt 1 repeats (wrap64 (steps + 1)) u = (w', a)"
    have lt: "Step man < ?m" using u(2) cap(1) by (simp add: below_cap_def)
    then have "in64 (Step man + 1)" using cap(2) Suc.prems(5) by (simp add: in64_def)
    then have s: "Step m = Step man + 1" "in64 (Step m)" using u(6) by simp_all
    then have "nat (?m - Step m) < fuel" "Suc (nat (?m - Step m)) = nat (?m - Step man)" using Suc.prems(6) lt by linarith+
    with Suc.IH [OF u(3-5) _ s(2) _ u(7)] one [OF u(1)] show ?thesis by simp
  qed simp
qed simp

text \<open>The first node a loop runs is the one it was started at.\<close>

lemma loop_first:
  assumes "registry_ok (registry d)" "ready w None" "fit man w" "booked d n L0 ledger (disk w)"
    "1 < attempt \<longrightarrow> repeats = attemptOneSeq (D_Journal (disk w)) current"
    "loop fuel d e man ledger current attempt repeats steps w = (w', a)" "runs w' = runs w @ X # Xs"
  shows "N_Name (X_Node X) = current \<and> RC_Attempt (X_Context X) = attempt \<and> (1 < attempt \<and> repeats \<noteq> 0 \<longrightarrow> X_Key X = repeats)"
proof (cases fuel)
  case (Suc k)
  from loop_turn [OF assms(1-5) assms(6) [unfolded Suc]] show ?thesis
  proof (elim disjE exE conjE)
    fix u m l nxt
    assume u: "ran w u current attempt repeats" "ready u None" "fit m u" "booked d n L0 l (disk u)"
      "loop k d e m l nxt 1 repeats (wrap64 (steps + 1)) u = (w', a)"
    have "goes (shown d n L0) u w'" by (rule loop_goes [OF assms(1) u(2-4) _ u(5)]) simp
    with u(1) assms(7) show ?thesis by (auto simp: goes_def ran_def)
  qed (use assms(7) in \<open>auto simp: ran_def\<close>)
qed (use assms(6,7) in auto)

section \<open>A dispatch\<close>

lemma seqno_of_history:
  "map Seq rs = [1..<Suc (length rs)] \<Longrightarrow> fold (\<lambda>r m. if Seq r > m then Seq r else m) rs 0 = length rs"
  by (induction rs rule: rev_induct) simp_all

lemma marker_not_scoped: "owedRunMarker r = Some (ev, st) \<Longrightarrow> \<not> nodeScoped ev"
  by (auto simp: owedRunMarker_def nodeScoped_def split: if_splits Status.splits)

text \<open>What healing leaves: a journal with no attempt open, its charges booked, and the resume decision's
  node and attempt as they were.\<close>

lemma heal_quiet:
  assumes "jstate records dl" "D_Journal (disk w) = records" "seqno w = length records"
    "\<forall>r \<in> set records. is_ok (Record_validate r)" "heal d e records start ledger w = (w', start', ledger', h)"
  shows "quiet w w'"
    and "h \<noteq> None \<Longrightarrow> ready w' None \<and> D_Manifest (disk w') = D_Manifest (disk w) \<and>
      booked d (length records) ledger ledger' (disk w') \<and> SNode start' = SNode start \<and> SAttempt start' = SAttempt start \<and>
      attemptOneSeq (D_Journal (disk w')) node = attemptOneSeq records node"
proof -
  have r0: "ready w dl" using assms(1-3) by (simp add: ready_def)
  let ?G = "quiet w w' \<and> (h \<noteq> None \<longrightarrow> ready w' None \<and> D_Manifest (disk w') = D_Manifest (disk w) \<and>
      booked d (length records) ledger ledger' (disk w') \<and> SNode start' = SNode start \<and> SAttempt start' = SAttempt start \<and>
      attemptOneSeq (D_Journal (disk w')) node = attemptOneSeq records node)"
  have idle: "(w', start', ledger', h) = (w, start, ledger, Some False) \<Longrightarrow> dl = None \<Longrightarrow> ?G"
    using r0 assms(2) by (simp add: booked_def)
  have ?G
  proof (cases "records = []")
    case True
    then show ?thesis using idle assms(1,5) by (simp add: heal_def)
  next
    case ne: False
    let ?r = "last records"
    note open_iff = jstate_last_started [OF assms(1) ne]
    consider (s) "Event ?r = EventNodeStarted"
      | (m) ev st where "Event ?r = EventNodeFinished" "owedRunMarker ?r = Some (ev, st)"
      | (i) "Event ?r \<noteq> EventNodeStarted" "(w', start', ledger', h) = (w, start, ledger, Some False)"
      using assms(5) ne by (cases "Event ?r"; cases "owedRunMarker ?r") (auto simp: heal_def Let_def)
    then show ?thesis
    proof cases
      case s
      then have dl: "dl = Some ?r" using open_iff by simp
      have "is_ok (Record_validate ?r)" using assms(4) ne by simp
      with s have "Attempt ?r \<ge> 1" by (auto simp: Record_validate_def nodeScoped_def split: if_splits)
      with r0 dl have i: "inside w (RNode ?r) (Attempt ?r) ?r" by (simp add: inside_def)
      let ?c = "if estimable d (RNode ?r) then interruptedCharge d ledger else zeroUsage"
      obtain nt where nt: "heal d e records start ledger w =
        (let (w, rec) = jappend e (interruptedAttempt (RNode ?r) (Attempt ?r) 0 ?c nt) w
         in case rec of None \<Rightarrow> (w, start, ledger, None) | Some _ \<Rightarrow> (w, start, charge d ledger (RNode ?r) ?c, Some True))"
        using s ne by (simp add: heal_def Let_def)
      obtain v x where j: "jappend e (interruptedAttempt (RNode ?r) (Attempt ?r) 0 ?c nt) w = (v, x)" by fastforce
      note q = jappend_reject [OF i _ _ _ _ _ j, simplified]
      show ?thesis
      proof (cases x)
        case None
        then show ?thesis using assms(5) nt j q(1) by auto
      next
        case (Some y)
        from q(2) [OF Some] have y: "ready v None" "y = written e (interruptedAttempt (RNode ?r) (Attempt ?r) 0 ?c nt) w"
          "disk v = (disk w)\<lparr>D_Journal := D_Journal (disk w) @ [y]\<rparr>" by blast+
        have f: "Event y = EventNodeFinished" "RNode y = RNode ?r" "RUsage y = journalUsage ?c" unfolding y(2) by simp_all
        have "booked d (length records) ledger (charge d ledger (RNode ?r) ?c) (disk v)"
          using charge_is_entry [OF f] y(3) assms(2) by (simp add: booked_def)
        then show ?thesis using assms(2,5) nt j q(1) Some y(1,3) f(1) by auto
      qed
    next
      case m
      then have dl: "dl = None" using open_iff assms(1) by (cases dl) (use jstate_open in fastforce)+
      let ?m = "(record0 ev)\<lparr>Note := Note ?r\<rparr>"
      obtain v x where j: "jappend e ?m w = (v, x)" by fastforce
      have ns: "\<not> nodeScoped ev" by (rule marker_not_scoped [OF m(2)])
      have q: "quiet w v" "x = Some y \<Longrightarrow> ready v None \<and> y = written e ?m w \<and>
          disk v = (disk w)\<lparr>D_Journal := D_Journal (disk w) @ [y]\<rparr>" for y
        using jappend_marker [OF _ _ j] r0 dl ns by (simp_all add: record0_def)
      show ?thesis
      proof (cases x)
        case None
        then show ?thesis using assms(5) ne m j q(1) by (auto simp: heal_def Let_def)
      next
        case (Some y)
        from q(2) [OF Some] have y: "ready v None" "y = written e ?m w"
          "disk v = (disk w)\<lparr>D_Journal := D_Journal (disk w) @ [y]\<rparr>" by blast+
        have "Event y = ev" unfolding y(2) by (simp add: record0_def)
        then have f: "Event y \<noteq> EventNodeFinished" "Event y \<noteq> EventNodeStarted" using ns by (auto simp: nodeScoped_def)
        have "booked d (length records) ledger ledger (disk v)"
          using usage_entries_other [OF f(1)] y(3) assms(2) by (simp add: booked_def)
        then show ?thesis using assms(2,5) ne m j q(1) Some y(1,3) f by (auto simp: heal_def Let_def)
      qed
    next
      case i
      then have "dl = None" using open_iff assms(1) by (cases dl) (use jstate_open in fastforce)+
      with i idle show ?thesis by blast
    qed
  qed
  then show "quiet w w'" "h \<noteq> None \<Longrightarrow> ready w' None \<and> D_Manifest (disk w') = D_Manifest (disk w) \<and>
      booked d (length records) ledger ledger' (disk w') \<and> SNode start' = SNode start \<and> SAttempt start' = SAttempt start \<and>
      attemptOneSeq (D_Journal (disk w')) node = attemptOneSeq records node" by blast+
qed

lemma booked_marker:
  "booked d n L0 L D \<Longrightarrow> Event y \<noteq> EventNodeFinished \<Longrightarrow> booked d n L0 L (D\<lparr>D_Journal := D_Journal D @ [y]\<rparr>)"
  by (simp add: booked_def usage_entries_other)

lemma checkStartState_quiet:
  assumes "ready w None" "checkStartState d e start resuming ledger w = (w', a)"
  shows "quiet w w'"
    and "a = None \<Longrightarrow> ready w' None \<and> D_Manifest (disk w') = D_Manifest (disk w) \<and>
      (booked d n L0 L (disk w) \<longrightarrow> booked d n L0 L (disk w')) \<and>
      attemptOneSeq (D_Journal (disk w')) node = attemptOneSeq (D_Journal (disk w)) node"
proof -
  let ?G = "quiet w w' \<and> (a = None \<longrightarrow> ready w' None \<and> D_Manifest (disk w') = D_Manifest (disk w) \<and>
      (booked d n L0 L (disk w) \<longrightarrow> booked d n L0 L (disk w')) \<and>
      attemptOneSeq (D_Journal (disk w')) node = attemptOneSeq (D_Journal (disk w)) node)"
  have marker: ?G if ev: "ev = EventRunResumed \<or> ev = EventRunStarted"
    and j: "jappend e (record0 ev) w = (w', x)" "a = (if x = None then Some b else None)" for ev x b
  proof -
    have ns: "\<not> nodeScoped (Event (record0 ev))" using ev by (auto simp: record0_def nodeScoped_def)
    have q: "quiet w w'" "x = Some y \<Longrightarrow> ready w' None \<and> y = written e (record0 ev) w \<and>
        disk w' = (disk w)\<lparr>D_Journal := D_Journal (disk w) @ [y]\<rparr>" for y
      using jappend_marker [OF assms(1) ns j(1)] by simp_all
    show ?G
    proof (cases x)
      case None
      then show ?thesis using q(1) j(2) by simp
    next
      case (Some y)
      from q(2) [OF Some] have y: "ready w' None" "y = written e (record0 ev) w"
        "disk w' = (disk w)\<lparr>D_Journal := D_Journal (disk w) @ [y]\<rparr>" by blast+
      have "Event y = ev" unfolding y(2) by (simp add: record0_def)
      with ev have "Event y \<noteq> EventNodeFinished" "Event y \<noteq> EventNodeStarted" by auto
      then show ?thesis using q(1) y(1,3) booked_marker by auto
    qed
  qed
  have ?G
  proof (cases "State start = RunStatePaused \<and> resuming \<or> State start = RunStateRunnable \<and> seqno w = 0")
    case True
    define ev where "ev = (if State start = RunStatePaused then EventRunResumed else EventRunStarted)"
    obtain v x where j: "jappend e (record0 ev) w = (v, x)" by fastforce
    with assms(2) True have "w' = v" "a = (if x = None then Some (broken0 (ErrIO ''journal'')) else None)"
      by (auto simp: checkStartState_def ev_def)
    with marker [of ev x] j show ?thesis by (auto simp: ev_def)
  next
    case False
    then show ?thesis using assms by (cases "State start") (auto simp: checkStartState_def Let_def split: if_splits)
  qed
  then show "quiet w w'" "a = None \<Longrightarrow> ready w' None \<and> D_Manifest (disk w') = D_Manifest (disk w) \<and>
      (booked d n L0 L (disk w) \<longrightarrow> booked d n L0 L (disk w')) \<and>
      attemptOneSeq (D_Journal (disk w')) node = attemptOneSeq (D_Journal (disk w)) node" by blast+
qed

text \<open>The run's documents are as they were, whatever version the manifest is saved at.\<close>

definition same_docs :: "World \<Rightarrow> World \<Rightarrow> bool" where
  "same_docs w w' \<longleftrightarrow> D_Journal (disk w') = D_Journal (disk w) \<and> D_Manifest (disk w') = D_Manifest (disk w) \<and>
     D_State (disk w') = D_State (disk w) \<and> D_Snapshots (disk w') = D_Snapshots (disk w)"

lemma Preflight_quiet:
  assumes "Preflight e w = (w', ok)"
  shows "quiet w w'" "same_docs w w'"
proof -
  have l: "legal (disk (next_tick (next_tick w))) (WManifest (D_Manifest (disk w)))" by (rule legal.manifest) simp_all
  consider "w' = next_tick w" | "w' = next_tick (next_tick w)"
    | "try_write e (WManifest (D_Manifest (disk w))) (next_tick (next_tick w)) = (w', ok)"
    using assms by (auto simp: Preflight_def split: if_splits)
  then have "quiet w w' \<and> same_docs w w'"
  proof cases
    case 3
    have "quiet w w'" by (rule quiet_trans [OF quiet_tick quiet_trans [OF quiet_tick try_write_quiet(1) [OF l 3]]])
    moreover have "same_docs w w'" using 3 by (auto simp: same_docs_def try_write_def emit_def split: io.splits)
    ultimately show ?thesis by blast
  qed (use quiet_trans [OF quiet_tick quiet_tick] in \<open>auto simp: same_docs_def\<close>)
  then show "quiet w w'" "same_docs w w'" by blast+
qed

text \<open>The ledger a dispatch starts from.\<close>

definition ledger0 :: "Dispatcher \<Rightarrow> Disk \<Rightarrow> Ledger" where
  "ledger0 d D = rebuildLedger (D_Journal D) (M_Budget (D_Manifest D)) (supervises d)"

text \<open>A dispatch that reaches its loop reaches it with no attempt open, its charges booked, at the node and
  attempt the journal names.\<close>

definition reaches :: "nat \<Rightarrow> Dispatcher \<Rightarrow> Env \<Rightarrow> nat \<Rightarrow> Ledger \<Rightarrow> int \<Rightarrow> JRecord list \<Rightarrow> string \<Rightarrow> int \<Rightarrow> World \<Rightarrow>
    World \<times> answer option \<Rightarrow> bool" where
  "reaches fuel d e n L0 step records node attempt v out \<longleftrightarrow> (\<exists>t m l.
     quiet v t \<and> ready t None \<and> fit m t \<and> booked d n L0 l (disk t) \<and> Step m = step \<and>
     attemptOneSeq (D_Journal (disk t)) node = attemptOneSeq records node \<and>
     loop fuel d e m l node attempt (if 1 < attempt then attemptOneSeq records node else 0) 0 t = out)"

lemma dispatch_healed_inv:
  assumes "ready v None" "fit man0 v" "booked d n L0 l (disk v)"
    "attemptOneSeq (D_Journal (disk v)) (SNode st) = attemptOneSeq records (SNode st)"
    "dispatch_healed fuel d e resuming records man0 st l healed v = (w', a)"
  shows "quiet v w' \<and> a \<noteq> None \<or> reaches fuel d e n L0 (Step man0) records (SNode st) (SAttempt st) v (w', a)"
proof -
  obtain u m ok where pe: "(if healed \<and> State st \<noteq> RunStateRunnable
      then persist d e man0 (runStatusFor (State st)) (SNode st) l v else (v, man0, True)) = (u, m, ok)"
    by (metis prod_cases3)
  have u: "quiet v u" "ok \<Longrightarrow> ready u None \<and> fit m u \<and> D_Journal (disk u) = D_Journal (disk v)" "Step m = Step man0"
    using pe assms(1,2) persist_quiet [OF assms(1,2)] by (auto split: if_splits)
  note eq = assms(5) [unfolded dispatch_healed_def pe Let_def prod.case]
  show ?thesis
  proof (cases ok)
    case False
    then show ?thesis using eq u(1) by auto
  next
    case True
    have ru: "ready u None" "fit m u" "D_Journal (disk u) = D_Journal (disk v)" using u(2) [OF True] by simp_all
    obtain t x where ch: "checkStartState d e st resuming l u = (t, x)" by (metis surj_pair)
    note qc = checkStartState_quiet [OF ru(1) ch]
    have qt: "quiet v t" by (rule quiet_trans [OF u(1) qc(1)])
    show ?thesis
    proof (cases x)
      case (Some b)
      then show ?thesis using eq True ch qt by auto
    next
      case None
      have "ready t None" "fit m t" "booked d n L0 l (disk t)"
        "attemptOneSeq (D_Journal (disk t)) (SNode st) = attemptOneSeq records (SNode st)"
        using qc(2) [OF None, of n L0 l "SNode st"] ru assms(3,4) by (simp_all add: fit_def booked_def)
      with qt u(3) eq True None ch have "reaches fuel d e n L0 (Step man0) records (SNode st) (SAttempt st) v (w', a)"
        unfolding reaches_def by (intro exI [of _ t] exI [of _ m] exI [of _ l]) simp
      then show ?thesis ..
    qed
  qed
qed

definition start_of :: "Dispatcher \<Rightarrow> JRecord list \<Rightarrow> Start \<Rightarrow> Start" where
  "start_of d records st =
     (if entry_node d \<noteq> [] \<and> \<not> startedANode records then st\<lparr>SNode := entry_node d, SAttempt := 1\<rparr> else st)"

text \<open>What comes before healing: a dispatch stops there having written nothing, or heals the journal it read.\<close>

lemma dispatch_prologue:
  assumes "disk_ok (disk w)" "dispatch fuel d e resuming w = (w', a)"
  shows "quiet w w' \<and> same_docs w w' \<and> (\<exists>x. a = Some (broken0 x)) \<or>
    (\<exists>w2 st v st' l h. ResolveStart (D_Journal (disk w)) = Inr st \<and> quiet w w2 \<and> same_docs w w2 \<and>
       seqno w2 = length (D_Journal (disk w)) \<and>
       heal d e (D_Journal (disk w)) (start_of d (D_Journal (disk w)) st) (ledger0 d (disk w)) w2 = (v, st', l, h) \<and>
       (case h of None \<Rightarrow> (v, Some (broken0 (ErrIO ''heal'')))
        | Some healed \<Rightarrow> dispatch_healed fuel d e resuming (D_Journal (disk w)) (D_Manifest (disk w)) st' l healed v) = (w', a))"
proof -
  let ?J = "D_Journal (disk w)" and ?M = "D_Manifest (disk w)"
  obtain dl where dl: "jstate ?J dl" using assms(1) jstate_ex by (auto simp: disk_ok_def)
  then have vOK: "Validate ?J = Inr ()" using jstate_valid by (auto simp: is_ok_iff)
  obtain w1 ok1 where p1: "Preflight e (next_tick w) = (w1, ok1)" by fastforce
  note q1 = Preflight_quiet [OF p1]
  have d1: "same_docs w w1" using q1(2) by (simp add: same_docs_def)
  then have j1: "D_Journal (disk w1) = ?J" by (simp add: same_docs_def)
  define w2 where w2: "w2 = next_tick ((next_tick w1)\<lparr>seqno := fold (\<lambda>r m. if Seq r > m then Seq r else m) ?J 0\<rparr>)"
  have qw1: "quiet w w1" by (rule quiet_trans [OF quiet_tick q1(1)])
  have qw2: "quiet w w2" by (rule quiet_trans [OF qw1], rule quiet_same) (simp_all add: w2)
  have d2: "same_docs w w2" using d1 by (simp add: same_docs_def w2)
  have sq: "seqno w2 = length ?J" using seqno_of_history [OF jstate_seq [OF dl]] by (simp add: w2)
  show ?thesis
  proof (cases "E_io e (tick w) = IO_ok \<and> ok1 \<and> E_io e (tick w1) = IO_ok \<and> E_io e (Suc (tick w1)) = IO_ok \<and> is_ok (ResolveStart ?J)")
    case False
    then consider (1) "E_io e (tick w) \<noteq> IO_ok" | (2) "E_io e (tick w) = IO_ok" "\<not> ok1"
      | (3) "E_io e (tick w) = IO_ok" "ok1" "E_io e (tick w1) \<noteq> IO_ok"
      | (4) "E_io e (tick w) = IO_ok" "ok1" "E_io e (tick w1) = IO_ok" "E_io e (Suc (tick w1)) \<noteq> IO_ok"
      | (5) c where "E_io e (tick w) = IO_ok" "ok1" "E_io e (tick w1) = IO_ok" "E_io e (Suc (tick w1)) = IO_ok" "ResolveStart ?J = Inl c"
      by (cases "ResolveStart ?J") auto
    then have "w' \<in> {next_tick w, w1, next_tick w1, w2} \<and> (\<exists>x. a = Some (broken0 x))"
      using assms(2) p1 j1 vOK by cases (auto simp: dispatch_def Let_def w2)
    moreover have "same_docs w (next_tick w)" "same_docs w (next_tick w1)" using d1 by (simp_all add: same_docs_def)
    ultimately show ?thesis using qw1 qw2 quiet_trans [OF qw1 quiet_tick] d1 d2 by auto
  next
    case True
    then obtain st0 where rs: "ResolveStart ?J = Inr st0" by (auto simp: is_ok_iff)
    obtain v st' l h where he: "heal d e ?J (start_of d ?J st0) (ledger0 d (disk w)) w2 = (v, st', l, h)"
      by (cases "heal d e ?J (start_of d ?J st0) (ledger0 d (disk w)) w2") auto
    have "(case h of None \<Rightarrow> (v, Some (broken0 (ErrIO ''heal'')))
      | Some healed \<Rightarrow> dispatch_healed fuel d e resuming ?J ?M st' l healed v) = (w', a)"
      using assms(2) True p1 j1 vOK rs he
      by (cases h) (simp_all add: dispatch_def Let_def start_of_def ledger0_def w2)
    with rs he qw2 d2 sq show ?thesis by blast
  qed
qed

lemma dispatch_inv:
  assumes "disk_ok (disk w)" "dispatch fuel d e resuming w = (w', a)"
  shows "quiet w w' \<and> a \<noteq> None \<or> (\<exists>st. ResolveStart (D_Journal (disk w)) = Inr st \<and>
    reaches fuel d e (length (D_Journal (disk w))) (ledger0 d (disk w)) (Step (D_Manifest (disk w))) (D_Journal (disk w))
      (SNode (start_of d (D_Journal (disk w)) st)) (SAttempt (start_of d (D_Journal (disk w)) st)) w (w', a))"
  using dispatch_prologue [OF assms]
proof (elim disjE exE conjE)
  fix w2 st v st' l h
  let ?J = "D_Journal (disk w)" and ?M = "D_Manifest (disk w)"
  assume rs: "ResolveStart ?J = Inr st" and w2: "quiet w w2" "same_docs w w2" "seqno w2 = length ?J"
    and he: "heal d e ?J (start_of d ?J st) (ledger0 d (disk w)) w2 = (v, st', l, h)"
    and eq: "(case h of None \<Rightarrow> (v, Some (broken0 (ErrIO ''heal'')))
      | Some healed \<Rightarrow> dispatch_healed fuel d e resuming ?J ?M st' l healed v) = (w', a)"
  obtain dl where dl: "jstate ?J dl" using assms(1) jstate_ex by (auto simp: disk_ok_def)
  have va: "\<forall>r \<in> set ?J. is_ok (Record_validate r)" using assms(1) by (simp add: disk_ok_def)
  have dj: "D_Journal (disk w2) = ?J" "D_Manifest (disk w2) = ?M" using w2(2) by (simp_all add: same_docs_def)
  note qh = heal_quiet [OF dl dj(1) w2(3) va he]
  have qv: "quiet w v" by (rule quiet_trans [OF w2(1) qh(1)])
  show ?thesis
  proof (cases h)
    case None
    then show ?thesis using eq qv by auto
  next
    case (Some healed)
    then have "h \<noteq> None" by simp
    note qh = qh(2) [OF this]
    have h: "ready v None" "fit ?M v" "booked d (length ?J) (ledger0 d (disk w)) l (disk v)"
      "attemptOneSeq (D_Journal (disk v)) (SNode st') = attemptOneSeq ?J (SNode st')"
      using qh dj(2) by (simp_all add: fit_def)
    have n: "SNode st' = SNode (start_of d ?J st)" "SAttempt st' = SAttempt (start_of d ?J st)" using qh by simp_all
    from eq Some have "dispatch_healed fuel d e resuming ?J ?M st' l healed v = (w', a)" by simp
    from dispatch_healed_inv [OF h this] show ?thesis
      using quiet_trans [OF qv] rs unfolding n reaches_def by blast
  qed
qed auto

lemma dispatch_goes:
  assumes "registry_ok (registry d)" "disk_ok (disk w)" "dispatch fuel d e resuming w = (w', a)"
  shows "goes (shown d (length (D_Journal (disk w))) (ledger0 d (disk w))) w w'"
  using dispatch_inv [OF assms(2,3)]
proof (elim disjE exE conjE)
  assume "quiet w w'"
  then show ?thesis by (rule goes_quiet)
next
  fix st
  assume "reaches fuel d e (length (D_Journal (disk w))) (ledger0 d (disk w)) (Step (D_Manifest (disk w))) (D_Journal (disk w))
      (SNode (start_of d (D_Journal (disk w)) st)) (SAttempt (start_of d (D_Journal (disk w)) st)) w (w', a)"
  then obtain t m l where t: "quiet w t" "ready t None" "fit m t"
    "booked d (length (D_Journal (disk w))) (ledger0 d (disk w)) l (disk t)"
    "loop fuel d e m l (SNode (start_of d (D_Journal (disk w)) st)) (SAttempt (start_of d (D_Journal (disk w)) st))
      (if 1 < SAttempt (start_of d (D_Journal (disk w)) st)
       then attemptOneSeq (D_Journal (disk t)) (SNode (start_of d (D_Journal (disk w)) st)) else 0) 0 t = (w', a)"
    unfolding reaches_def by metis
  show ?thesis
    by (rule goes_trans [OF goes_quiet [OF t(1)] loop_goes [OF assms(1) t(2-4) _ t(5)]]) simp
qed

end
