(* ===== verification/Dispatch_Demo.thy ===== *)
theory Dispatch_Demo
  imports Dispatch_Safety
begin

text \<open>
  One small run, evaluated: a planning node that finishes the run, dispatched once and killed inside
  the node, and dispatched again. The witnesses of theory Dispatch_Runs apply its theorems to it.
\<close>

definition demo_node :: Node where
  "demo_node = \<lparr>N_Name = ''plan'', N_Unpriced = False, N_Supervisor = False,
     N_Run = (\<lambda>t rc. (\<lparr>Res_Next = ''END'', Res_Status = StatusOK, Res_Patch = Patch0\<lparr>Patch_Winner := Some ''w''\<rparr>,
       Res_Usage = \<lparr>InputTokens = 10, OutputTokens = 5, USD = Fin 1, Estimated = False\<rparr>, Res_Note = []\<rparr>, None))\<rparr>"

definition demo_config :: Config where
  "demo_config = \<lparr>Cfg_Graph = \<lparr>G_GiveUp = 3, MaxSteps = 2, NodeTimeout = 0, Approval = False\<rparr>,
     Cfg_Budget = \<lparr>MaxUSD = Fin 0, MaxTokens = 100, OnExceed = ''abort''\<rparr>,
     Cfg_Fanout = \<lparr>Enabled = False, FC_Candidates = 0, Concurrency = 0, Isolator = [], FC_Select = []\<rparr>,
     Cfg_Policy = PolicyRules0\<rparr>"

definition demo :: Dispatcher where
  "demo = \<lparr>registry = [''plan'' \<mapsto> demo_node], cfg = demo_config, entry_node = [], interruptedFloor = zeroUsage,
     pauseOnCancel = False, pauseAfter = 0, workspace = ''/w'', fingerprint = False, spell = (\<lambda>_. [])\<rparr>"

definition demo_env :: Env where
  "demo_env = \<lparr>E_clock = (\<lambda>t. int t), E_cancelled = (\<lambda>_. False), E_expired = (\<lambda>_. False),
     E_ctx_expired = (\<lambda>_. False), E_io = (\<lambda>t. if t < 12 then IO_ok else IO_failed), E_digest = (\<lambda>_. []), E_killed = 0\<rparr>"

definition demo_disk :: Disk where
  "demo_disk = \<lparr>D_Manifest = Manifest0, ManifestVersion = 2, D_State = NewState ''g'', D_Journal = [],
     D_Snapshots = Map.empty\<rparr>"

text \<open>A belay started on the documents \<open>D\<close>.\<close>

definition boot :: "Disk \<Rightarrow> nat \<Rightarrow> World" where
  "boot D t = \<lparr>disk = D, wlog = [], seqno = 0, tick = t, runs = []\<rparr>"

lemma demo_registry: "registry_ok (registry demo)"
  by (simp add: registry_ok_def demo_def demo_node_def End_def)

lemma demo_sel [simp]:
  "registry demo = [''plan'' \<mapsto> demo_node]" "cfg demo = demo_config" "entry_node demo = []" "interruptedFloor demo = zeroUsage"
  "pauseOnCancel demo = False" "pauseAfter demo = 0" "workspace demo = ''/w''" "fingerprint demo = False" "spell demo m = []"
  "N_Name demo_node = ''plan''" "N_Unpriced demo_node = False" "N_Supervisor demo_node = False"
  "E_clock demo_env t = int t" "E_cancelled demo_env t = False" "E_expired demo_env t = False" "E_ctx_expired demo_env t = False"
  "E_io demo_env t = (if t < 12 then IO_ok else IO_failed)" "E_killed demo_env = 0"
  "MaxSteps (Cfg_Graph demo_config) = 2" "NodeTimeout (Cfg_Graph demo_config) = 0"
  "MaxUSD (Cfg_Budget demo_config) = Fin 0" "MaxTokens (Cfg_Budget demo_config) = 100" "OnExceed (Cfg_Budget demo_config) = ''abort''"
  by (simp_all add: demo_def demo_node_def demo_env_def demo_config_def)

abbreviation demo_ledger :: Ledger where
  "demo_ledger \<equiv> Rebuild [] (restoreSnapshot (M_Budget Manifest0))"

lemma demo_supervises [simp]: "supervises demo n = False"
  by (simp add: supervises_def demo_node_def)

lemma demo_check [simp]:
  "Check demo_ledger (Cfg_Budget demo_config) = None"
  "Check (charge demo demo_ledger ''plan'' zeroUsage) (Cfg_Budget demo_config) = None"
  by (simp_all add: Check_def Let_def Rebuild_def restoreSnapshot_def snapshot_totals_def Manifest0_def
      New_def totals0_def atLeast_def charge_def Record_simps totals_add_def zeroUsage_def)

lemma demo_zero [simp]: "quot64 0 n = 0" "microsToUSD 0 = Fin 0"
  "journalUsage zeroUsage = Some \<lparr>JInputTokens = 0, JOutputTokens = 0, JUSD = Fin 0, JEstimated = False\<rparr>"
  by (simp_all add: quot64_def microsToUSD_def fl_0 journalUsage_def zeroUsage_def)

lemma demo_interrupted [simp]: "interruptedCharge demo demo_ledger = zeroUsage"
  by (simp add: interruptedCharge_def Let_def isZeroUsage_def Ledger_Largest_def Rebuild_def New_def totals0_def
      totals_usage_def zeroUsage_def)

lemma demo_spent [simp]: "spentBefore demo l n = l"
  by (simp add: spentBefore_def)

lemma Manifest0_sel [simp]: "Step Manifest0 = 0" "RunID Manifest0 = ''r''" 
  by (simp_all add: Manifest0_def)

lemma demo_run:
  "N_Run demo_node n rc = (\<lparr>Res_Next = ''END'', Res_Status = StatusOK, Res_Patch = Patch0\<lparr>Patch_Winner := Some ''w''\<rparr>,
       Res_Usage = \<lparr>InputTokens = 10, OutputTokens = 5, USD = Fin 1, Estimated = False\<rparr>, Res_Note = []\<rparr>, None)"
  by (simp add: demo_node_def)

lemma demo_name [simp]: "validateSegment ''plan'' = None" "TrimSpace ''plan'' = ''plan''"
  by code_simp+

lemma demo_wrap [simp]: "wrap64 1 = 1" "wrap64 2 = 2"
  by (simp_all add: in64_def)

text \<open>The documents as the first dispatch leaves them: it stops inside the node's acceptance, on a disk
  that takes no more writes.\<close>

definition demo_open :: Disk where
  "demo_open = demo_disk\<lparr>
     D_Journal := [Record0\<lparr>Seq := 1, Event := EventRunStarted, Time := 5\<rparr>,
       Record0\<lparr>Seq := 2, Event := EventNodeStarted, RNode := ''plan'', Attempt := 1, Time := 8\<rparr>],
     D_Snapshots := [(2, ''plan'') \<mapsto> \<lparr>Sn_RunID = ''r'', Sn_Node = ''plan'', Sn_Seq = 2, Sn_Step = 1, TakenAt = 10,
       WorkspaceDigest = [], Sn_State = NewState ''g''\<rparr>]\<rparr>"

definition demo_context :: "int \<Rightarrow> RunContext" where
  "demo_context n = runContext demo Manifest0 (NewState ''g'') demo_ledger ''plan'' 1 n"

definition demo_world :: World where
  "demo_world = \<lparr>disk = demo_open,
     wlog = map WAppend (D_Journal demo_open) @ [WSnapshot (the (D_Snapshots demo_open (2, ''plan'')))],
     seqno = 2, tick = 17,
     runs = [\<lparr>X_Node = demo_node, X_Context = demo_context 1, X_Key = 2, X_Disk = demo_open, X_Ledger = demo_ledger\<rparr>]\<rparr>"

lemmas demo_steps = dispatch_def boot_def demo_disk_def Preflight_def Validate_def scan_def scan0_def ResolveStart_def
    ManifestSchemaVersion_def startedANode_def heal_def dispatch_healed_def checkStartState_def jappend_def record0_def Record0_def
    prepare_def nodeScoped_def Record_validate_def try_write_def emit_def FirstNode_def
    guards_def run_node_def runContext_def blackboardFor_def SnapshotPath_def execute_def settle_def put_snapshot_eq
    Result_Validate_def demo_run cutShortCharge_def isZeroUsage_def accept_def ApplyPatch_def rebuildLedger_def usage_entries_def estimable_def
    scan_step_def numeral_2_eq_2 interruptedAttempt_def Milliseconds_def attemptOneSeq_def Let_def next_tick_def End_def

lemma demo_first:
  "dispatch (Suc (Suc 0)) demo demo_env False (boot demo_disk 0) =
     (demo_world, Some (broken ''plan'' 1 demo_ledger (ErrIO ''apply patch'')))"
  by (simp add: demo_steps demo_world_def demo_open_def demo_context_def cong: let_weak_cong)

definition demo_healed :: "JRecord list" where
  "demo_healed = [Record0\<lparr>Seq := 3, Event := EventNodeFinished, RNode := ''plan'', Attempt := 1, Time := 5,
     Status := StatusAborted, Next := ''plan'', RUsage := journalUsage zeroUsage\<rparr>,
     Record0\<lparr>Seq := 4, Event := EventNodeStarted, RNode := ''plan'', Attempt := 2, Time := 8\<rparr>]"

definition demo_again :: World where
  "demo_again = \<lparr>disk = demo_open\<lparr>D_Journal := D_Journal demo_open @ demo_healed\<rparr>,
     wlog = map WAppend demo_healed, seqno = 4, tick = 15,
     runs = [\<lparr>X_Node = demo_node,
       X_Context = runContext demo Manifest0 (NewState ''g'') (charge demo demo_ledger ''plan'' zeroUsage) ''plan'' 1 2,
       X_Key = 2, X_Disk = demo_open\<lparr>D_Journal := D_Journal demo_open @ demo_healed\<rparr>,
       X_Ledger = charge demo demo_ledger ''plan'' zeroUsage\<rparr>]\<rparr>"

lemma demo_second:
  "dispatch (Suc (Suc 0)) demo demo_env False (boot demo_open 0) =
     (demo_again, Some (broken ''plan'' 1 (charge demo demo_ledger ''plan'' zeroUsage) (ErrIO ''apply patch'')))"
  by (simp add: demo_steps demo_open_def demo_again_def demo_healed_def cong: let_weak_cong)

lemma demo_disk_ok: "disk_ok demo_disk"
  by (simp add: disk_ok_def demo_disk_def committed_def Validate_def scan_def)

lemma demo_written:
  "fold apply_write (wlog demo_world) demo_disk = demo_open"
  "fold apply_write (wlog demo_again) demo_open = disk demo_again"
  by (simp_all add: demo_world_def demo_open_def demo_disk_def demo_again_def demo_healed_def put_snapshot_eq
      SnapshotPath_def)

lemma demo_runs:
  "\<exists>X. runs demo_world = [X] \<and> X_Disk X = demo_open \<and> X_Key X = 2 \<and> X_Node X = demo_node"
  "\<exists>X. runs demo_again = [X] \<and> X_Disk X = disk demo_again \<and> X_Key X = 2 \<and> X_Node X = demo_node"
  by (simp_all add: demo_world_def demo_again_def)

lemma demo_first_3:
  "dispatch 3 demo demo_env False (boot demo_disk 0) =
     (demo_world, Some (broken ''plan'' 1 demo_ledger (ErrIO ''apply patch'')))"
  unfolding numeral_3_eq_3
  by (simp add: demo_steps demo_world_def demo_open_def demo_context_def cong: let_weak_cong)

lemma demo_open_ok: "disk_ok demo_open"
proof -
  have "legal_seq demo_disk (wlog demo_world)" "disk demo_world = fold apply_write (wlog demo_world) demo_disk"
    using dispatch_goes [OF demo_registry _ demo_first] demo_disk_ok by (auto simp: boot_def goes_def)
  from legal_seq_disk_ok [OF this(1) demo_disk_ok] show ?thesis by (simp add: demo_written)
qed

end
