(* ===== verification/Dispatch_Runs.thy ===== *)
theory Dispatch_Runs
  imports Dispatch_Demo
begin

text \<open>
  What a run is worth to the person who started it, over any number of dispatches, crashes and
  resumes: its documents agree after every crash, every attempt of an execution is given the same
  blackboard, the ceiling is checked before every priced node, the step cap ends the loop, and a run
  that is over is left alone.
\<close>

section \<open>Histories\<close>

text \<open>A run's life: dispatches, each by a belay of its own (its configuration and nodes may have
  changed) on a machine of its own, and each cut short after some prefix \<open>us\<close> of its durable writes,
  having run the executions \<open>Ys\<close> that those writes allow.\<close>

inductive history :: "Disk \<Rightarrow> Execution list \<Rightarrow> Disk \<Rightarrow> bool" for D where
  created: "history D [] D"
| dispatched: "history D Xs D1 \<Longrightarrow> registry_ok (registry d) \<Longrightarrow> dispatch fuel d e resuming (boot D1 t) = (w, a) \<Longrightarrow>
    prefix us (wlog w) \<Longrightarrow> prefix Ys (runs w) \<Longrightarrow>
    \<forall>X \<in> set Ys. \<exists>vs. prefix vs us \<and> X_Disk X = fold apply_write vs D1 \<Longrightarrow>
    history D (Xs @ Ys) (fold apply_write us D1)"

lemma dispatch_runs:
  assumes "registry_ok (registry d)" "disk_ok D" "dispatch fuel d e resuming (boot D t) = (w, a)"
  shows "legal_seq D (wlog w)" "disk w = fold apply_write (wlog w) D"
    and "X \<in> set (runs w) \<Longrightarrow> shown d (length (D_Journal D)) (ledger0 d D) X"
  using dispatch_goes [OF assms(1) _ assms(3)] assms(2) by (auto simp: boot_def goes_def)

lemma legal_prefix: "legal_seq D ws \<Longrightarrow> prefix us ws \<Longrightarrow> legal_seq D us"
  by (auto simp: prefix_def)

lemma history_legal:
  assumes "history D Xs D'" "disk_ok D"
  shows "\<exists>ws. legal_seq D ws \<and> D' = fold apply_write ws D"
  using assms
proof (induction rule: history.induct)
  case created
  show ?case by (rule exI [of _ "[]"]) simp
next
  case (dispatched Xs D1 d fuel e resuming t w a us Ys)
  then obtain ws where ws: "legal_seq D ws" "D1 = fold apply_write ws D" by blast
  then have "disk_ok D1" using legal_seq_disk_ok dispatched.prems by blast
  from legal_prefix [OF dispatch_runs(1) [OF dispatched.hyps(2) this dispatched.hyps(3)] dispatched.hyps(4)] ws
  show ?case by (intro exI [of _ "ws @ us"]) simp
qed

text \<open>
  C1. Crash safety. From a run whose journal is valid and whose blackboard holds every completion the
  journal claims, any sequence of dispatches, each killed after any of its durable writes, leaves a run
  of which the same holds: the journal is one history belay accepts, it extends the one before, no
  snapshot is lost or changed, every accepted completion's history entry (and so the patch it came in)
  is on the blackboard, and the manifest still describes the same run.
\<close>

theorem crash_safe:
  assumes "history D Xs D'" "disk_ok D"
  shows "disk_ok D' \<and> prefix (D_Journal D) (D_Journal D') \<and>
    (\<forall>key sn. D_Snapshots D key = Some sn \<longrightarrow> D_Snapshots D' key = Some sn) \<and>
    same_run (D_Manifest D) (D_Manifest D')"
proof -
  from history_legal [OF assms] obtain ws where "legal_seq D ws" "D' = fold apply_write ws D" by blast
  then show ?thesis using legal_seq_disk_ok legal_seq_kept assms(2) by blast
qed

lemma history_snapshots:
  assumes "history D Xs D'" "disk_ok D" "X \<in> set Xs"
  shows "\<exists>sn. D_Snapshots D' (X_Key X, N_Name (X_Node X)) = Some sn \<and> Sn_State sn = RC_State (X_Context X)"
  using assms
proof (induction rule: history.induct)
  case (dispatched Xs D1 d fuel e resuming t w a us Ys)
  have ok: "disk_ok D1"
    using history_legal [OF dispatched.hyps(1) dispatched.prems(1)] legal_seq_disk_ok dispatched.prems(1) by blast
  note dr = dispatch_runs [OF dispatched.hyps(2) ok dispatched.hyps(3)]
  have kept: "\<exists>sn. D_Snapshots (fold apply_write us D1) key = Some sn \<and> Sn_State sn = st"
    if sn: "\<exists>sn. D_Snapshots (fold apply_write vs D1) key = Some sn \<and> Sn_State sn = st" and p: "prefix vs us" for vs key st
  proof -
    obtain zs where us: "us = vs @ zs" using p by (auto simp: prefix_def)
    have "legal_seq (fold apply_write vs D1) zs" using legal_prefix [OF dr(1) dispatched.hyps(4)] us by simp
    from legal_seq_kept [OF this] sn us show ?thesis by (cases key) auto
  qed
  show ?case
  proof (cases "X \<in> set Xs")
    case True
    then show ?thesis using dispatched.IH dispatched.prems kept [of "[]"] by auto
  next
    case False
    then have "X \<in> set Ys" using dispatched.prems by simp
    then obtain vs where vs: "prefix vs us" "X_Disk X = fold apply_write vs D1" and "X \<in> set (runs w)"
      using dispatched.hyps(5,6) set_mono_prefix by blast
    from dr(3) [OF this(3)] vs show ?thesis by (intro kept [OF _ vs(1)]) (auto simp: shown_def)
  qed
qed simp

lemma demo_history: "history demo_disk (runs demo_world @ runs demo_again) (disk demo_again)"
proof -
  have "history demo_disk ([] @ runs demo_world) (fold apply_write (wlog demo_world) demo_disk)"
    by (rule history.dispatched [OF history.created demo_registry demo_first]) (use demo_runs(1) demo_written in auto)
  then have "history demo_disk (runs demo_world) demo_open" using demo_written by simp
  then have "history demo_disk (runs demo_world @ runs demo_again) (fold apply_write (wlog demo_again) demo_open)"
    by (rule history.dispatched [OF _ demo_registry demo_second]) (use demo_runs(2) demo_written in auto)
  then show ?thesis using demo_written by simp
qed

theorem crash_safe_witness: "disk_ok (disk demo_again) \<and> length (D_Journal (disk demo_again)) = 4"
proof -
  have "length (D_Journal (disk demo_again)) = 4"
    by (simp add: demo_again_def demo_open_def demo_healed_def)
  then show ?thesis using crash_safe [OF demo_history demo_disk_ok] by blast
qed

text \<open>
  C3. One execution, one blackboard. Over the whole life of a run, crashes included, two attempts of the
  same execution (the same snapshot key and node) are given the same blackboard, so a re-run never sees
  what the attempt that died had already written.
\<close>

theorem attempts_see_one_blackboard:
  assumes "history D Xs D'" "disk_ok D" "X \<in> set Xs" "Y \<in> set Xs"
    "X_Key X = X_Key Y" "N_Name (X_Node X) = N_Name (X_Node Y)"
  shows "RC_State (X_Context X) = RC_State (X_Context Y)"
  using history_snapshots [OF assms(1,2,3)] history_snapshots [OF assms(1,2,4)] assms(5,6) by auto

theorem attempts_see_one_blackboard_witness:
  "\<exists>X Y. runs demo_world = [X] \<and> runs demo_again = [Y] \<and> RC_State (X_Context X) = RC_State (X_Context Y)"
proof -
  obtain X Y where X: "runs demo_world = [X]" "X_Key X = 2" "X_Node X = demo_node"
    and Y: "runs demo_again = [Y]" "X_Key Y = 2" "X_Node Y = demo_node" using demo_runs by blast
  have "RC_State (X_Context X) = RC_State (X_Context Y)"
    by (rule attempts_see_one_blackboard [OF demo_history demo_disk_ok, of X Y]) (use X Y in simp_all)
  with X Y show ?thesis by blast
qed

text \<open>
  C5. The ceiling. When a node that spends is run, the ledger it is checked against and shown is the one
  the dispatch started from plus exactly the usage of every completion journaled since, and on that
  ledger (a supervisor's own earlier charge left out) the configured ceiling has not been reached.
\<close>

theorem priced_node_under_ceiling:
  assumes "registry_ok (registry d)" "disk_ok D" "dispatch fuel d e resuming (boot D t) = (w, a)"
    "X \<in> set (runs w)" "\<not> N_Unpriced (X_Node X)"
  shows "X_Ledger X = fold Rebuild_entry (usage_entries (supervises d) (drop (length (D_Journal D)) (D_Journal (X_Disk X))))
      (rebuildLedger (D_Journal D) (M_Budget (D_Manifest D)) (supervises d)) \<and>
    Check (spentBefore d (X_Ledger X) (N_Name (X_Node X))) (Cfg_Budget (cfg d)) = None \<and>
    RC_Budget (X_Context X) =
      Ledger_Snapshot (spentBefore d (X_Ledger X) (N_Name (X_Node X))) (MaxUSD (Cfg_Budget (cfg d)))"
  using dispatch_runs(3) [OF assms(1-4)] assms(5)
  unfolding shown_def booked_def allowed_def ledger0_def by blast

theorem priced_node_under_ceiling_witness:
  "\<exists>X. runs demo_world = [X] \<and> Check (spentBefore demo (X_Ledger X) ''plan'') (Cfg_Budget demo_config) = None"
proof -
  obtain X where X: "runs demo_world = [X]" "X_Node X = demo_node" using demo_runs by blast
  then have "X \<in> set (runs demo_world)" "\<not> N_Unpriced (X_Node X)" by simp_all
  from priced_node_under_ceiling [OF demo_registry demo_disk_ok demo_first this]
  have "Check (spentBefore demo (X_Ledger X) (N_Name (X_Node X))) (Cfg_Budget (cfg demo)) = None" by blast
  with X show ?thesis by simp
qed

section \<open>Refinement, termination, refusal\<close>

text \<open>
  C2. The dispatcher implements the write protocol. Whatever its nodes return and the machine answers,
  every durable write a dispatch makes is a step the abstract protocol of theory Dispatch_Protocol
  allows on the documents at that moment: a record only where the journal's grammar takes it, a patch
  only while its own attempt is open and after its snapshot, a snapshot once, an accepted completion
  only after its patch, the manifest only for the same run and between attempts.
\<close>

theorem dispatch_refines_protocol:
  assumes "registry_ok (registry d)" "disk_ok D" "dispatch fuel d e resuming (boot D t) = (w, a)"
  shows "legal_seq D (wlog w) \<and> disk w = fold apply_write (wlog w) D"
  using dispatch_runs(1,2) [OF assms] by simp

theorem dispatch_refines_protocol_witness:
  "legal_seq demo_disk (wlog demo_world) \<and> wlog demo_world \<noteq> []"
proof -
  have "wlog demo_world \<noteq> []" by (simp add: demo_world_def)
  then show ?thesis using dispatch_refines_protocol [OF demo_registry demo_disk_ok demo_first] by blast
qed

text \<open>
  C6. The step cap ends a run. With \<open>graph.max_steps\<close> set, a dispatch always answers (fuel above the
  steps that are left is enough), and it runs no more nodes than the cap leaves over the steps the
  manifest already counts.
\<close>

theorem dispatch_within_max_steps:
  assumes "registry_ok (registry d)" "disk_ok D" "dispatch fuel d e resuming (boot D t) = (w, a)"
    "0 < MaxSteps (Cfg_Graph (cfg d))" "in64 (MaxSteps (Cfg_Graph (cfg d)))" "in64 (Step (D_Manifest D))"
    "nat (MaxSteps (Cfg_Graph (cfg d)) - Step (D_Manifest D)) < fuel"
  shows "a \<noteq> None \<and> length (runs w) \<le> nat (MaxSteps (Cfg_Graph (cfg d)) - Step (D_Manifest D))"
proof -
  have b: "disk (boot D t) = D" "runs (boot D t) = []" by (simp_all add: boot_def)
  from dispatch_inv [of "boot D t", unfolded b, OF assms(2,3)] show ?thesis
  proof (elim disjE exE conjE)
    fix st
    let ?nd = "SNode (start_of d (D_Journal D) st)" and ?att = "SAttempt (start_of d (D_Journal D) st)"
    let ?rep = "if 1 < ?att then attemptOneSeq (D_Journal D) ?nd else 0"
    assume "reaches fuel d e (length (D_Journal D)) (ledger0 d D) (Step (D_Manifest D)) (D_Journal D) ?nd ?att (boot D t) (w, a)"
    then obtain u m l where u: "quiet (boot D t) u" "ready u None" "fit m u"
      "booked d (length (D_Journal D)) (ledger0 d D) l (disk u)" "Step m = Step (D_Manifest D)"
      "attemptOneSeq (D_Journal (disk u)) ?nd = attemptOneSeq (D_Journal D) ?nd" "loop fuel d e m l ?nd ?att ?rep 0 u = (w, a)"
      unfolding reaches_def by blast
    have rep: "1 < ?att \<longrightarrow> ?rep = attemptOneSeq (D_Journal (disk u)) ?nd" using u(6) by simp
    have left: "in64 (Step m)" "nat (MaxSteps (Cfg_Graph (cfg d)) - Step m) < fuel" using assms(6,7) u(5) by simp_all
    from loop_answers [OF assms(1,4,5) u(2-4) rep left u(7)] show ?thesis
      unfolding u(5) using quiet_runs [OF u(1)] b(2) by simp
  qed (auto simp: quiet_def boot_def)
qed

theorem dispatch_within_max_steps_witness: "length (runs demo_world) \<le> 2"
proof -
  have m: "MaxSteps (Cfg_Graph (cfg demo)) = 2" by simp
  have s: "Step (D_Manifest demo_disk) = 0" by (simp add: demo_disk_def)
  have "dispatch 3 demo demo_env False (boot demo_disk 0) = (fst (dispatch 3 demo demo_env False (boot demo_disk 0)),
      snd (dispatch 3 demo demo_env False (boot demo_disk 0)))" by simp
  from dispatch_within_max_steps [OF demo_registry demo_disk_ok this, unfolded m s]
  have "length (runs (fst (dispatch 3 demo demo_env False (boot demo_disk 0)))) \<le> 2" by (simp add: in64_def)
  moreover have "runs (fst (dispatch 3 demo demo_env False (boot demo_disk 0))) = runs demo_world"
    using demo_first_3 by simp
  ultimately show ?thesis by simp
qed

lemma ResolveStart_open:
  assumes "disk_ok D" "D_Journal D = h @ [s]" "Event s = EventNodeStarted"
  shows "ResolveStart (D_Journal D) = Inr \<lparr>State = RunStateRunnable, SNode = RNode s, SAttempt = wrap64 (Attempt s + 1)\<rparr>"
proof -
  obtain dl where "jstate (D_Journal D) dl" using assms(1) jstate_ex by (auto simp: disk_ok_def)
  then have "jstate (D_Journal D) (Some s)" using jstate_last_started [of "D_Journal D" dl] assms(2,3) by simp
  then show ?thesis by (auto simp: jstate_def ResolveStart_def)
qed

text \<open>
  C4. A crash inside a node is resumed at that node. When the journal a dispatch finds ends in a start
  nothing closed, the first node it runs is that one, at the next attempt, under the key of the
  execution's attempt 1, and on the blackboard its snapshot holds.
\<close>

theorem crashed_attempt_is_rerun:
  assumes "registry_ok (registry d)" "disk_ok D" "D_Journal D = h @ [s]" "Event s = EventNodeStarted"
    "in64 (Attempt s + 1)" "attemptOneSeq (D_Journal D) (RNode s) = k" "k \<noteq> 0"
    "dispatch fuel d e resuming (boot D t) = (w, a)" "runs w = X # Xs"
  shows "N_Name (X_Node X) = RNode s \<and> RC_Attempt (X_Context X) = Attempt s + 1 \<and> X_Key X = k \<and>
    (\<forall>sn. D_Snapshots D (k, RNode s) = Some sn \<longrightarrow> RC_State (X_Context X) = Sn_State sn)"
proof -
  have b: "disk (boot D t) = D" "runs (boot D t) = []" by (simp_all add: boot_def)
  have "is_ok (Record_validate s)" using assms(2,3) by (simp add: disk_ok_def)
  then have "1 < Attempt s + 1" using assms(4) by (auto simp: Record_validate_def nodeScoped_def split: if_splits)
  moreover have "startedANode (D_Journal D)" using assms(3,4) by (simp add: startedANode_def)
  ultimately obtain u m l where u: "quiet (boot D t) u" "ready u None" "fit m u"
      "booked d (length (D_Journal D)) (ledger0 d D) l (disk u)" "attemptOneSeq (D_Journal (disk u)) (RNode s) = k"
      "loop fuel d e m l (RNode s) (Attempt s + 1) k 0 u = (w, a)" and att: "1 < Attempt s + 1"
    using dispatch_inv [of "boot D t", unfolded b, OF assms(2,8)] ResolveStart_open [OF assms(2-4)] assms(5,6,9)
    by (auto simp: reaches_def start_of_def quiet_def b)
  have "runs w = runs u @ X # Xs" using quiet_runs [OF u(1)] assms(9) b(2) by simp
  from loop_first [OF assms(1) u(2-4) _ u(6) this] u(5) att assms(7)
  have X: "N_Name (X_Node X) = RNode s" "RC_Attempt (X_Context X) = Attempt s + 1" "X_Key X = k" by auto
  have "RC_State (X_Context X) = Sn_State sn" if sn: "D_Snapshots D (k, RNode s) = Some sn" for sn
  proof -
    have "goes (shown d (length (D_Journal D)) (ledger0 d D)) (boot D t) w"
      using dispatch_goes [of d "boot D t", unfolded b, OF assms(1,2,8)] .
    with assms(9) b obtain us ws where "shown d (length (D_Journal D)) (ledger0 d D) X" "legal_seq D ws" "prefix us ws"
      "X_Disk X = fold apply_write us D" unfolding goes_def by auto
    with legal_seq_kept [OF legal_prefix, of D ws us] sn X show ?thesis by (auto simp: shown_def)
  qed
  with X show ?thesis by blast
qed

theorem crashed_attempt_is_rerun_witness:
  "\<exists>X. runs demo_again = [X] \<and> RC_Attempt (X_Context X) = 2 \<and> RC_State (X_Context X) = NewState ''g''"
proof -
  let ?s = "Record0\<lparr>Seq := 2, Event := EventNodeStarted, RNode := ''plan'', Attempt := 1, Time := 8\<rparr>"
  obtain X where X: "runs demo_again = [X]" using demo_runs by blast
  have j: "D_Journal demo_open = [Record0\<lparr>Seq := 1, Event := EventRunStarted, Time := 5\<rparr>] @ [?s]"
    by (simp add: demo_open_def)
  have "RC_Attempt (X_Context X) = Attempt ?s + 1 \<and>
    (\<forall>sn. D_Snapshots demo_open (2, RNode ?s) = Some sn \<longrightarrow> RC_State (X_Context X) = Sn_State sn)"
    using crashed_attempt_is_rerun [OF demo_registry demo_open_ok j _ _ _ _ demo_second X, of 2]
    by (simp add: j in64_def attemptOneSeq_def)
  with X show ?thesis by (simp add: demo_open_def)
qed

text \<open>
  C7. A run that is over is left alone. On a run that has completed, failed or been aborted, and on a
  paused one that was not asked to resume, a dispatch runs no node and changes no document (at most the
  manifest is saved again at the current version), and it answers with success only for a completed run.
\<close>

theorem ended_run_untouched:
  assumes "disk_ok D" "ResolveStart (D_Journal D) = Inr st"
    "State st \<in> {RunStateCompleted, RunStateFailed, RunStateAborted} \<or> State st = RunStatePaused \<and> \<not> resuming"
    "dispatch fuel d e resuming (boot D t) = (w, a)"
  shows "runs w = [] \<and> D_Journal (disk w) = D_Journal D \<and> D_State (disk w) = D_State D \<and>
    D_Snapshots (disk w) = D_Snapshots D \<and> D_Manifest (disk w) = D_Manifest D \<and>
    (\<exists>out er. a = Some (out, er) \<and> (er = None \<longrightarrow> State st = RunStateCompleted \<and> ExitCode out = ExitOK))"
proof -
  have b: "disk (boot D t) = D" "runs (boot D t) = []" by (simp_all add: boot_def)
  have ne: "D_Journal D \<noteq> []"
    "Event (last (D_Journal D)) \<in> {EventRunPaused, EventRunCompleted, EventRunFailed, EventRunAborted}"
    using assms(2,3) unfolding ResolveStart_def bind_result_Inr_iff
    by (auto simp: Let_def split: option.splits if_splits Event.splits prod.splits)
  have sst: "State (start_of d (D_Journal D) st) = State st" by (simp add: start_of_def)
  from dispatch_prologue [of "boot D t", unfolded b, OF assms(1,4)] show ?thesis
  proof (elim disjE exE conjE)
    fix x assume "quiet (boot D t) w" "same_docs (boot D t) w" "a = Some (broken0 x)"
    then show ?thesis using quiet_runs b by (auto simp: same_docs_def broken0_def)
  next
    fix w2 st2 v st' l h
    let ?J = "D_Journal D"
    assume rs: "ResolveStart ?J = Inr st2" and w2: "quiet (boot D t) w2" "same_docs (boot D t) w2"
      and he: "heal d e ?J (start_of d ?J st2) (ledger0 d D) w2 = (v, st', l, h)"
      and eq: "(case h of None \<Rightarrow> (v, Some (broken0 (ErrIO ''heal'')))
        | Some healed \<Rightarrow> dispatch_healed fuel d e resuming ?J (D_Manifest D) st' l healed v) = (w, a)"
    have "v = w2" "st' = start_of d ?J st" "h = Some False" using he ne rs assms(2) by (auto simp: heal_def)
    then have "w = w2 \<and> (\<exists>out er. a = Some (out, er) \<and> (er = None \<longrightarrow> State st = RunStateCompleted \<and> ExitCode out = ExitOK))"
      using eq assms(3) sst by (auto simp: dispatch_healed_def checkStartState_def Let_def)
    then show ?thesis using w2 quiet_runs [OF w2(1)] b by (simp add: same_docs_def)
  qed
qed

definition demo_over :: Disk where
  "demo_over = demo_disk\<lparr>D_Journal := [Record0\<lparr>Seq := 1, Event := EventRunStarted, Time := 5\<rparr>,
     Record0\<lparr>Seq := 2, Event := EventRunCompleted, Time := 9\<rparr>]\<rparr>"

lemma demo_over_ok: "disk_ok demo_over"
  by (auto simp: disk_ok_def demo_over_def Validate_def scan_def scan_step_def scan0_def committed_def Record0_def
      Record_validate_def nodeScoped_def Cons_eq_append_conv)

theorem ended_run_untouched_witness: "runs (fst (dispatch 3 demo demo_env True (boot demo_over 0))) = []"
proof -
  have "ResolveStart (D_Journal demo_over) = Inr \<lparr>State = RunStateCompleted, SNode = FirstNode, SAttempt = 1\<rparr>"
    by (simp add: demo_over_def ResolveStart_def scan_def scan_step_def scan0_def Record0_def)
  from ended_run_untouched [OF demo_over_ok this, of True 3 demo demo_env 0
      "fst (dispatch 3 demo demo_env True (boot demo_over 0))" "snd (dispatch 3 demo demo_env True (boot demo_over 0))"]
  show ?thesis by simp
qed

end
