(* ===== verification/Queue.thy ===== *)
theory Queue
  imports Journal Manifest
begin

text \<open>
  internal/queue, the pure half: record.go (the events, states and stop reasons of the log, its
  records and their validation), fold.go (reading a history into the queue it describes) and next.go
  (what a worker does next). Each spelling table is the code's; a number none of them names is the
  last constructor of its type.
\<close>

section \<open>Records\<close>

datatype QEvent =
    QEventUnknown | EventAdded | EventRemoved | EventClaimed | EventSettled | EventApproved
  | EventWorkerStarted | EventWorkerStopped | QEvent_other int

definition QEvents :: "QEvent list" where
  "QEvents = [QEventUnknown, EventAdded, EventRemoved, EventClaimed, EventSettled, EventApproved,
     EventWorkerStarted, EventWorkerStopped]"

definition QEventNames :: "string list" where
  "QEventNames = [''unknown'', ''entry_added'', ''entry_removed'', ''entry_claimed'', ''entry_settled'',
     ''entry_approved'', ''worker_started'', ''worker_stopped'']"

definition namesAGoal :: "QEvent \<Rightarrow> bool" where
  "namesAGoal e \<longleftrightarrow> e \<in> {EventAdded, EventRemoved, EventClaimed, EventSettled, EventApproved}"

datatype QState =
    QStateUnknown | StateQueued | StateRemoved | StateClaimed | StateWaiting | StateApproved
  | StateFinished | StateFailed | StateStopped | StatePaused | QState_other int

definition QStates :: "QState list" where
  "QStates = [QStateUnknown, StateQueued, StateRemoved, StateClaimed, StateWaiting, StateApproved,
     StateFinished, StateFailed, StateStopped, StatePaused]"

definition QStateNames :: "string list" where
  "QStateNames = [''unknown'', ''queued'', ''removed'', ''claimed'', ''waiting'', ''approved'', ''finished'',
     ''failed'', ''stopped'', ''paused'']"

fun settles :: "QState \<Rightarrow> bool" where
  "settles StateWaiting = True"
| "settles StateFinished = True"
| "settles StateFailed = True"
| "settles StateStopped = True"
| "settles StatePaused = True"
| "settles _ = False"

datatype QStop = StopUnknown | StopDrained | StopInterrupted | StopFailed | QStop_other int

definition QStops :: "QStop list" where
  "QStops = [StopUnknown, StopDrained, StopInterrupted, StopFailed]"

definition QStopNames :: "string list" where
  "QStopNames = [''unknown'', ''drained'', ''interrupted'', ''failed'']"

text \<open>\<open>marshalName\<close> and \<open>parseName\<close>, the codec of a value through its table: the value at an index
  is written as the name there, and a name is looked up in order. \<open>None\<close> is \<open>ErrInvalidRecord\<close>.\<close>

definition marshalName :: "string list \<Rightarrow> 'v list \<Rightarrow> 'v \<Rightarrow> string option" where
  "marshalName names vals v = map_option (nth names) (List.find (\<lambda>i. vals ! i = v) [0..<length vals])"

definition parseName :: "string list \<Rightarrow> 'v list \<Rightarrow> string \<Rightarrow> 'v option" where
  "parseName names vals s = map_option (nth vals) (index_of names s)"

text \<open>\<open>QSeq\<close> is a counter that gains one per fsynced line, as the journal's; a time is its distance
  from Go's zero time, so zero is \<open>IsZero\<close>.\<close>

record QRecord =
  QSeq :: nat
  QEvent :: QEvent
  QTime :: int
  QID :: int
  QGoal :: string
  QNoApproval :: bool
  QRunID :: string
  QDir :: string
  QState :: QState
  QStop :: QStop
  QPID :: int
  QNote :: string

definition QRecord0 :: QRecord where
  "QRecord0 = \<lparr>QSeq = 0, QEvent = QEventUnknown, QTime = 0, QID = 0, QGoal = [], QNoApproval = False,
     QRunID = [], QDir = [], QState = QStateUnknown, QStop = StopUnknown, QPID = 0, QNote = []\<rparr>"

datatype invalid_record = NamesNoGoal | NamesNoRun | DirNotAbsolute | NotASettle | GivesNoReason | NotAnEvent | GoalIDBelow1

text \<open>\<open>filepath.IsAbs\<close> on Unix.\<close>

definition filepath_IsAbs :: "string \<Rightarrow> bool" where
  "filepath_IsAbs p \<longleftrightarrow> p \<noteq> [] \<and> hd p = CHR ''/''"

definition fields_validate :: "QRecord \<Rightarrow> (invalid_record, unit) result" where
  "fields_validate r =
     (case QEvent r of
        EventAdded \<Rightarrow> if TrimSpace (QGoal r) = [] then Inl NamesNoGoal else Inr ()
      | EventClaimed \<Rightarrow>
          if QRunID r = [] then Inl NamesNoRun
          else if \<not> filepath_IsAbs (QDir r) then Inl DirNotAbsolute
          else Inr ()
      | EventSettled \<Rightarrow> if \<not> settles (QState r) then Inl NotASettle else Inr ()
      | EventWorkerStopped \<Rightarrow> if QStop r = StopUnknown then Inl GivesNoReason else Inr ()
      | EventRemoved \<Rightarrow> Inr ()
      | EventApproved \<Rightarrow> Inr ()
      | EventWorkerStarted \<Rightarrow> Inr ()
      | _ \<Rightarrow> Inl NotAnEvent)"

definition QRecord_validate :: "QRecord \<Rightarrow> (invalid_record, unit) result" where
  "QRecord_validate r = bind_result (fields_validate r) (\<lambda>_.
     if namesAGoal (QEvent r) \<and> QID r \<le> 0 then Inl GoalIDBelow1 else Inr ())"

section \<open>The fold\<close>

record QEntry =
  EID :: int
  EGoal :: string
  ENoApproval :: bool
  EState :: QState
  EAddedAt :: int
  EUpdatedAt :: int
  ERunID :: string
  EDir :: string
  ENote :: string

definition QEntry0 :: QEntry where
  "QEntry0 = \<lparr>EID = 0, EGoal = [], ENoApproval = False, EState = QStateUnknown, EAddedAt = 0, EUpdatedAt = 0,
     ERunID = [], EDir = [], ENote = []\<rparr>"

text \<open>A refused move: the event, the goal and where it stood, or an event that moves no goal.\<close>

datatype refused_move = RefusedWhile QEvent int QState | ChangesNoGoal QEvent

definition Entry_apply :: "QRecord \<Rightarrow> QEntry \<Rightarrow> (refused_move, QEntry) result" where
  "Entry_apply r e = bind_result
     (case QEvent r of
        EventRemoved \<Rightarrow>
          if EState e \<noteq> StateQueued then Inl (RefusedWhile EventRemoved (EID e) (EState e))
          else Inr (e\<lparr>EState := StateRemoved\<rparr>)
      | EventClaimed \<Rightarrow>
          if EState e \<noteq> StateQueued then Inl (RefusedWhile EventClaimed (EID e) (EState e))
          else Inr (e\<lparr>EState := StateClaimed, ERunID := QRunID r, EDir := QDir r\<rparr>)
      | EventSettled \<Rightarrow>
          if EState e \<noteq> StateClaimed \<and> EState e \<noteq> StateApproved
          then Inl (RefusedWhile EventSettled (EID e) (EState e))
          else Inr (e\<lparr>EState := QState r, ENote := QNote r\<rparr>)
      | EventApproved \<Rightarrow>
          if EState e \<noteq> StateWaiting then Inl (RefusedWhile EventApproved (EID e) (EState e))
          else Inr (e\<lparr>EState := StateApproved\<rparr>)
      | ev \<Rightarrow> Inl (ChangesNoGoal ev))
     (\<lambda>e. Inr (e\<lparr>EUpdatedAt := QTime r\<rparr>))"

record QStart =
  StartAt :: int
  StartPID :: int
  PreviousCutOff :: bool
  Ended :: bool
  EndedAt :: int
  StartStop :: QStop
  StartNote :: string

definition QStart0 :: QStart where
  "QStart0 = \<lparr>StartAt = 0, StartPID = 0, PreviousCutOff = False, Ended = False, EndedAt = 0,
     StartStop = StopUnknown, StartNote = []\<rparr>"

record Queue =
  Entries :: "QEntry list"
  LastStart :: QStart

definition Queue0 :: Queue where
  "Queue0 = \<lparr>Entries = [], LastStart = QStart0\<rparr>"

definition Queue_Entry :: "Queue \<Rightarrow> int \<Rightarrow> QEntry option" where
  "Queue_Entry q i = List.find (\<lambda>e. EID e = i) (Entries q)"

text \<open>A \<open>CorruptionError\<close>: the sequence number it was found at, and why.\<close>

datatype corrupt_reason =
    OutOfOrder | NotValid invalid_record | IDNotGrown | NeverAdded | CannotMove refused_move

datatype queue_corruption = CorruptQueue nat corrupt_reason

record fold_state =
  folded :: Queue
  fold_prevSeq :: nat
  fold_lastID :: int
  fold_index :: "int \<Rightarrow> nat option"

definition fold0 :: fold_state where
  "fold0 = \<lparr>folded = Queue0, fold_prevSeq = 0, fold_lastID = 0, fold_index = Map.empty\<rparr>"

definition started :: "QRecord \<Rightarrow> Queue \<Rightarrow> Queue" where
  "started r q = q\<lparr>LastStart := QStart0\<lparr>StartAt := QTime r, StartPID := QPID r,
     PreviousCutOff := StartAt (LastStart q) \<noteq> 0 \<and> \<not> Ended (LastStart q)\<rparr>\<rparr>"

definition stopped :: "QRecord \<Rightarrow> Queue \<Rightarrow> Queue" where
  "stopped r q = q\<lparr>LastStart := (LastStart q)\<lparr>Ended := True, EndedAt := QTime r, StartStop := QStop r,
     StartNote := QNote r\<rparr>\<rparr>"

definition added_entry :: "QRecord \<Rightarrow> QEntry" where
  "added_entry r = QEntry0\<lparr>EID := QID r, EGoal := QGoal r, ENoApproval := QNoApproval r, EState := StateQueued,
     EAddedAt := QTime r, EUpdatedAt := QTime r\<rparr>"

text \<open>The body of the loop after the sequence and validity checks; an index in the map is in range
  (lemma \<open>fold_inv\<close>).\<close>

definition fold_event :: "QRecord \<Rightarrow> fold_state \<Rightarrow> (queue_corruption, fold_state) result" where
  "fold_event r s =
     (let q = folded s in
      case QEvent r of
        EventWorkerStarted \<Rightarrow> Inr (s\<lparr>folded := started r q\<rparr>)
      | EventWorkerStopped \<Rightarrow> Inr (s\<lparr>folded := stopped r q\<rparr>)
      | EventAdded \<Rightarrow>
          if QID r \<le> fold_lastID s then Inl (CorruptQueue (QSeq r) IDNotGrown)
          else Inr (s\<lparr>fold_lastID := QID r, fold_index := (fold_index s)(QID r \<mapsto> length (Entries q)),
                 folded := q\<lparr>Entries := Entries q @ [added_entry r]\<rparr>\<rparr>)
      | _ \<Rightarrow>
          (case fold_index s (QID r) of
             None \<Rightarrow> Inl (CorruptQueue (QSeq r) NeverAdded)
           | Some i \<Rightarrow>
               (case Entry_apply r (Entries q ! i) of
                  Inl e \<Rightarrow> Inl (CorruptQueue (QSeq r) (CannotMove e))
                | Inr e \<Rightarrow> Inr (s\<lparr>folded := q\<lparr>Entries := (Entries q)[i := e]\<rparr>\<rparr>))))"

definition fold_step :: "QRecord \<Rightarrow> fold_state \<Rightarrow> (queue_corruption, fold_state) result" where
  "fold_step r s =
     (if QSeq r \<noteq> fold_prevSeq s + 1 then Inl (CorruptQueue (QSeq r) OutOfOrder)
      else case QRecord_validate r of
        Inl e \<Rightarrow> Inl (CorruptQueue (QSeq r) (NotValid e))
      | Inr _ \<Rightarrow> fold_event r (s\<lparr>fold_prevSeq := QSeq r\<rparr>))"

definition queue_fold :: "QRecord list \<Rightarrow> (queue_corruption, Queue) result" where
  "queue_fold records = bind_result (replay fold_step records fold0) (\<lambda>s. Inr (folded s))"

section \<open>What a worker does next\<close>

record RunView =
  RunExists :: bool
  RunStatus :: RunStatus
  GateAsked :: bool

definition RunView0 :: RunView where
  "RunView0 = \<lparr>RunExists = False, RunStatus = RunStatusUnknown, GateAsked = False\<rparr>"

datatype Action = ActionDone | ActionClaim | ActionCreate | ActionDrive | ActionSettle

record Decision =
  DAction :: Action
  DEntry :: QEntry
  DSettle :: QState
  DNote :: string

definition decide :: "Action \<Rightarrow> QEntry \<Rightarrow> Decision" where
  "decide a e = \<lparr>DAction = a, DEntry = e, DSettle = QStateUnknown, DNote = []\<rparr>"

fun endedAs :: "RunStatus \<Rightarrow> QState option" where
  "endedAs RunStatusCompleted = Some StateFinished"
| "endedAs RunStatusFailed = Some StateFailed"
| "endedAs RunStatusAborted = Some StateStopped"
| "endedAs _ = None"

definition claimedNext :: "QEntry \<Rightarrow> RunView \<Rightarrow> Decision" where
  "claimedNext e run =
     (if \<not> RunExists run then decide ActionCreate e
      else case endedAs (RunStatus run) of
        Some s \<Rightarrow> (decide ActionSettle e)\<lparr>DSettle := s\<rparr>
      | None \<Rightarrow>
          if RunStatus run = RunStatusPaused \<and> GateAsked run
          then (decide ActionSettle e)\<lparr>DSettle := StateWaiting\<rparr>
          else decide ActionDrive e)"

definition approvedNext :: "QEntry \<Rightarrow> RunView \<Rightarrow> Decision" where
  "approvedNext e run =
     (if \<not> RunExists run
      then (decide ActionSettle e)\<lparr>DSettle := StateStopped,
             DNote := ''its run, '' @ ERunID e @ '', is gone, so there is nothing to continue''\<rparr>
      else case endedAs (RunStatus run) of
        Some s \<Rightarrow> (decide ActionSettle e)\<lparr>DSettle := s\<rparr>
      | None \<Rightarrow> decide ActionDrive e)"

definition view_of :: "(int \<Rightarrow> RunView option) \<Rightarrow> QEntry \<Rightarrow> RunView" where
  "view_of runs e = (case runs (EID e) of None \<Rightarrow> RunView0 | Some v \<Rightarrow> v)"

definition QNext :: "Queue \<Rightarrow> (int \<Rightarrow> RunView option) \<Rightarrow> Decision" where
  "QNext q runs =
     (case List.find (\<lambda>e. EState e = StateClaimed) (Entries q) of
        Some e \<Rightarrow> claimedNext e (view_of runs e)
      | None \<Rightarrow>
          (case List.find (\<lambda>e. EState e = StateApproved) (Entries q) of
             Some e \<Rightarrow> approvedNext e (view_of runs e)
           | None \<Rightarrow>
               (case List.find (\<lambda>e. EState e = StateQueued) (Entries q) of
                  Some e \<Rightarrow> decide ActionClaim e
                | None \<Rightarrow> decide ActionDone QEntry0)))"

section \<open>Names\<close>

lemma QEvent_distinct: "distinct QEventNames" "distinct QEvents"
  by code_simp+

lemma QEvent_length: "length QEventNames = length QEvents"
  by (simp add: QEventNames_def QEvents_def)

lemma QState_distinct: "distinct QStateNames" "distinct QStates"
  by code_simp+

lemma QState_length: "length QStateNames = length QStates"
  by (simp add: QStateNames_def QStates_def)

lemma QStop_distinct: "distinct QStopNames" "distinct QStops"
  by code_simp+

lemma QStop_length: "length QStopNames = length QStops"
  by (simp add: QStopNames_def QStops_def)

lemma name_codec:
  assumes "distinct names" "distinct vals" "length names = length vals"
  shows "marshalName names vals v = Some s \<longleftrightarrow> parseName names vals s = Some v"
  unfolding marshalName_def parseName_def by (rule table_codec [OF assms])

lemma queue_names_roundtrip:
  "marshalName QEventNames QEvents e = Some n \<longleftrightarrow> parseName QEventNames QEvents n = Some e"
  "marshalName QStateNames QStates s = Some n \<longleftrightarrow> parseName QStateNames QStates n = Some s"
  "marshalName QStopNames QStops p = Some n \<longleftrightarrow> parseName QStopNames QStops n = Some p"
  by (rule name_codec [OF QEvent_distinct QEvent_length], rule name_codec [OF QState_distinct QState_length],
    rule name_codec [OF QStop_distinct QStop_length])

section \<open>What the fold accepts\<close>

text \<open>The life of one goal, as the words of a small grammar over its own records.\<close>

inductive goal_history :: "QRecord list \<Rightarrow> QState \<Rightarrow> bool" where
  added: "QEvent r = EventAdded \<Longrightarrow> goal_history [r] StateQueued"
| removed: "goal_history h StateQueued \<Longrightarrow> QEvent r = EventRemoved \<Longrightarrow> goal_history (h @ [r]) StateRemoved"
| claimed: "goal_history h StateQueued \<Longrightarrow> QEvent r = EventClaimed \<Longrightarrow> goal_history (h @ [r]) StateClaimed"
| settled: "goal_history h s \<Longrightarrow> s = StateClaimed \<or> s = StateApproved \<Longrightarrow> QEvent r = EventSettled \<Longrightarrow>
    goal_history (h @ [r]) (QState r)"
| approved: "goal_history h StateWaiting \<Longrightarrow> QEvent r = EventApproved \<Longrightarrow> goal_history (h @ [r]) StateApproved"

inductive_cases goal_history_Nil [elim!]: "goal_history [] s"
inductive_cases goal_history_snoc: "goal_history (h @ [r]) s"

text \<open>A goal moved by one more record: where the code's own transition takes it.\<close>

definition goal_move :: "QRecord \<Rightarrow> QState \<Rightarrow> QState option" where
  "goal_move r s =
     (case QEvent r of
        EventRemoved \<Rightarrow> if s = StateQueued then Some StateRemoved else None
      | EventClaimed \<Rightarrow> if s = StateQueued then Some StateClaimed else None
      | EventSettled \<Rightarrow> if s = StateClaimed \<or> s = StateApproved then Some (QState r) else None
      | EventApproved \<Rightarrow> if s = StateWaiting then Some StateApproved else None
      | _ \<Rightarrow> None)"

lemma goal_history_ne: "goal_history h s \<Longrightarrow> h \<noteq> [] \<and> QEvent (hd h) = EventAdded"
  by (induction rule: goal_history.induct) (auto simp: hd_append)

lemma goal_history_snoc_iff:
  "h \<noteq> [] \<Longrightarrow> goal_history (h @ [r]) s \<longleftrightarrow> (\<exists>t. goal_history h t \<and> goal_move r t = Some s)"
proof
  assume h: "h \<noteq> []" and "goal_history (h @ [r]) s"
  from this(2) show "\<exists>t. goal_history h t \<and> goal_move r t = Some s"
    by (cases rule: goal_history_snoc) (use h in \<open>force simp: goal_move_def\<close>)+
next
  assume "\<exists>t. goal_history h t \<and> goal_move r t = Some s"
  then obtain t where t: "goal_history h t" "goal_move r t = Some s" by blast
  show "goal_history (h @ [r]) s"
  proof (cases "QEvent r")
    case EventRemoved
    with t show ?thesis by (auto simp: goal_move_def intro: removed split: if_splits)
  next
    case EventClaimed
    with t show ?thesis by (auto simp: goal_move_def intro: claimed split: if_splits)
  next
    case EventSettled
    with t have "t = StateClaimed \<or> t = StateApproved" "QState r = s"
      by (auto simp: goal_move_def split: if_splits)
    with t(1) EventSettled show ?thesis using settled by blast
  next
    case EventApproved
    with t show ?thesis by (auto simp: goal_move_def intro: approved split: if_splits)
  qed (use t in \<open>auto simp: goal_move_def\<close>)
qed

lemma goal_history_snoc_ex:
  assumes "h \<noteq> []"
  shows "Ex (goal_history (h @ [r])) \<longleftrightarrow> (\<exists>t. goal_history h t \<and> goal_move r t \<noteq> None)"
proof
  assume "Ex (goal_history (h @ [r]))"
  then show "\<exists>t. goal_history h t \<and> goal_move r t \<noteq> None"
    unfolding goal_history_snoc_iff [OF assms] by blast
next
  assume "\<exists>t. goal_history h t \<and> goal_move r t \<noteq> None"
  then obtain t s where "goal_history h t" "goal_move r t = Some s" by blast
  then have "goal_history (h @ [r]) s" using goal_history_snoc_iff [OF assms] by blast
  then show "Ex (goal_history (h @ [r]))" by blast
qed

lemma goal_history_single: "goal_history [r] s \<longleftrightarrow> QEvent r = EventAdded \<and> s = StateQueued"
  using goal_history_snoc [of "[]" r s] by (auto intro: goal_history.intros dest: goal_history_ne)

lemma goal_history_det: "goal_history h s \<Longrightarrow> goal_history h t \<Longrightarrow> s = t"
proof (induction h arbitrary: s t rule: rev_induct)
  case (snoc r h)
  show ?case
  proof (cases "h = []")
    case True
    with snoc.prems show ?thesis by (simp add: goal_history_single)
  next
    case False
    then obtain u v where "goal_history h u" "goal_move r u = Some s" "goal_history h v" "goal_move r v = Some t"
      using snoc.prems by (auto simp: goal_history_snoc_iff)
    with snoc.IH show ?thesis by fastforce
  qed
qed auto

lemma Entry_apply_move:
  "is_ok (Entry_apply r e) \<longleftrightarrow> goal_move r (EState e) \<noteq> None"
  "Entry_apply r e = Inr e' \<Longrightarrow> goal_move r (EState e) = Some (EState e') \<and> EID e' = EID e"
  by (auto simp: Entry_apply_def goal_move_def bind_result_def split: QEvent.splits if_splits)

text \<open>The records about one goal, and the goals added, in order.\<close>

definition about :: "int \<Rightarrow> QRecord list \<Rightarrow> QRecord list" where
  "about i rs = filter (\<lambda>r. namesAGoal (QEvent r) \<and> QID r = i) rs"

definition added_ids :: "QRecord list \<Rightarrow> int list" where
  "added_ids rs = map QID (filter (\<lambda>r. QEvent r = EventAdded) rs)"

definition queue_history :: "QRecord list \<Rightarrow> bool" where
  "queue_history rs \<longleftrightarrow>
     map QSeq rs = [1..<Suc (length rs)] \<and> (\<forall>r \<in> set rs. is_ok (QRecord_validate r)) \<and>
     sorted_wrt (<) (added_ids rs) \<and> (\<forall>i. about i rs = [] \<or> (\<exists>s. goal_history (about i rs) s))"

lemma about_simps [simp]:
  "about i [] = []" "about i (xs @ ys) = about i xs @ about i ys"
  "about i [r] = (if namesAGoal (QEvent r) \<and> QID r = i then [r] else [])"
  by (simp_all add: about_def)

lemma added_ids_simps [simp]:
  "added_ids [] = []" "added_ids (xs @ ys) = added_ids xs @ added_ids ys"
  "added_ids [r] = (if QEvent r = EventAdded then [QID r] else [])"
  by (simp_all add: added_ids_def)

text \<open>A goal some record names was added: the first record about it is the one that adds it.\<close>

lemma about_added: "goal_history (about i rs) s \<Longrightarrow> i \<in> set (added_ids rs)"
proof -
  assume h: "goal_history (about i rs) s"
  then have "hd (about i rs) \<in> set (about i rs)" "QEvent (hd (about i rs)) = EventAdded"
    using goal_history_ne by auto
  then show ?thesis by (auto simp: about_def added_ids_def intro: rev_image_eqI)
qed

text \<open>What the fold's state says of the records it has read.\<close>

text \<open>What a goal's records say of it: who added it says the goal, its terms and when; the claim says the run and the
  workspace; the last settle says why; the last record says when it changed.\<close>

definition said :: "QEvent \<Rightarrow> (QRecord \<Rightarrow> string) \<Rightarrow> QRecord list \<Rightarrow> string" where
  "said ev f h = (let rs = filter (\<lambda>r. QEvent r = ev) h in if rs = [] then [] else f (last rs))"

definition entry_tells :: "QRecord list \<Rightarrow> QEntry \<Rightarrow> bool" where
  "entry_tells h e \<longleftrightarrow> h \<noteq> [] \<and> EGoal e = QGoal (hd h) \<and> ENoApproval e = QNoApproval (hd h) \<and>
     EAddedAt e = QTime (hd h) \<and> EUpdatedAt e = QTime (last h) \<and>
     ERunID e = said EventClaimed QRunID h \<and> EDir e = said EventClaimed QDir h \<and> ENote e = said EventSettled QNote h"

lemma said_snoc: "said ev f (h @ [r]) = (if QEvent r = ev then f r else said ev f h)"
  by (simp add: said_def Let_def)

lemma entry_tells_apply:
  "entry_tells h e \<Longrightarrow> Entry_apply r e = Inr e' \<Longrightarrow> entry_tells (h @ [r]) e'"
  unfolding entry_tells_def said_snoc
  by (cases "QEvent r") (auto simp: Entry_apply_def bind_result_def split: if_splits)

lemma entry_tells_added: "QEvent r = EventAdded \<Longrightarrow> entry_tells [r] (added_entry r)"
  by (simp add: entry_tells_def added_entry_def QEntry0_def said_def Let_def)

definition fold_agrees :: "QRecord list \<Rightarrow> fold_state \<Rightarrow> bool" where
  "fold_agrees rs s \<longleftrightarrow>
     queue_history rs \<and> fold_prevSeq s = length rs \<and> (\<forall>i \<in> set (added_ids rs). 0 < i \<and> i \<le> fold_lastID s) \<and>
     map EID (Entries (folded s)) = added_ids rs \<and>
     (\<forall>i k. fold_index s i = Some k \<longleftrightarrow> k < length (Entries (folded s)) \<and> EID (Entries (folded s) ! k) = i) \<and>
     (\<forall>e \<in> set (Entries (folded s)). goal_history (about (EID e) rs) (EState e)) \<and>
     (\<forall>e \<in> set (Entries (folded s)). entry_tells (about (EID e) rs) e) \<and>
     (added_ids rs \<noteq> [] \<longrightarrow> fold_lastID s = last (added_ids rs)) \<and> (added_ids rs = [] \<longrightarrow> fold_lastID s = 0)"
lemma fold_agrees_init: "fold_agrees [] fold0"
  by (simp add: fold_agrees_def queue_history_def fold0_def Queue0_def)

text \<open>A goal's entry is the only one with its id.\<close>

lemma agrees_entry:
  assumes "fold_agrees rs s" "fold_index s i = Some k"
  shows "k < length (Entries (folded s))" "EID (Entries (folded s) ! k) = i"
    "goal_history (about i rs) (EState (Entries (folded s) ! k))"
  using assms unfolding fold_agrees_def by (metis nth_mem)+

lemma agrees_index:
  assumes "fold_agrees rs s" "i \<in> set (added_ids rs)"
  shows "\<exists>k. fold_index s i = Some k"
proof -
  have "i \<in> set (map EID (Entries (folded s)))" using assms by (simp add: fold_agrees_def)
  then obtain k where "k < length (Entries (folded s))" "EID (Entries (folded s) ! k) = i"
    by (auto simp: in_set_conv_nth)
  then show ?thesis using assms(1) unfolding fold_agrees_def by blast
qed

lemma agrees_about_None:
  assumes "fold_agrees rs s" "fold_index s i = None"
  shows "about i rs = [] \<and> i \<notin> set (added_ids rs)"
proof -
  have "i \<notin> set (added_ids rs)" using agrees_index [OF assms(1), of i] assms(2) by auto
  then show ?thesis using assms(1) about_added unfolding fold_agrees_def queue_history_def by blast
qed

lemma history_extend:
  "queue_history (rs @ [r]) \<longleftrightarrow> queue_history rs \<and> QSeq r = Suc (length rs) \<and> is_ok (QRecord_validate r) \<and>
     (QEvent r = EventAdded \<longrightarrow> (\<forall>i \<in> set (added_ids rs). i < QID r)) \<and>
     (namesAGoal (QEvent r) \<longrightarrow> (if about (QID r) rs = [] then QEvent r = EventAdded
        else \<exists>s. goal_history (about (QID r) rs) s \<and> goal_move r s \<noteq> None))"
proof -
  let ?h = "\<lambda>xs. xs = [] \<or> (\<exists>s. goal_history xs s)"
  have r: "?h (about i rs @ [r]) \<longleftrightarrow> (if about i rs = [] then QEvent r = EventAdded
      else \<exists>s. goal_history (about i rs) s \<and> goal_move r s \<noteq> None)" for i
    by (cases "about i rs = []") (simp_all add: goal_history_single goal_history_snoc_ex)
  have ab: "about i (rs @ [r]) = (if namesAGoal (QEvent r) \<and> QID r = i then about i rs @ [r] else about i rs)" for i
    by simp
  have shorter: "?h (about i rs)" if "?h (about i rs @ [r])" for i
    using that unfolding r by (auto split: if_splits)
  have all: "(\<forall>i. ?h (about i (rs @ [r]))) \<longleftrightarrow>
    (\<forall>i. ?h (about i rs)) \<and> (namesAGoal (QEvent r) \<longrightarrow> ?h (about (QID r) rs @ [r]))"
  proof (intro iffI conjI allI impI)
    fix i assume "\<forall>i. ?h (about i (rs @ [r]))"
    then have "?h (about i (rs @ [r]))" by blast
    then show "?h (about i rs)" unfolding ab by (cases "namesAGoal (QEvent r) \<and> QID r = i") (use shorter in auto)
  next
    assume "\<forall>i. ?h (about i (rs @ [r]))" "namesAGoal (QEvent r)"
    then have "?h (about (QID r) (rs @ [r]))" by blast
    then show "?h (about (QID r) rs @ [r])" unfolding ab using \<open>namesAGoal (QEvent r)\<close> by simp
  next
    fix i assume "(\<forall>i. ?h (about i rs)) \<and> (namesAGoal (QEvent r) \<longrightarrow> ?h (about (QID r) rs @ [r]))"
    then show "?h (about i (rs @ [r]))" unfolding ab by auto
  qed
  have seq: "map QSeq (rs @ [r]) = [1..<Suc (length (rs @ [r]))] \<longleftrightarrow>
    map QSeq rs = [1..<Suc (length rs)] \<and> QSeq r = Suc (length rs)" by simp
  have ids: "sorted_wrt (<) (added_ids (rs @ [r])) \<longleftrightarrow> sorted_wrt (<) (added_ids rs) \<and>
    (QEvent r = EventAdded \<longrightarrow> (\<forall>i \<in> set (added_ids rs). i < QID r))"
    by (simp add: sorted_wrt_append)
  have ok: "(\<forall>x \<in> set (rs @ [r]). is_ok (QRecord_validate x)) \<longleftrightarrow>
    (\<forall>x \<in> set rs. is_ok (QRecord_validate x)) \<and> is_ok (QRecord_validate r)" by auto
  show ?thesis unfolding queue_history_def seq ids ok all r by (rule iffI; (elim conjE)?; intro conjI; assumption)
qed
lemma QRecord_validate_event:
  assumes "is_ok (QRecord_validate r)"
  shows "QEvent r \<in> {EventAdded, EventRemoved, EventClaimed, EventSettled, EventApproved, EventWorkerStarted, EventWorkerStopped}"
    "namesAGoal (QEvent r) \<Longrightarrow> 0 < QID r"
  using assms by (auto simp: QRecord_validate_def fields_validate_def bind_result_def split: QEvent.splits if_splits)

lemma is_ok_fold_step:
  "is_ok (fold_step r s) \<longleftrightarrow> QSeq r = fold_prevSeq s + 1 \<and> is_ok (QRecord_validate r) \<and>
     is_ok (fold_event r (s\<lparr>fold_prevSeq := QSeq r\<rparr>))"
  by (auto simp: fold_step_def split: sum.split)

lemma fold_step_Inr:
  "fold_step r s = Inr s' \<Longrightarrow> QSeq r = fold_prevSeq s + 1 \<and> is_ok (QRecord_validate r) \<and>
     fold_event r (s\<lparr>fold_prevSeq := QSeq r\<rparr>) = Inr s'"
  by (auto simp: fold_step_def split: sum.splits if_splits)

text \<open>The four events that move a goal, alike.\<close>

definition moves_goal :: "QEvent \<Rightarrow> bool" where
  "moves_goal e \<longleftrightarrow> namesAGoal e \<and> e \<noteq> EventAdded"

lemma fold_event_moves:
  "moves_goal (QEvent r) \<Longrightarrow> fold_event r s =
     (case fold_index s (QID r) of
        None \<Rightarrow> Inl (CorruptQueue (QSeq r) NeverAdded)
      | Some i \<Rightarrow>
          (case Entry_apply r (Entries (folded s) ! i) of
             Inl e \<Rightarrow> Inl (CorruptQueue (QSeq r) (CannotMove e))
           | Inr e \<Rightarrow> Inr (s\<lparr>folded := (folded s)\<lparr>Entries := (Entries (folded s))[i := e]\<rparr>\<rparr>)))"
  by (cases "QEvent r") (simp_all add: fold_event_def moves_goal_def namesAGoal_def Let_def)

lemma event_cases:
  assumes "is_ok (QRecord_validate r)"
  obtains "QEvent r = EventAdded" | "moves_goal (QEvent r)" | "QEvent r = EventWorkerStarted"
    | "QEvent r = EventWorkerStopped"
  using QRecord_validate_event(1) [OF assms] by (auto simp: moves_goal_def namesAGoal_def)

lemma agrees_last:
  "fold_agrees rs s \<Longrightarrow> fold_lastID s < i \<Longrightarrow> i \<notin> set (added_ids rs) \<and> about i rs = []"
  using about_added unfolding fold_agrees_def queue_history_def by fastforce

lemma fold_event_ok:
  assumes a: "fold_agrees rs s" and v: "is_ok (QRecord_validate r)"
  shows "is_ok (fold_event r (s\<lparr>fold_prevSeq := n\<rparr>)) \<longleftrightarrow>
     (QEvent r = EventAdded \<longrightarrow> (\<forall>i \<in> set (added_ids rs). i < QID r)) \<and>
     (namesAGoal (QEvent r) \<longrightarrow> (if about (QID r) rs = [] then QEvent r = EventAdded
        else \<exists>s. goal_history (about (QID r) rs) s \<and> goal_move r s \<noteq> None))"
  using v
proof (cases rule: event_cases)
  case 1
  then have pos: "0 < QID r" using QRecord_validate_event(2) [OF v] by (simp add: namesAGoal_def)
  have "(\<forall>i \<in> set (added_ids rs). i < QID r) \<longleftrightarrow> fold_lastID s < QID r"
  proof (cases "added_ids rs = []")
    case True
    then show ?thesis using a pos by (simp add: fold_agrees_def)
  next
    case False
    then have "fold_lastID s \<in> set (added_ids rs)" "\<forall>i \<in> set (added_ids rs). i \<le> fold_lastID s"
      using a by (auto simp: fold_agrees_def)
    then show ?thesis by force
  qed
  moreover have "fold_lastID s < QID r \<Longrightarrow> about (QID r) rs = []" using agrees_last [OF a] by blast
  ultimately show ?thesis using 1 by (auto simp: fold_event_def namesAGoal_def Let_def)
next
  case 2
  then have g: "namesAGoal (QEvent r)" "QEvent r \<noteq> EventAdded" by (simp_all add: moves_goal_def)
  show ?thesis
  proof (cases "fold_index s (QID r)")
    case None
    then show ?thesis using agrees_about_None [OF a None] g by (simp add: fold_event_moves [OF 2])
  next
    case (Some k)
    note e = agrees_entry [OF a Some]
    have "about (QID r) rs \<noteq> []" using e(3) goal_history_ne by blast
    moreover have "(\<exists>s. goal_history (about (QID r) rs) s \<and> goal_move r s \<noteq> None) \<longleftrightarrow>
        goal_move r (EState (Entries (folded s) ! k)) \<noteq> None"
      using e(3) goal_history_det by blast
    ultimately show ?thesis using g Some Entry_apply_move(1) [of r "Entries (folded s) ! k"]
      by (auto simp: fold_event_moves [OF 2] split: sum.splits)
  qed
qed (simp_all add: fold_event_def namesAGoal_def Let_def)

lemma fold_step_ok:
  assumes "fold_agrees rs s" shows "is_ok (fold_step r s) \<longleftrightarrow> queue_history (rs @ [r])"
proof (cases "is_ok (QRecord_validate r)")
  case True
  have "fold_prevSeq s = length rs" "queue_history rs" using assms by (simp_all add: fold_agrees_def)
  then show ?thesis
    unfolding history_extend is_ok_fold_step fold_event_ok [OF assms True] by simp
qed (simp add: history_extend is_ok_fold_step)

lemma fold_event_added:
  assumes a: "fold_agrees rs s" and h: "queue_history (rs @ [r])" and ev: "QEvent r = EventAdded"
    and s: "fold_event r (s\<lparr>fold_prevSeq := Suc (length rs)\<rparr>) = Inr s'"
  shows "fold_agrees (rs @ [r]) s'"
proof -
  let ?es = "Entries (folded s)"
  from s ev have new: "fold_lastID s < QID r" and
    s': "s' = s\<lparr>fold_prevSeq := Suc (length rs), fold_lastID := QID r,
      fold_index := (fold_index s)(QID r \<mapsto> length ?es),
      folded := (folded s)\<lparr>Entries := ?es @ [added_entry r]\<rparr>\<rparr>"
    by (auto simp: fold_event_def Let_def split: if_splits)
  have "is_ok (QRecord_validate r)" using h by (simp add: queue_history_def)
  then have pos: "0 < QID r" using QRecord_validate_event(2) ev by (simp add: namesAGoal_def)
  have fresh: "QID r \<notin> set (added_ids rs)" "about (QID r) rs = []" using agrees_last [OF a new] by simp_all
  have ids: "set (added_ids rs) = EID ` set ?es"
  proof -
    have "map EID ?es = added_ids rs" using a by (simp add: fold_agrees_def)
    then show ?thesis by (metis set_map)
  qed
  have e: "goal_history (about (EID e) (rs @ [r])) (EState e)" if "e \<in> set (?es @ [added_entry r])" for e
  proof (cases "e = added_entry r")
    case True
    then show ?thesis using fresh(2) ev
      by (simp add: added_entry_def QEntry0_def namesAGoal_def goal_history_single)
  next
    case False
    then have "e \<in> set ?es" using that by simp
    moreover from this have "EID e \<noteq> QID r" using ids fresh(1) by (metis imageI)
    ultimately have "e \<in> set ?es" "EID e \<noteq> QID r" by simp_all
    then show ?thesis using a by (simp add: fold_agrees_def)
  qed
  have t: "entry_tells (about (EID e) (rs @ [r])) e" if "e \<in> set (?es @ [added_entry r])" for e
  proof (cases "e = added_entry r")
    case True
    then show ?thesis using fresh(2) ev entry_tells_added [OF ev] by (simp add: added_entry_def namesAGoal_def)
  next
    case False
    then have m: "e \<in> set ?es" using that by simp
    then have "EID e \<noteq> QID r" using ids fresh(1) by (metis imageI)
    with m show ?thesis using a by (simp add: fold_agrees_def)
  qed
  have ix: "fold_index s' i = Some k \<longleftrightarrow> k < length (?es @ [added_entry r]) \<and> EID ((?es @ [added_entry r]) ! k) = i" for i k
  proof (cases "i = QID r")
    case True
    have "EID (?es ! j) \<noteq> QID r" if "j < length ?es" for j
      using that ids fresh(1) by (metis imageI nth_mem)
    with True show ?thesis by (auto simp: s' nth_append added_entry_def less_Suc_eq)
  next
    case False
    then show ?thesis using a
      by (auto simp: s' nth_append added_entry_def less_Suc_eq fold_agrees_def)
  qed
  have "\<forall>i \<in> set (added_ids rs). 0 < i \<and> i < QID r" using a new by (auto simp: fold_agrees_def)
  moreover have "map EID ?es = added_ids rs" using a by (simp add: fold_agrees_def)
  ultimately show ?thesis
    unfolding fold_agrees_def using h ev pos e t ix
    by (auto simp: s' added_entry_def)
qed

lemma fold_event_moved:
  assumes a: "fold_agrees rs s" and h: "queue_history (rs @ [r])" and ev: "moves_goal (QEvent r)"
    and s: "fold_event r (s\<lparr>fold_prevSeq := Suc (length rs)\<rparr>) = Inr s'"
  shows "fold_agrees (rs @ [r]) s'"
proof -
  let ?es = "Entries (folded s)"
  from s obtain k e' where k: "fold_index s (QID r) = Some k" and e': "Entry_apply r (?es ! k) = Inr e'"
    and s': "s' = s\<lparr>fold_prevSeq := Suc (length rs), folded := (folded s)\<lparr>Entries := ?es[k := e']\<rparr>\<rparr>"
    by (auto simp: fold_event_moves [OF ev] split: option.splits sum.splits)
  note kk = agrees_entry [OF a k]
  have m: "goal_move r (EState (?es ! k)) = Some (EState e')" "EID e' = QID r"
    using Entry_apply_move(2) [OF e'] kk(2) by simp_all
  have g: "namesAGoal (QEvent r)" "QEvent r \<noteq> EventAdded" using ev by (simp_all add: moves_goal_def)
  have ids: "map EID (?es[k := e']) = map EID ?es"
    using m(2) kk(1,2) by (metis list_update_id map_update)
  then have eid: "EID (?es[k := e'] ! i) = EID (?es ! i)" if "i < length ?es" for i
    using that by (metis length_list_update nth_map)
  have ne: "about (QID r) rs \<noteq> []" using kk(3) goal_history_ne by blast
  have moved: "goal_history (about (QID r) rs @ [r]) (EState e')"
    using kk(3) m(1) goal_history_snoc_iff [OF ne] by blast
  have e: "goal_history (about (EID (?es[k := e'] ! i)) (rs @ [r])) (EState (?es[k := e'] ! i))"
    if "i < length ?es" for i
  proof (cases "i = k")
    case True
    then show ?thesis using moved m(2) g that by simp
  next
    case False
    have "fold_index s (EID (?es ! i)) = Some i" using a that unfolding fold_agrees_def by blast
    then have "EID (?es ! i) \<noteq> QID r" using k False by auto
    then show ?thesis using a that False by (simp add: fold_agrees_def)
  qed
  then have es: "\<forall>e \<in> set (?es[k := e']). goal_history (about (EID e) (rs @ [r])) (EState e)"
    unfolding all_set_conv_all_nth length_list_update by blast
  have tells: "entry_tells (about (EID e) rs) e" if "e \<in> set ?es" for e
    using a that unfolding fold_agrees_def by blast
  have "entry_tells (about (EID (?es[k := e'] ! i)) (rs @ [r])) (?es[k := e'] ! i)" if "i < length ?es" for i
  proof (cases "i = k")
    case True
    have "entry_tells (about (QID r) rs @ [r]) e'"
      using entry_tells_apply [OF tells [OF nth_mem [OF kk(1)]] e'] unfolding kk(2) .
    then show ?thesis using True m(2) g that by simp
  next
    case False
    have "fold_index s (EID (?es ! i)) = Some i" using a that unfolding fold_agrees_def by blast
    then have "EID (?es ! i) \<noteq> QID r" using k False by auto
    then show ?thesis using tells [OF nth_mem [OF that]] that False by simp
  qed
  then have ts: "\<forall>e \<in> set (?es[k := e']). entry_tells (about (EID e) (rs @ [r])) e"
    unfolding all_set_conv_all_nth length_list_update by blast
  show ?thesis
    using a h g ids eid es ts unfolding fold_agrees_def by (auto simp: s')
qed

lemma fold_step_agrees:
  assumes a: "fold_agrees rs s" and s: "fold_step r s = Inr s'"
  shows "fold_agrees (rs @ [r]) s'"
proof -
  have ev: "QSeq r = Suc (length rs)" "is_ok (QRecord_validate r)"
    and e: "fold_event r (s\<lparr>fold_prevSeq := Suc (length rs)\<rparr>) = Inr s'"
    using fold_step_Inr [OF s] a by (auto simp: fold_agrees_def)
  have h: "queue_history (rs @ [r])" using fold_step_ok [OF a, of r] s by simp
  from ev(2) show ?thesis
  proof (cases rule: event_cases)
    case 1
    then show ?thesis by (rule fold_event_added [OF a h _ e])
  next
    case 2
    then show ?thesis by (rule fold_event_moved [OF a h _ e])
  qed (use a h e in \<open>auto simp: fold_agrees_def fold_event_def Let_def started_def stopped_def namesAGoal_def\<close>)
qed

interpretation queue_log: event_log fold_step fold0 fold_agrees
  by unfold_locales (auto intro: fold_agrees_init fold_step_agrees)

text \<open>
  C25. The fold accepts exactly the histories a queue can have: numbered 1, 2, and so on, of valid
  records, with ids that only grow, in which the records about each goal are the life of a goal.
\<close>

theorem queue_fold_iff_history: "is_ok (queue_fold rs) \<longleftrightarrow> queue_history rs"
proof (induction rs rule: rev_induct)
  case Nil
  show ?case using fold_agrees_init by (simp add: queue_fold_def fold_agrees_def)
next
  case (snoc r rs)
  show ?case
  proof (cases "replay fold_step rs fold0")
    case (Inl e)
    then have "\<not> queue_history rs" using snoc by (simp add: queue_fold_def)
    then show ?thesis using Inl by (simp add: queue_fold_def history_extend)
  next
    case (Inr s)
    have "is_ok (queue_fold (rs @ [r])) \<longleftrightarrow> is_ok (fold_step r s)"
      using Inr by (cases "fold_step r s") (simp_all add: queue_fold_def)
    with fold_step_ok [OF queue_log.replay_inv [OF Inr]] show ?thesis by blast
  qed
qed

lemma queue_fold_agrees:
  assumes "queue_fold rs = Inr q"
  obtains s where "replay fold_step rs fold0 = Inr s" "fold_agrees rs s" "q = folded s"
  using assms queue_log.replay_inv by (auto simp: queue_fold_def bind_result_Inr_iff)

text \<open>Counting the claims of a goal along its life, with every settle to a state a goal settles as.\<close>

lemma goal_history_claims:
  "goal_history h s \<Longrightarrow> \<forall>r \<in> set h. is_ok (QRecord_validate r) \<Longrightarrow>
   length (filter (\<lambda>r. QEvent r = EventClaimed) h) = (if s = StateQueued \<or> s = StateRemoved then 0 else 1)"
proof (induction rule: goal_history.induct)
  case (settled h s r)
  have "is_ok (QRecord_validate r)" using settled.prems by simp
  then have "settles (QState r)"
    using settled.hyps(3) by (auto simp: QRecord_validate_def fields_validate_def bind_result_def split: if_splits)
  then have "QState r \<noteq> StateQueued" "QState r \<noteq> StateRemoved" by auto
  with settled show ?case by auto
qed auto

text \<open>
  C26. A queue that reads at all lists each goal that was added, once, in the order of ids; each stands
  where its own records leave it; each was claimed exactly once if it left the queue through a
  worker, and never otherwise; and what the queue says of it is what its records say: the goal and its terms
  are those it was added with, the run and the workspace those of its one claim, and none when it was never
  claimed, and the note that of its last settling.
\<close>

theorem queue_fold_claims_once:
  assumes "queue_fold rs = Inr q"
  shows "map EID (Entries q) = added_ids rs \<and> sorted_wrt (<) (map EID (Entries q)) \<and>
    (\<forall>e \<in> set (Entries q). goal_history (about (EID e) rs) (EState e) \<and>
       length (filter (\<lambda>r. QEvent r = EventClaimed) (about (EID e) rs)) =
         (if EState e = StateQueued \<or> EState e = StateRemoved then 0 else 1) \<and>
       entry_tells (about (EID e) rs) e)"
proof (intro conjI ballI)
  obtain s where s: "fold_agrees rs s" "q = folded s" using queue_fold_agrees [OF assms] by blast
  show "map EID (Entries q) = added_ids rs" "sorted_wrt (<) (map EID (Entries q))"
    using s by (simp_all add: fold_agrees_def queue_history_def)
  fix e assume e: "e \<in> set (Entries q)"
  then show h: "goal_history (about (EID e) rs) (EState e)" using s by (simp add: fold_agrees_def)
  show "entry_tells (about (EID e) rs) e" using e s by (simp add: fold_agrees_def)
  have "\<forall>r \<in> set (about (EID e) rs). is_ok (QRecord_validate r)"
    using s(1) by (auto simp: about_def fold_agrees_def queue_history_def)
  then show "length (filter (\<lambda>r. QEvent r = EventClaimed) (about (EID e) rs)) =
         (if EState e = StateQueued \<or> EState e = StateRemoved then 0 else 1)"
    by (rule goal_history_claims [OF h])
qed

definition two_goals :: "QRecord list" where
  "two_goals =
     [QRecord0\<lparr>QSeq := 1, QEvent := EventAdded, QTime := 5, QID := 1, QGoal := ''a''\<rparr>,
      QRecord0\<lparr>QSeq := 2, QEvent := EventAdded, QTime := 6, QID := 2, QGoal := ''b''\<rparr>,
      QRecord0\<lparr>QSeq := 3, QEvent := EventClaimed, QTime := 7, QID := 1, QRunID := ''r'', QDir := ''/q/r''\<rparr>]"

lemma two_goals_fold:
  "(case queue_fold two_goals of Inl _ \<Rightarrow> [] | Inr q \<Rightarrow> map EState (Entries q)) = [StateClaimed, StateQueued]"
  by code_simp

theorem queue_fold_claims_once_witness:
  "\<exists>q. queue_fold two_goals = Inr q \<and>
     map EID (Entries q) = added_ids two_goals \<and> map EState (Entries q) = [StateClaimed, StateQueued] \<and>
     map ERunID (Entries q) = [''r'', []] \<and> map EDir (Entries q) = [''/q/r'', []]"
proof -
  obtain q where q: "queue_fold two_goals = Inr q" "map EState (Entries q) = [StateClaimed, StateQueued]"
    using two_goals_fold by (cases "queue_fold two_goals") auto
  note c = queue_fold_claims_once [OF q(1)]
  have ids: "map EID (Entries q) = [1, 2]" using c by (simp add: added_ids_def two_goals_def QRecord0_def)
  have h: "about 1 two_goals = [two_goals ! 0, two_goals ! 2]" "about 2 two_goals = [two_goals ! 1]"
    by (simp_all add: about_def two_goals_def QRecord0_def namesAGoal_def)
  have "entry_tells (about (EID e) two_goals) e" if "e \<in> set (Entries q)" for e using c that by blast
  moreover obtain a b where ab: "Entries q = [a, b]" "EID a = 1" "EID b = 2" using ids by (auto simp: map_eq_Cons_conv)
  ultimately have "entry_tells (about 1 two_goals) a" "entry_tells (about 2 two_goals) b" by force+
  then have "map ERunID (Entries q) = [''r'', []]" "map EDir (Entries q) = [''/q/r'', []]"
    unfolding h by (simp_all add: ab(1) entry_tells_def said_def Let_def two_goals_def QRecord0_def)
  then show ?thesis by (intro exI [of _ q] conjI q(1,2) c [THEN conjunct1])
qed

section \<open>The decision\<close>

lemma find_first_prefix:
  "List.find P xs = Some x \<Longrightarrow> \<exists>us vs. xs = us @ x # vs \<and> P x \<and> (\<forall>u \<in> set us. \<not> P u)"
proof (induction xs)
  case (Cons y ys)
  show ?case
  proof (cases "P y")
    case True
    with Cons.prems have "y # ys = [] @ x # ys \<and> P x" by simp
    then show ?thesis by fastforce
  next
    case False
    then obtain us vs where "ys = us @ x # vs" "P x" "\<forall>u \<in> set us. \<not> P u" using Cons by auto
    with False have "y # ys = (y # us) @ x # vs \<and> P x \<and> (\<forall>u \<in> set (y # us). \<not> P u)" by simp
    then show ?thesis by blast
  qed
qed simp

definition in_hand :: "QState \<Rightarrow> bool" where
  "in_hand s \<longleftrightarrow> s = StateClaimed \<or> s = StateApproved"

text \<open>What is decided of a goal in hand.\<close>

lemma QNext_acts:
  "DAction (QNext q runs) \<in> {ActionCreate, ActionDrive} \<Longrightarrow>
   DEntry (QNext q runs) \<in> set (Entries q) \<and> in_hand (EState (DEntry (QNext q runs))) \<and>
   (RunExists (view_of runs (DEntry (QNext q runs))) \<longleftrightarrow> DAction (QNext q runs) = ActionDrive)"
  by (auto simp: QNext_def claimedNext_def approvedNext_def decide_def in_hand_def
    split: option.splits if_splits dest: find_Some_mem)

lemma endedAs_settles: "endedAs s = Some t \<Longrightarrow> settles t"
  by (cases s) auto

lemma QNext_spec:
  fixes q runs
  defines "d \<equiv> QNext q runs"
  shows "(DAction d = ActionDone \<longleftrightarrow> (\<forall>e \<in> set (Entries q). EState e \<noteq> StateQueued \<and> \<not> in_hand (EState e))) \<and>
    (DAction d = ActionClaim \<longrightarrow> (\<forall>e \<in> set (Entries q). \<not> in_hand (EState e)) \<and>
       (\<exists>us vs. Entries q = us @ DEntry d # vs \<and> EState (DEntry d) = StateQueued \<and> (\<forall>e \<in> set us. EState e \<noteq> StateQueued))) \<and>
    (DAction d = ActionCreate \<longrightarrow> DEntry d \<in> set (Entries q) \<and> EState (DEntry d) = StateClaimed \<and>
       \<not> RunExists (view_of runs (DEntry d))) \<and>
    (DAction d = ActionDrive \<longrightarrow> DEntry d \<in> set (Entries q) \<and> in_hand (EState (DEntry d)) \<and>
       (let v = view_of runs (DEntry d) in RunExists v \<and> endedAs (RunStatus v) = None \<and>
         \<not> (EState (DEntry d) = StateClaimed \<and> RunStatus v = RunStatusPaused \<and> GateAsked v))) \<and>
    (DAction d = ActionSettle \<longrightarrow> DEntry d \<in> set (Entries q) \<and> in_hand (EState (DEntry d)) \<and> settles (DSettle d))"
proof (cases "List.find (\<lambda>e. EState e = StateClaimed) (Entries q)")
  case (Some e)
  then have e: "e \<in> set (Entries q)" "EState e = StateClaimed" by (auto dest: find_Some_mem)
  then have "d = claimedNext e (view_of runs e)" using Some by (simp add: d_def QNext_def)
  then show ?thesis using e
    by (auto simp: claimedNext_def decide_def in_hand_def Let_def endedAs_settles split: option.splits)
next
  case None
  note c = None
  show ?thesis
  proof (cases "List.find (\<lambda>e. EState e = StateApproved) (Entries q)")
    case (Some e)
    then have e: "e \<in> set (Entries q)" "EState e = StateApproved" by (auto dest: find_Some_mem)
    then have "d = approvedNext e (view_of runs e)" using c Some by (simp add: d_def QNext_def)
    then show ?thesis using e
      by (auto simp: approvedNext_def decide_def in_hand_def Let_def endedAs_settles split: option.splits)
  next
    case None
    then have h: "\<forall>e \<in> set (Entries q). \<not> in_hand (EState e)"
      using c by (auto simp: find_None_iff in_hand_def)
    show ?thesis
    proof (cases "List.find (\<lambda>e. EState e = StateQueued) (Entries q)")
      case (Some e)
      then have "d = decide ActionClaim e" using c None by (simp add: d_def QNext_def)
      with h find_first_prefix [OF Some] show ?thesis by (auto simp: decide_def)
    next
      case none: None
      then have "d = decide ActionDone QEntry0" using c None by (simp add: d_def QNext_def)
      with h none show ?thesis by (auto simp: decide_def find_None_iff)
    qed
  qed
qed

text \<open>
  What a worker does next finishes what is in hand before anything new is claimed, claims the
  first queued goal, makes a run only for a claimed goal that has none, drives only a run that exists
  and has not ended, and never a goal parked at its plan or a run whose gate asked; and it is done
  exactly when nothing in the queue may be run.
\<close>

theorem QNext_rules:
  fixes q runs
  defines "d \<equiv> QNext q runs"
  shows "(DAction d = ActionDone \<longleftrightarrow> (\<forall>e \<in> set (Entries q). EState e \<noteq> StateQueued \<and> \<not> in_hand (EState e))) \<and>
    (DAction d = ActionClaim \<longrightarrow> (\<forall>e \<in> set (Entries q). \<not> in_hand (EState e)) \<and>
       (\<exists>us vs. Entries q = us @ DEntry d # vs \<and> EState (DEntry d) = StateQueued \<and> (\<forall>e \<in> set us. EState e \<noteq> StateQueued))) \<and>
    (DAction d = ActionCreate \<longrightarrow> DEntry d \<in> set (Entries q) \<and> EState (DEntry d) = StateClaimed \<and>
       \<not> RunExists (view_of runs (DEntry d))) \<and>
    (DAction d = ActionDrive \<longrightarrow> DEntry d \<in> set (Entries q) \<and> in_hand (EState (DEntry d)) \<and>
       (let v = view_of runs (DEntry d) in RunExists v \<and> endedAs (RunStatus v) = None \<and>
         \<not> (EState (DEntry d) = StateClaimed \<and> RunStatus v = RunStatusPaused \<and> GateAsked v))) \<and>
    (DAction d = ActionSettle \<longrightarrow> DEntry d \<in> set (Entries q) \<and> in_hand (EState (DEntry d)) \<and> settles (DSettle d))"
  unfolding d_def by (rule QNext_spec)

theorem QNext_rules_witness:
  "let e = QEntry0\<lparr>EID := 1, EState := StateWaiting\<rparr>; q = Queue0\<lparr>Entries := [e]\<rparr> in
   DAction (QNext q (\<lambda>_. Some (RunView0\<lparr>RunExists := True, RunStatus := RunStatusPaused\<rparr>))) = ActionDone"
proof -
  define e where "e = QEntry0\<lparr>EID := 1, EState := StateWaiting\<rparr>"
  have "\<forall>x \<in> set (Entries (Queue0\<lparr>Entries := [e]\<rparr>)). EState x \<noteq> StateQueued \<and> \<not> in_hand (EState x)"
    by (simp add: e_def Queue0_def in_hand_def)
  then show ?thesis unfolding Let_def e_def [symmetric] using QNext_rules by blast
qed

section \<open>Claims\<close>

text \<open>The claims of a history, and what the fold's entries keep of them.\<close>

definition claims :: "QRecord list \<Rightarrow> QRecord list" where
  "claims rs = filter (\<lambda>r. QEvent r = EventClaimed) rs"

lemma claims_simps [simp]:
  "claims [] = []" "claims (xs @ ys) = claims xs @ claims ys"
  "claims [r] = (if QEvent r = EventClaimed then [r] else [])"
  by (simp_all add: claims_def)

definition keeps_claim :: "QRecord list \<Rightarrow> QEntry \<Rightarrow> bool" where
  "keeps_claim rs e \<longleftrightarrow>
     (EState e \<in> {StateQueued, StateRemoved} \<and> ERunID e = [] \<and> EDir e = [] \<and> (\<forall>r \<in> set (claims rs). QID r \<noteq> EID e)) \<or>
     (EState e \<notin> {StateQueued, StateRemoved} \<and>
       (\<exists>r \<in> set (claims rs). QID r = EID e \<and> QRunID r = ERunID e \<and> QDir r = EDir e))"

definition claims_kept :: "QRecord list \<Rightarrow> fold_state \<Rightarrow> bool" where
  "claims_kept rs s \<longleftrightarrow> fold_agrees rs s \<and> (\<forall>e \<in> set (Entries (folded s)). keeps_claim rs e)"

lemma Entry_apply_claim:
  assumes "Entry_apply r e = Inr e'" "keeps_claim rs e" "QID r = EID e" "is_ok (QRecord_validate r)"
  shows "keeps_claim (rs @ [r]) e'"
proof -
  have v: "QEvent r = EventSettled \<Longrightarrow> QState r \<noteq> StateQueued \<and> QState r \<noteq> StateRemoved"
    using assms(4) by (auto simp: QRecord_validate_def fields_validate_def bind_result_def split: if_splits)
  show ?thesis
  proof (cases "QEvent r")
    case EventRemoved
    then have "EState e = StateQueued" "EState e' = StateRemoved" "ERunID e' = ERunID e" "EDir e' = EDir e" "EID e' = EID e"
      using assms(1) by (auto simp: Entry_apply_def bind_result_def split: if_splits)
    then show ?thesis using assms(2) EventRemoved by (simp add: keeps_claim_def)
  next
    case EventClaimed
    then have "EState e' = StateClaimed" "ERunID e' = QRunID r" "EDir e' = QDir r" "EID e' = EID e"
      using assms(1) by (auto simp: Entry_apply_def bind_result_def split: if_splits)
    then show ?thesis using assms(3) EventClaimed by (simp add: keeps_claim_def)
  next
    case EventSettled
    then have "EState e = StateClaimed \<or> EState e = StateApproved" "EState e' = QState r" "ERunID e' = ERunID e"
      "EDir e' = EDir e" "EID e' = EID e"
      using assms(1) by (auto simp: Entry_apply_def bind_result_def split: if_splits)
    then show ?thesis using assms(2) v EventSettled by (auto simp: keeps_claim_def)
  next
    case EventApproved
    then have "EState e = StateWaiting" "EState e' = StateApproved" "ERunID e' = ERunID e" "EDir e' = EDir e" "EID e' = EID e"
      using assms(1) by (auto simp: Entry_apply_def bind_result_def split: if_splits)
    then show ?thesis using assms(2) EventApproved by (auto simp: keeps_claim_def)
  qed (use assms(1) in \<open>auto simp: Entry_apply_def\<close>)
qed

lemma fold_step_claims:
  assumes k: "claims_kept rs s" and s: "fold_step r s = Inr s'"
  shows "claims_kept (rs @ [r]) s'"
proof -
  have a: "fold_agrees rs s" and kc: "\<forall>e \<in> set (Entries (folded s)). keeps_claim rs e"
    using k by (simp_all add: claims_kept_def)
  have a': "fold_agrees (rs @ [r]) s'" by (rule fold_step_agrees [OF a s])
  have v: "is_ok (QRecord_validate r)" and e: "fold_event r (s\<lparr>fold_prevSeq := QSeq r\<rparr>) = Inr s'"
    using fold_step_Inr [OF s] by blast+
  have other: "keeps_claim (rs @ [r]) x" if "keeps_claim rs x" "QEvent r = EventClaimed \<longrightarrow> QID r \<noteq> EID x" for x
    using that by (auto simp: keeps_claim_def)
  have "\<forall>x \<in> set (Entries (folded s')). keeps_claim (rs @ [r]) x"
    using v
  proof (cases rule: event_cases)
    case 1
    then have es: "Entries (folded s') = Entries (folded s) @ [added_entry r]" and new: "fold_lastID s < QID r"
      using e by (auto simp: fold_event_def Let_def split: if_splits)
    have "about (QID r) rs = []" using agrees_last [OF a new] by blast
    then have "\<forall>x \<in> set (claims rs). QID x \<noteq> QID r"
      by (auto simp: about_def claims_def filter_empty_conv namesAGoal_def)
    then have "keeps_claim (rs @ [r]) (added_entry r)"
      using 1 by (simp add: keeps_claim_def added_entry_def QEntry0_def)
    then show ?thesis using kc other 1 by (auto simp: es)
  next
    case 2
    then obtain k e' where kk: "fold_index s (QID r) = Some k" and e': "Entry_apply r (Entries (folded s) ! k) = Inr e'"
      and es: "Entries (folded s') = (Entries (folded s))[k := e']"
      using e by (auto simp: fold_event_moves split: option.splits sum.splits)
    note ent = agrees_entry [OF a kk]
    have moved: "keeps_claim (rs @ [r]) e'"
      using Entry_apply_claim [OF e' _ _ v] kc ent(1,2) nth_mem by metis
    have "keeps_claim (rs @ [r]) ((Entries (folded s))[k := e'] ! i)" if i: "i < length (Entries (folded s))" for i
    proof (cases "i = k")
      case True
      then show ?thesis using moved i by simp
    next
      case False
      have "fold_index s (EID (Entries (folded s) ! i)) = Some i" using a i unfolding fold_agrees_def by blast
      then have "EID (Entries (folded s) ! i) \<noteq> QID r" using kk False by auto
      then show ?thesis using False i kc other by simp
    qed
    then show ?thesis unfolding es all_set_conv_all_nth length_list_update by blast
  next
    case 3
    then have "Entries (folded s') = Entries (folded s)"
      using e by (auto simp: fold_event_def Let_def started_def)
    then show ?thesis using kc other 3 by simp
  next
    case 4
    then have "Entries (folded s') = Entries (folded s)"
      using e by (auto simp: fold_event_def Let_def stopped_def)
    then show ?thesis using kc other 4 by simp
  qed
  with a' show ?thesis by (simp add: claims_kept_def)
qed

lemma claims_kept_init: "claims_kept [] fold0"
  by (simp add: claims_kept_def fold_agrees_init) (simp add: fold0_def Queue0_def)

interpretation claim_log: event_log fold_step fold0 claims_kept
  by unfold_locales (rule claims_kept_init, rule fold_step_claims)

lemma queue_fold_claims: "queue_fold rs = Inr q \<Longrightarrow> e \<in> set (Entries q) \<Longrightarrow> keeps_claim rs e"
  using claim_log.replay_inv by (fastforce simp: queue_fold_def bind_result_Inr_iff claims_kept_def)

lemma queue_fold_state:
  assumes "queue_fold rs = Inr q"
  shows "e \<in> set (Entries q) \<Longrightarrow> goal_history (about (EID e) rs) s \<longleftrightarrow> EState e = s"
    "goal_history (about i rs) s \<Longrightarrow> \<exists>e \<in> set (Entries q). EID e = i \<and> EState e = s"
    "queue_history rs" "distinct (map EID (Entries q))"
proof -
  obtain st where st: "fold_agrees rs st" "q = folded st" using queue_fold_agrees [OF assms] by blast
  then have es: "\<forall>e \<in> set (Entries q). goal_history (about (EID e) rs) (EState e)" "map EID (Entries q) = added_ids rs"
    by (simp_all add: fold_agrees_def)
  then show one: "e \<in> set (Entries q) \<Longrightarrow> goal_history (about (EID e) rs) s \<longleftrightarrow> EState e = s" for e s
    using goal_history_det by blast
  show "queue_history rs" using st by (simp add: fold_agrees_def)
  then show "distinct (map EID (Entries q))"
    by (simp add: es(2) queue_history_def strict_sorted_iff)
  assume h: "goal_history (about i rs) s"
  then have "i \<in> set (map EID (Entries q))" unfolding es(2) by (rule about_added)
  then obtain e where "e \<in> set (Entries q)" "EID e = i" by auto
  with one h show "\<exists>e \<in> set (Entries q). EID e = i \<and> EState e = s" by blast
qed

end
