(* ===== verification/Utf8.thy ===== *)
theory Utf8
  imports Prelude
begin

text \<open>
  Go's view of a string as runes (package unicode/utf8 and the conversions \<open>[]rune(s)\<close> and
  \<open>string(runes)\<close>): a string is its bytes, and a byte that starts no valid encoding is read as the
  replacement rune, one byte long.
\<close>

type_synonym rune = nat

definition RuneError :: rune where "RuneError = 0xFFFD"

definition byte_of :: "char \<Rightarrow> nat" where "byte_of c = of_char c"

definition byte :: "nat \<Rightarrow> char" where "byte n = char_of n"

text \<open>A continuation byte, and its range after the lead bytes that restrict it.\<close>

definition cont :: "char \<Rightarrow> bool" where
  "cont c \<longleftrightarrow> 0x80 \<le> byte_of c \<and> byte_of c \<le> 0xBF"

definition second_ok :: "nat \<Rightarrow> char \<Rightarrow> bool" where
  "second_ok lead c \<longleftrightarrow>
     (if lead = 0xE0 then 0xA0 else if lead = 0xF0 then 0x90 else 0x80) \<le> byte_of c \<and>
     byte_of c \<le> (if lead = 0xED then 0x9F else if lead = 0xF4 then 0x8F else 0xBF)"

definition low6 :: "char \<Rightarrow> nat" where "low6 c = byte_of c mod 64"

text \<open>\<open>utf8.DecodeRuneInString\<close> on a non-empty string: the rune and how many bytes it took.\<close>

definition DecodeRune :: "char \<Rightarrow> string \<Rightarrow> rune \<times> nat" where
  "DecodeRune c rest =
     (let b = byte_of c in
      if b < 0x80 then (b, 1)
      else if 0xC2 \<le> b \<and> b \<le> 0xDF then
        (case rest of
           c1 # _ \<Rightarrow> if cont c1 then (b mod 32 * 64 + low6 c1, 2) else (RuneError, 1)
         | _ \<Rightarrow> (RuneError, 1))
      else if 0xE0 \<le> b \<and> b \<le> 0xEF then
        (case rest of
           c1 # c2 # _ \<Rightarrow>
             if second_ok b c1 \<and> cont c2 then (b mod 16 * 4096 + low6 c1 * 64 + low6 c2, 3)
             else (RuneError, 1)
         | _ \<Rightarrow> (RuneError, 1))
      else if 0xF0 \<le> b \<and> b \<le> 0xF4 then
        (case rest of
           c1 # c2 # c3 # _ \<Rightarrow>
             if second_ok b c1 \<and> cont c2 \<and> cont c3
             then (b mod 8 * 262144 + low6 c1 * 4096 + low6 c2 * 64 + low6 c3, 4)
             else (RuneError, 1)
         | _ \<Rightarrow> (RuneError, 1))
      else (RuneError, 1))"

text \<open>Every decode consumes its first byte and at most what is there.\<close>

lemma DecodeRune_size: "1 \<le> snd (DecodeRune c rest)" "snd (DecodeRune c rest) \<le> Suc (length rest)"
  by (auto simp: DecodeRune_def Let_def split: list.split)

function runes :: "string \<Rightarrow> rune list" where
  "runes [] = []"
| "runes (c # rest) =
     (let (r, n) = DecodeRune c rest in r # runes (drop (n - 1) rest))"
  by pat_completeness auto
termination by (relation "measure length") auto

declare runes.simps(2) [simp del]

definition valid_rune :: "rune \<Rightarrow> bool" where
  "valid_rune r \<longleftrightarrow> r < 0xD800 \<or> 0xE000 \<le> r \<and> r < 0x110000"

text \<open>\<open>utf8.AppendRune\<close>: what is no Unicode scalar value is written as the replacement rune.\<close>

definition EncodeRune :: "rune \<Rightarrow> string" where
  "EncodeRune r =
     (let r = (if valid_rune r then r else RuneError) in
      if r < 0x80 then [byte r]
      else if r < 0x800 then [byte (0xC0 + r div 64), byte (0x80 + r mod 64)]
      else if r < 0x10000 then
        [byte (0xE0 + r div 4096), byte (0x80 + r div 64 mod 64), byte (0x80 + r mod 64)]
      else
        [byte (0xF0 + r div 262144), byte (0x80 + r div 4096 mod 64), byte (0x80 + r div 64 mod 64),
         byte (0x80 + r mod 64)])"

definition utf8 :: "rune list \<Rightarrow> string" where
  "utf8 rs = concat (map EncodeRune rs)"

section \<open>Round trip\<close>

lemma byte_of_byte [simp]: "n < 256 \<Longrightarrow> byte_of (byte n) = n"
  by (simp add: byte_of_def byte_def)

lemma runes_step: "DecodeRune c rest = (r, n) \<Longrightarrow> runes (c # rest) = r # runes (drop (n - 1) rest)"
  by (simp add: runes.simps)

text \<open>The digits of a rune in the four encodings.\<close>

lemma digits2: obtains a b :: nat where "r = a * 64 + b" "b < 64" "r div 64 = a" "r mod 64 = b"
  using that [of "r div 64" "r mod 64"] by simp

lemma digits3:
  obtains a b c :: nat where "r = a * 4096 + b * 64 + c" "b < 64" "c < 64"
    "r div 4096 = a" "r div 64 mod 64 = b" "r mod 64 = c"
proof (rule that [of "r div 4096" "r div 64 mod 64" "r mod 64"])
  have "r div 64 = r div 64 div 64 * 64 + r div 64 mod 64" by simp
  moreover have "r div 64 div 64 = r div 4096" by (simp add: div_mult2_eq [symmetric])
  moreover have "r = r div 64 * 64 + r mod 64" by simp
  ultimately show "r = r div 4096 * 4096 + r div 64 mod 64 * 64 + r mod 64" by linarith
qed simp_all

lemma digits4:
  obtains a b c d :: nat where "r = a * 262144 + b * 4096 + c * 64 + d" "b < 64" "c < 64" "d < 64"
    "r div 262144 = a" "r div 4096 mod 64 = b" "r div 64 mod 64 = c" "r mod 64 = d"
proof (rule that [of "r div 262144" "r div 4096 mod 64" "r div 64 mod 64" "r mod 64"])
  have "r div 4096 = r div 4096 div 64 * 64 + r div 4096 mod 64" by simp
  moreover have "r div 4096 div 64 = r div 262144" by (simp add: div_mult2_eq [symmetric])
  moreover obtain a b c where "r = a * 4096 + b * 64 + c" "r div 4096 = a" "r div 64 mod 64 = b" "r mod 64 = c"
    by (rule digits3)
  ultimately show "r = r div 262144 * 262144 + r div 4096 mod 64 * 4096 + r div 64 mod 64 * 64 + r mod 64"
    by linarith
qed simp_all

lemma lead_mod:
  "b < 64 \<Longrightarrow> (128 + b) mod 64 = (b::nat)" "a < 32 \<Longrightarrow> (192 + a) mod 32 = (a::nat)"
  "a < 16 \<Longrightarrow> (224 + a) mod 16 = (a::nat)" "a < 8 \<Longrightarrow> (240 + a) mod 8 = (a::nat)"
  using mod_mult_self2 [of b 64 2] mod_mult_self2 [of a 32 6] mod_mult_self2 [of a 16 14]
    mod_mult_self2 [of a 8 30]
  by (simp_all add: add.commute)

lemma DecodeRune_1: "a < 0x80 \<Longrightarrow> DecodeRune (byte a) s = (a, 1)"
  by (simp add: DecodeRune_def)

lemma DecodeRune_2:
  assumes "2 \<le> a" "a < 32" "b < 64"
  shows "DecodeRune (byte (0xC0 + a)) (byte (0x80 + b) # s) = (a * 64 + b, 2)"
  using assms by (simp add: DecodeRune_def cont_def low6_def Let_def lead_mod)

lemma DecodeRune_3:
  assumes "a < 16" "b < 64" "c < 64" "a = 0 \<Longrightarrow> 0x20 \<le> b" "a = 0xD \<Longrightarrow> b < 0x20"
  shows "DecodeRune (byte (0xE0 + a)) (byte (0x80 + b) # byte (0x80 + c) # s) = (a * 4096 + b * 64 + c, 3)"
  using assms by (auto simp: DecodeRune_def cont_def second_ok_def low6_def Let_def lead_mod)

lemma DecodeRune_4:
  assumes "a < 5" "b < 64" "c < 64" "d < 64" "a = 0 \<Longrightarrow> 0x10 \<le> b" "a = 4 \<Longrightarrow> b < 0x10"
  shows "DecodeRune (byte (0xF0 + a)) (byte (0x80 + b) # byte (0x80 + c) # byte (0x80 + d) # s) =
    (a * 262144 + b * 4096 + c * 64 + d, 4)"
  using assms by (auto simp: DecodeRune_def cont_def second_ok_def low6_def Let_def lead_mod)

lemma runes_EncodeRune:
  assumes "valid_rune r" shows "runes (EncodeRune r @ s) = r # runes s"
proof -
  consider "r < 0x80" | "0x80 \<le> r" "r < 0x800" | "0x800 \<le> r" "r < 0x10000" | "0x10000 \<le> r" "r < 0x110000"
    using assms by (force simp: valid_rune_def)
  then show ?thesis
  proof cases
    case 1
    then show ?thesis using assms by (simp add: EncodeRune_def runes_step [OF DecodeRune_1])
  next
    case 2
    obtain a b where r: "r = a * 64 + b" "b < 64" "r div 64 = a" "r mod 64 = b" by (rule digits2)
    with 2 have "DecodeRune (byte (0xC0 + a)) (byte (0x80 + b) # s) = (r, 2)"
      using DecodeRune_2 [of a b s] by simp
    with 2 r(3,4) assms show ?thesis by (simp add: EncodeRune_def runes_step)
  next
    case 3
    obtain a b c where r: "r = a * 4096 + b * 64 + c" "b < 64" "c < 64"
      "r div 4096 = a" "r div 64 mod 64 = b" "r mod 64 = c" by (rule digits3)
    have "a = 0xD \<Longrightarrow> b < 0x20" using r(1-3) assms unfolding valid_rune_def by linarith
    with 3 r(1-3) have "DecodeRune (byte (0xE0 + a)) (byte (0x80 + b) # byte (0x80 + c) # s) = (r, 3)"
      using DecodeRune_3 [of a b c s] by simp
    with 3 r(4-6) assms show ?thesis by (simp add: EncodeRune_def runes_step)
  next
    case 4
    obtain a b c d where r: "r = a * 262144 + b * 4096 + c * 64 + d" "b < 64" "c < 64" "d < 64"
      "r div 262144 = a" "r div 4096 mod 64 = b" "r div 64 mod 64 = c" "r mod 64 = d" by (rule digits4)
    with 4 have "DecodeRune (byte (0xF0 + a)) (byte (0x80 + b) # byte (0x80 + c) # byte (0x80 + d) # s) = (r, 4)"
      using DecodeRune_4 [of a b c d s] by simp
    with 4 r(5-8) assms show ?thesis by (simp add: EncodeRune_def runes_step)
  qed
qed

lemma runes_utf8: "\<forall>r \<in> set rs. valid_rune r \<Longrightarrow> runes (utf8 rs @ s) = rs @ runes s"
  by (induction rs) (auto simp: utf8_def runes_EncodeRune)

text \<open>Whatever the bytes, the runes read from them are Unicode scalar values.\<close>

lemma low6_less: "low6 c < 64"
  by (simp add: low6_def)

lemma cont_low6: "0x80 \<le> byte_of c \<Longrightarrow> byte_of c \<le> 0xBF \<Longrightarrow> byte_of c = 0x80 + low6 c"
proof -
  assume "0x80 \<le> byte_of c" "byte_of c \<le> 0xBF"
  then obtain d where "byte_of c = 128 + d" "d < 64" by (auto simp: le_iff_add)
  then show ?thesis by (simp add: low6_def lead_mod)
qed

lemma second_range:
  "second_ok 0xED c \<Longrightarrow> low6 c < 0x20" "second_ok 0xF4 c \<Longrightarrow> low6 c < 0x10"
  using cont_low6 [of c] by (auto simp: second_ok_def)

lemma DecodeRune_valid: "valid_rune (fst (DecodeRune c rest))"
proof -
  let ?b = "byte_of c"
  have e: "valid_rune RuneError" by (simp add: RuneError_def valid_rune_def)
  have two: "valid_rune (?b mod 32 * 64 + low6 c1)" for c1
  proof -
    have "?b mod 32 < 32" by simp
    then show ?thesis using low6_less [of c1] unfolding valid_rune_def by linarith
  qed
  have three: "valid_rune (?b mod 16 * 4096 + low6 c1 * 64 + low6 c2)"
    if b: "0xE0 \<le> ?b" "?b \<le> 0xEF" and ok: "second_ok ?b c1" for c1 c2
  proof -
    obtain m where m: "?b = 0xE0 + m" "m < 16" using b by (auto simp: le_iff_add)
    have "m = 13 \<Longrightarrow> low6 c1 < 0x20" using ok second_range(1) by (simp add: m)
    then consider "m \<le> 12" | "m = 13" "low6 c1 < 0x20" | "14 \<le> m" by linarith
    then show ?thesis
      using low6_less [of c1] low6_less [of c2] m(2) unfolding m(1) lead_mod(3) [OF m(2)] valid_rune_def
      by cases linarith+
  qed
  have four: "valid_rune (?b mod 8 * 262144 + low6 c1 * 4096 + low6 c2 * 64 + low6 c3)"
    if b: "0xF0 \<le> ?b" "?b \<le> 0xF4" and ok: "second_ok ?b c1" for c1 c2 c3
  proof -
    obtain m where m: "?b = 0xF0 + m" "m < 5" using b by (auto simp: le_iff_add)
    have m8: "m < 8" using m(2) by simp
    have "m = 4 \<Longrightarrow> low6 c1 < 0x10" using ok second_range(2) by (simp add: m)
    moreover have "m = 0 \<Longrightarrow> 0x10 \<le> low6 c1"
      using ok cont_low6 [of c1] by (auto simp: m second_ok_def)
    ultimately show ?thesis
      using low6_less [of c1] low6_less [of c2] low6_less [of c3] m(2)
      unfolding m(1) lead_mod(4) [OF m8] valid_rune_def
      by linarith
  qed
  show ?thesis
    using e two three four
    by (auto simp: DecodeRune_def Let_def valid_rune_def [of "byte_of c"] split: list.split)
qed

lemma runes_valid: "r \<in> set (runes s) \<Longrightarrow> valid_rune r"
proof (induction s rule: runes.induct)
  case (2 c rest)
  then show ?case using DecodeRune_valid [of c rest]
    by (cases "DecodeRune c rest") (auto simp: runes.simps(2))
qed simp

text \<open>Reading back what was written, and writing only what is valid.\<close>

lemma runes_of_utf8 [simp]: "\<forall>r \<in> set rs. valid_rune r \<Longrightarrow> runes (utf8 rs) = rs"
  using runes_utf8 [of rs "[]"] by simp

lemma runes_take_utf8 [simp]: "runes (utf8 (take n (runes s))) = take n (runes s)"
  by (rule runes_of_utf8) (auto dest: in_set_takeD runes_valid)

lemma utf8_append [simp]: "utf8 (xs @ ys) = utf8 xs @ utf8 ys"
  by (simp add: utf8_def)

text \<open>The runes of a string of single-byte characters are its bytes.\<close>

lemma runes_ascii: "\<forall>c \<in> set s. byte_of c < 0x80 \<Longrightarrow> runes s = map byte_of s"
proof (induction s)
  case (Cons c s)
  then have "DecodeRune c s = (byte_of c, 1)" by (simp add: DecodeRune_def)
  with Cons show ?case by (simp add: runes_step)
qed simp

end
