(* ===== verification/Queue_Log.thy ===== *)
theory Queue_Log
  imports Queue Utf8
begin

text \<open>
  internal/queue/log.go: the operations of the queue's store on the bytes of its log. The log is what
  is on disk, or nothing; the outcomes of the system calls of one append are a record; encoding/json
  is \<open>marshal\<close> and \<open>unmarshal\<close>. The log lock makes one append atomic against the others, so each
  operation here is one step; \<open>Dir\<close> and the other paths of store.go are where the files are.
\<close>

section \<open>Paths\<close>

text \<open>\<open>filepath.Join\<close> of a cleaned directory and plain names.\<close>

record Store = Store_dir :: string

definition join_path :: "string \<Rightarrow> string \<Rightarrow> string" where
  "join_path dir name = dir @ ''/'' @ name"

definition Store_Open :: "string \<Rightarrow> Store option" where
  "Store_Open workspace =
     (if \<not> filepath_IsAbs workspace then None
      else Some \<lparr>Store_dir = join_path (join_path workspace ''.belay'') ''queue''\<rparr>)"

definition LogPath :: "Store \<Rightarrow> string" where "LogPath s = join_path (Store_dir s) ''queue.ndjson''"

definition WorkRoot :: "Store \<Rightarrow> string" where "WorkRoot s = join_path (Store_dir s) ''work''"

definition logLockPath :: "Store \<Rightarrow> string" where "logLockPath s = join_path (Store_dir s) ''queue.lock''"

definition workerLockPath :: "Store \<Rightarrow> string" where "workerLockPath s = join_path (Store_dir s) ''worker.lock''"

section \<open>Reading\<close>

datatype queue_error =
    ErrInvalidRecord invalid_record | EmptyGoal | ErrNoSuchGoal int | WrongState int QState string
  | ErrGoalInHand int | Corrupted queue_corruption | LineUnreadable nat | LineTooLong | ReadFailed
  | LockFailed | HealFailed | RefusedByHistory queue_corruption | NotEncoded nat | LogOpenFailed
  | AppendFailed | CloseFailed

record logRead =
  read_records :: "QRecord list"
  read_lines :: "bytes list"
  read_incomplete :: bool

definition logRead0 :: logRead where
  "logRead0 = \<lparr>read_records = [], read_lines = [], read_incomplete = False\<rparr>"

text \<open>The records and the bytes of their lines are collected together.\<close>

definition readLog_each :: "(bytes \<Rightarrow> QRecord option) \<Rightarrow> bytes \<Rightarrow> QRecord list \<times> bytes list \<Rightarrow> (QRecord list \<times> bytes list) option" where
  "readLog_each unmarshal line acc = map_option (\<lambda>r. (fst acc @ [r], snd acc @ [line])) (unmarshal line)"

text \<open>\<open>readable\<close> is whether a log that is there can be opened.\<close>

definition readLog :: "(bytes \<Rightarrow> QRecord option) \<Rightarrow> bool \<Rightarrow> disk \<Rightarrow> (queue_error, logRead) result" where
  "readLog unmarshal readable d =
     (case d of
        None \<Rightarrow> Inr logRead0
      | Some bs \<Rightarrow>
          if \<not> readable then Inl ReadFailed
          else (case Scan bs (readLog_each unmarshal) ([], []) of
             (_, Inl (LineError n)) \<Rightarrow> Inl (LineUnreadable n)
           | (_, Inl ErrTooLong) \<Rightarrow> Inl LineTooLong
           | ((rs, ls), Inr incomplete) \<Rightarrow>
               Inr \<lparr>read_records = rs, read_lines = ls, read_incomplete = incomplete\<rparr>))"

definition queue_of :: "logRead \<Rightarrow> (queue_error, Queue) result" where
  "queue_of read = (case queue_fold (read_records read) of Inl c \<Rightarrow> Inl (Corrupted c) | Inr q \<Rightarrow> Inr q)"

definition Queue_Read :: "(bytes \<Rightarrow> QRecord option) \<Rightarrow> bool \<Rightarrow> disk \<Rightarrow> (queue_error, Queue) result" where
  "Queue_Read unmarshal readable d = bind_result (readLog unmarshal readable d) queue_of"

section \<open>Appending\<close>

text \<open>The outcomes of the system calls of one append: whether the lock was taken and the log opened to
  be read, whether the healed
  file could be installed, what became of a delimiter that had to be completed, whether the log could
  be opened, what became of the write (\<open>AppendLine\<close>), and whether it closed.\<close>

record append_faults =
  lock_ok :: bool
  log_read_ok :: bool
  heal_ok :: bool
  heal_wrote :: "nat option"
  log_open_ok :: bool
  line_wrote :: "nat option"
  close_ok :: bool

definition no_append_faults :: append_faults where
  "no_append_faults = \<lparr>lock_ok = True, log_read_ok = True, heal_ok = True, heal_wrote = None, log_open_ok = True,
     line_wrote = None, close_ok = True\<rparr>"

definition heal :: "append_faults \<Rightarrow> logRead \<Rightarrow> disk \<Rightarrow> disk \<times> bool" where
  "heal io read d =
     (if read_incomplete read then RewriteClean (heal_ok io) d (read_lines read)
      else EnsureTrailingNewline (heal_wrote io) d)"

type_synonym codec = "(QRecord \<Rightarrow> bytes option) \<times> (bytes \<Rightarrow> QRecord option)"

text \<open>The bytes of the log once it is opened for appending, which creates it.\<close>

definition opened :: "disk \<Rightarrow> bytes" where
  "opened d = (case d of None \<Rightarrow> [] | Some bs \<Rightarrow> bs)"

text \<open>From the record the caller builds to the line on disk: its number and time are the store's.\<close>

definition stamp :: "int \<Rightarrow> QRecord list \<Rightarrow> QRecord \<Rightarrow> QRecord" where
  "stamp now records rec = rec\<lparr>QSeq := length records + 1, QTime := now\<rparr>"

definition commit_record :: "codec \<Rightarrow> append_faults \<Rightarrow> int \<Rightarrow> QRecord list \<Rightarrow> QRecord \<Rightarrow> disk \<Rightarrow>
    disk \<times> (queue_error, Queue) result" where
  "commit_record cd io now records rec d =
     (case QRecord_validate rec of
        Inl e \<Rightarrow> (d, Inl (ErrInvalidRecord e))
      | Inr _ \<Rightarrow>
          let rec = stamp now records rec in
          (case queue_fold (records @ [rec]) of
             Inl c \<Rightarrow> (d, Inl (RefusedByHistory c))
           | Inr q' \<Rightarrow>
               (case fst cd rec of
                  None \<Rightarrow> (d, Inl (NotEncoded (QSeq rec)))
                | Some line \<Rightarrow>
                    if \<not> log_open_ok io then (d, Inl LogOpenFailed)
                    else case AppendLine (line_wrote io) (opened d) line of
                      (f, ok) \<Rightarrow> (Some f, if \<not> ok then Inl AppendFailed
                                     else if \<not> close_ok io then Inl CloseFailed else Inr q'))))"

definition Queue_append :: "codec \<Rightarrow> append_faults \<Rightarrow> int \<Rightarrow> (Queue \<Rightarrow> (queue_error, QRecord) result) \<Rightarrow> disk \<Rightarrow>
    disk \<times> (queue_error, Queue) result" where
  "Queue_append cd io now build d =
     (if \<not> lock_ok io then (d, Inl LockFailed)
      else case readLog (snd cd) (log_read_ok io) d of
        Inl e \<Rightarrow> (d, Inl e)
      | Inr read \<Rightarrow>
          (case queue_of read of
             Inl e \<Rightarrow> (d, Inl e)
           | Inr q \<Rightarrow>
               (case heal io read d of
                  (d, False) \<Rightarrow> (d, Inl HealFailed)
                | (d, True) \<Rightarrow>
                    (case build q of
                       Inl e \<Rightarrow> (d, Inl e)
                     | Inr rec \<Rightarrow> commit_record cd io now (read_records read) rec d))))"

section \<open>The operations\<close>

text \<open>An operation answers with the goal it changed: the entry of the queue with the record added.\<close>

definition answer :: "int \<Rightarrow> disk \<times> (queue_error, Queue) result \<Rightarrow> disk \<times> (queue_error, QEntry) result" where
  "answer i out = (fst out, bind_result (snd out) (\<lambda>q.
     Inr (case Queue_Entry q i of None \<Rightarrow> QEntry0 | Some e \<Rightarrow> e)))"

definition next_id :: "Queue \<Rightarrow> int" where
  "next_id q = (if Entries q = [] then 1 else wrap64 (EID (last (Entries q)) + 1))"

text \<open>\<open>Add\<close> remembers the id its builder gave, which is the last goal's of the queue it is answered.\<close>

definition Queue_Add :: "codec \<Rightarrow> append_faults \<Rightarrow> int \<Rightarrow> string \<Rightarrow> bool \<Rightarrow> disk \<Rightarrow> disk \<times> (queue_error, QEntry) result" where
  "Queue_Add cd io now goal noApproval d =
     (let goal = TrimSpace goal in
      if goal = [] then (d, Inl EmptyGoal)
      else
        let build = (\<lambda>q. Inr (QRecord0\<lparr>QEvent := EventAdded, QID := next_id q, QGoal := goal, QNoApproval := noApproval\<rparr>));
            out = Queue_append cd io now build d
        in (fst out, bind_result (snd out) (\<lambda>q'.
             Inr (case Queue_Entry q' (EID (last (Entries q'))) of None \<Rightarrow> QEntry0 | Some e \<Rightarrow> e))))"

text \<open>\<open>change\<close>'s builder: the fold's own rule for the move on a copy of the goal, then the caller's
  check.\<close>

definition change_build :: "QRecord \<Rightarrow> string \<Rightarrow> (Queue \<Rightarrow> queue_error option) \<Rightarrow> Queue \<Rightarrow> (queue_error, QRecord) result" where
  "change_build rec verb check q =
     (case Queue_Entry q (QID rec) of
        None \<Rightarrow> Inl (ErrNoSuchGoal (QID rec))
      | Some e \<Rightarrow>
          (case Entry_apply rec e of
             Inl _ \<Rightarrow> Inl (WrongState (QID rec) (EState e) verb)
           | Inr _ \<Rightarrow> (case check q of Some err \<Rightarrow> Inl err | None \<Rightarrow> Inr rec)))"

definition change :: "codec \<Rightarrow> append_faults \<Rightarrow> int \<Rightarrow> QRecord \<Rightarrow> string \<Rightarrow> (Queue \<Rightarrow> queue_error option) \<Rightarrow> disk \<Rightarrow>
    disk \<times> (queue_error, QEntry) result" where
  "change cd io now rec verb check d = answer (QID rec) (Queue_append cd io now (change_build rec verb check) d)"

definition Queue_Remove :: "codec \<Rightarrow> append_faults \<Rightarrow> int \<Rightarrow> int \<Rightarrow> disk \<Rightarrow> disk \<times> (queue_error, QEntry) result" where
  "Queue_Remove cd io now i = change cd io now (QRecord0\<lparr>QEvent := EventRemoved, QID := i\<rparr>) ''remove'' (\<lambda>_. None)"

definition Queue_Approve :: "codec \<Rightarrow> append_faults \<Rightarrow> int \<Rightarrow> int \<Rightarrow> disk \<Rightarrow> disk \<times> (queue_error, QEntry) result" where
  "Queue_Approve cd io now i = change cd io now (QRecord0\<lparr>QEvent := EventApproved, QID := i\<rparr>) ''approve'' (\<lambda>_. None)"

definition none_claimed :: "Queue \<Rightarrow> queue_error option" where
  "none_claimed q = map_option (\<lambda>e. ErrGoalInHand (EID e)) (List.find (\<lambda>e. EState e = StateClaimed) (Entries q))"

definition Queue_claim :: "codec \<Rightarrow> append_faults \<Rightarrow> int \<Rightarrow> int \<Rightarrow> string \<Rightarrow> string \<Rightarrow> disk \<Rightarrow>
    disk \<times> (queue_error, QEntry) result" where
  "Queue_claim cd io now i runID dir =
     change cd io now (QRecord0\<lparr>QEvent := EventClaimed, QID := i, QRunID := runID, QDir := dir\<rparr>) ''claim'' none_claimed"

definition Queue_settle :: "codec \<Rightarrow> append_faults \<Rightarrow> int \<Rightarrow> int \<Rightarrow> QState \<Rightarrow> string \<Rightarrow> disk \<Rightarrow>
    disk \<times> (queue_error, QEntry) result" where
  "Queue_settle cd io now i s note =
     change cd io now (QRecord0\<lparr>QEvent := EventSettled, QID := i, QState := s, QNote := note\<rparr>) ''settle'' (\<lambda>_. None)"

definition workerStarted :: "codec \<Rightarrow> append_faults \<Rightarrow> int \<Rightarrow> int \<Rightarrow> disk \<Rightarrow> disk \<times> (queue_error, Queue) result" where
  "workerStarted cd io now pid =
     Queue_append cd io now (\<lambda>_. Inr (QRecord0\<lparr>QEvent := EventWorkerStarted, QPID := pid\<rparr>))"

definition maxNoteRunes :: nat where "maxNoteRunes = 500"

definition clip :: "string \<Rightarrow> string" where
  "clip s = (let rs = runes s in
     if length rs \<le> maxNoteRunes then s else utf8 (take (maxNoteRunes - 1) rs) @ utf8 [0x2026])"

definition workerStopped :: "codec \<Rightarrow> append_faults \<Rightarrow> int \<Rightarrow> QStop \<Rightarrow> string \<Rightarrow> disk \<Rightarrow> disk \<times> (queue_error, Queue) result" where
  "workerStopped cd io now stop note =
     Queue_append cd io now (\<lambda>_. Inr (QRecord0\<lparr>QEvent := EventWorkerStopped, QStop := stop, QNote := clip note\<rparr>))"

section \<open>The log across failures\<close>

text \<open>
  The log \<open>d\<close> stores the history \<open>rs\<close>: it is absent and \<open>rs\<close> empty, or it holds the lines of \<open>rs\<close> and
  then some of the bytes of one more line, or the last line of \<open>rs\<close> lacks its newline.
\<close>

definition missing_newline :: "codec \<Rightarrow> QRecord list \<Rightarrow> disk \<Rightarrow> bool" where
  "missing_newline cd rs d \<longleftrightarrow> (\<exists>us r. rs = us @ [r] \<and> d = Some (log_file (fst cd) us @ line_of (fst cd) r))"

definition torn_tail :: "codec \<Rightarrow> QRecord list \<Rightarrow> disk \<Rightarrow> bool" where
  "torn_tail cd rs d \<longleftrightarrow> (\<exists>r k. writable (fst cd) (snd cd) r \<and> k < length (line_of (fst cd) r) \<and>
     d = Some (log_file (fst cd) rs @ take k (terminated (line_of (fst cd) r))))"

definition stored :: "codec \<Rightarrow> QRecord list \<Rightarrow> disk \<Rightarrow> bool" where
  "stored cd rs d \<longleftrightarrow>
     (\<forall>r \<in> set rs. writable (fst cd) (snd cd) r) \<and> is_ok (queue_fold rs) \<and>
     (d = None \<and> rs = [] \<or> d = Some (log_file (fst cd) rs) \<or> torn_tail cd rs d \<or> missing_newline cd rs d)"

lemma decode_all_readLog:
  "\<forall>r \<in> set rs. writable marshal unmarshal r \<Longrightarrow>
   decode_all (readLog_each unmarshal) (map (line_of marshal) rs) acc =
     Some (fst acc @ rs, snd acc @ map (line_of marshal) rs)"
  by (induction rs arbitrary: acc) (auto simp: readLog_each_def writable_line(3))

lemma Scan_readLog:
  assumes w: "\<forall>r \<in> set rs. writable marshal unmarshal r" "writable marshal unmarshal r"
  shows "Scan (log_file marshal rs @ take k (terminated (line_of marshal r))) (readLog_each unmarshal) ([], []) =
    (if k < length (line_of marshal r) then ((rs, map (line_of marshal) rs), Inr (0 < k))
     else ((rs @ [r], map (line_of marshal) (rs @ [r])), Inr False))"
proof -
  let ?l = "line_of marshal r"
  have "Scan (log_file marshal rs @ take k (terminated ?l)) (readLog_each unmarshal) ([], []) =
    (if k = 0 then ((rs, map (line_of marshal) rs), Inr False)
     else if k < length ?l then ((rs, map (line_of marshal) rs), Inr True)
     else ((rs @ [r], map (line_of marshal) (rs @ [r])), Inr False))"
    unfolding log_file_def
    by (rule Scan_torn) (use w decode_all_readLog [of rs marshal unmarshal "([], [])"] in
      \<open>auto simp: writable_line readLog_each_def\<close>)
  moreover have "0 < length ?l" using writable_line(2) [OF w(2)] by (simp add: plain_line_def)
  ultimately show ?thesis by auto
qed

lemma Scan_readLog_clean:
  assumes "\<forall>r \<in> set rs. writable marshal unmarshal r"
  shows "Scan (log_file marshal rs) (readLog_each unmarshal) ([], []) = ((rs, map (line_of marshal) rs), Inr False)"
proof (cases rs rule: rev_cases)
  case (snoc us r)
  have "take (Suc (length (line_of marshal r))) (terminated (line_of marshal r)) = terminated (line_of marshal r)"
    by (simp add: terminated_def)
  with Scan_readLog [of us marshal unmarshal r "Suc (length (line_of marshal r))"] assms
  show ?thesis by (simp add: snoc log_file_snoc)
qed (simp add: log_file_def Scan_def)

lemma readLog_stored:
  assumes s: "stored cd rs d" and readable: "readable \<or> d = None"
  obtains inc where "readLog (snd cd) readable d =
      Inr \<lparr>read_records = rs, read_lines = map (line_of (fst cd)) rs, read_incomplete = inc\<rparr>"
    "\<not> inc \<longrightarrow> d = None \<and> rs = [] \<or> d = Some (log_file (fst cd) rs) \<or> missing_newline cd rs d"
proof -
  have w: "\<forall>r \<in> set rs. writable (fst cd) (snd cd) r" using s by (simp add: stored_def)
  consider "d = None" "rs = []" | "d = Some (log_file (fst cd) rs)" | "torn_tail cd rs d" | "missing_newline cd rs d"
    using s unfolding stored_def by blast
  then show ?thesis
  proof cases
    case 1
    then show ?thesis using that [of False] by (simp add: readLog_def logRead0_def)
  next
    case 2
    then show ?thesis using that [of False] readable by (simp add: readLog_def Scan_readLog_clean [OF w])
  next
    case 3
    then obtain r k where r: "writable (fst cd) (snd cd) r" "k < length (line_of (fst cd) r)"
      "d = Some (log_file (fst cd) rs @ take k (terminated (line_of (fst cd) r)))"
      unfolding torn_tail_def by blast
    then show ?thesis
      using that [of "0 < k"] readable by (auto simp: readLog_def Scan_readLog [OF w r(1)])
  next
    case 4
    then obtain us r where r: "rs = us @ [r]" "d = Some (log_file (fst cd) us @ line_of (fst cd) r)"
      unfolding missing_newline_def by blast
    have u: "\<forall>r \<in> set us. writable (fst cd) (snd cd) r" "writable (fst cd) (snd cd) r" using w r(1) by simp_all
    have "log_file (fst cd) us @ line_of (fst cd) r =
        log_file (fst cd) us @ take (length (line_of (fst cd) r)) (terminated (line_of (fst cd) r))"
      by (simp add: terminated_def)
    then show ?thesis
      using that [of False] 4 r readable Scan_readLog [OF u, of "length (line_of (fst cd) r)"]
      by (simp add: readLog_def)
  qed
qed

text \<open>Healing leaves the log storing the same history, and once it succeeds a clean run of lines.\<close>

lemma heal_stored:
  assumes s: "stored cd rs d"
    and read: "read = \<lparr>read_records = rs, read_lines = map (line_of (fst cd)) rs, read_incomplete = inc\<rparr>"
    and inc: "\<not> inc \<longrightarrow> d = None \<and> rs = [] \<or> d = Some (log_file (fst cd) rs) \<or> missing_newline cd rs d"
    and h: "heal io read d = (d', ok)"
  shows "stored cd rs d'" "ok \<Longrightarrow> opened d' = log_file (fst cd) rs"
    "heal_ok io \<Longrightarrow> heal_wrote io = None \<Longrightarrow> ok"
proof -
  have fine: "stored cd rs x" if "x = d \<or> x = Some (log_file (fst cd) rs)" for x
    using s that unfolding stored_def by blast
  have clean: "EnsureTrailingNewline n (Some (log_file (fst cd) rs)) = (Some (log_file (fst cd) rs), True)" for n
    by (simp only: log_file_def EnsureTrailingNewline_clean)
  have "stored cd rs d' \<and> (ok \<longrightarrow> opened d' = log_file (fst cd) rs) \<and> (heal_ok io \<and> heal_wrote io = None \<longrightarrow> ok)"
  proof (cases inc)
    case True
    then show ?thesis using h fine
      by (auto simp: read heal_def RewriteClean_def log_file_def opened_def split: if_splits)
  next
    case False
    with inc consider "d = None" "rs = []" | "d = Some (log_file (fst cd) rs)" | "missing_newline cd rs d" by blast
    then show ?thesis
    proof cases
      case 1
      then show ?thesis using h False fine
        by (auto simp: read heal_def EnsureTrailingNewline_def opened_def log_file_def)
    next
      case 2
      then show ?thesis using h False fine by (auto simp: read heal_def clean opened_def)
    next
      case 3
      then obtain us r where r: "rs = us @ [r]" "d = Some (log_file (fst cd) us @ line_of (fst cd) r)"
        unfolding missing_newline_def by blast
      have "writable (fst cd) (snd cd) r" using s r(1) by (simp add: stored_def)
      from writable_line(2) [OF this] have l: "line_of (fst cd) r \<noteq> []" "newline \<notin> set (line_of (fst cd) r)"
        by (auto simp: plain_line_def)
      then have "last (log_file (fst cd) us @ line_of (fst cd) r) \<noteq> newline" using last_in_set by fastforce
      then have h': "(d', ok) = (case heal_wrote io of
          None \<Rightarrow> (Some (log_file (fst cd) us @ line_of (fst cd) r @ [newline]), True)
        | Some k \<Rightarrow> (Some (log_file (fst cd) us @ line_of (fst cd) r @ take k [newline]), False))"
        using h False l(1) by (simp add: read heal_def r(2) EnsureTrailingNewline_def split: option.splits)
      have whole: "Some (log_file (fst cd) us @ line_of (fst cd) r @ [newline]) = Some (log_file (fst cd) rs)"
        by (simp add: r(1) log_file_snoc terminated_def)
      show ?thesis
      proof (cases "heal_wrote io")
        case None
        then show ?thesis using h' whole fine [of d'] by (simp add: opened_def)
      next
        case (Some k)
        then have "d' = d \<or> d' = Some (log_file (fst cd) rs)" using h' whole r(2) by (cases k) auto
        then show ?thesis using Some h' fine by auto
      qed
    qed
  qed
  then show "stored cd rs d'" "ok \<Longrightarrow> opened d' = log_file (fst cd) rs"
    "heal_ok io \<Longrightarrow> heal_wrote io = None \<Longrightarrow> ok" by blast+
qed
text \<open>One append of a record to a clean log: the three ways its bytes can end up.\<close>

lemma AppendLine_stored:
  assumes w: "\<forall>r \<in> set (rs @ [r]). writable (fst cd) (snd cd) r" and ok: "is_ok (queue_fold rs)" "is_ok (queue_fold (rs @ [r]))"
    and f: "AppendLine k (log_file (fst cd) rs) (line_of (fst cd) r) = (f, done)"
  shows "stored cd rs (Some f) \<or> stored cd (rs @ [r]) (Some f)" "done \<Longrightarrow> stored cd (rs @ [r]) (Some f)"
proof -
  let ?l = "line_of (fst cd) r" and ?f = "log_file (fst cd) rs"
  have "stored cd (rs @ [r]) (Some (?f @ terminated ?l))"
    using w ok(2) by (auto simp: stored_def log_file_snoc)
  moreover have "stored cd rs (Some (?f @ take n (terminated ?l))) \<or> stored cd (rs @ [r]) (Some (?f @ take n (terminated ?l)))" for n
  proof -
    consider "n < length ?l" | "n = length ?l" | "length ?l < n" by linarith
    then show ?thesis
    proof cases
      case 1
      then have "torn_tail cd rs (Some (?f @ take n (terminated ?l)))"
        unfolding torn_tail_def using w by (intro exI [of _ r] exI [of _ n]) simp
      then show ?thesis using w ok(1) by (simp add: stored_def)
    next
      case 2
      then have "missing_newline cd (rs @ [r]) (Some (?f @ take n (terminated ?l)))"
        by (auto simp: missing_newline_def terminated_def)
      then show ?thesis using w ok(2) by (simp add: stored_def)
    next
      case 3
      then have "take n (terminated ?l) = terminated ?l" by (simp add: terminated_def)
      then show ?thesis using w ok(2) by (auto simp: stored_def log_file_snoc)
    qed
  qed
  ultimately show "stored cd rs (Some f) \<or> stored cd (rs @ [r]) (Some f)"
    "done \<Longrightarrow> stored cd (rs @ [r]) (Some f)"
    using f by (auto simp: AppendLine_def split: option.splits)
qed

lemma commit_record_stored:
  assumes s: "stored cd rs d" "opened d = log_file (fst cd) rs"
    and w: "QRecord_validate rec = Inr () \<Longrightarrow> is_ok (queue_fold (rs @ [stamp now rs rec])) \<Longrightarrow>
      writable (fst cd) (snd cd) (stamp now rs rec)"
    and c: "commit_record cd io now rs rec d = (d', res)"
  shows "stored cd rs d' \<or> stored cd (rs @ [stamp now rs rec]) d'"
    "res = Inr q' \<Longrightarrow> queue_fold (rs @ [stamp now rs rec]) = Inr q' \<and> stored cd (rs @ [stamp now rs rec]) d'"
proof -
  let ?r = "stamp now rs rec"
  have "(stored cd rs d' \<or> stored cd (rs @ [?r]) d') \<and>
    (res = Inr q' \<longrightarrow> queue_fold (rs @ [?r]) = Inr q' \<and> stored cd (rs @ [?r]) d')"
  proof (cases "QRecord_validate rec = Inr () \<and> is_ok (queue_fold (rs @ [?r])) \<and> log_open_ok io")
    case True
    then obtain q where q: "queue_fold (rs @ [?r]) = Inr q" by (auto simp: is_ok_iff)
    have wr: "writable (fst cd) (snd cd) ?r" using w True by blast
    obtain f ok where f: "AppendLine (line_wrote io) (log_file (fst cd) rs) (line_of (fst cd) ?r) = (f, ok)" by fastforce
    have all: "\<forall>r \<in> set (rs @ [?r]). writable (fst cd) (snd cd) r" using s(1) wr by (simp add: stored_def)
    have old: "is_ok (queue_fold rs)" using s(1) by (simp add: stored_def)
    note app = AppendLine_stored [OF all old _ f]
    have "d' = Some f" "res = (if \<not> ok then Inl AppendFailed else if \<not> close_ok io then Inl CloseFailed else Inr q)"
      using c True q f s(2) writable_line(1) [OF wr] by (simp_all add: commit_record_def Let_def)
    then show ?thesis using app q by (auto split: if_splits)
  next
    case False
    then have "d' = d \<and> (\<exists>e. res = Inl e)"
      using c by (auto simp: commit_record_def Let_def is_ok_def split: sum.splits option.splits if_splits)
    then show ?thesis using s(1) by blast
  qed
  then show "stored cd rs d' \<or> stored cd (rs @ [?r]) d'"
    "res = Inr q' \<Longrightarrow> queue_fold (rs @ [?r]) = Inr q' \<and> stored cd (rs @ [?r]) d'" by blast+
qed

lemma queue_of_stored: "queue_fold rs = Inr q \<Longrightarrow> queue_of \<lparr>read_records = rs, read_lines = ls, read_incomplete = i\<rparr> = Inr q"
  by (simp add: queue_of_def)

lemma Queue_Read_stored: "stored cd rs d \<Longrightarrow> queue_fold rs = Inr q \<Longrightarrow> Queue_Read (snd cd) True d = Inr q"
  by (rule readLog_stored [of cd rs d True]) (simp_all add: Queue_Read_def queue_of_def)

lemma stored_queue: "stored cd rs d \<Longrightarrow> \<exists>q. queue_fold rs = Inr q"
  by (simp add: stored_def is_ok_iff)

text \<open>What an append needs of the encoding of the one record it may write.\<close>

definition encodes :: "codec \<Rightarrow> int \<Rightarrow> QRecord list \<Rightarrow> (queue_error, QRecord) result \<Rightarrow> bool" where
  "encodes cd now rs built \<longleftrightarrow>
     (case built of
        Inl _ \<Rightarrow> True
      | Inr rec \<Rightarrow> is_ok (QRecord_validate rec) \<and> is_ok (queue_fold (rs @ [stamp now rs rec])) \<longrightarrow>
          writable (fst cd) (snd cd) (stamp now rs rec))"

lemma append_from_read:
  assumes s: "stored cd rs d" and q: "queue_fold rs = Inr q" and l: "lock_ok io" "log_read_ok io \<or> d = None"
    and a: "Queue_append cd io now build d = (d', res)"
  obtains dh ok where "stored cd rs dh" "ok \<Longrightarrow> opened dh = log_file (fst cd) rs"
    "heal_ok io \<Longrightarrow> heal_wrote io = None \<Longrightarrow> ok"
    "(d', res) = (if \<not> ok then (dh, Inl HealFailed)
      else case build q of Inl e \<Rightarrow> (dh, Inl e) | Inr rec \<Rightarrow> commit_record cd io now rs rec dh)"
proof -
  obtain inc where r: "readLog (snd cd) (log_read_ok io) d =
      Inr \<lparr>read_records = rs, read_lines = map (line_of (fst cd)) rs, read_incomplete = inc\<rparr>"
    "\<not> inc \<longrightarrow> d = None \<and> rs = [] \<or> d = Some (log_file (fst cd) rs) \<or> missing_newline cd rs d"
    using readLog_stored [OF s l(2)] by blast
  define read where "read = \<lparr>read_records = rs, read_lines = map (line_of (fst cd)) rs, read_incomplete = inc\<rparr>"
  obtain dh ok where h: "heal io read d = (dh, ok)" by fastforce
  note heal = heal_stored [OF s read_def r(2) h]
  have "(d', res) = (if \<not> ok then (dh, Inl HealFailed)
      else case build q of Inl e \<Rightarrow> (dh, Inl e) | Inr rec \<Rightarrow> commit_record cd io now rs rec dh)"
    (is "_ = ?out")
  proof -
    have "readLog (snd cd) (log_read_ok io) d = Inr read" "queue_of read = Inr q" "read_records read = rs"
      using r(1) queue_of_stored [OF q] by (simp_all add: read_def)
    then have "Queue_append cd io now build d = ?out"
      using l(1) h by (cases ok; cases "build q") (simp_all add: Queue_append_def)
    then show ?thesis using a by simp
  qed
  from that [OF heal this] show ?thesis .
qed

lemma append_stored:
  assumes "stored cd rs d" "queue_fold rs = Inr q" "encodes cd now rs (build q)"
    and "Queue_append cd io now build d = (d', res)"
  shows "stored cd rs d' \<or> (\<exists>rec. build q = Inr rec \<and> stored cd (rs @ [stamp now rs rec]) d')"
    "\<forall>q'. res = Inr q' \<longrightarrow> (\<exists>rec. build q = Inr rec \<and> stored cd (rs @ [stamp now rs rec]) d' \<and>
       queue_fold (rs @ [stamp now rs rec]) = Inr q')"
proof -
  have "(stored cd rs d' \<or> (\<exists>rec. build q = Inr rec \<and> stored cd (rs @ [stamp now rs rec]) d')) \<and>
    (\<forall>q'. res = Inr q' \<longrightarrow> (\<exists>rec. build q = Inr rec \<and> stored cd (rs @ [stamp now rs rec]) d' \<and>
       queue_fold (rs @ [stamp now rs rec]) = Inr q'))"
  proof (cases "lock_ok io \<and> (log_read_ok io \<or> d = None)")
    case True
    then obtain dh ok where h: "stored cd rs dh" "ok \<Longrightarrow> opened dh = log_file (fst cd) rs"
      and e: "(d', res) = (if \<not> ok then (dh, Inl HealFailed)
        else case build q of Inl e \<Rightarrow> (dh, Inl e) | Inr rec \<Rightarrow> commit_record cd io now rs rec dh)"
      using append_from_read [OF assms(1,2) _ _ assms(4)] by blast
    show ?thesis
    proof (cases "ok \<and> is_ok (build q)")
      case True
      then obtain rec where b: "build q = Inr rec" by (auto simp: is_ok_iff)
      have w: "QRecord_validate rec = Inr () \<Longrightarrow> is_ok (queue_fold (rs @ [stamp now rs rec])) \<Longrightarrow>
          writable (fst cd) (snd cd) (stamp now rs rec)"
        using assms(3) b by (simp add: encodes_def)
      have "commit_record cd io now rs rec dh = (d', res)" using e True b by simp
      from commit_record_stored [OF h(1) h(2) w this] True b show ?thesis by blast
    next
      case False
      then have "d' = dh \<and> (\<exists>e. res = Inl e)" using e by (auto split: sum.splits if_splits)
      then show ?thesis using h(1) by blast
    qed
  next
    case False
    then have "d' = d \<and> (\<exists>e. res = Inl e)" using assms(4)
      by (auto simp: Queue_append_def readLog_def split: if_splits)
    then show ?thesis using assms(1) by blast
  qed
  then show "stored cd rs d' \<or> (\<exists>rec. build q = Inr rec \<and> stored cd (rs @ [stamp now rs rec]) d')"
    "\<forall>q'. res = Inr q' \<longrightarrow> (\<exists>rec. build q = Inr rec \<and> stored cd (rs @ [stamp now rs rec]) d' \<and>
       queue_fold (rs @ [stamp now rs rec]) = Inr q')" by blast+
qed

text \<open>
  C24. Whatever system call of an append fails, and wherever its process dies, the log still stores the
  history it had or that history with the one new record whole; an append that answers has its record
  stored, and answers with the queue that history folds to.
\<close>

theorem append_crash_safe:
  assumes "stored cd rs d" "queue_fold rs = Inr q" "encodes cd now rs (build q)"
    and "Queue_append cd io now build d = (d', res)"
  shows "(stored cd rs d' \<or> (\<exists>rec. build q = Inr rec \<and> stored cd (rs @ [stamp now rs rec]) d')) \<and>
    (\<forall>q'. res = Inr q' \<longrightarrow> (\<exists>rec. build q = Inr rec \<and> stored cd (rs @ [stamp now rs rec]) d' \<and>
       queue_fold (rs @ [stamp now rs rec]) = Inr q'))"
  by (intro conjI append_stored [OF assms])

text \<open>With nothing failing, an append whose record fits the history succeeds, whatever a crash had left
  at the end of the log.\<close>

lemma append_succeeds:
  assumes "stored cd rs d" "queue_fold rs = Inr q" "build q = Inr rec" "is_ok (QRecord_validate rec)"
    and "queue_fold (rs @ [stamp now rs rec]) = Inr q'" "writable (fst cd) (snd cd) (stamp now rs rec)"
  shows "Queue_append cd no_append_faults now build d = (Some (log_file (fst cd) (rs @ [stamp now rs rec])), Inr q')"
proof -
  obtain d' res where a: "Queue_append cd no_append_faults now build d = (d', res)" by fastforce
  have ok: "lock_ok no_append_faults" "log_read_ok no_append_faults \<or> d = None" "heal_ok no_append_faults"
    "heal_wrote no_append_faults = None" by (simp_all add: no_append_faults_def)
  obtain dh where o: "opened dh = log_file (fst cd) rs" and
    "(d', res) = commit_record cd no_append_faults now rs rec dh"
    using append_from_read [OF assms(1,2) ok(1,2) a] ok(3,4) assms(3) by (auto split: if_splits)
  then show ?thesis
    using a assms(4,5) writable_line(1) [OF assms(6)]
    by (auto simp: commit_record_def Let_def no_append_faults_def AppendLine_def log_file_snoc is_ok_iff)
qed

definition one_goal :: QRecord where
  "one_goal = QRecord0\<lparr>QEvent := EventAdded, QID := 1, QGoal := ''g''\<rparr>"

definition one_codec :: codec where
  "one_codec = ((\<lambda>r. Some ''{}''), (\<lambda>l. if l = ''{}'' then Some (stamp 5 [] one_goal) else None))"

lemma one_codec_writable: "writable (fst one_codec) (snd one_codec) (stamp 5 [] one_goal)"
  by (auto simp: writable_def one_codec_def plain_line_def newline_def MaxLineBytes_def strict_prefix_def prefix_Cons)

theorem append_crash_safe_witness:
  "let io = no_append_faults\<lparr>line_wrote := Some 1\<rparr>; d' = fst (Queue_append one_codec io 5 (\<lambda>_. Inr one_goal) None) in
   stored one_codec [] d' \<or> stored one_codec [stamp 5 [] one_goal] d'"
proof -
  define out where "out = Queue_append one_codec (no_append_faults\<lparr>line_wrote := Some 1\<rparr>) 5 (\<lambda>_. Inr one_goal) None"
  have "stored one_codec [] None" by (simp add: stored_def queue_fold_def)
  moreover have "queue_fold [] = Inr Queue0" by (simp add: queue_fold_def fold0_def)
  moreover have "encodes one_codec 5 [] (Inr one_goal)" by (simp add: encodes_def one_codec_writable)
  ultimately have "stored one_codec [] (fst out) \<or>
      (\<exists>rec. (Inr one_goal :: (queue_error, QRecord) result) = Inr rec \<and> stored one_codec ([] @ [stamp 5 [] rec]) (fst out))"
    by (rule append_crash_safe [where build = "\<lambda>_. Inr one_goal" and res = "snd out", THEN conjunct1]) (simp add: out_def)
  then show ?thesis unfolding Let_def out_def by simp
qed

text \<open>
  A note the queue writes has at most 500 runes, and its first 499 are those of the text it cuts,
  whatever bytes the text holds.
\<close>

theorem clip_bounds:
  "length (runes (clip s)) \<le> 500 \<and> take 499 (runes (clip s)) = take 499 (runes s)"
proof (cases "length (runes s) \<le> maxNoteRunes")
  case True
  then show ?thesis by (simp add: clip_def maxNoteRunes_def)
next
  case False
  let ?t = "take 499 (runes s)"
  have v: "\<forall>r \<in> set (?t @ [0x2026]). valid_rune r"
    by (auto simp: valid_rune_def [of "0x2026"] dest: in_set_takeD runes_valid)
  have "clip s = utf8 (?t @ [0x2026])" using False by (simp add: clip_def Let_def maxNoteRunes_def)
  then have "runes (clip s) = ?t @ [0x2026]" using runes_of_utf8 [OF v] by simp
  then show ?thesis using False by (simp add: maxNoteRunes_def)
qed

section \<open>The operations as moves of the history\<close>

text \<open>Everything that writes the log, by name: what it asks to append, and the operation of the store
  that does it.\<close>

datatype queue_op =
    OpAdd string bool | OpRemove int | OpApprove int | OpClaim int string string
  | OpSettle int QState string | OpStarted int | OpStopped QStop string

fun op_build :: "queue_op \<Rightarrow> Queue \<Rightarrow> (queue_error, QRecord) result" where
  "op_build (OpAdd goal skip) q =
     (if TrimSpace goal = [] then Inl EmptyGoal
      else Inr (QRecord0\<lparr>QEvent := EventAdded, QID := next_id q, QGoal := TrimSpace goal, QNoApproval := skip\<rparr>))"
| "op_build (OpRemove i) q = change_build (QRecord0\<lparr>QEvent := EventRemoved, QID := i\<rparr>) ''remove'' (\<lambda>_. None) q"
| "op_build (OpApprove i) q = change_build (QRecord0\<lparr>QEvent := EventApproved, QID := i\<rparr>) ''approve'' (\<lambda>_. None) q"
| "op_build (OpClaim i run dir) q =
     change_build (QRecord0\<lparr>QEvent := EventClaimed, QID := i, QRunID := run, QDir := dir\<rparr>) ''claim'' none_claimed q"
| "op_build (OpSettle i s note) q =
     change_build (QRecord0\<lparr>QEvent := EventSettled, QID := i, QState := s, QNote := note\<rparr>) ''settle'' (\<lambda>_. None) q"
| "op_build (OpStarted pid) q = Inr (QRecord0\<lparr>QEvent := EventWorkerStarted, QPID := pid\<rparr>)"
| "op_build (OpStopped stop note) q = Inr (QRecord0\<lparr>QEvent := EventWorkerStopped, QStop := stop, QNote := clip note\<rparr>)"

fun run_op :: "codec \<Rightarrow> append_faults \<Rightarrow> int \<Rightarrow> queue_op \<Rightarrow> disk \<Rightarrow> disk" where
  "run_op cd io now (OpAdd goal skip) d = fst (Queue_Add cd io now goal skip d)"
| "run_op cd io now (OpRemove i) d = fst (Queue_Remove cd io now i d)"
| "run_op cd io now (OpApprove i) d = fst (Queue_Approve cd io now i d)"
| "run_op cd io now (OpClaim i run dir) d = fst (Queue_claim cd io now i run dir d)"
| "run_op cd io now (OpSettle i s note) d = fst (Queue_settle cd io now i s note d)"
| "run_op cd io now (OpStarted pid) d = fst (workerStarted cd io now pid d)"
| "run_op cd io now (OpStopped stop note) d = fst (workerStopped cd io now stop note d)"

lemma op_build_fun:
  "op_build (OpRemove i) = change_build (QRecord0\<lparr>QEvent := EventRemoved, QID := i\<rparr>) ''remove'' (\<lambda>_. None)"
  "op_build (OpApprove i) = change_build (QRecord0\<lparr>QEvent := EventApproved, QID := i\<rparr>) ''approve'' (\<lambda>_. None)"
  "op_build (OpClaim i run dir) =
     change_build (QRecord0\<lparr>QEvent := EventClaimed, QID := i, QRunID := run, QDir := dir\<rparr>) ''claim'' none_claimed"
  "op_build (OpSettle i s note) =
     change_build (QRecord0\<lparr>QEvent := EventSettled, QID := i, QState := s, QNote := note\<rparr>) ''settle'' (\<lambda>_. None)"
  "op_build (OpStarted pid) = (\<lambda>_. Inr (QRecord0\<lparr>QEvent := EventWorkerStarted, QPID := pid\<rparr>))"
  "op_build (OpStopped stop note) =
     (\<lambda>_. Inr (QRecord0\<lparr>QEvent := EventWorkerStopped, QStop := stop, QNote := clip note\<rparr>))"
  by (simp_all add: fun_eq_iff)

lemma run_op_append:
  "run_op cd io now op d = d \<or> run_op cd io now op d = fst (Queue_append cd io now (op_build op) d)"
proof (cases op)
  case (OpAdd goal skip)
  show ?thesis
  proof (cases "TrimSpace goal = []")
    case True
    then show ?thesis by (simp add: OpAdd Queue_Add_def)
  next
    case False
    then have "op_build op = (\<lambda>q. Inr (QRecord0\<lparr>QEvent := EventAdded, QID := next_id q, QGoal := TrimSpace goal, QNoApproval := skip\<rparr>))"
      by (intro ext) (simp add: OpAdd)
    with False show ?thesis by (simp add: OpAdd Queue_Add_def Let_def)
  qed
qed (simp_all only: run_op.simps op_build_fun Queue_Remove_def Queue_Approve_def Queue_claim_def Queue_settle_def
  change_def answer_def fst_conv workerStarted_def workerStopped_def QRecord.simps QRecord0_def simp_thms)

text \<open>The history a log stores, as reading it finds it.\<close>

definition history_of :: "codec \<Rightarrow> disk \<Rightarrow> QRecord list" where
  "history_of cd d = (case readLog (snd cd) True d of Inl _ \<Rightarrow> [] | Inr read \<Rightarrow> read_records read)"

lemma history_of_stored [simp]: "stored cd rs d \<Longrightarrow> history_of cd d = rs"
  by (rule readLog_stored [of cd rs d True]) (simp_all add: history_of_def)

text \<open>One operation, whatever fails under it, is one move of the history or none.\<close>

lemma run_op_moves:
  assumes "stored cd rs d" "queue_fold rs = Inr q" "encodes cd now rs (op_build op q)"
  shows "stored cd rs (run_op cd io now op d) \<or>
    (\<exists>rec. op_build op q = Inr rec \<and> stored cd (rs @ [stamp now rs rec]) (run_op cd io now op d))"
proof -
  obtain d' res where a: "Queue_append cd io now (op_build op) d = (d', res)" by fastforce
  show ?thesis
    using run_op_append [of cd io now op d] append_stored(1) [OF assms a] assms(1) a by auto
qed

section \<open>One goal in hand\<close>

definition claimed_goals :: "QRecord list \<Rightarrow> int set" where
  "claimed_goals rs = {i. goal_history (about i rs) StateClaimed}"

text \<open>What the store's operations keep of the claims of a history: each names a copy under the work
  root for its run, no run is named twice, and at most one goal is claimed and not yet settled.\<close>

definition sound_claims :: "string \<Rightarrow> QRecord list \<Rightarrow> bool" where
  "sound_claims wroot rs \<longleftrightarrow>
     (\<forall>r \<in> set (claims rs). QDir r = join_path wroot (QRunID r)) \<and> distinct (map QRunID (claims rs)) \<and>
     (\<forall>i \<in> claimed_goals rs. \<forall>j \<in> claimed_goals rs. i = j)"

lemma sound_claims_Nil [simp]: "sound_claims wroot []"
  using goal_history_ne [of "[]"] by (auto simp: sound_claims_def claimed_goals_def)

lemma stamp_fields [simp]:
  "QEvent (stamp now rs r) = QEvent r" "QID (stamp now rs r) = QID r" "QState (stamp now rs r) = QState r"
  "QRunID (stamp now rs r) = QRunID r" "QDir (stamp now rs r) = QDir r" "QSeq (stamp now rs r) = Suc (length rs)"
  by (simp_all add: stamp_def)

lemma change_build_Inr:
  "change_build rec verb check q = Inr rec' \<Longrightarrow> rec' = rec \<and> check q = None \<and> (\<exists>e. Queue_Entry q (QID rec) = Some e \<and> is_ok (Entry_apply rec e))"
  by (auto simp: change_build_def split: option.splits sum.splits)

lemma op_build_event:
  assumes "op_build op q = Inr rec"
  shows "QEvent rec = EventClaimed \<longleftrightarrow> (\<exists>i run dir. op = OpClaim i run dir)"
    "op = OpClaim i run dir \<Longrightarrow> QID rec = i \<and> QRunID rec = run \<and> QDir rec = dir \<and> none_claimed q = None"
  using assms by (cases op; auto dest!: change_build_Inr simp: QRecord0_def split: if_splits)+

lemma claimed_goals_extend:
  assumes "queue_history (rs @ [r])" "i \<in> claimed_goals (rs @ [r])"
  shows "i \<in> claimed_goals rs \<or> QEvent r = EventClaimed \<and> i = QID r"
proof (cases "namesAGoal (QEvent r) \<and> QID r = i")
  case False
  then show ?thesis using assms(2) by (auto simp: claimed_goals_def)
next
  case True
  then have h: "goal_history (about i rs @ [r]) StateClaimed" using assms(2) by (simp add: claimed_goals_def)
  have v: "is_ok (QRecord_validate r)" using assms(1) by (simp add: queue_history_def)
  have "QEvent r = EventClaimed"
  proof (cases "about i rs = []")
    case True
    then show ?thesis using h by (simp add: goal_history_single)
  next
    case False
    then obtain t where "goal_move r t = Some StateClaimed" using h goal_history_snoc_iff by blast
    then show ?thesis using v
      by (auto simp: goal_move_def QRecord_validate_def fields_validate_def bind_result_def split: QEvent.splits if_splits)
  qed
  then show ?thesis using True by simp
qed

lemma op_sound:
  assumes q: "queue_fold rs = Inr q" and b: "op_build op q = Inr rec"
    and ok: "is_ok (queue_fold (rs @ [stamp now rs rec]))" and s: "sound_claims wroot rs"
    and claim: "\<And>i run dir. op = OpClaim i run dir \<Longrightarrow> dir = join_path wroot run \<and> run \<notin> QRunID ` set (claims rs)"
  shows "sound_claims wroot (rs @ [stamp now rs rec])"
proof -
  obtain q' where "queue_fold (rs @ [stamp now rs rec]) = Inr q'" using ok by (auto simp: is_ok_iff)
  then have h: "queue_history (rs @ [stamp now rs rec])" by (rule queue_fold_state(3))
  show ?thesis
  proof (cases "\<exists>i run dir. op = OpClaim i run dir")
    case True
    then obtain i run dir where op: "op = OpClaim i run dir" by blast
    note rec = op_build_event(2) [OF b op]
    have ev: "QEvent rec = EventClaimed" using op_build_event(1) [OF b] op by blast
    have "claimed_goals rs = {}"
    proof (rule ccontr)
      assume "claimed_goals rs \<noteq> {}"
      then obtain j where "goal_history (about j rs) StateClaimed" by (auto simp: claimed_goals_def)
      then obtain e where "e \<in> set (Entries q)" "EState e = StateClaimed" using queue_fold_state(2) [OF q] by blast
      moreover have "\<forall>e \<in> set (Entries q). EState e \<noteq> StateClaimed"
        using rec by (simp add: none_claimed_def find_None_iff)
      ultimately show False by blast
    qed
    then have "claimed_goals (rs @ [stamp now rs rec]) \<subseteq> {i}"
      using claimed_goals_extend [OF h] rec by auto
    then have "\<forall>i \<in> claimed_goals (rs @ [stamp now rs rec]). \<forall>j \<in> claimed_goals (rs @ [stamp now rs rec]). i = j" by blast
    then show ?thesis using s ev rec claim [OF op] unfolding sound_claims_def by simp
  next
    case False
    then have "QEvent rec \<noteq> EventClaimed" using op_build_event(1) [OF b] by blast
    then have "claimed_goals (rs @ [stamp now rs rec]) \<subseteq> claimed_goals rs" "claims (rs @ [stamp now rs rec]) = claims rs"
      using claimed_goals_extend [OF h] by auto
    moreover have "\<forall>i \<in> claimed_goals rs. \<forall>j \<in> claimed_goals rs. i = j" using s by (simp add: sound_claims_def)
    ultimately have "\<forall>i \<in> claimed_goals (rs @ [stamp now rs rec]). \<forall>j \<in> claimed_goals (rs @ [stamp now rs rec]). i = j"
      "claims (rs @ [stamp now rs rec]) = claims rs"
      by (meson subsetD)+
    then show ?thesis using s unfolding sound_claims_def by simp
  qed
qed

text \<open>The record an operation asks for at a history, encodable.\<close>

definition encodable :: "codec \<Rightarrow> int \<Rightarrow> queue_op \<Rightarrow> disk \<Rightarrow> bool" where
  "encodable cd now op d =
     (case queue_fold (history_of cd d) of
        Inl _ \<Rightarrow> True
      | Inr q \<Rightarrow> encodes cd now (history_of cd d) (op_build op q))"

definition sound_log :: "codec \<Rightarrow> string \<Rightarrow> disk \<Rightarrow> bool" where
  "sound_log cd wroot d \<longleftrightarrow> stored cd (history_of cd d) d \<and> sound_claims wroot (history_of cd d)"

lemma sound_logI: "stored cd rs d \<Longrightarrow> sound_claims wroot rs \<Longrightarrow> sound_log cd wroot d"
  by (simp add: sound_log_def)

text \<open>An operation on a sound log leaves it sound; and what it adds to the history is its record or
  nothing, whatever fails.\<close>

definition claims_fresh :: "codec \<Rightarrow> string \<Rightarrow> queue_op \<Rightarrow> disk \<Rightarrow> bool" where
  "claims_fresh cd wroot op d \<longleftrightarrow> (\<forall>i run dir. op = OpClaim i run dir \<longrightarrow>
      dir = join_path wroot run \<and> run \<notin> QRunID ` set (claims (history_of cd d)))"

lemma run_op_sound:
  assumes s: "sound_log cd wroot d" and e: "encodable cd now op d" and claim: "claims_fresh cd wroot op d"
  shows "sound_log cd wroot (run_op cd io now op d)"
    "history_of cd (run_op cd io now op d) = history_of cd d \<or>
     (\<exists>q rec. queue_fold (history_of cd d) = Inr q \<and> op_build op q = Inr rec \<and>
        history_of cd (run_op cd io now op d) = history_of cd d @ [stamp now (history_of cd d) rec])"
proof -
  let ?rs = "history_of cd d" and ?d = "run_op cd io now op d"
  have st: "stored cd ?rs d" and so: "sound_claims wroot ?rs" using s by (simp_all add: sound_log_def)
  obtain q where q: "queue_fold ?rs = Inr q" using stored_queue [OF st] by blast
  have "encodes cd now ?rs (op_build op q)" using e q by (simp add: encodable_def)
  from run_op_moves [OF st q this] consider "stored cd ?rs ?d"
    | rec where "op_build op q = Inr rec" "stored cd (?rs @ [stamp now ?rs rec]) ?d" by blast
  then have "sound_log cd wroot ?d \<and> (history_of cd ?d = ?rs \<or>
     (\<exists>q rec. queue_fold ?rs = Inr q \<and> op_build op q = Inr rec \<and> history_of cd ?d = ?rs @ [stamp now ?rs rec]))"
  proof cases
    case 1
    then show ?thesis using so sound_logI by simp
  next
    case (2 rec)
    then have "is_ok (queue_fold (?rs @ [stamp now ?rs rec]))" by (simp add: stored_def)
    from op_sound [OF q 2(1) this so] claim have "sound_claims wroot (?rs @ [stamp now ?rs rec])"
      by (simp add: claims_fresh_def)
    with 2 q show ?thesis using sound_logI by fastforce
  qed
  then show "sound_log cd wroot ?d" "history_of cd ?d = ?rs \<or>
     (\<exists>q rec. queue_fold ?rs = Inr q \<and> op_build op q = Inr rec \<and> history_of cd ?d = ?rs @ [stamp now ?rs rec])"
    by blast+
qed

end
