(* ===== verification/Queue_Worker.thy ===== *)
theory Queue_Worker
  imports Queue_Log
begin

text \<open>
  internal/queue/worker.go: the worker that takes goals off the queue, one step at a time, each step
  from what is on disk. The copier and the driver are the interfaces of that file: records of functions
  over the state \<open>'w\<close> of the disk they work on (copies and runs). What a step meets from outside it is
  an \<open>env\<close>: the outcomes of its system calls, the clock, the next run id, cancellation, and what other
  processes do to the log between the worker's read and its append.
\<close>

section \<open>The interfaces\<close>

record Outcome =
  OInterrupted :: bool
  OState :: QState
  ONote :: string

record 'w Driver =
  Observe :: "QEntry \<Rightarrow> 'w \<Rightarrow> (string, RunView) result"
  DCreate :: "QEntry \<Rightarrow> 'w \<Rightarrow> 'w \<times> (string, unit) result"
  Drive :: "QEntry \<Rightarrow> 'w \<Rightarrow> 'w \<times> (string, Outcome) result"

record 'w Copier =
  CopyCreate :: "string \<Rightarrow> string \<Rightarrow> 'w \<Rightarrow> 'w \<times> (string, unit) result"
  Reclaim :: "string \<Rightarrow> 'w \<Rightarrow> 'w \<times> (string, unit) result"

record 'w Worker =
  WStore :: Store
  WSource :: string
  WCopier :: "'w Copier"
  WDriver :: "'w Driver"

record Report =
  Settled :: "QEntry list"
  RStop :: QStop
  RCutOff :: bool

datatype step_error =
    StoreFailed queue_error | CannotReadRun int string | RunIsThere int | CannotClear int string
  | CannotCopy int string | CannotMake int string | CannotDrive int string | NoRunID string

section \<open>One step\<close>

text \<open>A command of another process: its operation, what fails under it, and when.\<close>

record command =
  cmd_op :: queue_op
  cmd_io :: append_faults
  cmd_now :: int

record env =
  env_cancelled :: bool
  env_readable :: bool
  env_between :: "command list"
  env_newRunID :: "(string, string) result"
  env_io :: append_faults
  env_now :: int
  env_cancelled_by_end :: bool

record 'w world =
  w_log :: disk
  w_disk :: 'w

definition run_command :: "codec \<Rightarrow> command \<Rightarrow> disk \<Rightarrow> disk" where
  "run_command cd c d = run_op cd (cmd_io c) (cmd_now c) (cmd_op c) d"

fun observe_loop :: "'w Driver \<Rightarrow> 'w \<Rightarrow> QEntry list \<Rightarrow> (int \<Rightarrow> RunView option) \<Rightarrow>
    (step_error, int \<Rightarrow> RunView option) result" where
  "observe_loop D w [] runs = Inr runs"
| "observe_loop D w (e # es) runs =
     (if EState e \<noteq> StateClaimed \<and> EState e \<noteq> StateApproved then observe_loop D w es runs
      else case Observe D e w of
        Inl msg \<Rightarrow> Inl (CannotReadRun (EID e) msg)
      | Inr v \<Rightarrow> observe_loop D w es (runs(EID e \<mapsto> v)))"

definition observe :: "'w Driver \<Rightarrow> 'w \<Rightarrow> Queue \<Rightarrow> (step_error, int \<Rightarrow> RunView option) result" where
  "observe D w q = observe_loop D w (Entries q) Map.empty"

definition step_decide :: "codec \<Rightarrow> 'w Worker \<Rightarrow> env \<Rightarrow> 'w world \<Rightarrow> (step_error, Decision) result" where
  "step_decide cd W ev w =
     (case Queue_Read (snd cd) (env_readable ev) (w_log w) of
        Inl e \<Rightarrow> Inl (StoreFailed e)
      | Inr q \<Rightarrow> bind_result (observe (WDriver W) (w_disk w) q) (\<lambda>runs. Inr (QNext q runs)))"

definition worker_claim :: "codec \<Rightarrow> 'w Worker \<Rightarrow> env \<Rightarrow> QEntry \<Rightarrow> 'w world \<Rightarrow> 'w world \<times> (step_error, unit) result" where
  "worker_claim cd W ev e w =
     (case env_newRunID ev of
        Inl msg \<Rightarrow> (w, Inl (NoRunID msg))
      | Inr runID \<Rightarrow>
          (case Queue_claim cd (env_io ev) (env_now ev) (EID e) runID (join_path (WorkRoot (WStore W)) runID) (w_log w) of
             (d, res) \<Rightarrow> (w\<lparr>w_log := d\<rparr>, case res of Inl err \<Rightarrow> Inl (StoreFailed err) | Inr _ \<Rightarrow> Inr ())))"

definition worker_create :: "'w Worker \<Rightarrow> QEntry \<Rightarrow> 'w \<Rightarrow> 'w \<times> (step_error, unit) result" where
  "worker_create W e w =
     (case Observe (WDriver W) e w of
        Inl msg \<Rightarrow> (w, Inl (CannotReadRun (EID e) msg))
      | Inr view \<Rightarrow>
          if RunExists view then (w, Inl (RunIsThere (EID e)))
          else case Reclaim (WCopier W) (ERunID e) w of
            (w, Inl msg) \<Rightarrow> (w, Inl (CannotClear (EID e) msg))
          | (w, Inr _) \<Rightarrow>
              (case CopyCreate (WCopier W) (WSource W) (ERunID e) w of
                 (w, Inl msg) \<Rightarrow> (w, Inl (CannotCopy (EID e) msg))
               | (w, Inr _) \<Rightarrow>
                   (case DCreate (WDriver W) e w of
                      (w, Inl msg) \<Rightarrow> (w, Inl (CannotMake (EID e) msg))
                    | (w, Inr _) \<Rightarrow> (w, Inr ()))))"

definition worker_settle :: "codec \<Rightarrow> env \<Rightarrow> Report \<Rightarrow> QEntry \<Rightarrow> QState \<Rightarrow> string \<Rightarrow> 'w world \<Rightarrow>
    'w world \<times> Report \<times> (step_error, unit) result" where
  "worker_settle cd ev rep e s note w =
     (case Queue_settle cd (env_io ev) (env_now ev) (EID e) s note (w_log w) of
        (d, Inl err) \<Rightarrow> (w\<lparr>w_log := d\<rparr>, rep, Inl (StoreFailed err))
      | (d, Inr settled) \<Rightarrow> (w\<lparr>w_log := d\<rparr>, rep\<lparr>Settled := Settled rep @ [settled]\<rparr>, Inr ()))"

text \<open>The answer of a step: an error, to go on (\<open>None\<close>), or that the worker is to stop, and why.\<close>

type_synonym 'w stepped = "'w world \<times> Report \<times> (step_error, QStop option) result"

definition go_on :: "(step_error, unit) result \<Rightarrow> (step_error, QStop option) result" where
  "go_on r = bind_result r (\<lambda>_. Inr None)"

definition step_act :: "codec \<Rightarrow> 'w Worker \<Rightarrow> env \<Rightarrow> Report \<Rightarrow> Decision \<Rightarrow> 'w world \<Rightarrow> 'w stepped" where
  "step_act cd W ev rep d w =
     (case DAction d of
        ActionDone \<Rightarrow> (w, rep, Inr (Some StopDrained))
      | ActionClaim \<Rightarrow>
          (case worker_claim cd W ev (DEntry d) w of (w, r) \<Rightarrow> (w, rep, go_on r))
      | ActionCreate \<Rightarrow>
          (case worker_create W (DEntry d) (w_disk w) of (v, r) \<Rightarrow> (w\<lparr>w_disk := v\<rparr>, rep, go_on r))
      | ActionSettle \<Rightarrow>
          (case worker_settle cd ev rep (DEntry d) (DSettle d) (DNote d) w of (w, rep, r) \<Rightarrow> (w, rep, go_on r))
      | ActionDrive \<Rightarrow>
          (case Drive (WDriver W) (DEntry d) (w_disk w) of
             (v, Inl msg) \<Rightarrow> (w\<lparr>w_disk := v\<rparr>, rep, Inl (CannotDrive (EID (DEntry d)) msg))
           | (v, Inr out) \<Rightarrow>
               if OInterrupted out then (w\<lparr>w_disk := v\<rparr>, rep, Inr (Some StopInterrupted))
               else (case worker_settle cd ev rep (DEntry d) (OState out) (ONote out) (w\<lparr>w_disk := v\<rparr>) of
                  (w, rep, r) \<Rightarrow> (w, rep, go_on r))))"

definition others :: "codec \<Rightarrow> env \<Rightarrow> 'w world \<Rightarrow> 'w world" where
  "others cd ev w = w\<lparr>w_log := fold (run_command cd) (env_between ev) (w_log w)\<rparr>"

definition worker_step :: "codec \<Rightarrow> 'w Worker \<Rightarrow> env \<Rightarrow> Report \<Rightarrow> 'w world \<Rightarrow> 'w stepped" where
  "worker_step cd W ev rep w =
     (case step_decide cd W ev w of
        Inl e \<Rightarrow> (others cd ev w, rep, Inl e)
      | Inr d \<Rightarrow> step_act cd W ev rep d (others cd ev w))"

section \<open>Working through the queue\<close>

text \<open>What \<open>Work\<close> answers: the report, and the errors joined into the one it returns.\<close>

type_synonym 'w worked = "'w world \<times> Report \<times> step_error list"

definition worker_end :: "codec \<Rightarrow> env \<Rightarrow> Report \<Rightarrow> QStop \<Rightarrow> string \<Rightarrow> 'w world \<Rightarrow> 'w worked" where
  "worker_end cd ev rep stop note w =
     (case workerStopped cd (env_io ev) (env_now ev) stop note (w_log w) of
        (d, res) \<Rightarrow> (w\<lparr>w_log := d\<rparr>, rep\<lparr>RStop := stop\<rparr>, case res of Inl e \<Rightarrow> [StoreFailed e] | Inr _ \<Rightarrow> []))"

definition worker_fail :: "codec \<Rightarrow> (step_error \<Rightarrow> string) \<Rightarrow> env \<Rightarrow> Report \<Rightarrow> step_error \<Rightarrow> 'w world \<Rightarrow> 'w worked" where
  "worker_fail cd text ev rep cause w =
     (case worker_end cd ev rep StopFailed (text cause) w of (w, rep, errs) \<Rightarrow> (w, rep, cause # errs))"

text \<open>The loop of \<open>Work\<close>: \<open>evs k\<close> is what its \<open>k\<close>-th step meets. It ends when a step says so, so the
  model counts the steps it may take: \<open>None\<close> is a worker still working after that many.\<close>

fun work_loop :: "nat \<Rightarrow> codec \<Rightarrow> 'w Worker \<Rightarrow> (step_error \<Rightarrow> string) \<Rightarrow> (nat \<Rightarrow> env) \<Rightarrow> nat \<Rightarrow> Report \<Rightarrow> 'w world \<Rightarrow>
    'w worked option" where
  "work_loop 0 cd W text evs k rep w = None"
| "work_loop (Suc n) cd W text evs k rep w =
     (let ev = evs k in
      if env_cancelled ev then Some (worker_end cd ev rep StopInterrupted [] w)
      else case worker_step cd W ev rep w of
        (w, rep, Inl e) \<Rightarrow>
          if env_cancelled_by_end ev then Some (worker_end cd ev rep StopInterrupted [] w)
          else Some (worker_fail cd text ev rep e w)
      | (w, rep, Inr (Some stop)) \<Rightarrow> Some (worker_end cd ev rep stop [] w)
      | (w, rep, Inr None) \<Rightarrow> work_loop n cd W text evs (Suc k) rep w)"

datatype work_error = WorkerActive int | LockNotTaken | WorkFailed step_error

text \<open>\<open>lock\<close> is what taking the worker lock answered: taken, held by a process, or failed.\<close>

definition Work :: "nat \<Rightarrow> codec \<Rightarrow> 'w Worker \<Rightarrow> (step_error \<Rightarrow> string) \<Rightarrow> (work_error, unit) result \<Rightarrow> int \<Rightarrow>
    (nat \<Rightarrow> env) \<Rightarrow> 'w world \<Rightarrow> ('w world \<times> Report \<times> work_error list) option" where
  "Work n cd W text lock pid evs w =
     (let rep = \<lparr>Settled = [], RStop = StopUnknown, RCutOff = False\<rparr>; ev = evs 0 in
      case lock of
        Inl e \<Rightarrow> Some (w, rep, [e])
      | Inr _ \<Rightarrow>
          (case Queue_Read (snd cd) (env_readable ev) (w_log w) of
             Inl e \<Rightarrow> Some (w, rep, [WorkFailed (StoreFailed e)])
           | Inr before \<Rightarrow>
               let rep = rep\<lparr>RCutOff := StartAt (LastStart before) \<noteq> 0 \<and> \<not> Ended (LastStart before)\<rparr> in
               (case workerStarted cd (env_io ev) (env_now ev) pid (w_log w) of
                  (d, Inl e) \<Rightarrow> Some (w\<lparr>w_log := d\<rparr>, rep, [WorkFailed (StoreFailed e)])
                | (d, Inr _) \<Rightarrow>
                    map_option (\<lambda>(w, rep, errs). (w, rep, map WorkFailed errs))
                      (work_loop n cd W text evs 1 rep (w\<lparr>w_log := d\<rparr>)))))"

section \<open>The worker beside other processes\<close>

text \<open>What other processes write: everything but claims and settles, which are the worker's.\<close>

fun outside :: "queue_op \<Rightarrow> bool" where
  "outside (OpClaim _ _ _) = False"
| "outside (OpSettle _ _ _) = False"
| "outside _ = True"

fun commands_ok :: "codec \<Rightarrow> command list \<Rightarrow> disk \<Rightarrow> bool" where
  "commands_ok cd [] d = True"
| "commands_ok cd (c # cs) d \<longleftrightarrow> outside (cmd_op c) \<and> encodable cd (cmd_now c) (cmd_op c) d \<and>
     commands_ok cd cs (run_command cd c d)"

text \<open>The operation of the store a decision comes to, when it comes to one.\<close>

definition act_op :: "'w Worker \<Rightarrow> env \<Rightarrow> Decision \<Rightarrow> 'w \<Rightarrow> queue_op option" where
  "act_op W ev d v =
     (case DAction d of
        ActionClaim \<Rightarrow> (case env_newRunID ev of Inl _ \<Rightarrow> None
          | Inr i \<Rightarrow> Some (OpClaim (EID (DEntry d)) i (join_path (WorkRoot (WStore W)) i)))
      | ActionSettle \<Rightarrow> Some (OpSettle (EID (DEntry d)) (DSettle d) (DNote d))
      | ActionDrive \<Rightarrow> (case snd (Drive (WDriver W) (DEntry d) v) of Inl _ \<Rightarrow> None
          | Inr out \<Rightarrow> if OInterrupted out then None else Some (OpSettle (EID (DEntry d)) (OState out) (ONote out)))
      | _ \<Rightarrow> None)"

lemma step_act_log:
  "w_log (fst (step_act cd W ev rep d w)) =
     (case act_op W ev d (w_disk w) of None \<Rightarrow> w_log w | Some op \<Rightarrow> run_op cd (env_io ev) (env_now ev) op (w_log w))"
  by (cases "DAction d")
    (auto simp: step_act_def act_op_def worker_claim_def worker_settle_def split: prod.splits sum.splits)

definition act_disk :: "'w Worker \<Rightarrow> Decision \<Rightarrow> 'w \<Rightarrow> 'w" where
  "act_disk W d v =
     (case DAction d of
        ActionCreate \<Rightarrow> fst (worker_create W (DEntry d) v)
      | ActionDrive \<Rightarrow> fst (Drive (WDriver W) (DEntry d) v)
      | _ \<Rightarrow> v)"

lemma step_act_disk: "w_disk (fst (step_act cd W ev rep d w)) = act_disk W d (w_disk w)"
  by (cases "DAction d")
    (auto simp: step_act_def act_disk_def worker_claim_def worker_settle_def split: prod.splits sum.splits)

lemma others_simps [simp]:
  "w_disk (others cd ev w) = w_disk w" "w_log (others cd ev w) = fold (run_command cd) (env_between ev) (w_log w)"
  by (simp_all add: others_def)

text \<open>What a step relies on of its surroundings: the commands beside it are other processes', each
  record written has an encoding, and a new run id names no run there is or was to be.\<close>

definition env_ok :: "codec \<Rightarrow> 'w Worker \<Rightarrow> ('w \<Rightarrow> string \<Rightarrow> string \<Rightarrow> 'r option) \<Rightarrow> env \<Rightarrow> 'w world \<Rightarrow> bool" where
  "env_ok cd W run_of ev w \<longleftrightarrow>
     commands_ok cd (env_between ev) (w_log w) \<and>
     (case step_decide cd W ev w of Inl _ \<Rightarrow> True
      | Inr d \<Rightarrow> (case act_op W ev d (w_disk w) of None \<Rightarrow> True
          | Some op \<Rightarrow> encodable cd (env_now ev) op (w_log (others cd ev w)))) \<and>
     (\<forall>i. env_newRunID ev = Inr i \<longrightarrow>
        i \<notin> QRunID ` set (claims (history_of cd (w_log (others cd ev w)))) \<and> (\<forall>dir. run_of (w_disk w) dir i = None))"

text \<open>
  The worlds a queue can come to: nothing yet; a command of another process; a step of a worker,
  with any copier and driver of the family \<open>W\<close> (so that each step meets its own failures); and
  anything that happens to the runs there are short of making or deleting one. A worker that is
  killed leaves one of these worlds, and a new one starts from it.
\<close>

inductive reachable :: "codec \<Rightarrow> ('x \<Rightarrow> 'w Worker) \<Rightarrow> ('w \<Rightarrow> string \<Rightarrow> string \<Rightarrow> 'r option) \<Rightarrow> 'w world \<Rightarrow> bool"
  for cd W run_of where
  nothing: "w_log w = None \<Longrightarrow> (\<And>dir i. run_of (w_disk w) dir i = None) \<Longrightarrow> reachable cd W run_of w"
| outside: "reachable cd W run_of w \<Longrightarrow> outside (cmd_op c) \<Longrightarrow> encodable cd (cmd_now c) (cmd_op c) (w_log w) \<Longrightarrow>
    reachable cd W run_of (w\<lparr>w_log := run_command cd c (w_log w)\<rparr>)"
| worker: "reachable cd W run_of w \<Longrightarrow> env_ok cd (W x) run_of ev w \<Longrightarrow>
    reachable cd W run_of (fst (worker_step cd (W x) ev rep w))"
| runs: "reachable cd W run_of w \<Longrightarrow> (\<And>dir i. run_of v dir i = None \<longleftrightarrow> run_of (w_disk w) dir i = None) \<Longrightarrow>
    reachable cd W run_of (w\<lparr>w_disk := v\<rparr>)"

text \<open>Commands of other processes: the history grows, and a goal in hand stays as it is.\<close>

definition grows :: "codec \<Rightarrow> disk \<Rightarrow> disk \<Rightarrow> bool" where
  "grows cd d d' \<longleftrightarrow> set (claims (history_of cd d)) \<subseteq> set (claims (history_of cd d'))"

lemma run_op_grows:
  assumes "sound_log cd wroot d" "encodable cd now op d" "claims_fresh cd wroot op d"
  shows "sound_log cd wroot (run_op cd io now op d)" "grows cd d (run_op cd io now op d)"
  using run_op_sound [OF assms, of io] by (auto simp: grows_def)

definition holds :: "codec \<Rightarrow> disk \<Rightarrow> QEntry \<Rightarrow> bool" where
  "holds cd d e \<longleftrightarrow> (\<exists>q. queue_fold (history_of cd d) = Inr q \<and> e \<in> set (Entries q))"

text \<open>A record about another goal, or one no goal in hand can be moved by, leaves the entry alone.\<close>

lemma fold_step_same_entry:
  assumes a: "fold_agrees rs s" and st: "fold_step r s = Inr s'" and e: "e \<in> set (Entries (folded s))"
    and h: "in_hand (EState e)" and r: "QEvent r \<noteq> EventClaimed" "QEvent r \<noteq> EventSettled"
  shows "e \<in> set (Entries (folded s'))"
proof -
  have v: "is_ok (QRecord_validate r)" and ev: "fold_event r (s\<lparr>fold_prevSeq := QSeq r\<rparr>) = Inr s'"
    using fold_step_Inr [OF st] by blast+
  from v show ?thesis
  proof (cases rule: event_cases)
    case 1
    then show ?thesis using ev e by (auto simp: fold_event_def Let_def split: if_splits)
  next
    case 2
    then obtain k e' where k: "fold_index s (QID r) = Some k" and e': "Entry_apply r (Entries (folded s) ! k) = Inr e'"
      and es: "Entries (folded s') = (Entries (folded s))[k := e']"
      using ev by (auto simp: fold_event_moves split: option.splits sum.splits)
    have kl: "k < length (Entries (folded s))" using agrees_entry [OF a k] by blast
    have "goal_move r (EState (Entries (folded s) ! k)) \<noteq> None" using Entry_apply_move(2) [OF e'] by simp
    then have "\<not> in_hand (EState (Entries (folded s) ! k))"
      using r by (auto simp: goal_move_def in_hand_def split: QEvent.splits if_splits)
    then have "Entries (folded s) ! k \<noteq> e" using h by auto
    then show ?thesis using e kl unfolding es
      by (metis in_set_conv_nth length_list_update nth_list_update_neq)
  qed (use ev e in \<open>auto simp: fold_event_def Let_def started_def stopped_def\<close>)
qed

lemma queue_fold_snoc:
  assumes "queue_fold rs = Inr q" "queue_fold (rs @ [r]) = Inr q'"
  obtains s s' where "fold_agrees rs s" "folded s = q" "fold_step r s = Inr s'" "folded s' = q'"
proof -
  obtain s where s: "replay fold_step rs fold0 = Inr s" "fold_agrees rs s" "q = folded s"
    using queue_fold_agrees [OF assms(1)] by blast
  moreover obtain s' where "fold_step r s = Inr s'" "q' = folded s'"
    using assms(2) s(1) by (auto simp: queue_fold_def bind_result_Inr_iff)
  ultimately show ?thesis using that by blast
qed

lemma outside_event: "outside op \<Longrightarrow> op_build op q = Inr rec \<Longrightarrow> QEvent rec \<noteq> EventClaimed \<and> QEvent rec \<noteq> EventSettled"
  by (cases op) (auto dest!: change_build_Inr simp: QRecord0_def split: if_splits)

lemma sound_log_queue: "sound_log cd wroot d \<Longrightarrow> \<exists>q. queue_fold (history_of cd d) = Inr q"
  unfolding sound_log_def using stored_queue by blast

lemma command_step:
  assumes s: "sound_log cd wroot d" and c: "outside (cmd_op c)" "encodable cd (cmd_now c) (cmd_op c) d"
  shows "sound_log cd wroot (run_command cd c d)" "grows cd d (run_command cd c d)"
    "holds cd d e \<Longrightarrow> in_hand (EState e) \<Longrightarrow> holds cd (run_command cd c d) e"
proof -
  have nc: "claims_fresh cd wroot (cmd_op c) d" using c(1) by (auto simp: claims_fresh_def)
  let ?d = "run_command cd c d"
  have "run_op cd (cmd_io c) (cmd_now c) (cmd_op c) d = ?d" by (simp add: run_command_def)
  note run = run_op_sound [OF s c(2) nc, of "cmd_io c", unfolded this]
  show sl: "sound_log cd wroot ?d" "grows cd d ?d"
    using run_op_grows [OF s c(2) nc, of "cmd_io c"] by (simp_all add: run_command_def)
  assume e: "holds cd d e" "in_hand (EState e)"
  then obtain q where q: "queue_fold (history_of cd d) = Inr q" "e \<in> set (Entries q)" by (auto simp: holds_def)
  obtain q' where q': "queue_fold (history_of cd ?d) = Inr q'" using sound_log_queue [OF sl(1)] by blast
  from run(2) show "holds cd ?d e"
  proof (elim disjE exE conjE)
    assume "history_of cd ?d = history_of cd d"
    then show ?thesis using e(1) by (simp add: holds_def)
  next
    fix q0 rec
    assume b: "queue_fold (history_of cd d) = Inr q0" "op_build (cmd_op c) q0 = Inr rec"
      and hd: "history_of cd ?d = history_of cd d @ [stamp (cmd_now c) (history_of cd d) rec]"
    have r: "QEvent rec \<noteq> EventClaimed" "QEvent rec \<noteq> EventSettled" using outside_event [OF c(1) b(2)] by simp_all
    obtain s1 s2 where "fold_agrees (history_of cd d) s1" "folded s1 = q"
      "fold_step (stamp (cmd_now c) (history_of cd d) rec) s1 = Inr s2" "folded s2 = q'"
      using queue_fold_snoc [OF q(1) q' [unfolded hd]] by blast
    then have "e \<in> set (Entries q')" using fold_step_same_entry [of _ s1 _ s2 e] q(2) e(2) r by simp
    then show ?thesis using q' by (simp add: holds_def)
  qed
qed

lemma commands_step:
  assumes "sound_log cd wroot d" "commands_ok cd cs d"
  shows "sound_log cd wroot (fold (run_command cd) cs d) \<and> grows cd d (fold (run_command cd) cs d) \<and>
    (holds cd d e \<and> in_hand (EState e) \<longrightarrow> holds cd (fold (run_command cd) cs d) e)"
  using assms
proof (induction cs arbitrary: d)
  case (Cons c cs)
  then have c: "outside (cmd_op c)" "encodable cd (cmd_now c) (cmd_op c) d" "commands_ok cd cs (run_command cd c d)" by simp_all
  note one = command_step [OF Cons.prems(1) c(1,2)]
  from Cons.IH [OF one(1) c(3)] one(2,3) show ?case by (auto simp: grows_def)
qed (simp add: grows_def)

section \<open>The contract of a copier and a driver\<close>

text \<open>
  What a worker relies on of its copier and driver, for every member of the family: observing a run
  tells whether it exists; making one adds that run and touches no run there is; driving one touches
  no other and neither makes nor deletes it; copying touches no run; clearing touches only what is in
  the cleared directory.
\<close>

definition named :: "codec \<Rightarrow> disk \<Rightarrow> string \<Rightarrow> string \<Rightarrow> bool" where
  "named cd d dir i \<longleftrightarrow> (\<exists>r \<in> set (claims (history_of cd d)). QDir r = dir \<and> QRunID r = i)"

locale run_driver =
  fixes W :: "'x \<Rightarrow> 'w Worker" and run_of :: "'w \<Rightarrow> string \<Rightarrow> string \<Rightarrow> 'r option" and wroot :: string
  assumes work_root: "WorkRoot (WStore (W x)) = wroot"
    and observe_exists: "Observe (WDriver (W x)) e w = Inr v \<Longrightarrow> RunExists v \<longleftrightarrow> run_of w (EDir e) (ERunID e) \<noteq> None"
    and create_frame: "DCreate (WDriver (W x)) e w = (w', r) \<Longrightarrow>
      (dir, i) \<noteq> (EDir e, ERunID e) \<or> run_of w dir i \<noteq> None \<Longrightarrow> run_of w' dir i = run_of w dir i"
    and drive_frame: "Drive (WDriver (W x)) e w = (w', out) \<Longrightarrow>
      (dir, i) \<noteq> (EDir e, ERunID e) \<Longrightarrow> run_of w' dir i = run_of w dir i"
    and drive_keeps: "Drive (WDriver (W x)) e w = (w', out) \<Longrightarrow>
      run_of w' (EDir e) (ERunID e) = None \<longleftrightarrow> run_of w (EDir e) (ERunID e) = None"
    and copy_frame: "CopyCreate (WCopier (W x)) src i w = (w', r) \<Longrightarrow> run_of w' = run_of w"
    and reclaim_frame: "Reclaim (WCopier (W x)) i w = (w', r) \<Longrightarrow>
      run_of w' dir j = run_of w dir j \<or> dir = join_path wroot i \<and> run_of w' dir j = None"
begin

text \<open>The world's invariant: the log is sound, and every run there is was named by a claim.\<close>

definition settled_world :: "codec \<Rightarrow> 'w world \<Rightarrow> bool" where
  "settled_world cd w \<longleftrightarrow> sound_log cd wroot (w_log w) \<and>
     (\<forall>dir i. run_of (w_disk w) dir i \<noteq> None \<longrightarrow> named cd (w_log w) dir i)"

lemma named_dir: "sound_log cd wroot d \<Longrightarrow> named cd d dir i \<Longrightarrow> dir = join_path wroot i"
  by (auto simp: named_def sound_log_def sound_claims_def)

lemma named_grows: "grows cd d d' \<Longrightarrow> named cd d dir i \<Longrightarrow> named cd d' dir i"
  by (auto simp: named_def grows_def)

lemma holds_named: "holds cd d e \<Longrightarrow> in_hand (EState e) \<Longrightarrow> named cd d (EDir e) (ERunID e)"
proof -
  assume "holds cd d e" and h: "in_hand (EState e)"
  then have "keeps_claim (history_of cd d) e" using queue_fold_claims by (auto simp: holds_def)
  then show ?thesis using h by (auto simp: named_def in_hand_def keeps_claim_def)
qed

lemma join_path_inj: "join_path a b = join_path a c \<longleftrightarrow> b = c"
  by (simp add: join_path_def)

lemma observe_loop_views:
  "observe_loop D w es runs0 = Inr runs \<Longrightarrow> distinct (map EID es) \<Longrightarrow> e \<in> set es \<Longrightarrow> in_hand (EState e) \<Longrightarrow>
   \<exists>v. Observe D e w = Inr v \<and> runs (EID e) = Some v"
proof (induction es arbitrary: runs0)
  case (Cons x es)
  have other: "observe_loop D w ys r0 = Inr r \<Longrightarrow> i \<notin> EID ` set ys \<Longrightarrow> r i = r0 i" for ys r0 r i
    by (induction ys arbitrary: r0) (auto split: if_splits sum.splits)
  show ?case
  proof (cases "e = x")
    case True
    then obtain v where v: "Observe D e w = Inr v" "observe_loop D w es (runs0(EID e \<mapsto> v)) = Inr runs"
      using Cons.prems by (auto simp: in_hand_def split: sum.splits)
    have "EID e \<notin> EID ` set es" using Cons.prems(2) True by simp
    from other [OF v(2) this] v(1) show ?thesis by simp
  next
    case False
    then show ?thesis using Cons by (auto split: if_splits sum.splits)
  qed
qed simp

lemma decided:
  assumes s: "sound_log cd wroot (w_log w)" and d: "step_decide cd (W x) ev w = Inr d"
    and a: "DAction d \<in> {ActionCreate, ActionDrive}"
  shows "holds cd (w_log w) (DEntry d)" "in_hand (EState (DEntry d))"
    "DAction d = ActionCreate \<Longrightarrow> run_of (w_disk w) (EDir (DEntry d)) (ERunID (DEntry d)) = None"
    "DAction d = ActionDrive \<Longrightarrow> run_of (w_disk w) (EDir (DEntry d)) (ERunID (DEntry d)) \<noteq> None"
proof -
  have st: "stored cd (history_of cd (w_log w)) (w_log w)" using s by (simp add: sound_log_def)
  obtain q where q: "queue_fold (history_of cd (w_log w)) = Inr q" using sound_log_queue [OF s] by blast
  obtain q0 runs where r: "Queue_Read (snd cd) (env_readable ev) (w_log w) = Inr q0"
    "observe (WDriver (W x)) (w_disk w) q0 = Inr runs" "d = QNext q0 runs"
    using d by (auto simp: step_decide_def bind_result_Inr_iff split: sum.splits)
  have "Queue_Read (snd cd) True (w_log w) = Inr q0"
    using r(1) by (auto simp: Queue_Read_def readLog_def split: option.splits if_splits)
  then have q0: "q0 = q" using Queue_Read_stored [OF st q] by simp
  let ?e = "DEntry d"
  from QNext_acts [of q runs] a have e: "?e \<in> set (Entries q)" "in_hand (EState ?e)"
    and ex: "RunExists (view_of runs ?e) \<longleftrightarrow> DAction d = ActionDrive"
    unfolding r(3) q0 by auto
  have "distinct (map EID (Entries q))" by (rule queue_fold_state(4) [OF q])
  from observe_loop_views [OF _ this e(1,2), of "WDriver (W x)" "w_disk w" Map.empty runs] r(2)
  obtain v where v: "Observe (WDriver (W x)) ?e (w_disk w) = Inr v" "runs (EID ?e) = Some v"
    by (auto simp: observe_def q0)
  then have "RunExists v \<longleftrightarrow> DAction d = ActionDrive" using ex by (simp add: view_of_def)
  with observe_exists [OF v(1)] a
  show "DAction d = ActionCreate \<Longrightarrow> run_of (w_disk w) (EDir ?e) (ERunID ?e) = None"
    "DAction d = ActionDrive \<Longrightarrow> run_of (w_disk w) (EDir ?e) (ERunID ?e) \<noteq> None"
    by simp_all
  show "holds cd (w_log w) ?e" "in_hand (EState ?e)" using q e by (auto simp: holds_def)
qed

text \<open>Making a run for a goal in hand adds that run and leaves every other as it was.\<close>

lemma worker_create_frame:
  assumes c: "worker_create (W x) e w = (w', r)" and dir: "EDir e = join_path wroot (ERunID e)"
    and only: "\<And>i. run_of w (EDir e) i \<noteq> None \<Longrightarrow> i = ERunID e"
  shows "run_of w dir i = Some y \<Longrightarrow> run_of w' dir i = Some y"
    "run_of w' dir i \<noteq> None \<Longrightarrow> run_of w dir i \<noteq> None \<or> (dir = EDir e \<and> i = ERunID e)"
proof -
  have "(\<forall>y. run_of w dir i = Some y \<longrightarrow> run_of w' dir i = Some y) \<and>
    (run_of w' dir i \<noteq> None \<longrightarrow> run_of w dir i \<noteq> None \<or> (dir = EDir e \<and> i = ERunID e))"
  proof (cases "\<exists>v. Observe (WDriver (W x)) e w = Inr v \<and> \<not> RunExists v")
    case False
    then have "w' = w" using c by (auto simp: worker_create_def split: sum.splits if_splits)
    then show ?thesis by simp
  next
    case True
    then obtain v where v: "Observe (WDriver (W x)) e w = Inr v" "\<not> RunExists v" by blast
    then have "run_of w (EDir e) (ERunID e) = None" using observe_exists by blast
    then have none: "run_of w (EDir e) j = None" for j using only [of j] by blast
    obtain w1 r1 where w1: "Reclaim (WCopier (W x)) (ERunID e) w = (w1, r1)" by fastforce
    have same: "run_of w1 = run_of w"
      by (intro ext) (metis reclaim_frame [OF w1] none dir)
    obtain w2 r2 where w2: "CopyCreate (WCopier (W x)) (WSource (W x)) (ERunID e) w1 = (w2, r2)" by fastforce
    obtain w3 r3 where w3: "DCreate (WDriver (W x)) e w2 = (w3, r3)" by fastforce
    have w2': "run_of w2 = run_of w" using copy_frame [OF w2] same by simp
    have "w' \<in> {w1, w2, w3}"
      using c v w1 w2 w3 by (auto simp: worker_create_def split: sum.splits)
    moreover have "run_of w3 dir i = run_of w dir i \<or> (dir = EDir e \<and> i = ERunID e) \<and> run_of w dir i = None"
      using create_frame [OF w3, of dir i] w2' by auto
    ultimately show ?thesis using same w2' by auto
  qed
  then show "run_of w dir i = Some y \<Longrightarrow> run_of w' dir i = Some y"
    "run_of w' dir i \<noteq> None \<Longrightarrow> run_of w dir i \<noteq> None \<or> (dir = EDir e \<and> i = ERunID e)" by blast+
qed

lemma step_parts:
  "fst (worker_step cd V ev rep w) =
     (case step_decide cd V ev w of Inl _ \<Rightarrow> others cd ev w
      | Inr d \<Rightarrow> fst (step_act cd V ev rep d (others cd ev w)))"
  by (auto simp: worker_step_def split: sum.split)

text \<open>A step keeps the invariant, and changes no run but the one of a goal that is in hand, both in the
  log the step was decided from and in the one it acts on.\<close>

lemma worker_step_settled:
  fixes rep
  assumes s: "settled_world cd w" and ev: "env_ok cd (W x) run_of ev w"
  defines "w' \<equiv> fst (worker_step cd (W x) ev rep w)"
  shows "settled_world cd w'"
    "run_of (w_disk w) dir i = Some y \<Longrightarrow> run_of (w_disk w') dir i = Some y \<or> run_of (w_disk w') dir i \<noteq> None \<and>
       (\<exists>e. EDir e = dir \<and> ERunID e = i \<and> in_hand (EState e) \<and> holds cd (w_log w) e \<and> holds cd (w_log (others cd ev w)) e)"
proof -
  let ?o = "others cd ev w"
  have sl: "sound_log cd wroot (w_log w)" and cmds: "commands_ok cd (env_between ev) (w_log w)"
    using s ev by (simp_all add: settled_world_def env_ok_def)
  have o: "sound_log cd wroot (w_log ?o)" "grows cd (w_log w) (w_log ?o)"
    "\<And>e. holds cd (w_log w) e \<Longrightarrow> in_hand (EState e) \<Longrightarrow> holds cd (w_log ?o) e"
    using commands_step [OF sl cmds] by simp_all
  have runs: "named cd (w_log ?o) dir i" if "run_of (w_disk w) dir i \<noteq> None" for dir i
    using s that named_grows [OF o(2)] by (auto simp: settled_world_def)
  have "settled_world cd w' \<and> (\<forall>dir i y. run_of (w_disk w) dir i = Some y \<longrightarrow> run_of (w_disk w') dir i = Some y \<or>
     run_of (w_disk w') dir i \<noteq> None \<and>
     (\<exists>e. EDir e = dir \<and> ERunID e = i \<and> in_hand (EState e) \<and> holds cd (w_log w) e \<and> holds cd (w_log ?o) e))"
  proof (cases "step_decide cd (W x) ev w")
    case (Inl err)
    then have "w' = ?o" by (simp add: w'_def step_parts)
    then show ?thesis using o(1) runs by (simp add: settled_world_def del: others_simps(2))
  next
    case (Inr d)
    then have w': "w' = fst (step_act cd (W x) ev rep d ?o)" by (simp add: w'_def step_parts)
    have log: "sound_log cd wroot (w_log w') \<and> grows cd (w_log ?o) (w_log w')"
    proof (cases "act_op (W x) ev d (w_disk w)")
      case None
      then show ?thesis using o(1) by (simp add: w' step_act_log grows_def del: others_simps(2))
    next
      case (Some op)
      then have e: "encodable cd (env_now ev) op (w_log ?o)" using ev Inr by (simp add: env_ok_def)
      have f: "claims_fresh cd wroot op (w_log ?o)"
        using Some ev work_root
        by (auto simp: claims_fresh_def act_op_def env_ok_def split: Action.splits sum.splits if_splits)
      show ?thesis using run_op_grows [OF o(1) e f] Some by (simp add: w' step_act_log del: others_simps(2))
    qed
    have disk: "w_disk w' = act_disk (W x) d (w_disk w)" by (simp add: w' step_act_disk)
    let ?e = "DEntry d"
    have eff: "(run_of (w_disk w') dir i \<noteq> None \<longrightarrow> run_of (w_disk w) dir i \<noteq> None \<or> named cd (w_log ?o) dir i) \<and>
        (\<forall>y. run_of (w_disk w) dir i = Some y \<longrightarrow> run_of (w_disk w') dir i = Some y \<or>
           run_of (w_disk w') dir i \<noteq> None \<and> DAction d = ActionDrive \<and> dir = EDir ?e \<and> i = ERunID ?e)" for dir i
    proof (cases "DAction d \<in> {ActionCreate, ActionDrive}")
      case False
      then have "w_disk w' = w_disk w" by (cases "DAction d") (auto simp: disk act_disk_def)
      then show ?thesis by simp
    next
      case True
      note dec = decided [OF sl Inr True]
      have nm: "named cd (w_log ?o) (EDir ?e) (ERunID ?e)" using holds_named o(3) dec(1,2) by blast
      have dir: "EDir ?e = join_path wroot (ERunID ?e)" by (rule named_dir [OF o(1) nm])
      show ?thesis
      proof (cases "DAction d = ActionCreate")
        case create: True
        have only: "j = ERunID ?e" if "run_of (w_disk w) (EDir ?e) j \<noteq> None" for j
          using named_dir [OF o(1) runs [OF that]] dir join_path_inj by metis
        obtain r where "worker_create (W x) ?e (w_disk w) = (w_disk w', r)"
          using create by (cases "worker_create (W x) ?e (w_disk w)") (simp add: disk act_disk_def)
        from worker_create_frame [OF this dir only] nm show ?thesis by blast
      next
        case False
        then have drive: "DAction d = ActionDrive" using True by simp
        then obtain r where r: "Drive (WDriver (W x)) ?e (w_disk w) = (w_disk w', r)"
          by (cases "Drive (WDriver (W x)) ?e (w_disk w)") (simp add: disk act_disk_def)
        show ?thesis
        proof (cases "(dir, i) = (EDir ?e, ERunID ?e)")
          case True
          then show ?thesis using drive_keeps [OF r] drive by auto
        next
          case False
          then show ?thesis using drive_frame [OF r False] by simp
        qed
      qed
    qed
    have hold: "in_hand (EState ?e) \<and> holds cd (w_log w) ?e \<and> holds cd (w_log ?o) ?e" if "DAction d = ActionDrive"
      using decided(1,2) [OF sl Inr] o(3) that by blast
    have "settled_world cd w'"
      unfolding settled_world_def using log eff runs named_grows by blast
    then show ?thesis using eff hold by blast
  qed
  then show "settled_world cd w'"
    "run_of (w_disk w) dir i = Some y \<Longrightarrow> run_of (w_disk w') dir i = Some y \<or> run_of (w_disk w') dir i \<noteq> None \<and>
       (\<exists>e. EDir e = dir \<and> ERunID e = i \<and> in_hand (EState e) \<and> holds cd (w_log w) e \<and> holds cd (w_log ?o) e)"
    by blast+
qed

lemma reachable_settled: "reachable cd W run_of w \<Longrightarrow> settled_world cd w"
proof (induction rule: reachable.induct)
  case (nothing w)
  have "stored cd [] None" by (simp add: stored_def queue_fold_def)
  then have "sound_log cd wroot None" by (rule sound_logI) simp
  then show ?case using nothing.hyps by (simp add: settled_world_def)
next
  case (outside w c)
  then have "sound_log cd wroot (w_log w)" by (simp add: settled_world_def)
  from command_step [OF this outside.hyps(2,3)] outside.IH show ?case
    using named_grows by (auto simp: settled_world_def)
next
  case (worker w x ev rep)
  then show ?case using worker_step_settled(1) by blast
next
  case (runs w v)
  then show ?case by (simp add: settled_world_def)
qed

end

end
