(* ===== verification/Queue_Driver.thy ===== *)
theory Queue_Driver
  imports Queue_Worker
begin

text \<open>
  The queue's driver and copier as internal/cli/queue.go builds them, on the runs and copies of the
  disk; the approval of a parked goal; and what the queue's reports read of the runs. A run is its
  manifest, its blackboard and its journal; resolving a goal's configuration, preparing its workspace
  and dispatching its run are the outcomes a step meets, with the dispatcher modelled in its own theory.
\<close>

section \<open>Runs and copies on disk\<close>

record q_run =
  QR_manifest :: Manifest
  QR_state :: Blackboard
  QR_journal :: "JRecord list"

record q_disk =
  q_runs :: "string \<Rightarrow> string \<Rightarrow> q_run option"
  q_copies :: "string \<Rightarrow> bool"

definition q_run_of :: "q_disk \<Rightarrow> string \<Rightarrow> string \<Rightarrow> q_run option" where
  "q_run_of w dir i = q_runs w dir i"

text \<open>\<open>state.NewLayout\<close>: whether a workspace and a run id name a run at all.\<close>

definition layout_ok :: "string \<Rightarrow> string \<Rightarrow> bool" where
  "layout_ok dir i \<longleftrightarrow> validateSegment i = None \<and> filepath_IsAbs dir"

section \<open>The driver\<close>

definition node_approve :: string where "node_approve = ''approve''"

text \<open>The last \<open>node_finished\<close> of the journal is the gate's own pause.\<close>

definition gateAsked :: "JRecord list \<Rightarrow> bool" where
  "gateAsked rs =
     (case List.find (\<lambda>r. Event r = EventNodeFinished) (rev rs) of
        None \<Rightarrow> False
      | Some r \<Rightarrow> RNode r = node_approve \<and> Status r = StatusPaused)"

record outcomeView =
  OV_interrupted :: bool
  OV_status :: RunStatus
  OV_node :: string
  OV_note :: string

text \<open>What one step of the worker meets of the files and programs below it: an unreadable manifest or
  journal, what resolving the goal's plan answers (the manifest its run starts from) and its blockers,
  how making the run fails, what a dispatch makes of the run and how it ends, and how copying fails.\<close>

record q_meets =
  qm_unreadable :: "string option"
  qm_plan :: "(string, Manifest \<times> Blackboard) result"
  qm_blockers :: "string list"
  qm_make :: "string option"
  qm_open :: "string option"
  qm_dispatch :: "q_run \<Rightarrow> q_run \<times> (string, outcomeView) result"
  qm_reclaim :: "string option"
  qm_copy :: "string option"
  qm_sanitize :: "string \<Rightarrow> string"

definition blocked :: "string list \<Rightarrow> string option" where
  "blocked blockers =
     (if blockers = [] then None
      else Some (''belay will not start this goal's run: '' @ concat (map (\<lambda>b. b @ ''; '') (butlast blockers)) @ last blockers))"

definition queueDriver_Observe :: "q_meets \<Rightarrow> QEntry \<Rightarrow> q_disk \<Rightarrow> (string, RunView) result" where
  "queueDriver_Observe m e w =
     (if \<not> layout_ok (EDir e) (ERunID e) then Inl ''invalid path segment''
      else case q_runs w (EDir e) (ERunID e) of
        None \<Rightarrow> Inr RunView0
      | Some run \<Rightarrow>
          (case qm_unreadable m of
             Some err \<Rightarrow> Inl err
           | None \<Rightarrow>
               let man = QR_manifest run in
               Inr \<lparr>RunExists = True, RunStatus = M_Status man,
                 GateAsked = (M_Status man = RunStatusPaused \<and> CurrentNode man = node_approve \<and> gateAsked (QR_journal run))\<rparr>))"

text \<open>\<open>createRun\<close> looks for the manifest first and writes it last, so a run it does not finish making is
  no run.\<close>

definition createRun :: "q_meets \<Rightarrow> string \<Rightarrow> string \<Rightarrow> Manifest \<times> Blackboard \<Rightarrow> q_disk \<Rightarrow> q_disk \<times> (string, unit) result" where
  "createRun m dir i made w =
     (if \<not> layout_ok dir i then (w, Inl ''invalid path segment'')
      else case q_runs w dir i of
        Some _ \<Rightarrow> (w, Inl ''already a run'')
      | None \<Rightarrow>
          (case qm_make m of
             Some err \<Rightarrow> (w, Inl err)
           | None \<Rightarrow>
               let w = w\<lparr>q_runs := (q_runs w)(dir := (q_runs w dir)(i \<mapsto>
                     \<lparr>QR_manifest = fst made, QR_state = snd made, QR_journal = []\<rparr>))\<rparr>
               in (w, case qm_open m of None \<Rightarrow> Inr () | Some err \<Rightarrow> Inl err)))"

definition queueDriver_Create :: "q_meets \<Rightarrow> QEntry \<Rightarrow> q_disk \<Rightarrow> q_disk \<times> (string, unit) result" where
  "queueDriver_Create m e w =
     (case qm_plan m of
        Inl err \<Rightarrow> (w, Inl err)
      | Inr made \<Rightarrow>
          (case blocked (qm_blockers m) of
             Some err \<Rightarrow> (w, Inl err)
           | None \<Rightarrow> createRun m (EDir e) (ERunID e) made w))"

definition goalOutcome :: "(string \<Rightarrow> string) \<Rightarrow> string \<Rightarrow> JRecord list \<Rightarrow> outcomeView \<Rightarrow> (string, Outcome) result" where
  "goalOutcome sanitize plan_path journal view =
     (if OV_interrupted view then Inr \<lparr>OInterrupted = True, OState = QStateUnknown, ONote = []\<rparr>
      else
        let note = sanitize (OV_note view); ends = (\<lambda>s n. Inr \<lparr>OInterrupted = False, OState = s, ONote = n\<rparr>) in
        case OV_status view of
          RunStatusCompleted \<Rightarrow> ends StateFinished note
        | RunStatusFailed \<Rightarrow> ends StateFailed note
        | RunStatusAborted \<Rightarrow> ends StateStopped note
        | RunStatusPaused \<Rightarrow>
            if gateAsked journal \<and> OV_node view = node_approve
            then ends StateWaiting (''the plan is at '' @ plan_path)
            else ends StatePaused note
        | _ \<Rightarrow> Inl ''its run stopped without an outcome'')"

definition queueDriver_Drive :: "q_meets \<Rightarrow> QEntry \<Rightarrow> q_disk \<Rightarrow> q_disk \<times> (string, Outcome) result" where
  "queueDriver_Drive m e w =
     (case qm_plan m of
        Inl err \<Rightarrow> (w, Inl err)
      | Inr _ \<Rightarrow>
          if \<not> layout_ok (EDir e) (ERunID e) then (w, Inl ''invalid path segment'')
          else case q_runs w (EDir e) (ERunID e) of
            None \<Rightarrow> (w, Inl ''no such run'')
          | Some run \<Rightarrow>
              (case qm_open m of
                 Some err \<Rightarrow> (w, Inl err)
               | None \<Rightarrow>
                   (case blocked (qm_blockers m) of
                      Some err \<Rightarrow> (w, Inl err)
                    | None \<Rightarrow>
                        (case qm_dispatch m run of
                           (run', res) \<Rightarrow>
                             (w\<lparr>q_runs := (q_runs w)(EDir e := (q_runs w (EDir e))(ERunID e \<mapsto> run'))\<rparr>,
                              bind_result res (goalOutcome (qm_sanitize m)
                                (join_path (join_path (join_path (join_path (join_path (EDir e) ''.belay'') ''runs'')
                                  (ERunID e)) ''artifacts'') ''plan.md'') (QR_journal run')))))))"

text \<open>The copier is dircopy's, rooted at the work root. It clears a copy with the runs inside it, refuses
  to copy onto what is there, and copies no run, since it skips \<open>.belay\<close>.\<close>

definition copier_Reclaim :: "q_meets \<Rightarrow> string \<Rightarrow> string \<Rightarrow> q_disk \<Rightarrow> q_disk \<times> (string, unit) result" where
  "copier_Reclaim m wroot i w =
     (case qm_reclaim m of
        Some err \<Rightarrow> (w, Inl err)
      | None \<Rightarrow> (w\<lparr>q_runs := (q_runs w)(join_path wroot i := Map.empty),
                  q_copies := (q_copies w)(join_path wroot i := False)\<rparr>, Inr ()))"

definition copier_Create :: "q_meets \<Rightarrow> string \<Rightarrow> string \<Rightarrow> string \<Rightarrow> q_disk \<Rightarrow> q_disk \<times> (string, unit) result" where
  "copier_Create m wroot src i w =
     (if q_copies w (join_path wroot i) then (w, Inl ''destination directory is not empty'')
      else case qm_copy m of
        Some err \<Rightarrow> (w, Inl err)
      | None \<Rightarrow> (w\<lparr>q_copies := (q_copies w)(join_path wroot i := True)\<rparr>, Inr ()))"

definition newQueueWorker :: "Store \<Rightarrow> string \<Rightarrow> q_meets \<Rightarrow> q_disk Worker" where
  "newQueueWorker s source m =
     \<lparr>WStore = s, WSource = source,
      WCopier = \<lparr>CopyCreate = copier_Create m (WorkRoot s), Reclaim = copier_Reclaim m (WorkRoot s)\<rparr>,
      WDriver = \<lparr>Observe = queueDriver_Observe m, DCreate = queueDriver_Create m, Drive = queueDriver_Drive m\<rparr>\<rparr>"

section \<open>Approving a parked goal\<close>

definition awaitsApproval :: "q_run \<Rightarrow> bool" where
  "awaitsApproval run \<longleftrightarrow> CurrentNode (QR_manifest run) = node_approve \<and>
     M_Status (QR_manifest run) = RunStatusPaused \<and> gateAsked (QR_journal run)"

definition approvePlan :: "Blackboard \<Rightarrow> Blackboard \<times> bool \<times> bool" where
  "approvePlan st =
     (let recorded = (\<not> Approved (B_Plan st)); withdrew = Pending (Regenerate (B_Plan st)) in
      if \<not> (recorded \<or> withdrew) then (st, recorded, withdrew)
      else
        let st = st\<lparr>B_Plan := (B_Plan st)\<lparr>Approved := True\<rparr>\<rparr>; request = Regenerate (B_Plan st)
        in (SetRegeneration (request\<lparr>Served := Request request\<rparr>) st, recorded, withdrew))"

datatype approve_error = QueueSays queue_error | NotWaiting QState | NoRun | RunNotSaved

text \<open>\<open>approveQueuedGoal\<close>: the run's approval first, the queue's record second. \<open>save_ok\<close> is whether the
  run's files could be written (its preflight included).\<close>

definition approveQueuedGoal :: "codec \<Rightarrow> append_faults \<Rightarrow> int \<Rightarrow> bool \<Rightarrow> int \<Rightarrow> q_disk world \<Rightarrow>
    q_disk world \<times> (approve_error, QEntry) result" where
  "approveQueuedGoal cd io now save_ok i w =
     (case Queue_Read (snd cd) (log_read_ok io) (w_log w) of
        Inl err \<Rightarrow> (w, Inl (QueueSays err))
      | Inr q \<Rightarrow>
          (case Queue_Entry q i of
             None \<Rightarrow> (w, Inl (QueueSays (ErrNoSuchGoal i)))
           | Some e \<Rightarrow>
               if EState e \<noteq> StateWaiting then (w, Inl (NotWaiting (EState e)))
               else case q_runs (w_disk w) (EDir e) (ERunID e) of
                 None \<Rightarrow> (w, Inl NoRun)
               | Some run \<Rightarrow>
                   if awaitsApproval run \<and> \<not> save_ok then (w, Inl RunNotSaved)
                   else
                     let v = (if awaitsApproval run
                              then (w_disk w)\<lparr>q_runs := (q_runs (w_disk w))(EDir e := (q_runs (w_disk w) (EDir e))(ERunID e \<mapsto>
                                     run\<lparr>QR_state := fst (approvePlan (QR_state run))\<rparr>))\<rparr>
                              else w_disk w)
                     in (case Queue_Approve cd io now i (w_log w) of
                           (d, res) \<Rightarrow> (\<lparr>w_log = d, w_disk = v\<rparr>, case res of Inl err \<Rightarrow> Inl (QueueSays err) | Inr e \<Rightarrow> Inr e))))"

section \<open>What the reports read\<close>

text \<open>\<open>manifest_of\<close> reads the manifest of a goal's run, when it can; \<open>words\<close> says where a goal stands in
  the words a person would use.\<close>

definition queueStateWords :: "QState \<Rightarrow> string" where
  "queueStateWords s =
     (case s of StateQueued \<Rightarrow> ''queued'' | StateClaimed \<Rightarrow> ''in progress'' | StateWaiting \<Rightarrow> ''waiting for plan approval''
      | StateApproved \<Rightarrow> ''approved, runs next'' | StateFinished \<Rightarrow> ''finished'' | StateFailed \<Rightarrow> ''failed''
      | StateStopped \<Rightarrow> ''stopped'' | StatePaused \<Rightarrow> ''paused at a limit'' | StateRemoved \<Rightarrow> ''removed'' | _ \<Rightarrow> [])"

definition observed_entry :: "(QEntry \<Rightarrow> Manifest option) \<Rightarrow> QEntry \<Rightarrow> QEntry" where
  "observed_entry manifest_of e =
     (if EState e \<in> {StateQueued, StateRemoved, StateFinished, StateFailed, StateStopped} then e
      else case manifest_of e of
        None \<Rightarrow> e
      | Some man \<Rightarrow>
          (case endedAs (M_Status man) of
             None \<Rightarrow> e
           | Some now \<Rightarrow> e\<lparr>ENote := ''its run went on outside the queue after it was '' @ queueStateWords (EState e),
               EState := now, EUpdatedAt := (if UpdatedAt man > EUpdatedAt e then UpdatedAt man else EUpdatedAt e)\<rparr>))"

definition observed :: "(QEntry \<Rightarrow> Manifest option) \<Rightarrow> Queue \<Rightarrow> Queue" where
  "observed manifest_of q = q\<lparr>Entries := map (observed_entry manifest_of) (Entries q)\<rparr>"

definition runnable :: "Queue \<Rightarrow> QEntry list" where
  "runnable q = concat (map (\<lambda>s. filter (\<lambda>e. EState e = s) (Entries q)) [StateClaimed, StateApproved, StateQueued])"

section \<open>The driver keeps the worker's contract\<close>

lemma createRun_frame:
  "createRun m d j made w = (w', r) \<Longrightarrow> (dir, i) \<noteq> (d, j) \<or> q_run_of w dir i \<noteq> None \<Longrightarrow>
   q_run_of w' dir i = q_run_of w dir i"
  by (auto simp: createRun_def q_run_of_def Let_def split: if_splits option.splits)

lemma queueDriver_Create_frame:
  assumes "queueDriver_Create m e w = (w', r)" "(dir, i) \<noteq> (EDir e, ERunID e) \<or> q_run_of w dir i \<noteq> None"
  shows "q_run_of w' dir i = q_run_of w dir i"
proof (cases "\<exists>made. qm_plan m = Inr made \<and> blocked (qm_blockers m) = None")
  case True
  then obtain made where "createRun m (EDir e) (ERunID e) made w = (w', r)"
    using assms(1) by (auto simp: queueDriver_Create_def)
  then show ?thesis by (rule createRun_frame) (rule assms(2))
next
  case False
  then have "w' = w" using assms(1) by (auto simp: queueDriver_Create_def split: sum.splits option.splits)
  then show ?thesis by simp
qed

interpretation queue_driver: run_driver "newQueueWorker s source" q_run_of "WorkRoot s" for s source
proof
  fix x e w w' r v dir i out src j
  show "WorkRoot (WStore (newQueueWorker s source x)) = WorkRoot s" by (simp add: newQueueWorker_def)
  show "Observe (WDriver (newQueueWorker s source x)) e w = Inr v \<Longrightarrow>
      RunExists v \<longleftrightarrow> q_run_of w (EDir e) (ERunID e) \<noteq> None"
    by (auto simp: newQueueWorker_def queueDriver_Observe_def q_run_of_def RunView0_def Let_def
      split: if_splits option.splits)
  show "DCreate (WDriver (newQueueWorker s source x)) e w = (w', r) \<Longrightarrow>
      (dir, i) \<noteq> (EDir e, ERunID e) \<or> q_run_of w dir i \<noteq> None \<Longrightarrow> q_run_of w' dir i = q_run_of w dir i"
    using queueDriver_Create_frame [of x e w w' r dir i] by (simp add: newQueueWorker_def)
  show "Drive (WDriver (newQueueWorker s source x)) e w = (w', out) \<Longrightarrow>
      (dir, i) \<noteq> (EDir e, ERunID e) \<Longrightarrow> q_run_of w' dir i = q_run_of w dir i"
    by (auto simp: newQueueWorker_def queueDriver_Drive_def q_run_of_def
      split: sum.splits option.splits if_splits prod.splits)
  show "Drive (WDriver (newQueueWorker s source x)) e w = (w', out) \<Longrightarrow>
      q_run_of w' (EDir e) (ERunID e) = None \<longleftrightarrow> q_run_of w (EDir e) (ERunID e) = None"
    by (auto simp: newQueueWorker_def queueDriver_Drive_def q_run_of_def
      split: sum.splits option.splits if_splits prod.splits)
  show "CopyCreate (WCopier (newQueueWorker s source x)) src i w = (w', r) \<Longrightarrow> q_run_of w' = q_run_of w"
    by (auto simp: newQueueWorker_def copier_Create_def q_run_of_def fun_eq_iff split: option.splits if_splits)
  show "Reclaim (WCopier (newQueueWorker s source x)) i w = (w', r) \<Longrightarrow>
      q_run_of w' dir j = q_run_of w dir j \<or> dir = join_path (WorkRoot s) i \<and> q_run_of w' dir j = None"
    by (auto simp: newQueueWorker_def copier_Reclaim_def q_run_of_def split: option.splits if_splits)
qed

text \<open>In a sound history the claim of a goal is one record, and it names that goal alone.\<close>

lemma claim_unique:
  assumes h: "queue_history rs" and r: "r \<in> set (claims rs)" "r' \<in> set (claims rs)" "QID r = QID r'"
  shows "r = r'"
proof -
  let ?cs = "filter (\<lambda>x. QEvent x = EventClaimed) (about (QID r) rs)"
  have m: "r \<in> set ?cs" "r' \<in> set ?cs" using r by (auto simp: claims_def about_def namesAGoal_def)
  then have "about (QID r) rs \<noteq> []" by auto
  then obtain s where "goal_history (about (QID r) rs) s" using h by (auto simp: queue_history_def)
  moreover have "\<forall>x \<in> set (about (QID r) rs). is_ok (QRecord_validate x)"
    using h by (auto simp: about_def queue_history_def)
  ultimately have "length ?cs \<le> 1" using goal_history_claims by fastforce
  with m show ?thesis by (cases ?cs; cases "tl ?cs") auto
qed

lemma claim_entry:
  assumes q: "queue_fold rs = Inr q" and r: "r \<in> set (claims rs)"
  shows "\<exists>e \<in> set (Entries q). EID e = QID r \<and> ERunID e = QRunID r \<and> EDir e = QDir r \<and>
    EState e \<noteq> StateQueued \<and> EState e \<noteq> StateRemoved"
proof -
  have h: "queue_history rs" by (rule queue_fold_state(3) [OF q])
  have "r \<in> set (about (QID r) rs)" using r by (auto simp: claims_def about_def namesAGoal_def)
  then have "about (QID r) rs \<noteq> []" by auto
  then obtain s where "goal_history (about (QID r) rs) s" using h by (auto simp: queue_history_def)
  then obtain e where e: "e \<in> set (Entries q)" "EID e = QID r" using queue_fold_state(2) [OF q] by blast
  have "keeps_claim rs e" by (rule queue_fold_claims [OF q e(1)])
  then show ?thesis
  proof (unfold keeps_claim_def, elim disjE conjE bexE)
    assume "\<forall>x \<in> set (claims rs). QID x \<noteq> EID e"
    then show ?thesis using r e(2) by auto
  next
    fix x assume x: "EState e \<notin> {StateQueued, StateRemoved}" "x \<in> set (claims rs)" "QID x = EID e"
      "QRunID x = ERunID e" "QDir x = EDir e"
    then have "x = r" using claim_unique [OF h x(2) r] e(2) by simp
    with x e show ?thesis by auto
  qed
qed

lemma claimed_run_unique:
  assumes q: "queue_fold rs = Inr q" and s: "sound_claims wroot rs" and r: "r \<in> set (claims rs)"
  shows "\<exists>!e. e \<in> set (Entries q) \<and> EDir e = QDir r \<and> ERunID e = QRunID r \<and> EState e \<noteq> StateQueued \<and> EState e \<noteq> StateRemoved"
proof -
  obtain e where e: "e \<in> set (Entries q)" "EID e = QID r" "ERunID e = QRunID r" "EDir e = QDir r"
    "EState e \<noteq> StateQueued" "EState e \<noteq> StateRemoved" using claim_entry [OF q r] by blast
  have "e' = e" if e': "e' \<in> set (Entries q)" "ERunID e' = QRunID r" "EState e' \<noteq> StateQueued" "EState e' \<noteq> StateRemoved" for e'
  proof -
    obtain x where x: "x \<in> set (claims rs)" "QID x = EID e'" "QRunID x = ERunID e'"
      using queue_fold_claims [OF q e'(1)] e'(3,4) by (auto simp: keeps_claim_def)
    have "inj_on QRunID (set (claims rs))" using s by (simp add: sound_claims_def distinct_map)
    then have "x = r" using x r e'(2) by (simp add: inj_on_def)
    then have "EID e' = EID e" using x(2) e(2) by simp
    then show ?thesis using queue_fold_state(4) [OF q] e(1) e'(1) by (meson distinct_map inj_onD)
  qed
  with e show ?thesis by blast
qed

lemma one_claimed:
  assumes q: "queue_fold rs = Inr q" and s: "sound_claims wroot rs"
    and e: "e \<in> set (Entries q)" "e' \<in> set (Entries q)" "EState e = StateClaimed" "EState e' = StateClaimed"
  shows "e = e'"
proof -
  have "EID e \<in> claimed_goals rs" "EID e' \<in> claimed_goals rs"
    using queue_fold_state(1) [OF q] e by (simp_all add: claimed_goals_def)
  then have "EID e = EID e'" using s unfolding sound_claims_def by blast
  then show ?thesis using queue_fold_state(4) [OF q] e(1,2) by (meson distinct_map inj_onD)
qed

text \<open>
  C8. Whatever happens to a queue (commands from other terminals, steps of workers with any failure in
  any of them, workers killed and started again), every run on its disk is the run of exactly one goal,
  the one whose claim named it, and at most one goal is claimed and not yet settled. So no goal is ever
  run twice.
\<close>

theorem one_run_per_goal:
  assumes "reachable cd (newQueueWorker s source) q_run_of w"
  shows "\<exists>q. queue_fold (history_of cd (w_log w)) = Inr q \<and> stored cd (history_of cd (w_log w)) (w_log w) \<and>
    (\<forall>dir i. q_run_of (w_disk w) dir i \<noteq> None \<longrightarrow>
       (\<exists>!e. e \<in> set (Entries q) \<and> EDir e = dir \<and> ERunID e = i \<and> EState e \<noteq> StateQueued \<and> EState e \<noteq> StateRemoved)) \<and>
    (\<forall>e \<in> set (Entries q). \<forall>e' \<in> set (Entries q). EState e = StateClaimed \<and> EState e' = StateClaimed \<longrightarrow> e = e')"
proof -
  let ?rs = "history_of cd (w_log w)"
  have sw: "queue_driver.settled_world s cd w" by (rule queue_driver.reachable_settled [OF assms])
  then have sl: "sound_log cd (WorkRoot s) (w_log w)" by (simp add: queue_driver.settled_world_def)
  have named: "\<exists>r \<in> set (claims ?rs). QDir r = dir \<and> QRunID r = i" if "q_run_of (w_disk w) dir i \<noteq> None" for dir i
    using sw that unfolding queue_driver.settled_world_def named_def by blast
  obtain q where q: "queue_fold ?rs = Inr q" using sound_log_queue [OF sl] by blast
  have so: "sound_claims (WorkRoot s) ?rs" "stored cd ?rs (w_log w)" using sl by (simp_all add: sound_log_def)
  have "\<exists>!e. e \<in> set (Entries q) \<and> EDir e = dir \<and> ERunID e = i \<and> EState e \<noteq> StateQueued \<and> EState e \<noteq> StateRemoved"
    if run: "q_run_of (w_disk w) dir i \<noteq> None" for dir i
  proof -
    obtain r where r: "r \<in> set (claims ?rs)" "QDir r = dir" "QRunID r = i" using named [OF run] by blast
    show ?thesis using claimed_run_unique [OF q so(1) r(1)] unfolding r(2,3) .
  qed
  then show ?thesis using q so(2) one_claimed [OF q so(1)] by blast
qed

text \<open>
  C9. A step of a worker, whatever fails in it and whatever other processes do to the log in the middle
  of it, deletes no run and changes none but the run of a goal that is in hand, claimed or approved, in
  the log it was decided from and in the log it acts on. So a goal parked at its plan is never driven,
  and no command races a step.
\<close>

theorem parked_never_driven:
  assumes "reachable cd (newQueueWorker s source) q_run_of w" "env_ok cd (newQueueWorker s source m) q_run_of ev w"
    and "q_run_of (w_disk w) dir i = Some run"
    and "w' = fst (worker_step cd (newQueueWorker s source m) ev rep w)"
  shows "q_run_of (w_disk w') dir i = Some run \<or> q_run_of (w_disk w') dir i \<noteq> None \<and>
    (\<exists>e. EDir e = dir \<and> ERunID e = i \<and> in_hand (EState e) \<and> holds cd (w_log w) e \<and> holds cd (w_log (others cd ev w)) e)"
  unfolding assms(4)
  by (rule queue_driver.worker_step_settled(2) [OF queue_driver.reachable_settled [OF assms(1)] assms(2,3)])

end
