(* ===== verification/Queue_Drain.thy ===== *)
theory Queue_Drain
  imports Queue_Driver
begin

text \<open>
  A worker left alone drains its queue: with nothing failing below it, every step brings the queue
  strictly closer to having nothing a worker may run, so \<open>Work\<close> ends, and ends drained. The measure
  counts three steps for a queued goal (claim, create, drive), two for a claimed goal with no run, one
  for a goal whose run only has to be driven or settled.
\<close>

section \<open>Operations that succeed\<close>

lemma validate_stamp [simp]: "QRecord_validate (stamp now rs r) = QRecord_validate r"
  by (simp add: QRecord_validate_def fields_validate_def stamp_def)

lemma goal_move_stamp [simp]: "goal_move (stamp now rs r) s = goal_move r s"
  by (cases "QEvent r") (simp_all add: goal_move_def stamp_def)

lemma run_op_build:
  "op_build op q = Inr rec \<Longrightarrow> run_op cd io now op d = fst (Queue_append cd io now (op_build op) d)"
proof (cases op)
  case (OpAdd goal skip)
  assume "op_build op q = Inr rec"
  then have ne: "TrimSpace goal \<noteq> []" by (auto simp: OpAdd split: if_splits)
  then have "op_build op = (\<lambda>q. Inr (QRecord0\<lparr>QEvent := EventAdded, QID := next_id q, QGoal := TrimSpace goal, QNoApproval := skip\<rparr>))"
    by (intro ext) (simp add: OpAdd)
  with ne show ?thesis by (simp add: OpAdd Queue_Add_def Let_def)
qed (simp_all only: run_op.simps op_build_fun Queue_Remove_def Queue_Approve_def Queue_claim_def Queue_settle_def
  change_def answer_def fst_conv workerStarted_def workerStopped_def)

text \<open>A move of a goal that its entry can make, appended to the history it was read from.\<close>

lemma change_fold:
  assumes q: "queue_fold rs = Inr q" and e: "e \<in> set (Entries q)" "EID e = QID rec"
    and r: "moves_goal (QEvent rec)" "is_ok (QRecord_validate rec)" "Entry_apply (stamp now rs rec) e = Inr e'"
  obtains q' k where "queue_fold (rs @ [stamp now rs rec]) = Inr q'" "k < length (Entries q)"
    "Entries q ! k = e" "Entries q' = (Entries q)[k := e']"
proof -
  let ?r = "stamp now rs rec"
  obtain s where s: "replay fold_step rs fold0 = Inr s" "fold_agrees rs s" "q = folded s"
    using queue_fold_agrees [OF q] by blast
  obtain k where k: "k < length (Entries q)" "Entries q ! k = e" using e(1) by (auto simp: in_set_conv_nth)
  have "fold_prevSeq s = length rs" using s(2) by (simp add: fold_agrees_def)
  have ix: "fold_index (s\<lparr>fold_prevSeq := Suc (length rs)\<rparr>) (QID ?r) = Some k"
    using s(2,3) k e(2) by (simp add: fold_agrees_def)
  have mg: "moves_goal (QEvent ?r)" using r(1) by simp
  have "fold_event ?r (s\<lparr>fold_prevSeq := Suc (length rs)\<rparr>) =
      Inr (s\<lparr>fold_prevSeq := Suc (length rs), folded := (folded s)\<lparr>Entries := (Entries (folded s))[k := e']\<rparr>\<rparr>)"
    using ix k s(3) r(3) by (simp add: fold_event_moves [OF mg])
  then have "fold_step ?r s =
      Inr (s\<lparr>fold_prevSeq := Suc (length rs), folded := (folded s)\<lparr>Entries := (Entries (folded s))[k := e']\<rparr>\<rparr>)"
    using r(2) \<open>fold_prevSeq s = length rs\<close> by (auto simp: fold_step_def is_ok_iff)
  then have "queue_fold (rs @ [?r]) = Inr (q\<lparr>Entries := (Entries q)[k := e']\<rparr>)"
    using s(1,3) by (simp add: queue_fold_def)
  with k that show ?thesis by simp
qed

lemma Queue_Entry_mem:
  assumes "queue_fold rs = Inr q" "e \<in> set (Entries q)" shows "Queue_Entry q (EID e) = Some e"
  unfolding Queue_Entry_def by (rule find_map_key [OF queue_fold_state(4) [OF assms(1)] assms(2)])

text \<open>The change itself, with nothing failing: its record is stored and it is answered.\<close>

lemma change_succeeds:
  assumes s: "stored cd rs d" and q: "queue_fold rs = Inr q" and e: "e \<in> set (Entries q)" "EID e = QID rec"
    and r: "moves_goal (QEvent rec)" "is_ok (QRecord_validate rec)" "Entry_apply (stamp now rs rec) e = Inr e'"
    and chk: "check q = None" and enc: "encodes cd now rs (change_build rec verb check q)"
  obtains q' k d' a where "change cd no_append_faults now rec verb check d = (d', Inr a)"
    "stored cd (rs @ [stamp now rs rec]) d'" "queue_fold (rs @ [stamp now rs rec]) = Inr q'"
    "k < length (Entries q)" "Entries q ! k = e" "Entries q' = (Entries q)[k := e']"
proof -
  obtain q' k where f: "queue_fold (rs @ [stamp now rs rec]) = Inr q'" "k < length (Entries q)" "Entries q ! k = e"
    "Entries q' = (Entries q)[k := e']" by (rule change_fold [OF q e r])
  have "is_ok (Entry_apply rec e)" using r(3) Entry_apply_move(1) [of rec e] Entry_apply_move(1) [of "stamp now rs rec" e]
    by simp
  then have b: "change_build rec verb check q = Inr rec"
    using Queue_Entry_mem [OF q e(1)] e(2) chk by (auto simp: change_build_def is_ok_iff)
  then have w: "writable (fst cd) (snd cd) (stamp now rs rec)" using enc r(2) f(1) by (simp add: encodes_def)
  have "Queue_append cd no_append_faults now (change_build rec verb check) d =
      (Some (log_file (fst cd) (rs @ [stamp now rs rec])), Inr q')"
    by (rule append_succeeds [where build = "change_build rec verb check", OF s q b r(2) f(1) w])
  moreover have "stored cd (rs @ [stamp now rs rec]) (Some (log_file (fst cd) (rs @ [stamp now rs rec])))"
    using s w f(1) by (simp add: stored_def)
  ultimately show ?thesis using that f by (simp add: change_def answer_def)
qed

section \<open>The measure\<close>

definition steps_left :: "(QEntry \<Rightarrow> bool) \<Rightarrow> QEntry \<Rightarrow> nat" where
  "steps_left made e =
     (case EState e of StateQueued \<Rightarrow> 3 | StateClaimed \<Rightarrow> if made e then 1 else 2 | StateApproved \<Rightarrow> 1 | _ \<Rightarrow> 0)"

definition made_in :: "q_disk \<Rightarrow> QEntry \<Rightarrow> bool" where
  "made_in w e \<longleftrightarrow> q_run_of w (EDir e) (ERunID e) \<noteq> None"

definition work_left :: "q_disk \<Rightarrow> Queue \<Rightarrow> nat" where
  "work_left w q = sum_list (map (steps_left (made_in w)) (Entries q))"

lemma sum_list_update:
  "k < length xs \<Longrightarrow> sum_list (map f (xs[k := y])) + f (xs ! k) = sum_list (map f xs) + (f y :: nat)"
  by (induction xs arbitrary: k) (auto split: nat.split simp: less_Suc_eq_0_disj)

lemma work_left_update:
  assumes "k < length (Entries q)" "Entries q ! k = e" "Entries q' = (Entries q)[k := e']"
    "steps_left (made_in w) e' < steps_left (made_in w) e"
  shows "work_left w q' < work_left w q"
  using sum_list_update [OF assms(1), of "steps_left (made_in w)" e'] assms by (simp add: work_left_def)

lemma steps_left_settled: "settles (EState e) \<Longrightarrow> steps_left made e = 0"
  by (cases "EState e") (simp_all add: steps_left_def)

section \<open>A step with nothing failing\<close>

text \<open>Nothing below the worker fails, and every dispatch ends its run one way or another.\<close>

definition cooperative :: "q_meets \<Rightarrow> bool" where
  "cooperative m \<longleftrightarrow> qm_unreadable m = None \<and> is_ok (qm_plan m) \<and> qm_blockers m = [] \<and> qm_make m = None \<and>
     qm_open m = None \<and> qm_reclaim m = None \<and> qm_copy m = None \<and>
     (\<forall>run. \<exists>v. snd (qm_dispatch m run) = Inr v \<and> \<not> OV_interrupted v \<and>
        OV_status v \<in> {RunStatusCompleted, RunStatusFailed, RunStatusAborted, RunStatusPaused})"

definition calm :: "env \<Rightarrow> bool" where
  "calm ev \<longleftrightarrow> \<not> env_cancelled ev \<and> env_readable ev \<and> env_between ev = [] \<and> env_io ev = no_append_faults \<and>
     (\<exists>i. env_newRunID ev = Inr i \<and> validateSegment i = None)"

text \<open>The goals in hand name runs and copies that can exist.\<close>

definition well_named :: "Queue \<Rightarrow> bool" where
  "well_named q \<longleftrightarrow> (\<forall>e \<in> set (Entries q). in_hand (EState e) \<longrightarrow> layout_ok (EDir e) (ERunID e))"

lemma observe_loop_ok:
  "(\<forall>e \<in> set es. in_hand (EState e) \<longrightarrow> is_ok (Observe D e w)) \<Longrightarrow> \<exists>runs. observe_loop D w es r = Inr runs"
  by (induction es arbitrary: r) (auto simp: in_hand_def is_ok_iff split: sum.split)

lemma Observe_ok:
  "cooperative m \<Longrightarrow> layout_ok (EDir e) (ERunID e) \<Longrightarrow>
   Observe (WDriver (newQueueWorker s source m)) e w = Inr
     (case q_runs w (EDir e) (ERunID e) of None \<Rightarrow> RunView0
      | Some run \<Rightarrow> \<lparr>RunExists = True, RunStatus = M_Status (QR_manifest run),
          GateAsked = (M_Status (QR_manifest run) = RunStatusPaused \<and> CurrentNode (QR_manifest run) = node_approve \<and>
            gateAsked (QR_journal run))\<rparr>)"
  by (simp add: newQueueWorker_def queueDriver_Observe_def cooperative_def Let_def split: option.split)

lemma decides:
  assumes m: "cooperative m" and st: "stored cd rs (w_log w)" and q: "queue_fold rs = Inr q" and n: "well_named q"
    and ev: "env_readable ev"
  obtains runs where "step_decide cd (newQueueWorker s source m) ev w = Inr (QNext q runs)"
proof -
  have "\<exists>runs. observe (WDriver (newQueueWorker s source m)) (w_disk w) q = Inr runs"
    unfolding observe_def
    by (rule observe_loop_ok) (use n Observe_ok [OF m] in \<open>simp add: well_named_def\<close>)
  then show ?thesis using that Queue_Read_stored [OF st q] ev by (auto simp: step_decide_def)
qed

lemma goalOutcome_settles:
  assumes "\<not> OV_interrupted v" "OV_status v \<in> {RunStatusCompleted, RunStatusFailed, RunStatusAborted, RunStatusPaused}"
  obtains out where "goalOutcome f p js v = Inr out" "\<not> OInterrupted out" "settles (OState out)"
  using assms by (cases "gateAsked js \<and> OV_node v = node_approve") (auto simp: goalOutcome_def Let_def)

lemma create_ok:
  assumes m: "cooperative m" and l: "layout_ok (EDir e) (ERunID e)" and dir: "EDir e = join_path (WorkRoot s) (ERunID e)"
    and none: "q_run_of w (EDir e) (ERunID e) = None"
  obtains w' where "worker_create (newQueueWorker s source m) e w = (w', Inr ())" "made_in w' e"
proof -
  obtain made where made: "qm_plan m = Inr made" using m by (auto simp: cooperative_def is_ok_iff)
  define w1 where "w1 = w\<lparr>q_runs := (q_runs w)(EDir e := Map.empty), q_copies := (q_copies w)(EDir e := False)\<rparr>"
  define w2 where "w2 = w1\<lparr>q_copies := (q_copies w1)(EDir e := True)\<rparr>"
  have 1: "Observe (WDriver (newQueueWorker s source m)) e w = Inr RunView0"
    using Observe_ok [OF m l] none by (simp add: q_run_of_def)
  have 2: "Reclaim (WCopier (newQueueWorker s source m)) (ERunID e) w = (w1, Inr ())"
    using m dir by (simp add: newQueueWorker_def copier_Reclaim_def cooperative_def w1_def)
  have 3: "CopyCreate (WCopier (newQueueWorker s source m)) (WSource (newQueueWorker s source m)) (ERunID e) w1 = (w2, Inr ())"
    using m dir by (simp add: newQueueWorker_def copier_Create_def cooperative_def w2_def w1_def)
  obtain w3 where 4: "DCreate (WDriver (newQueueWorker s source m)) e w2 = (w3, Inr ())" "made_in w3 e"
    using m made l by (simp add: newQueueWorker_def queueDriver_Create_def createRun_def blocked_def cooperative_def
      made_in_def q_run_of_def Let_def w2_def w1_def)
  have "worker_create (newQueueWorker s source m) e w = (w3, Inr ())"
    unfolding worker_create_def 1 by (simp add: 2 3 4(1) RunView0_def)
  with 4(2) that show ?thesis by blast
qed

lemma drive_ok:
  assumes m: "cooperative m" and l: "layout_ok (EDir e) (ERunID e)" and run: "q_run_of w (EDir e) (ERunID e) \<noteq> None"
  obtains w' out where "Drive (WDriver (newQueueWorker s source m)) e w = (w', Inr out)" "\<not> OInterrupted out"
    "settles (OState out)"
proof -
  obtain r where r: "q_runs w (EDir e) (ERunID e) = Some r" using run by (auto simp: q_run_of_def)
  obtain made where made: "qm_plan m = Inr made" using m by (auto simp: cooperative_def is_ok_iff)
  obtain v where v: "snd (qm_dispatch m r) = Inr v" "\<not> OV_interrupted v"
    "OV_status v \<in> {RunStatusCompleted, RunStatusFailed, RunStatusAborted, RunStatusPaused}"
    using m unfolding cooperative_def by blast
  obtain r' where d: "qm_dispatch m r = (r', Inr v)" using v(1) by (cases "qm_dispatch m r") simp
  obtain out where out: "goalOutcome (qm_sanitize m) (join_path (join_path (join_path (join_path (join_path (EDir e) ''.belay'') ''runs'')
      (ERunID e)) ''artifacts'') ''plan.md'') (QR_journal r') v = Inr out" "\<not> OInterrupted out" "settles (OState out)"
    using goalOutcome_settles [OF v(2,3)] by blast
  show ?thesis
    using that out m made l r d
    by (simp add: newQueueWorker_def queueDriver_Drive_def blocked_def cooperative_def)
qed

section \<open>Progress\<close>

lemma EID_pos: "queue_fold rs = Inr q \<Longrightarrow> e \<in> set (Entries q) \<Longrightarrow> 0 < EID e"
proof -
  assume q: "queue_fold rs = Inr q" and e: "e \<in> set (Entries q)"
  obtain s where s: "fold_agrees rs s" "q = folded s" using queue_fold_agrees [OF q] by blast
  have "EID e \<in> set (map EID (Entries q))" using e by simp
  then show ?thesis using s unfolding fold_agrees_def by metis
qed

text \<open>What a step that goes well leaves: a worker that goes on, a sound world, and less to do.\<close>

definition progress :: "codec \<Rightarrow> Store \<Rightarrow> q_disk world \<Rightarrow> q_disk stepped \<Rightarrow> bool" where
  "progress cd s w out \<longleftrightarrow> snd (snd out) = Inr None \<and>
     (\<exists>q q'. queue_fold (history_of cd (w_log w)) = Inr q \<and> queue_fold (history_of cd (w_log (fst out))) = Inr q' \<and>
        well_named q' \<and> work_left (w_disk (fst out)) q' < work_left (w_disk w) q)"

lemma well_named_update:
  "well_named q \<Longrightarrow> Entries q' = (Entries q)[k := e'] \<Longrightarrow> (in_hand (EState e') \<Longrightarrow> layout_ok (EDir e') (ERunID e')) \<Longrightarrow>
   well_named q'"
  by (auto simp: well_named_def dest: set_update_subset_insert [THEN subsetD])

lemma claim_progress:
  assumes st: "stored cd (history_of cd (w_log w)) (w_log w)" and q: "queue_fold (history_of cd (w_log w)) = Inr q"
    and n: "well_named q" and e: "e \<in> set (Entries q)" "EState e = StateQueued" "\<forall>x \<in> set (Entries q). \<not> in_hand (EState x)"
    and ev: "env_io ev = no_append_faults" "env_newRunID ev = Inr i" "validateSegment i = None"
    and abs: "filepath_IsAbs (WorkRoot s)"
    and enc: "encodable cd (env_now ev) (OpClaim (EID e) i (join_path (WorkRoot s) i)) (w_log w)"
  shows "progress cd s w (step_act cd (newQueueWorker s source m) ev rep (decide ActionClaim e) w)"
proof -
  let ?rs = "history_of cd (w_log w)" and ?dir = "join_path (WorkRoot s) i"
  define rec where "rec = QRecord0\<lparr>QEvent := EventClaimed, QID := EID e, QRunID := i, QDir := ?dir\<rparr>"
  have l: "layout_ok ?dir i" using ev(3) abs by (auto simp: layout_ok_def filepath_IsAbs_def join_path_def hd_append)
  then have "is_ok (QRecord_validate rec)"
    using ev(3) EID_pos [OF q e(1)]
    by (auto simp: rec_def QRecord_validate_def fields_validate_def QRecord0_def layout_ok_def validateSegment_def)
  moreover have "none_claimed q = None" using e(3) by (simp add: none_claimed_def find_None_iff in_hand_def)
  moreover have "encodes cd (env_now ev) ?rs (change_build rec ''claim'' none_claimed q)"
    using enc q by (simp add: encodable_def rec_def)
  moreover have "Entry_apply (stamp (env_now ev) ?rs rec) e =
      Inr (e\<lparr>EState := StateClaimed, ERunID := i, EDir := ?dir, EUpdatedAt := env_now ev\<rparr>)" (is "_ = Inr ?e'")
    using e(2) by (simp add: Entry_apply_def rec_def QRecord0_def stamp_def)
  moreover have "moves_goal (QEvent rec)" "EID e = QID rec"
    by (simp_all add: rec_def QRecord0_def moves_goal_def namesAGoal_def)
  ultimately obtain q' k d' a where c: "change cd no_append_faults (env_now ev) rec ''claim'' none_claimed (w_log w) = (d', Inr a)"
    "stored cd (?rs @ [stamp (env_now ev) ?rs rec]) d'" "queue_fold (?rs @ [stamp (env_now ev) ?rs rec]) = Inr q'"
    "k < length (Entries q)" "Entries q ! k = e" "Entries q' = (Entries q)[k := ?e']"
    using change_succeeds [OF st q e(1)] by metis
  have "steps_left (made_in (w_disk w)) ?e' < steps_left (made_in (w_disk w)) e"
    using e(2) by (simp add: steps_left_def)
  then have "work_left (w_disk w) q' < work_left (w_disk w) q" by (rule work_left_update [OF c(4-6)])
  moreover have "well_named q'" by (rule well_named_update [OF n c(6)]) (use l in simp)
  moreover have "Queue_claim cd no_append_faults (env_now ev) (EID e) i ?dir (w_log w) = (d', Inr a)"
    using c(1) by (simp add: Queue_claim_def rec_def)
  ultimately show ?thesis using q c(2,3) ev(1,2)
    by (simp add: progress_def step_act_def decide_def worker_claim_def newQueueWorker_def go_on_def)
qed

lemma settle_progress:
  assumes st: "stored cd (history_of cd (w_log w)) (w_log w)" and q: "queue_fold (history_of cd (w_log w)) = Inr q"
    and n: "well_named q" and e: "e \<in> set (Entries q)" "in_hand (EState e)" "settles s"
    and ev: "env_io ev = no_append_faults" and enc: "encodable cd (env_now ev) (OpSettle (EID e) s note) (w_log w)"
  obtains w' rep' q' where "worker_settle cd ev rep e s note w = (w', rep', Inr ())" "w_disk w' = w_disk w"
    "queue_fold (history_of cd (w_log w')) = Inr q'" "well_named q'" "work_left (w_disk w) q' < work_left (w_disk w) q"
proof -
  let ?rs = "history_of cd (w_log w)"
  define rec where "rec = QRecord0\<lparr>QEvent := EventSettled, QID := EID e, QState := s, QNote := note\<rparr>"
  have "is_ok (QRecord_validate rec)"
    using e(3) EID_pos [OF q e(1)] by (simp add: rec_def QRecord_validate_def fields_validate_def QRecord0_def)
  moreover have "encodes cd (env_now ev) ?rs (change_build rec ''settle'' (\<lambda>_. None) q)"
    using enc q by (simp add: encodable_def rec_def)
  moreover have "Entry_apply (stamp (env_now ev) ?rs rec) e =
      Inr (e\<lparr>EState := s, ENote := note, EUpdatedAt := env_now ev\<rparr>)" (is "_ = Inr ?e'")
    using e(2) by (auto simp: Entry_apply_def rec_def QRecord0_def stamp_def in_hand_def)
  moreover have "moves_goal (QEvent rec)" "EID e = QID rec"
    by (simp_all add: rec_def QRecord0_def moves_goal_def namesAGoal_def)
  ultimately obtain q' k d' a where c: "change cd no_append_faults (env_now ev) rec ''settle'' (\<lambda>_. None) (w_log w) = (d', Inr a)"
    "stored cd (?rs @ [stamp (env_now ev) ?rs rec]) d'" "queue_fold (?rs @ [stamp (env_now ev) ?rs rec]) = Inr q'"
    "k < length (Entries q)" "Entries q ! k = e" "Entries q' = (Entries q)[k := ?e']"
    using change_succeeds [OF st q e(1), of rec "env_now ev" ?e' "\<lambda>_. None" "''settle''"] by metis
  have "steps_left (made_in (w_disk w)) ?e' = 0" by (rule steps_left_settled) (use e(3) in simp)
  moreover have "0 < steps_left (made_in (w_disk w)) e" using e(2) by (auto simp: in_hand_def steps_left_def)
  ultimately have "work_left (w_disk w) q' < work_left (w_disk w) q" by (intro work_left_update [OF c(4-6)]) simp
  moreover have "well_named q'"
    by (rule well_named_update [OF n c(6)]) (use e(3) in \<open>cases s; simp add: in_hand_def\<close>)
  moreover have "Queue_settle cd no_append_faults (env_now ev) (EID e) s note (w_log w) = (d', Inr a)"
    using c(1) by (simp add: Queue_settle_def rec_def)
  ultimately show ?thesis using that c(2,3) ev by (simp add: worker_settle_def)
qed

lemma sum_list_less:
  "(\<forall>x \<in> set xs. f x \<le> g x) \<Longrightarrow> e \<in> set xs \<Longrightarrow> f e < g e \<Longrightarrow> sum_list (map f xs) < (sum_list (map g xs) :: nat)"
proof (induction xs)
  case (Cons x xs)
  have "sum_list (map f xs) \<le> sum_list (map g xs)" using Cons.prems(1) by (intro sum_list_mono) simp
  with Cons show ?case by (cases "x = e") (auto intro: add_le_less_mono add_less_le_mono)
qed simp

lemma more_made: "(made_in w e \<Longrightarrow> made_in w' e) \<Longrightarrow> steps_left (made_in w') e \<le> steps_left (made_in w) e"
  by (cases "EState e") (auto simp: steps_left_def)

text \<open>A worker beside which nothing happens does one thing a step, and each brings the end closer.\<close>

lemma step_progress:
  fixes rep
  assumes m: "cooperative m" and ev: "calm ev" and abs: "filepath_IsAbs (WorkRoot s)"
    and sw: "queue_driver.settled_world s cd w" and q: "queue_fold (history_of cd (w_log w)) = Inr q"
    and n: "well_named q" and ok: "env_ok cd (newQueueWorker s source m) q_run_of ev w"
  defines "out \<equiv> worker_step cd (newQueueWorker s source m) ev rep w"
  shows "progress cd s w out \<or>
    out = (w, rep, Inr (Some StopDrained)) \<and> (\<forall>e \<in> set (Entries q). EState e \<noteq> StateQueued \<and> \<not> in_hand (EState e))"
proof -
  let ?W = "newQueueWorker s source m" and ?rs = "history_of cd (w_log w)"
  have sl: "sound_log cd (WorkRoot s) (w_log w)" using sw by (simp add: queue_driver.settled_world_def)
  then have st: "stored cd ?rs (w_log w)" by (simp add: sound_log_def)
  have o: "others cd ev w = w" using ev by (simp add: others_def calm_def)
  have "env_readable ev" using ev by (simp add: calm_def)
  then obtain runs where d: "step_decide cd ?W ev w = Inr (QNext q runs)" by (rule decides [OF m st q n])
  define dd where "dd = QNext q runs"
  note d = d [folded dd_def]
  have out: "out = step_act cd ?W ev rep dd w" using d o by (simp add: out_def worker_step_def)
  have enc: "act_op ?W ev dd (w_disk w) = Some op \<Longrightarrow> encodable cd (env_now ev) op (w_log w)" for op
    using ok d o by (simp add: env_ok_def)
  have io: "env_io ev = no_append_faults" using ev by (simp add: calm_def)
  note spec = QNext_spec [of q runs, folded dd_def]
  show ?thesis
  proof (cases "DAction dd")
    case ActionDone
    then show ?thesis using spec by (simp add: out step_act_def)
  next
    case ActionClaim
    then obtain us vs where e: "Entries q = us @ DEntry dd # vs" "EState (DEntry dd) = StateQueued"
      and none: "\<forall>x \<in> set (Entries q). \<not> in_hand (EState x)" using spec by auto
    obtain i where i: "env_newRunID ev = Inr i" "validateSegment i = None" using ev by (auto simp: calm_def)
    have "encodable cd (env_now ev) (OpClaim (EID (DEntry dd)) i (join_path (WorkRoot s) i)) (w_log w)"
      using enc ActionClaim i(1) by (simp add: act_op_def newQueueWorker_def)
    from claim_progress [OF st q n _ e(2) none io i abs this, of source m rep]
    have "progress cd s w (step_act cd ?W ev rep (decide ActionClaim (DEntry dd)) w)" using e(1) by simp
    moreover have "step_act cd ?W ev rep dd w = step_act cd ?W ev rep (decide ActionClaim (DEntry dd)) w"
      using ActionClaim by (simp add: step_act_def decide_def)
    ultimately show ?thesis by (simp add: out)
  next
    case ActionSettle
    then have e: "DEntry dd \<in> set (Entries q)" "in_hand (EState (DEntry dd))" "settles (DSettle dd)" using spec by auto
    have "encodable cd (env_now ev) (OpSettle (EID (DEntry dd)) (DSettle dd) (DNote dd)) (w_log w)"
      using enc ActionSettle by (simp add: act_op_def)
    from settle_progress [OF st q n e io this] obtain w' rep' q' where
      "worker_settle cd ev rep (DEntry dd) (DSettle dd) (DNote dd) w = (w', rep', Inr ())" "w_disk w' = w_disk w"
      "queue_fold (history_of cd (w_log w')) = Inr q'" "well_named q'" "work_left (w_disk w) q' < work_left (w_disk w) q" .
    then show ?thesis using q ActionSettle by (simp add: out progress_def step_act_def go_on_def)
  next
    case ActionCreate
    let ?e = "DEntry dd"
    have e: "?e \<in> set (Entries q)" "EState ?e = StateClaimed" using ActionCreate spec by auto
    have dec: "DAction dd \<in> {ActionCreate, ActionDrive}" using ActionCreate by simp
    note dec = queue_driver.decided [OF sl d dec]
    have l: "layout_ok (EDir ?e) (ERunID ?e)" using n e by (auto simp: well_named_def in_hand_def)
    have dir: "EDir ?e = join_path (WorkRoot s) (ERunID ?e)"
      by (rule queue_driver.named_dir [OF sl queue_driver.holds_named [OF dec(1,2)]])
    obtain v where c: "worker_create ?W ?e (w_disk w) = (v, Inr ())" "made_in v ?e"
      by (rule create_ok [OF m l dir dec(3) [OF ActionCreate]])
    have only: "j = ERunID ?e" if run: "q_run_of (w_disk w) (EDir ?e) j \<noteq> None" for j
    proof -
      have "named cd (w_log w) (EDir ?e) j" using sw run by (auto simp: queue_driver.settled_world_def)
      from queue_driver.named_dir [OF sl this] dir show ?thesis by (simp add: join_path_def)
    qed
    have keep: "made_in (w_disk w) x \<Longrightarrow> made_in v x" for x
      using queue_driver.worker_create_frame(1) [OF c(1) dir only] by (auto simp: made_in_def)
    have "steps_left (made_in v) ?e < steps_left (made_in (w_disk w)) ?e"
      using e(2) c(2) dec(3) [OF ActionCreate] by (simp add: steps_left_def made_in_def)
    then have "work_left v q < work_left (w_disk w) q"
      unfolding work_left_def using e(1) more_made [OF keep] by (intro sum_list_less) auto
    then show ?thesis using q n c(1) ActionCreate by (simp add: out progress_def step_act_def go_on_def)
  next
    case ActionDrive
    let ?e = "DEntry dd"
    have e: "?e \<in> set (Entries q)" "in_hand (EState ?e)" using ActionDrive spec by auto
    have dec: "DAction dd \<in> {ActionCreate, ActionDrive}" using ActionDrive by simp
    note dec = queue_driver.decided [OF sl d dec]
    have l: "layout_ok (EDir ?e) (ERunID ?e)" using n e by (auto simp: well_named_def)
    obtain v res where r: "Drive (WDriver ?W) ?e (w_disk w) = (v, Inr res)" "\<not> OInterrupted res" "settles (OState res)"
      by (rule drive_ok [OF m l dec(4) [OF ActionDrive]])
    let ?w = "w\<lparr>w_disk := v\<rparr>"
    have "encodable cd (env_now ev) (OpSettle (EID ?e) (OState res) (ONote res)) (w_log w)"
      using enc ActionDrive r(1,2) by (simp add: act_op_def)
    then have enc': "encodable cd (env_now ev) (OpSettle (EID ?e) (OState res) (ONote res)) (w_log ?w)" by simp
    have st': "stored cd (history_of cd (w_log ?w)) (w_log ?w)" "queue_fold (history_of cd (w_log ?w)) = Inr q"
      using st q by (simp_all del: history_of_stored)
    from settle_progress [OF st' n e r(3) io enc'] obtain w' rep' q' where
      a: "worker_settle cd ev rep ?e (OState res) (ONote res) ?w = (w', rep', Inr ())" "w_disk w' = w_disk ?w"
      "queue_fold (history_of cd (w_log w')) = Inr q'" "well_named q'" "work_left (w_disk ?w) q' < work_left (w_disk ?w) q" .
    have "made_in v = made_in (w_disk w)"
    proof
      fix x show "made_in v x = made_in (w_disk w) x"
        using queue_driver.drive_frame [OF r(1), of "EDir x" "ERunID x"] queue_driver.drive_keeps [OF r(1)]
        by (cases "(EDir x, ERunID x) = (EDir ?e, ERunID ?e)") (auto simp: made_in_def)
    qed
    then have "work_left v q = work_left (w_disk w) q" by (simp add: work_left_def)
    then show ?thesis using q ActionDrive r a by (simp add: out progress_def step_act_def go_on_def)
  qed
qed
section \<open>Draining\<close>

text \<open>The worker's own records, which move no goal.\<close>

lemma note_fold:
  assumes q: "queue_fold rs = Inr q" and r: "QEvent rec = EventWorkerStarted \<or> QEvent rec = EventWorkerStopped"
    and v: "is_ok (QRecord_validate rec)"
  obtains q' where "queue_fold (rs @ [stamp now rs rec]) = Inr q'" "Entries q' = Entries q"
proof -
  let ?r = "stamp now rs rec"
  obtain s where s: "replay fold_step rs fold0 = Inr s" "fold_agrees rs s" "q = folded s"
    using queue_fold_agrees [OF q] by blast
  have p: "fold_prevSeq s = length rs" using s(2) by (simp add: fold_agrees_def)
  have "\<exists>s'. fold_event ?r (s\<lparr>fold_prevSeq := Suc (length rs)\<rparr>) = Inr s' \<and> Entries (folded s') = Entries (folded s)"
    using r by (auto simp: fold_event_def Let_def started_def stopped_def)
  then obtain s' where e: "fold_event ?r (s\<lparr>fold_prevSeq := Suc (length rs)\<rparr>) = Inr s'"
    "Entries (folded s') = Entries (folded s)" by blast
  moreover obtain u where "QRecord_validate ?r = Inr u" using v by (auto simp: is_ok_iff)
  ultimately have "fold_step ?r s = Inr s'" using p by (simp add: fold_step_def)
  with e(2) show ?thesis using that s(1,3) by (simp add: queue_fold_def)
qed

lemma note_succeeds:
  assumes st: "stored cd (history_of cd d) d" and q: "queue_fold (history_of cd d) = Inr q"
    and b: "op_build op q = Inr rec" "op = OpStarted pid \<or> op = OpStopped stop note" "stop \<noteq> StopUnknown"
    and enc: "encodable cd now op d"
  obtains d' q' where "Queue_append cd no_append_faults now (op_build op) d = (d', Inr q')"
    "stored cd (history_of cd d @ [stamp now (history_of cd d) rec]) d'" "queue_fold (history_of cd d') = Inr q'"
    "Entries q' = Entries q"
proof -
  let ?rs = "history_of cd d"
  have "rec = QRecord0\<lparr>QEvent := EventWorkerStarted, QPID := pid\<rparr> \<or>
      rec = QRecord0\<lparr>QEvent := EventWorkerStopped, QStop := stop, QNote := clip note\<rparr>"
    using b(1,2) by (elim disjE) simp_all
  then have r: "QEvent rec = EventWorkerStarted \<or> QEvent rec = EventWorkerStopped" "is_ok (QRecord_validate rec)"
    using b(3) by (elim disjE; simp add: QRecord_validate_def fields_validate_def namesAGoal_def)+
  obtain q' where f: "queue_fold (?rs @ [stamp now ?rs rec]) = Inr q'" "Entries q' = Entries q" by (rule note_fold [OF q r])
  have w: "writable (fst cd) (snd cd) (stamp now ?rs rec)"
    using enc q b(1) r(2) f(1) by (simp add: encodable_def encodes_def)
  have "Queue_append cd no_append_faults now (op_build op) d = (Some (log_file (fst cd) (?rs @ [stamp now ?rs rec])), Inr q')"
    by (rule append_succeeds [where build = "op_build op", OF st q b(1) r(2) f(1) w])
  moreover have new: "stored cd (?rs @ [stamp now ?rs rec]) (Some (log_file (fst cd) (?rs @ [stamp now ?rs rec])))"
    using st w f(1) by (simp add: stored_def del: history_of_stored)
  moreover have "queue_fold (history_of cd (Some (log_file (fst cd) (?rs @ [stamp now ?rs rec])))) = Inr q'"
    unfolding history_of_stored [OF new] by (rule f(1))
  ultimately show ?thesis by (rule that [OF _ _ _ f(2)])
qed

text \<open>What the next \<open>n\<close> steps meet: nothing fails, nobody interferes, and what is written has an
  encoding, the record of stopping included.\<close>

definition Report0 :: Report where
  "Report0 = \<lparr>Settled = [], RStop = StopUnknown, RCutOff = False\<rparr>"

fun unhindered :: "nat \<Rightarrow> codec \<Rightarrow> q_disk Worker \<Rightarrow> (nat \<Rightarrow> env) \<Rightarrow> nat \<Rightarrow> q_disk world \<Rightarrow> bool" where
  "unhindered 0 cd W evs k w = True"
| "unhindered (Suc n) cd W evs k w \<longleftrightarrow> calm (evs k) \<and> env_ok cd W q_run_of (evs k) w \<and>
     encodable cd (env_now (evs k)) (OpStopped StopDrained []) (w_log w) \<and>
     unhindered n cd W evs (Suc k) (fst (worker_step cd W (evs k) Report0 w))"

lemma worker_step_rep: "fst (worker_step cd W ev rep w) = fst (worker_step cd W ev rep' w)"
proof -
  have "fst (step_act cd W ev rep d w) = fst (step_act cd W ev rep' d w)" for d w
    by (cases "DAction d") (auto simp: step_act_def worker_settle_def split: prod.splits sum.splits)
  then show ?thesis by (simp add: worker_step_def split: sum.split)
qed

definition drained :: "codec \<Rightarrow> q_disk world \<Rightarrow> bool" where
  "drained cd w \<longleftrightarrow> (\<exists>q. queue_fold (history_of cd (w_log w)) = Inr q \<and>
     (\<forall>e \<in> set (Entries q). EState e \<noteq> StateQueued \<and> EState e \<noteq> StateClaimed \<and> EState e \<noteq> StateApproved))"

lemma work_loop_drains:
  assumes m: "cooperative m" and abs: "filepath_IsAbs (WorkRoot s)"
  shows "queue_driver.settled_world s cd w \<Longrightarrow> queue_fold (history_of cd (w_log w)) = Inr q \<Longrightarrow> well_named q \<Longrightarrow>
    unhindered n cd (newQueueWorker s source m) evs k w \<Longrightarrow> work_left (w_disk w) q < n \<Longrightarrow>
    \<exists>w' rep'. work_loop n cd (newQueueWorker s source m) text evs k rep w = Some (w', rep', []) \<and>
      RStop rep' = StopDrained \<and> drained cd w'"
proof (induction n arbitrary: k rep w q)
  case (Suc n)
  let ?W = "newQueueWorker s source m" and ?ev = "evs k"
  obtain w1 rep1 r where o: "worker_step cd ?W ?ev rep w = (w1, rep1, r)" using prod_cases3 by blast
  have ok: "calm ?ev" "env_ok cd ?W q_run_of ?ev w" "encodable cd (env_now ?ev) (OpStopped StopDrained []) (w_log w)"
    "unhindered n cd ?W evs (Suc k) w1"
    using Suc.prems(4) worker_step_rep [of cd ?W ?ev rep w Report0] o by simp_all
  have live: "\<not> env_cancelled ?ev" "env_io ?ev = no_append_faults" using ok(1) by (simp_all add: calm_def)
  from step_progress [OF m ok(1) abs Suc.prems(1,2,3) ok(2), of rep] show ?case unfolding o
  proof
    assume p: "progress cd s w (w1, rep1, r)"
    then obtain q1 where q1: "queue_fold (history_of cd (w_log w1)) = Inr q1" "well_named q1"
      "work_left (w_disk w1) q1 < work_left (w_disk w) q" "r = Inr None"
      using Suc.prems(2) by (auto simp: progress_def)
    have "queue_driver.settled_world s cd w1"
      using queue_driver.worker_step_settled(1) [OF Suc.prems(1) ok(2), of rep] by (simp add: o)
    moreover have "work_left (w_disk w1) q1 < n" using q1(3) Suc.prems(5) by simp
    ultimately obtain w' rep' where
      "work_loop n cd ?W text evs (Suc k) rep1 w1 = Some (w', rep', [])" "RStop rep' = StopDrained" "drained cd w'"
      using Suc.IH [OF _ q1(1,2) ok(4)] by blast
    then show ?thesis using live(1) o q1(4) by (simp add: Let_def)
  next
    assume d: "(w1, rep1, r) = (w, rep, Inr (Some StopDrained)) \<and>
      (\<forall>e \<in> set (Entries q). EState e \<noteq> StateQueued \<and> \<not> in_hand (EState e))"
    have st: "stored cd (history_of cd (w_log w)) (w_log w)"
      using Suc.prems(1) by (simp add: queue_driver.settled_world_def sound_log_def)
    obtain d' q' where a: "Queue_append cd no_append_faults (env_now ?ev) (op_build (OpStopped StopDrained [])) (w_log w) = (d', Inr q')"
      "queue_fold (history_of cd d') = Inr q'" "Entries q' = Entries q"
      by (rule note_succeeds [OF st Suc.prems(2), of "OpStopped StopDrained []" _ 0 StopDrained "[]" "env_now ?ev"])
        (use ok(3) in simp_all)
    then have "worker_end cd ?ev rep StopDrained [] w = (w\<lparr>w_log := d'\<rparr>, rep\<lparr>RStop := StopDrained\<rparr>, [])"
      using live(2) by (simp add: worker_end_def workerStopped_def op_build_fun)
    moreover have "drained cd (w\<lparr>w_log := d'\<rparr>)" using a(2,3) d by (auto simp: drained_def in_hand_def)
    ultimately show ?thesis using d o live(1) by (auto simp: Let_def)
  qed
qed simp

text \<open>
  C10. A worker with nothing failing below it drains the queue: from any world a queue can come to, over
  goals whose copies can exist, \<open>Work\<close> returns without an error within three steps a queued goal, two a
  claimed and one an approved, and leaves no goal queued, claimed or approved.
\<close>

theorem Work_drains:
  assumes "cooperative m" "filepath_IsAbs (WorkRoot s)" "reachable cd (newQueueWorker s source) q_run_of w"
    and "queue_fold (history_of cd (w_log w)) = Inr q" "well_named q"
    and "calm (evs 0)" "encodable cd (env_now (evs 0)) (OpStarted pid) (w_log w)"
    and "w1 = w\<lparr>w_log := fst (workerStarted cd (env_io (evs 0)) (env_now (evs 0)) pid (w_log w))\<rparr>"
    and "unhindered n cd (newQueueWorker s source m) evs 1 w1" "work_left (w_disk w) q < n"
  shows "\<exists>w' rep. Work n cd (newQueueWorker s source m) text (Inr ()) pid evs w = Some (w', rep, []) \<and>
    RStop rep = StopDrained \<and> drained cd w'"
proof -
  let ?W = "newQueueWorker s source m" and ?rs = "history_of cd (w_log w)" and ?now = "env_now (evs 0)"
  have sw: "queue_driver.settled_world s cd w" by (rule queue_driver.reachable_settled [OF assms(3)])
  then have sl: "sound_log cd (WorkRoot s) (w_log w)" by (simp add: queue_driver.settled_world_def)
  then have st: "stored cd ?rs (w_log w)" by (simp add: sound_log_def)
  have ev: "env_io (evs 0) = no_append_faults" "env_readable (evs 0)" using assms(6) by (simp_all add: calm_def)
  obtain d' q1 where a: "Queue_append cd no_append_faults ?now (op_build (OpStarted pid)) (w_log w) = (d', Inr q1)"
    "queue_fold (history_of cd d') = Inr q1" "Entries q1 = Entries q"
    by (rule note_succeeds [OF st assms(4), of "OpStarted pid" _ pid StopDrained "[]" ?now]) (use assms(7) in simp_all)
  then have start: "workerStarted cd (env_io (evs 0)) ?now pid (w_log w) = (d', Inr q1)"
    using ev(1) by (simp add: workerStarted_def op_build_fun)
  then have w1: "w1 = w\<lparr>w_log := d'\<rparr>" using assms(8) by simp
  have "d' = run_command cd \<lparr>cmd_op = OpStarted pid, cmd_io = env_io (evs 0), cmd_now = ?now\<rparr> (w_log w)"
    using start by (simp add: run_command_def)
  then have "reachable cd (newQueueWorker s source) q_run_of w1"
    using reachable.outside [OF assms(3), of "\<lparr>cmd_op = OpStarted pid, cmd_io = env_io (evs 0), cmd_now = ?now\<rparr>"] assms(7) w1
    by simp
  then have sw1: "queue_driver.settled_world s cd w1" by (rule queue_driver.reachable_settled)
  have q1: "queue_fold (history_of cd (w_log w1)) = Inr q1" "well_named q1" "work_left (w_disk w1) q1 < n"
    using a assms(5,10) by (simp_all add: w1 well_named_def work_left_def)
  define rep where "rep = Report0\<lparr>RCutOff := StartAt (LastStart q) \<noteq> 0 \<and> \<not> Ended (LastStart q)\<rparr>"
  obtain w' rep' where "work_loop n cd ?W text evs 1 rep w1 = Some (w', rep', [])" "RStop rep' = StopDrained" "drained cd w'"
    using work_loop_drains [OF assms(1,2) sw1 q1(1,2) assms(9) q1(3)] by blast
  then show ?thesis
    using Queue_Read_stored [OF st assms(4)] ev(2) start
    by (simp add: Work_def Let_def rep_def Report0_def w1)
qed

end
