(* ===== verification/Queue_Demo.thy ===== *)
theory Queue_Demo
  imports Queue_Drain
begin

text \<open>
  A queue at work: a goal is added, a worker starts, claims it, makes its run, drives it to its end and
  stops drained. The run of the worker is computed step by step, and shows that the hypotheses of the
  queue's properties hold together.
\<close>

section \<open>A codec of a few records\<close>

definition line_no :: "nat \<Rightarrow> bytes" where
  "line_no i = ''{'' @ replicate (Suc i) CHR ''1'' @ ''}''"

definition list_codec :: "QRecord list \<Rightarrow> codec" where
  "list_codec rs =
     ((\<lambda>r. map_option line_no (List.find (\<lambda>i. rs ! i = r) [0..<length rs])),
      (\<lambda>l. map_option (nth rs) (List.find (\<lambda>i. line_no i = l) [0..<length rs])))"

lemma line_no_inj [simp]: "line_no i = line_no j \<longleftrightarrow> i = j"
  by (simp add: line_no_def replicate_eq_replicate)

lemma line_no_prefix: "strict_prefix p (line_no i) \<Longrightarrow> p \<noteq> line_no j"
proof
  assume p: "strict_prefix p (line_no i)" "p = line_no j"
  then have "strict_prefix (line_no j) (line_no i)" by simp
  then obtain s where s: "line_no i = line_no j @ s" "s \<noteq> []"
    unfolding strict_prefix_def prefix_def by (metis append_Nil2)
  have "CHR ''}'' \<notin> set (butlast (line_no i))" by (simp add: line_no_def butlast_append)
  moreover have "CHR ''}'' \<in> set (butlast (line_no j @ s))" using s(2) by (simp add: butlast_append line_no_def)
  ultimately show False by (simp add: s(1))
qed

lemma line_no_plain: "i < 100 \<Longrightarrow> plain_line (line_no i)"
  by (auto simp: plain_line_def line_no_def newline_def MaxLineBytes_def)

lemma list_codec_writable:
  assumes "r \<in> set rs" "length rs < 100" shows "writable (fst (list_codec rs)) (snd (list_codec rs)) r"
proof -
  have "List.find (\<lambda>i. rs ! i = r) [0..<length rs] \<noteq> None"
    using assms(1) by (auto simp: in_set_conv_nth find_None_iff)
  then obtain i where i: "List.find (\<lambda>i. rs ! i = r) [0..<length rs] = Some i" by blast
  then have ii: "i < length rs" "rs ! i = r" by (auto dest!: find_Some_mem)
  have "List.find (\<lambda>j. line_no j = line_no i) [0..<length rs] = Some i"
    using ii(1) find_map_key [of id "[0..<length rs]" i] by simp
  moreover have "List.find (\<lambda>j. line_no j = p) [0..<length rs] = None" if "strict_prefix p (line_no i)" for p
    using line_no_prefix [OF that] by (auto simp: find_None_iff)
  ultimately show ?thesis
    using i ii assms(2) line_no_plain by (auto simp: writable_def list_codec_def)
qed
section \<open>The queue\<close>

definition demo_store :: Store where "demo_store = \<lparr>Store_dir = ''/w/.belay/queue''\<rparr>"

definition demo_r1 :: QRecord where
  "demo_r1 = QRecord0\<lparr>QSeq := 1, QEvent := EventAdded, QTime := 1, QID := 1, QGoal := ''g''\<rparr>"
definition demo_r2 :: QRecord where
  "demo_r2 = QRecord0\<lparr>QSeq := 2, QEvent := EventWorkerStarted, QTime := 2, QPID := 7\<rparr>"
definition demo_r3 :: QRecord where
  "demo_r3 = QRecord0\<lparr>QSeq := 3, QEvent := EventClaimed, QTime := 3, QID := 1, QRunID := ''a'',
     QDir := join_path (WorkRoot demo_store) ''a''\<rparr>"
definition demo_r4 :: QRecord where
  "demo_r4 = QRecord0\<lparr>QSeq := 4, QEvent := EventSettled, QTime := 5, QID := 1, QState := StateFinished, QNote := ''ok''\<rparr>"
definition demo_r5 :: QRecord where
  "demo_r5 = QRecord0\<lparr>QSeq := 5, QEvent := EventWorkerStopped, QTime := 6, QStop := StopDrained\<rparr>"

text \<open>The worker stops after whatever it last wrote, so a stop is encodable at each length.\<close>

definition demo_stop :: "nat \<Rightarrow> int \<Rightarrow> QRecord" where
  "demo_stop n now = QRecord0\<lparr>QSeq := n, QEvent := EventWorkerStopped, QTime := now, QStop := StopDrained\<rparr>"

definition demo_cd :: codec where
  "demo_cd = list_codec [demo_r1, demo_r2, demo_r3, demo_r4, demo_r5, demo_stop 3 3, demo_stop 4 4, demo_stop 4 5]"

lemma demo_writable:
  "r \<in> {demo_r1, demo_r2, demo_r3, demo_r4, demo_r5, demo_stop 3 3, demo_stop 4 4, demo_stop 4 5} \<Longrightarrow>
   writable (fst demo_cd) (snd demo_cd) r"
  unfolding demo_cd_def by (rule list_codec_writable) auto

definition demo_meets :: q_meets where
  "demo_meets = \<lparr>qm_unreadable = None, qm_plan = Inr (Manifest0\<lparr>M_Status := RunStatusRunning\<rparr>, NewState ''g''),
     qm_blockers = [], qm_make = None, qm_open = None,
     qm_dispatch = (\<lambda>run. (run\<lparr>QR_manifest := (QR_manifest run)\<lparr>M_Status := RunStatusCompleted\<rparr>\<rparr>,
       Inr \<lparr>OV_interrupted = False, OV_status = RunStatusCompleted, OV_node = ''promote'', OV_note = ''ok''\<rparr>)),
     qm_reclaim = None, qm_copy = None, qm_sanitize = (\<lambda>s. s)\<rparr>"

lemma demo_cooperative: "cooperative demo_meets"
  by (simp add: cooperative_def demo_meets_def)

definition demo_at :: "int \<Rightarrow> env" where
  "demo_at now = \<lparr>env_cancelled = False, env_readable = True, env_between = [], env_newRunID = Inr (if now = 3 then ''a'' else ''b''),
     env_io = no_append_faults, env_now = now, env_cancelled_by_end = False\<rparr>"

definition demo_W :: "q_disk Worker" where "demo_W = newQueueWorker demo_store ''/w'' demo_meets"

definition demo_log :: "QRecord list \<Rightarrow> disk" where "demo_log rs = Some (log_file (fst demo_cd) rs)"

definition demo_none :: q_disk where
  "demo_none = \<lparr>q_runs = (\<lambda>_ _. None), q_copies = (\<lambda>_. False)\<rparr>"

definition demo_made :: q_disk where
  "demo_made = \<lparr>q_runs = (\<lambda>_ _. None)(join_path (WorkRoot demo_store) ''a'' :=
       [''a'' \<mapsto> \<lparr>QR_manifest = Manifest0\<lparr>M_Status := RunStatusRunning\<rparr>, QR_state = NewState ''g'', QR_journal = []\<rparr>]),
     q_copies = (\<lambda>_. False)(join_path (WorkRoot demo_store) ''a'' := True)\<rparr>"

definition demo_e :: "QState \<Rightarrow> int \<Rightarrow> QEntry" where
  "demo_e s t = (if s = StateQueued then QEntry0\<lparr>EID := 1, EGoal := ''g'', EState := s, EAddedAt := 1, EUpdatedAt := t\<rparr>
     else QEntry0\<lparr>EID := 1, EGoal := ''g'', EState := s, EAddedAt := 1, EUpdatedAt := t, ERunID := ''a'',
       EDir := join_path (WorkRoot demo_store) ''a'', ENote := (if s = StateFinished then ''ok'' else [])\<rparr>)"

definition demo_start :: QStart where
  "demo_start = QStart0\<lparr>StartAt := 2, StartPID := 7\<rparr>"

lemma demo_text: "TrimSpace ''g'' = ''g''" "filepath_IsAbs (join_path (WorkRoot demo_store) ''a'')"
  "filepath_IsAbs (WorkRoot demo_store)" "validateSegment ''a'' = None"
  by code_simp+

lemmas demo_fold_simps = queue_fold_def fold_step_def fold_event_def Let_def fold0_def Queue0_def QRecord0_def
  QRecord_validate_def fields_validate_def namesAGoal_def Entry_apply_def added_entry_def QEntry0_def
  started_def stopped_def demo_text demo_start_def QStart0_def demo_e_def

lemma demo_fold1: "queue_fold [demo_r1] = Inr \<lparr>Entries = [demo_e StateQueued 1], LastStart = QStart0\<rparr>"
  by (simp add: demo_fold_simps demo_r1_def)

lemma demo_fold2: "queue_fold [demo_r1, demo_r2] = Inr \<lparr>Entries = [demo_e StateQueued 1], LastStart = demo_start\<rparr>"
  by (simp add: demo_fold_simps demo_r1_def demo_r2_def)

lemma demo_fold3:
  "queue_fold [demo_r1, demo_r2, demo_r3] = Inr \<lparr>Entries = [demo_e StateClaimed 3], LastStart = demo_start\<rparr>"
  by (simp add: demo_fold_simps demo_r1_def demo_r2_def demo_r3_def)

lemma demo_fold4:
  "queue_fold [demo_r1, demo_r2, demo_r3, demo_r4] = Inr \<lparr>Entries = [demo_e StateFinished 5], LastStart = demo_start\<rparr>"
  by (simp add: demo_fold_simps demo_r1_def demo_r2_def demo_r3_def demo_r4_def)

section \<open>Step by step\<close>

lemma demo_stored:
  "stored demo_cd [demo_r1] (demo_log [demo_r1])"
  "stored demo_cd [demo_r1, demo_r2] (demo_log [demo_r1, demo_r2])"
  "stored demo_cd [demo_r1, demo_r2, demo_r3] (demo_log [demo_r1, demo_r2, demo_r3])"
  "stored demo_cd [demo_r1, demo_r2, demo_r3, demo_r4] (demo_log [demo_r1, demo_r2, demo_r3, demo_r4])"
  by (simp_all add: stored_def demo_log_def demo_writable demo_fold1 demo_fold2 demo_fold3 demo_fold4)

lemmas demo_history = demo_stored [THEN history_of_stored]

definition demo_w :: "QRecord list \<Rightarrow> q_disk \<Rightarrow> q_disk world" where
  "demo_w rs v = \<lparr>w_log = demo_log rs, w_disk = v\<rparr>"

lemma demo_stamp:
  "stamp 1 [] (QRecord0\<lparr>QEvent := EventAdded, QID := 1, QGoal := ''g'', QNoApproval := False\<rparr>) = demo_r1"
  "stamp 2 [demo_r1] (QRecord0\<lparr>QEvent := EventWorkerStarted, QPID := 7\<rparr>) = demo_r2"
  "stamp 3 [demo_r1, demo_r2] (QRecord0\<lparr>QEvent := EventClaimed, QID := 1, QRunID := ''a'',
     QDir := join_path (WorkRoot demo_store) ''a''\<rparr>) = demo_r3"
  "stamp 5 [demo_r1, demo_r2, demo_r3] (QRecord0\<lparr>QEvent := EventSettled, QID := 1, QState := StateFinished, QNote := ''ok''\<rparr>) = demo_r4"
  "stamp now rs (QRecord0\<lparr>QEvent := EventWorkerStopped, QStop := StopDrained, QNote := []\<rparr>) = demo_stop (Suc (length rs)) now"
  "demo_stop 5 6 = demo_r5"
  by (simp_all add: stamp_def QRecord0_def demo_r1_def demo_r2_def demo_r3_def demo_r4_def demo_r5_def demo_stop_def)

lemma clip_Nil [simp]: "clip [] = []"
  by (simp add: clip_def maxNoteRunes_def)

lemma demo_add:
  "run_op demo_cd no_append_faults 1 (OpAdd ''g'' False) None = demo_log [demo_r1]"
  "encodable demo_cd 1 (OpAdd ''g'' False) None"
proof -
  have s0: "stored demo_cd [] None" "queue_fold [] = Inr Queue0" by (simp_all add: stored_def queue_fold_def fold0_def)
  then have h0: "history_of demo_cd None = []" by simp
  let ?rec = "QRecord0\<lparr>QEvent := EventAdded, QID := 1, QGoal := ''g'', QNoApproval := False\<rparr>"
  have b: "op_build (OpAdd ''g'' False) Queue0 = Inr ?rec" by (simp add: demo_text next_id_def Queue0_def)
  have v: "is_ok (QRecord_validate ?rec)"
    by (simp add: QRecord_validate_def fields_validate_def QRecord0_def demo_text)
  have f: "queue_fold ([] @ [stamp 1 [] ?rec]) = Inr \<lparr>Entries = [demo_e StateQueued 1], LastStart = QStart0\<rparr>"
    unfolding demo_stamp append_Nil by (rule demo_fold1)
  have w: "writable (fst demo_cd) (snd demo_cd) (stamp 1 [] ?rec)" unfolding demo_stamp by (rule demo_writable) simp
  show "run_op demo_cd no_append_faults 1 (OpAdd ''g'' False) None = demo_log [demo_r1]"
    unfolding run_op_build [OF b] append_succeeds [where build = "op_build (OpAdd ''g'' False)", OF s0 b v f w]
    by (simp add: demo_stamp demo_log_def)
  show "encodable demo_cd 1 (OpAdd ''g'' False) None"
    using b w by (simp add: encodable_def h0 s0 encodes_def)
qed

text \<open>One record appended to the demonstration's log.\<close>

lemma demo_append:
  assumes s: "stored demo_cd rs (demo_log rs)" "queue_fold rs = Inr q" and b: "op_build op q = Inr rec"
    and v: "is_ok (QRecord_validate rec)" and r: "stamp now rs rec = r" "queue_fold (rs @ [r]) = Inr q'"
    and w: "writable (fst demo_cd) (snd demo_cd) r"
  shows "Queue_append demo_cd no_append_faults now (op_build op) (demo_log rs) = (demo_log (rs @ [r]), Inr q')"
    "encodable demo_cd now op (demo_log rs)"
  using append_succeeds [where build = "op_build op", OF s b v, of now q'] b w r s(2)
  by (simp_all add: demo_log_def encodable_def history_of_stored [OF s(1), unfolded demo_log_def] encodes_def)

lemma demo_entry:
  "EID (demo_e s t) = 1" "EState (demo_e s t) = s" "s \<noteq> StateQueued \<Longrightarrow> ERunID (demo_e s t) = ''a''"
  "s \<noteq> StateQueued \<Longrightarrow> EDir (demo_e s t) = join_path (WorkRoot demo_store) ''a''"
  by (simp_all add: demo_e_def)

lemma demo_started:
  "workerStarted demo_cd no_append_faults 2 7 (demo_log [demo_r1]) =
     (demo_log [demo_r1, demo_r2], Inr \<lparr>Entries = [demo_e StateQueued 1], LastStart = demo_start\<rparr>)"
  "encodable demo_cd 2 (OpStarted 7) (demo_log [demo_r1])"
  using demo_append [OF demo_stored(1) demo_fold1, of "OpStarted 7" "QRecord0\<lparr>QEvent := EventWorkerStarted, QPID := 7\<rparr>" 2 demo_r2]
  by (simp_all add: workerStarted_def op_build_fun QRecord_validate_def fields_validate_def namesAGoal_def
    demo_stamp demo_fold2 demo_writable)

text \<open>The claim.\<close>

lemma demo_claim_op:
  "Queue_append demo_cd no_append_faults 3 (op_build (OpClaim 1 ''a'' (join_path (WorkRoot demo_store) ''a''))) (demo_log [demo_r1, demo_r2]) =
     (demo_log [demo_r1, demo_r2, demo_r3], Inr \<lparr>Entries = [demo_e StateClaimed 3], LastStart = demo_start\<rparr>)"
  "encodable demo_cd 3 (OpClaim 1 ''a'' (join_path (WorkRoot demo_store) ''a'')) (demo_log [demo_r1, demo_r2])"
proof -
  let ?rec = "QRecord0\<lparr>QEvent := EventClaimed, QID := 1, QRunID := ''a'', QDir := join_path (WorkRoot demo_store) ''a''\<rparr>"
  have b: "op_build (OpClaim 1 ''a'' (join_path (WorkRoot demo_store) ''a'')) \<lparr>Entries = [demo_e StateQueued 1], LastStart = demo_start\<rparr> = Inr ?rec"
    by (simp add: change_build_def Queue_Entry_def demo_entry Entry_apply_def none_claimed_def QRecord0_def)
  have v: "is_ok (QRecord_validate ?rec)"
    by (simp add: QRecord_validate_def fields_validate_def QRecord0_def demo_text)
  note a = demo_append [OF demo_stored(2) demo_fold2 b v demo_stamp(3)]
  show "Queue_append demo_cd no_append_faults 3 (op_build (OpClaim 1 ''a'' (join_path (WorkRoot demo_store) ''a''))) (demo_log [demo_r1, demo_r2]) =
     (demo_log [demo_r1, demo_r2, demo_r3], Inr \<lparr>Entries = [demo_e StateClaimed 3], LastStart = demo_start\<rparr>)"
    "encodable demo_cd 3 (OpClaim 1 ''a'' (join_path (WorkRoot demo_store) ''a'')) (demo_log [demo_r1, demo_r2])"
    using a [of "\<lparr>Entries = [demo_e StateClaimed 3], LastStart = demo_start\<rparr>"] demo_fold3 by (simp_all add: demo_writable)
qed

text \<open>The settle.\<close>

lemma demo_settle_op:
  "Queue_append demo_cd no_append_faults 5 (op_build (OpSettle 1 StateFinished ''ok'')) (demo_log [demo_r1, demo_r2, demo_r3]) =
     (demo_log [demo_r1, demo_r2, demo_r3, demo_r4], Inr \<lparr>Entries = [demo_e StateFinished 5], LastStart = demo_start\<rparr>)"
  "encodable demo_cd 5 (OpSettle 1 StateFinished ''ok'') (demo_log [demo_r1, demo_r2, demo_r3])"
proof -
  let ?rec = "QRecord0\<lparr>QEvent := EventSettled, QID := 1, QState := StateFinished, QNote := ''ok''\<rparr>"
  have b: "op_build (OpSettle 1 StateFinished ''ok'') \<lparr>Entries = [demo_e StateClaimed 3], LastStart = demo_start\<rparr> = Inr ?rec"
    by (simp add: change_build_def Queue_Entry_def demo_entry Entry_apply_def QRecord0_def)
  have v: "is_ok (QRecord_validate ?rec)" by (simp add: QRecord_validate_def fields_validate_def QRecord0_def)
  note a = demo_append [OF demo_stored(3) demo_fold3 b v demo_stamp(4)]
  show "Queue_append demo_cd no_append_faults 5 (op_build (OpSettle 1 StateFinished ''ok'')) (demo_log [demo_r1, demo_r2, demo_r3]) =
     (demo_log [demo_r1, demo_r2, demo_r3, demo_r4], Inr \<lparr>Entries = [demo_e StateFinished 5], LastStart = demo_start\<rparr>)"
    "encodable demo_cd 5 (OpSettle 1 StateFinished ''ok'') (demo_log [demo_r1, demo_r2, demo_r3])"
    using a [of "\<lparr>Entries = [demo_e StateFinished 5], LastStart = demo_start\<rparr>"] demo_fold4 by (simp_all add: demo_writable)
qed

lemma demo_stops:
  assumes "stored demo_cd rs (demo_log rs)" "queue_fold rs = Inr q"
    and "writable (fst demo_cd) (snd demo_cd) (demo_stop (Suc (length rs)) now)"
  shows "encodable demo_cd now (OpStopped StopDrained []) (demo_log rs)"
  using assms by (simp add: encodable_def encodes_def demo_stamp(5))
section \<open>The worker's steps\<close>

lemma demo_decide:
  assumes "stored demo_cd rs (demo_log rs)" "queue_fold rs = Inr q"
  shows "step_decide demo_cd demo_W (demo_at now) (demo_w rs v) =
    bind_result (observe (WDriver demo_W) v q) (\<lambda>runs. Inr (QNext q runs))"
  using Queue_Read_stored [OF assms] by (simp add: step_decide_def demo_w_def demo_at_def)

lemma demo_observe:
  "observe (WDriver demo_W) v \<lparr>Entries = [demo_e StateQueued t], LastStart = l\<rparr> = Inr Map.empty"
  "observe (WDriver demo_W) v \<lparr>Entries = [demo_e StateFinished t], LastStart = l\<rparr> = Inr Map.empty"
  "observe (WDriver demo_W) demo_none \<lparr>Entries = [demo_e StateClaimed t], LastStart = l\<rparr> = Inr [1 \<mapsto> RunView0]"
  "observe (WDriver demo_W) demo_made \<lparr>Entries = [demo_e StateClaimed t], LastStart = l\<rparr> =
     Inr [1 \<mapsto> \<lparr>RunExists = True, RunStatus = RunStatusRunning, GateAsked = False\<rparr>]"
  by (simp_all add: observe_def demo_entry demo_W_def newQueueWorker_def queueDriver_Observe_def layout_ok_def demo_text
    demo_none_def demo_made_def demo_meets_def)

lemma demo_decisions:
  "step_decide demo_cd demo_W (demo_at 3) (demo_w [demo_r1, demo_r2] demo_none) = Inr (decide ActionClaim (demo_e StateQueued 1))"
  "step_decide demo_cd demo_W (demo_at 4) (demo_w [demo_r1, demo_r2, demo_r3] demo_none) = Inr (decide ActionCreate (demo_e StateClaimed 3))"
  "step_decide demo_cd demo_W (demo_at 5) (demo_w [demo_r1, demo_r2, demo_r3] demo_made) = Inr (decide ActionDrive (demo_e StateClaimed 3))"
  unfolding demo_decide [OF demo_stored(2) demo_fold2] demo_decide [OF demo_stored(3) demo_fold3] demo_observe
  by (simp_all add: QNext_def demo_entry claimedNext_def view_of_def RunView0_def)

lemma demo_others [simp]: "others cd (demo_at now) w = w"
  by (simp add: others_def demo_at_def)

lemma demo_entry_id: "EID (demo_e s t) = 1" by (rule demo_entry(1))

lemma demo_step_claim:
  "worker_step demo_cd demo_W (demo_at 3) rep (demo_w [demo_r1, demo_r2] demo_none) =
     (demo_w [demo_r1, demo_r2, demo_r3] demo_none, rep, Inr None)"
proof -
  have "Queue_claim demo_cd no_append_faults 3 1 ''a'' (join_path (WorkRoot demo_store) ''a'') (demo_log [demo_r1, demo_r2]) =
      (demo_log [demo_r1, demo_r2, demo_r3], Inr (demo_e StateClaimed 3))"
    using demo_claim_op(1) by (simp add: Queue_claim_def change_def answer_def op_build_fun Queue_Entry_def demo_entry)
  then show ?thesis unfolding worker_step_def demo_decisions sum.case demo_others
    by (simp add: step_act_def decide_def worker_claim_def demo_at_def demo_entry_id
      demo_W_def newQueueWorker_def demo_w_def go_on_def)
qed

lemma demo_step_create:
  "worker_step demo_cd demo_W (demo_at 4) rep (demo_w [demo_r1, demo_r2, demo_r3] demo_none) =
     (demo_w [demo_r1, demo_r2, demo_r3] demo_made, rep, Inr None)"
proof -
  have "worker_create demo_W (demo_e StateClaimed 3) demo_none = (demo_made, Inr ())"
    by (simp add: worker_create_def demo_entry demo_W_def newQueueWorker_def queueDriver_Observe_def layout_ok_def demo_text
      demo_none_def demo_made_def demo_meets_def RunView0_def copier_Reclaim_def copier_Create_def
      queueDriver_Create_def createRun_def blocked_def Let_def fun_eq_iff)
  then show ?thesis unfolding worker_step_def demo_decisions sum.case demo_others
    by (simp add: step_act_def decide_def demo_w_def go_on_def)
qed

lemma demo_drive:
  "snd (Drive (WDriver demo_W) (demo_e StateClaimed 3) demo_made) =
     Inr \<lparr>OInterrupted = False, OState = StateFinished, ONote = ''ok''\<rparr>"
  by (simp add: demo_entry demo_W_def newQueueWorker_def queueDriver_Drive_def layout_ok_def demo_text
    demo_made_def demo_meets_def blocked_def goalOutcome_def)

lemma demo_act_ops:
  "act_op demo_W (demo_at 3) (decide ActionClaim (demo_e StateQueued 1)) v =
     Some (OpClaim 1 ''a'' (join_path (WorkRoot demo_store) ''a''))"
  "act_op demo_W (demo_at 4) (decide ActionCreate (demo_e StateClaimed 3)) v = None"
  "act_op demo_W (demo_at 5) (decide ActionDrive (demo_e StateClaimed 3)) demo_made = Some (OpSettle 1 StateFinished ''ok'')"
  by (simp_all add: act_op_def decide_def demo_drive demo_entry_id)
    (simp_all add: demo_entry_id demo_at_def demo_W_def newQueueWorker_def)

lemma demo_claims:
  "claims [demo_r1, demo_r2] = []" "claims [demo_r1, demo_r2, demo_r3] = [demo_r3]" "QRunID demo_r3 = ''a''"
  by (simp_all add: claims_def demo_r1_def demo_r2_def demo_r3_def QRecord0_def)

lemma demo_env_ok:
  "env_ok demo_cd demo_W q_run_of (demo_at 3) (demo_w [demo_r1, demo_r2] demo_none)"
  "env_ok demo_cd demo_W q_run_of (demo_at 4) (demo_w [demo_r1, demo_r2, demo_r3] demo_none)"
  "env_ok demo_cd demo_W q_run_of (demo_at 5) (demo_w [demo_r1, demo_r2, demo_r3] demo_made)"
proof -
  note ev = demo_at_def q_run_of_def demo_none_def demo_made_def
  show "env_ok demo_cd demo_W q_run_of (demo_at 3) (demo_w [demo_r1, demo_r2] demo_none)"
    unfolding env_ok_def demo_decisions
    using demo_claim_op(2) by (simp add: demo_w_def demo_act_ops demo_history demo_claims del: others_simps) (simp add: ev)
  show "env_ok demo_cd demo_W q_run_of (demo_at 4) (demo_w [demo_r1, demo_r2, demo_r3] demo_none)"
    unfolding env_ok_def demo_decisions
    by (simp add: demo_w_def demo_act_ops demo_history demo_claims del: others_simps) (simp add: ev)
  show "env_ok demo_cd demo_W q_run_of (demo_at 5) (demo_w [demo_r1, demo_r2, demo_r3] demo_made)"
    unfolding env_ok_def demo_decisions
    using demo_settle_op(2) by (simp add: demo_w_def demo_act_ops demo_history demo_claims del: others_simps) (simp add: ev)
qed

lemma demo_reachable:
  "reachable demo_cd (newQueueWorker demo_store ''/w'') q_run_of (demo_w [demo_r1] demo_none)" (is ?added)
  "reachable demo_cd (newQueueWorker demo_store ''/w'') q_run_of (demo_w [demo_r1, demo_r2, demo_r3] demo_made)" (is ?made)
proof -
  let ?R = "reachable demo_cd (newQueueWorker demo_store ''/w'') q_run_of"
  have "?R \<lparr>w_log = None, w_disk = demo_none\<rparr>"
    by (rule reachable.nothing) (simp_all add: demo_none_def q_run_of_def)
  from reachable.outside [OF this, of "\<lparr>cmd_op = OpAdd ''g'' False, cmd_io = no_append_faults, cmd_now = 1\<rparr>"]
  show added: ?added using demo_add by (simp add: run_command_def demo_w_def)
  from reachable.outside [OF this, of "\<lparr>cmd_op = OpStarted 7, cmd_io = no_append_faults, cmd_now = 2\<rparr>"]
  have "?R (demo_w [demo_r1, demo_r2] demo_none)" using demo_started by (simp add: run_command_def demo_w_def)
  from reachable.worker [OF this, of demo_meets "demo_at 3" Report0]
  have "?R (demo_w [demo_r1, demo_r2, demo_r3] demo_none)"
    using demo_env_ok(1) demo_step_claim by (simp add: demo_W_def)
  from reachable.worker [OF this, of demo_meets "demo_at 4" Report0]
  show ?made using demo_env_ok(2) demo_step_create by (simp add: demo_W_def)
qed
section \<open>Witnesses\<close>

theorem one_run_per_goal_witness:
  "\<exists>!e. e \<in> {demo_e StateClaimed 3} \<and> EDir e = join_path (WorkRoot demo_store) ''a'' \<and> ERunID e = ''a'' \<and>
     EState e \<noteq> StateQueued \<and> EState e \<noteq> StateRemoved"
proof -
  have h: "history_of demo_cd (w_log (demo_w [demo_r1, demo_r2, demo_r3] demo_made)) = [demo_r1, demo_r2, demo_r3]"
    by (simp add: demo_w_def demo_history)
  have "q_run_of demo_made (join_path (WorkRoot demo_store) ''a'') ''a'' \<noteq> None" by (simp add: q_run_of_def demo_made_def)
  moreover obtain q where q: "queue_fold [demo_r1, demo_r2, demo_r3] = Inr q"
    "\<forall>dir i. q_run_of demo_made dir i \<noteq> None \<longrightarrow>
       (\<exists>!e. e \<in> set (Entries q) \<and> EDir e = dir \<and> ERunID e = i \<and> EState e \<noteq> StateQueued \<and> EState e \<noteq> StateRemoved)"
    using one_run_per_goal [OF demo_reachable(2)] unfolding h by (auto simp: demo_w_def)
  moreover have "set (Entries q) = {demo_e StateClaimed 3}" using q(1) unfolding demo_fold3 by auto
  ultimately show ?thesis by metis
qed

theorem parked_never_driven_witness:
  "q_run_of (w_disk (fst (worker_step demo_cd demo_W (demo_at 5) Report0 (demo_w [demo_r1, demo_r2, demo_r3] demo_made))))
     (join_path (WorkRoot demo_store) ''a'') ''a'' \<noteq> None"
proof -
  let ?w = "demo_w [demo_r1, demo_r2, demo_r3] demo_made"
  obtain run where run: "q_run_of (w_disk ?w) (join_path (WorkRoot demo_store) ''a'') ''a'' = Some run"
    by (simp add: demo_w_def q_run_of_def demo_made_def)
  from parked_never_driven [OF demo_reachable(2) demo_env_ok(3) [unfolded demo_W_def] run refl, of Report0]
  show ?thesis unfolding demo_W_def by auto
qed

lemma demo_calm: "calm (demo_at now)"
  by (auto simp: calm_def demo_at_def demo_text) (code_simp)

definition demo_driven :: q_disk where
  "demo_driven = fst (Drive (WDriver demo_W) (demo_e StateClaimed 3) demo_made)"

lemma demo_driven_runs: "q_run_of demo_driven dir ''b'' = None"
  by (simp add: demo_driven_def q_run_of_def demo_entry demo_W_def newQueueWorker_def queueDriver_Drive_def layout_ok_def demo_text
    demo_made_def demo_meets_def blocked_def goalOutcome_def)

lemma demo_step_drive:
  "fst (worker_step demo_cd demo_W (demo_at 5) rep (demo_w [demo_r1, demo_r2, demo_r3] demo_made)) =
     demo_w [demo_r1, demo_r2, demo_r3, demo_r4] demo_driven"
proof -
  have d: "Drive (WDriver demo_W) (demo_e StateClaimed 3) demo_made =
      (demo_driven, Inr \<lparr>OInterrupted = False, OState = StateFinished, ONote = ''ok''\<rparr>)"
    using demo_drive by (simp add: demo_driven_def prod_eq_iff)
  have s: "Queue_settle demo_cd no_append_faults 5 1 StateFinished ''ok'' (demo_log [demo_r1, demo_r2, demo_r3]) =
      (demo_log [demo_r1, demo_r2, demo_r3, demo_r4], Inr (demo_e StateFinished 5))"
    using demo_settle_op(1) by (simp add: Queue_settle_def change_def answer_def op_build_fun Queue_Entry_def demo_entry)
  show ?thesis unfolding worker_step_def demo_decisions sum.case demo_others
    by (simp add: step_act_def decide_def demo_w_def d)
      (simp add: worker_settle_def demo_entry demo_at_def s)
qed

lemma demo_decision_end:
  "step_decide demo_cd demo_W (demo_at 6) (demo_w [demo_r1, demo_r2, demo_r3, demo_r4] v) = Inr (decide ActionDone QEntry0)"
  unfolding demo_decide [OF demo_stored(4) demo_fold4] demo_observe
  by (simp add: QNext_def demo_entry)

lemma demo_claims_end: "claims [demo_r1, demo_r2, demo_r3, demo_r4] = [demo_r3]"
  by (simp add: claims_def demo_r1_def demo_r2_def demo_r3_def demo_r4_def QRecord0_def)

lemma demo_env_ok_end:
  "env_ok demo_cd demo_W q_run_of (demo_at 6) (demo_w [demo_r1, demo_r2, demo_r3, demo_r4] demo_driven)"
  unfolding env_ok_def demo_decision_end
  by (simp add: demo_w_def act_op_def decide_def demo_history demo_claims_end demo_claims(3) del: others_simps)
    (simp add: demo_at_def demo_driven_runs)

lemma demo_stop_ops:
  "encodable demo_cd 3 (OpStopped StopDrained []) (demo_log [demo_r1, demo_r2])"
  "encodable demo_cd 4 (OpStopped StopDrained []) (demo_log [demo_r1, demo_r2, demo_r3])"
  "encodable demo_cd 5 (OpStopped StopDrained []) (demo_log [demo_r1, demo_r2, demo_r3])"
  "encodable demo_cd 6 (OpStopped StopDrained []) (demo_log [demo_r1, demo_r2, demo_r3, demo_r4])"
proof -
  have n: "Suc (length [demo_r1, demo_r2]) = 3" "Suc (length [demo_r1, demo_r2, demo_r3]) = 4"
    "Suc (length [demo_r1, demo_r2, demo_r3, demo_r4]) = 5" by simp_all
  note stops = demo_stops [OF demo_stored(2) demo_fold2] demo_stops [OF demo_stored(3) demo_fold3]
    demo_stops [OF demo_stored(4) demo_fold4]
  show "encodable demo_cd 3 (OpStopped StopDrained []) (demo_log [demo_r1, demo_r2])"
    "encodable demo_cd 4 (OpStopped StopDrained []) (demo_log [demo_r1, demo_r2, demo_r3])"
    "encodable demo_cd 5 (OpStopped StopDrained []) (demo_log [demo_r1, demo_r2, demo_r3])"
    "encodable demo_cd 6 (OpStopped StopDrained []) (demo_log [demo_r1, demo_r2, demo_r3, demo_r4])"
    using stops [unfolded n] demo_writable demo_stamp(6) by simp_all
qed

lemma demo_now [simp]: "env_now (demo_at t) = t" by (simp add: demo_at_def)
lemma demo_w_log [simp]: "w_log (demo_w rs v) = demo_log rs" by (simp add: demo_w_def)

lemma demo_rounds: "(4 :: nat) = Suc (Suc (Suc (Suc 0)))" by simp

theorem Work_drains_witness:
  "\<exists>w' rep. Work 4 demo_cd demo_W (\<lambda>_. []) (Inr ()) 7 (\<lambda>k. demo_at (int k + 2)) (demo_w [demo_r1] demo_none) = Some (w', rep, []) \<and>
     RStop rep = StopDrained \<and> drained demo_cd w'"
  unfolding demo_W_def
proof (rule Work_drains [OF demo_cooperative demo_text(3) demo_reachable(1)])
  let ?q = "\<lparr>Entries = [demo_e StateQueued 1], LastStart = QStart0\<rparr>"
  show "queue_fold (history_of demo_cd (w_log (demo_w [demo_r1] demo_none))) = Inr ?q"
    by (simp add: demo_w_def demo_history demo_fold1)
  show "well_named ?q" by (simp add: well_named_def demo_entry in_hand_def)
  show "calm (demo_at (int 0 + 2))" by (rule demo_calm)
  show "encodable demo_cd (env_now (demo_at (int 0 + 2))) (OpStarted 7) (w_log (demo_w [demo_r1] demo_none))"
    using demo_started(2) by (simp add: demo_at_def demo_w_def)
  show "demo_w [demo_r1, demo_r2] demo_none = (demo_w [demo_r1] demo_none)\<lparr>w_log := fst (workerStarted demo_cd
      (env_io (demo_at (int 0 + 2))) (env_now (demo_at (int 0 + 2))) 7 (w_log (demo_w [demo_r1] demo_none)))\<rparr>"
    using demo_started(1) by (simp add: demo_at_def demo_w_def)
  show "work_left (w_disk (demo_w [demo_r1] demo_none)) ?q < 4"
    by (simp add: work_left_def steps_left_def demo_entry demo_w_def)
  show "unhindered 4 demo_cd (newQueueWorker demo_store ''/w'' demo_meets) (\<lambda>k. demo_at (int k + 2)) 1
      (demo_w [demo_r1, demo_r2] demo_none)"
    unfolding demo_W_def [symmetric] demo_rounds unhindered.simps
    using demo_calm demo_env_ok(1-3) demo_env_ok_end demo_stop_ops by (simp add: demo_step_claim demo_step_create demo_step_drive)
qed

end
