(* ===== verification/Gopath.thy ===== *)
theory Gopath
  imports Utf8
begin

text \<open>
  What the source uses of Go's package path: splitting and joining at separators, \<open>path.Clean\<close>, and
  \<open>path.Match\<close>, written as the library's own loops. A string is its bytes; \<open>None\<close> is
  \<open>path.ErrBadPattern\<close>.
\<close>

section \<open>Segments\<close>

definition has_prefix :: "string \<Rightarrow> string \<Rightarrow> bool" where
  "has_prefix p s \<longleftrightarrow> take (length p) s = p"

text \<open>\<open>strings.Split(s, "/")\<close>: never empty, and joining gives the string back.\<close>

fun split_at :: "char \<Rightarrow> string \<Rightarrow> string list" where
  "split_at d [] = [[]]"
| "split_at d (c # s) =
     (if c = d then [] # split_at d s
      else case split_at d s of [] \<Rightarrow> [[c]] | seg # segs \<Rightarrow> (c # seg) # segs)"

definition split_path :: "string \<Rightarrow> string list" where
  "split_path s = split_at CHR ''/'' s"

fun join_segs :: "string list \<Rightarrow> string" where
  "join_segs [] = []"
| "join_segs [s] = s"
| "join_segs (s # t # ts) = s @ CHR ''/'' # join_segs (t # ts)"

lemma split_at_ne [simp]: "split_at d s \<noteq> []"
  by (induction d s rule: split_at.induct) (auto split: list.split)

lemma split_at_free: "seg \<in> set (split_at d s) \<Longrightarrow> d \<notin> set seg"
  by (induction d s arbitrary: seg rule: split_at.induct) (auto split: if_splits list.splits)

lemma split_at_seg: "d \<notin> set s \<Longrightarrow> split_at d s = [s]"
  by (induction s) auto

lemma split_at_append: "d \<notin> set s \<Longrightarrow> split_at d (s @ d # t) = s # split_at d t"
  by (induction s) auto

lemma join_split [simp]: "join_segs (split_path s) = s"
proof -
  have join_Cons: "segs \<noteq> [] \<Longrightarrow> join_segs ((c # seg) # segs) = c # join_segs (seg # segs)" for c seg segs
    by (cases segs) simp_all
  have "d = CHR ''/'' \<Longrightarrow> join_segs (split_at d s) = s" for d
  proof (induction d s rule: split_at.induct)
    case (2 d c s)
    then show ?case
      by (cases "split_at d s"; cases "tl (split_at d s)") (auto simp: join_Cons)
  qed simp
  then show ?thesis by (simp add: split_path_def)
qed

lemma split_join: "segs \<noteq> [] \<Longrightarrow> \<forall>s \<in> set segs. CHR ''/'' \<notin> set s \<Longrightarrow> split_path (join_segs segs) = segs"
  unfolding split_path_def
  by (induction segs rule: join_segs.induct) (auto simp: split_at_seg split_at_append)

text \<open>\<open>path.Clean\<close>: empty and \<open>.\<close> segments go, and \<open>..\<close> takes back the segment before it, except at
  the front of a path that does not start at the root.\<close>

definition clean_step :: "bool \<Rightarrow> string \<Rightarrow> string list \<Rightarrow> string list" where
  "clean_step rooted seg out =
     (if seg = [] \<or> seg = ''.'' then out
      else if seg = ''..'' then
        (if out \<noteq> [] \<and> last out \<noteq> ''..'' then butlast out
         else if rooted then out else out @ [''..''])
      else out @ [seg])"

definition clean_segs :: "bool \<Rightarrow> string list \<Rightarrow> string list" where
  "clean_segs rooted segs = fold (clean_step rooted) segs []"

definition Clean :: "string \<Rightarrow> string" where
  "Clean p =
     (let rooted = (take 1 p = ''/''); out = clean_segs rooted (split_path p) in
      if rooted then CHR ''/'' # join_segs out
      else if out = [] then ''.'' else join_segs out)"

section \<open>path.Match\<close>

text \<open>One character of a class, unescaped, and what follows it, which may not be nothing.\<close>

definition getEsc :: "string \<Rightarrow> (rune \<times> string) option" where
  "getEsc chunk =
     (case chunk of
        [] \<Rightarrow> None
      | c # cs \<Rightarrow>
          if c = CHR ''-'' \<or> c = CHR '']'' then None
          else (case (if c = CHR 0x5C then cs else chunk) of
              [] \<Rightarrow> None
            | d # ds \<Rightarrow>
                (case DecodeRune d ds of (r, n) \<Rightarrow>
                   if r = RuneError \<and> n = 1 \<or> drop (n - 1) ds = [] then None
                   else Some (r, drop (n - 1) ds))))"

lemma getEsc_shorter: "getEsc s = Some (r, t) \<Longrightarrow> length t < length s"
  using DecodeRune_size(1)
  by (auto simp: getEsc_def split: list.splits if_splits prod.splits)

lemma getEsc_ne: "getEsc s = Some (r, t) \<Longrightarrow> t \<noteq> []"
  by (auto simp: getEsc_def split: list.splits if_splits prod.splits)

text \<open>The ranges of a class up to its closing bracket, and what follows.\<close>

function class_ranges :: "bool \<Rightarrow> string \<Rightarrow> ((rune \<times> rune) list \<times> string) option" where
  "class_ranges first s =
     (if \<not> first \<and> take 1 s = '']'' then Some ([], drop 1 s)
      else case getEsc s of
        None \<Rightarrow> None
      | Some (lo, t) \<Rightarrow>
          (case (if take 1 t = ''-'' then getEsc (drop 1 t) else Some (lo, t)) of
             None \<Rightarrow> None
           | Some (hi, u) \<Rightarrow>
               map_option (\<lambda>(rs, rest). ((lo, hi) # rs, rest)) (class_ranges False u)))"
  by pat_completeness auto
termination
proof (relation "measure (length \<circ> snd)", goal_cases)
  case (2 first s x lo t y hi u)
  have "length t < length s" using 2 getEsc_shorter by auto
  moreover have "length u \<le> length t"
    using 2 getEsc_shorter [of "drop 1 t" hi u] by (auto split: if_splits)
  ultimately show ?case by simp
qed simp

declare class_ranges.simps [simp del]

lemma class_ranges_shorter: "class_ranges first s = Some (rs, rest) \<Longrightarrow> length rest < length s"
proof (induction first s arbitrary: rs rest rule: class_ranges.induct)
  case (1 first s)
  show ?case
  proof (cases "\<not> first \<and> take 1 s = '']''")
    case True
    then have "rest = drop 1 s" using 1(2) by (subst (asm) class_ranges.simps) simp
    then show ?thesis using True by (cases s) simp_all
  next
    case False
    then obtain lo t where g: "getEsc s = Some (lo, t)" using 1(2)
      by (subst (asm) class_ranges.simps) (auto split: option.splits)
    then obtain hi u where h: "(if take 1 t = ''-'' then getEsc (drop 1 t) else Some (lo, t)) = Some (hi, u)"
      using 1(2) False by (subst (asm) class_ranges.simps) (auto split: option.splits)
    then obtain rs' where c: "class_ranges False u = Some (rs', rest)"
      using 1(2) False g by (subst (asm) class_ranges.simps) auto
    have "length t < length s" by (rule getEsc_shorter [OF g])
    moreover have "length u \<le> length t" using h getEsc_shorter [of "drop 1 t" hi u] by (auto split: if_splits)
    moreover have "length rest < length u" using 1(1) [OF False g refl h refl c] .
    ultimately show ?thesis by linarith
  qed
qed

text \<open>\<open>matchChunk\<close>: a chunk holds no star. The string is \<open>None\<close> once the match has failed; the rest of
  the chunk is then only checked. The outer \<open>None\<close> is a malformed chunk.\<close>

definition match_class :: "bool \<Rightarrow> (rune \<times> rune) list \<Rightarrow> string \<Rightarrow> string option" where
  "match_class negated rs s =
     (case s of
        [] \<Rightarrow> None
      | c # cs \<Rightarrow>
          (case DecodeRune c cs of (r, n) \<Rightarrow>
             if (\<exists>(lo, hi) \<in> set rs. lo \<le> r \<and> r \<le> hi) = negated then None else Some (drop (n - 1) cs)))"

definition match_any :: "string \<Rightarrow> string option" where
  "match_any s =
     (case s of
        [] \<Rightarrow> None
      | c # cs \<Rightarrow> if c = CHR ''/'' then None else Some (drop (snd (DecodeRune c cs) - 1) cs))"

definition match_char :: "char \<Rightarrow> string \<Rightarrow> string option" where
  "match_char d s = (case s of [] \<Rightarrow> None | c # cs \<Rightarrow> if c = d then Some cs else None)"

definition class_body :: "string \<Rightarrow> string" where
  "class_body cs = (if take 1 cs = ''^'' then drop 1 cs else cs)"

function matchChunk :: "string \<Rightarrow> string option \<Rightarrow> string option option" where
  "matchChunk [] s = Some s"
| "matchChunk (c # cs) s =
     (if c = CHR ''['' then
        (case class_ranges True (class_body cs) of
           None \<Rightarrow> None
         | Some (rs, rest) \<Rightarrow> matchChunk rest (Option.bind s (match_class (take 1 cs = ''^'') rs)))
      else if c = CHR ''?'' then matchChunk cs (Option.bind s match_any)
      else if c = CHR 0x5C then
        (case cs of [] \<Rightarrow> None | d # ds \<Rightarrow> matchChunk ds (Option.bind s (match_char d)))
      else matchChunk cs (Option.bind s (match_char c)))"
  by pat_completeness auto
termination
proof (relation "measure (length \<circ> fst)", goal_cases)
  case (2 c cs s x rs rest)
  have "length rest < length (class_body cs)" "length (class_body cs) \<le> length cs"
    using class_ranges_shorter [of True "class_body cs" rs rest] 2 by (auto simp: class_body_def)
  then show ?case by simp
qed simp_all

declare matchChunk.simps(2) [simp del]

text \<open>\<open>scanChunk\<close>: leading stars, then everything up to the next star outside a class.\<close>

fun scan_to_star :: "bool \<Rightarrow> string \<Rightarrow> string \<times> string" where
  "scan_to_star inrange [] = ([], [])"
| "scan_to_star inrange (c # cs) =
     (if c = CHR 0x5C then
        (case cs of [] \<Rightarrow> ([c], [])
         | d # ds \<Rightarrow> (case scan_to_star inrange ds of (u, v) \<Rightarrow> (c # d # u, v)))
      else if c = CHR ''*'' \<and> \<not> inrange then ([], c # cs)
      else (case scan_to_star (if c = CHR ''['' then True else if c = CHR '']'' then False else inrange) cs of
        (u, v) \<Rightarrow> (c # u, v)))"

definition stars_off :: "string \<Rightarrow> string" where
  "stars_off p = dropWhile (\<lambda>c. c = CHR ''*'') p"

definition scanChunk :: "string \<Rightarrow> bool \<times> string \<times> string" where
  "scanChunk p = (stars_off p \<noteq> p, scan_to_star False (stars_off p))"

lemma scan_to_star_append: "scan_to_star b p = (u, v) \<Longrightarrow> p = u @ v"
  by (induction b p arbitrary: u v rule: scan_to_star.induct) (auto split: if_splits list.splits prod.splits)

lemma scanChunk_shorter:
  assumes "scanChunk p = (star, chunk, rest)" "p \<noteq> []" shows "length rest < length p"
proof -
  have r: "stars_off p = chunk @ rest"
    using assms(1) scan_to_star_append [of False "stars_off p"] by (auto simp: scanChunk_def)
  have le: "length (stars_off p) \<le> length p" by (simp add: stars_off_def length_dropWhile_le)
  show ?thesis
  proof (cases "chunk = []")
    case True
    then have "scan_to_star False (stars_off p) = ([], stars_off p)" using assms(1) r by (simp add: scanChunk_def)
    moreover have "stars_off p = [] \<or> hd (stars_off p) \<noteq> CHR ''*''"
      using hd_dropWhile [of "\<lambda>c. c = CHR ''*''" p] by (auto simp: stars_off_def)
    ultimately have "stars_off p = []" by (cases "stars_off p") (auto split: if_splits list.splits prod.splits)
    then show ?thesis using r assms(2) by simp
  next
    case False
    then show ?thesis using r le by (cases chunk) simp_all
  qed
qed

text \<open>After a star the chunk is tried further on, but not across a separator. The last chunk has to
  reach the end of the name.\<close>

fun star_skip :: "string \<Rightarrow> bool \<Rightarrow> string \<Rightarrow> string option option" where
  "star_skip chunk lastc [] = Some None"
| "star_skip chunk lastc (c # cs) =
     (if c = CHR ''/'' then Some None
      else case matchChunk chunk (Some cs) of
        None \<Rightarrow> None
      | Some None \<Rightarrow> star_skip chunk lastc cs
      | Some (Some t) \<Rightarrow> if lastc \<and> t \<noteq> [] then star_skip chunk lastc cs else Some (Some t))"

text \<open>Whether what is left of a pattern is well formed.\<close>

function chunks_ok :: "string \<Rightarrow> bool" where
  "chunks_ok p =
     (if p = [] then True
      else case scanChunk p of (_, chunk, rest) \<Rightarrow> matchChunk chunk None \<noteq> None \<and> chunks_ok rest)"
  by pat_completeness auto
termination by (relation "measure length") (auto intro: scanChunk_shorter [OF sym])

declare chunks_ok.simps [simp del]

function path_Match :: "string \<Rightarrow> string \<Rightarrow> bool option" where
  "path_Match p name =
     (if p = [] then Some (name = [])
      else case scanChunk p of (star, chunk, rest) \<Rightarrow>
        if star \<and> chunk = [] then Some (CHR ''/'' \<notin> set name)
        else case matchChunk chunk (Some name) of
          None \<Rightarrow> None
        | Some here \<Rightarrow>
            (case (case here of None \<Rightarrow> None | Some t \<Rightarrow> if t = [] \<or> rest \<noteq> [] then Some t else None) of
               Some t \<Rightarrow> path_Match rest t
             | None \<Rightarrow>
                 (case (if star then star_skip chunk (rest = []) name else Some None) of
                    None \<Rightarrow> None
                  | Some (Some t) \<Rightarrow> path_Match rest t
                  | Some None \<Rightarrow> if chunks_ok rest then Some False else None)))"
  by pat_completeness auto
termination by (relation "measure (length \<circ> fst)") (auto intro: scanChunk_shorter [OF sym])

declare path_Match.simps [simp del]

section \<open>Facts about matching\<close>

text \<open>A pattern is malformed or not whatever the name it is matched against.\<close>

lemma matchChunk_err: "matchChunk chunk s = None \<longleftrightarrow> matchChunk chunk None = None"
proof (induction chunk s rule: matchChunk.induct)
  case (2 c cs s)
  show ?case
  proof (cases "c = CHR ''[''")
    case True
    show ?thesis
    proof (cases "class_ranges True (class_body cs)")
      case None
      then show ?thesis by (simp add: matchChunk.simps(2) True)
    next
      case (Some a)
      obtain rs rest where a: "a = (rs, rest)" by (cases a)
      show ?thesis using 2(1) [OF True Some a [symmetric]] by (simp add: matchChunk.simps(2) True Some a)
    qed
  next
    case False
    then show ?thesis using 2(2-4) by (cases cs) (auto simp: matchChunk.simps(2))
  qed
qed simp

lemma star_skip_err: "star_skip chunk lastc s = None \<Longrightarrow> matchChunk chunk None = None"
proof (induction chunk lastc s rule: star_skip.induct)
  case (2 chunk lastc c cs)
  then show ?case using matchChunk_err [of chunk "Some cs"]
    by (auto split: if_splits option.splits)
qed simp

lemma scanChunk_Nil: "scanChunk p = (star, [], rest) \<Longrightarrow> p \<noteq> [] \<Longrightarrow> star \<and> rest = []"
proof -
  assume p: "scanChunk p = (star, [], rest)" "p \<noteq> []"
  then have "scan_to_star False (stars_off p) = ([], rest)" by (simp add: scanChunk_def)
  moreover from this have "stars_off p = rest" using scan_to_star_append by fastforce
  moreover have "stars_off p = [] \<or> hd (stars_off p) \<noteq> CHR ''*''"
    using hd_dropWhile [of "\<lambda>c. c = CHR ''*''" p] by (auto simp: stars_off_def)
  ultimately have "stars_off p = []" by (cases "stars_off p") (auto split: if_splits list.splits prod.splits)
  then show ?thesis using p \<open>stars_off p = rest\<close> by (auto simp: scanChunk_def)
qed

lemma path_Match_err: "path_Match p name = None \<longleftrightarrow> \<not> chunks_ok p"
proof (induction p name rule: path_Match.induct)
  case (1 p name)
  show ?case
  proof (cases "p = []")
    case True
    then show ?thesis by (simp add: path_Match.simps chunks_ok.simps)
  next
    case False
    obtain star chunk rest where s: "scanChunk p = (star, chunk, rest)" by (rule prod_cases3)
    have ok: "chunks_ok p \<longleftrightarrow> matchChunk chunk None \<noteq> None \<and> chunks_ok rest"
      by (subst chunks_ok.simps) (simp add: False s)
    show ?thesis
    proof (cases "star \<and> chunk = []")
      case True
      then have "rest = []" using scanChunk_Nil s False by blast
      then show ?thesis using True False s ok by (simp add: path_Match.simps chunks_ok.simps)
    next
      case nstar: False
      note un = path_Match.simps [of p name]
      show ?thesis
      proof (cases "matchChunk chunk (Some name)")
        case None
        then show ?thesis using nstar False s ok matchChunk_err [of chunk "Some name"] by (simp add: un)
      next
        case (Some here)
        then have mc: "matchChunk chunk None \<noteq> None" using matchChunk_err [of chunk "Some name"] by simp
        let ?now = "case here of None \<Rightarrow> None | Some t \<Rightarrow> if t = [] \<or> rest \<noteq> [] then Some t else None"
        show ?thesis
        proof (cases ?now)
          case (Some t)
          have "path_Match rest t = None \<longleftrightarrow> \<not> chunks_ok rest"
            by (rule 1(2) [OF False s [symmetric] refl nstar \<open>matchChunk chunk (Some name) = Some here\<close> Some])
          then show ?thesis using nstar False s ok mc Some \<open>matchChunk chunk (Some name) = Some here\<close> by (auto simp: un)
        next
          case None
          let ?later = "if star then star_skip chunk (rest = []) name else Some None"
          show ?thesis
          proof (cases ?later)
            case None
            then show ?thesis using mc star_skip_err by (auto split: if_splits)
          next
            case (Some r)
            then show ?thesis
            proof (cases r)
              case None
              then show ?thesis using nstar False s ok mc Some \<open>?now = None\<close> \<open>matchChunk chunk (Some name) = Some here\<close>
                by (simp add: un)
            next
              fix t assume r: "r = Some t"
              have "path_Match rest t = None \<longleftrightarrow> \<not> chunks_ok rest"
                by (rule 1(1) [OF False s [symmetric] refl nstar \<open>matchChunk chunk (Some name) = Some here\<close> \<open>?now = None\<close>
                    Some r])
              then show ?thesis using nstar False s ok mc Some r \<open>?now = None\<close> \<open>matchChunk chunk (Some name) = Some here\<close>
                by (simp add: un) (use nstar in blast)
            qed
          qed
        qed
      qed
    qed
  qed
qed

text \<open>A pattern without special characters matches itself alone; a star matches what has no separator.\<close>

definition plain_segment :: "string \<Rightarrow> bool" where
  "plain_segment p \<longleftrightarrow> p \<noteq> [] \<and> set p \<inter> {CHR ''*'', CHR ''?'', CHR ''['', CHR 0x5C} = {}"

lemma matchChunk_plain:
  "set p \<inter> {CHR ''*'', CHR ''?'', CHR ''['', CHR 0x5C} = {} \<Longrightarrow>
   matchChunk p s = Some (case s of None \<Rightarrow> None | Some n \<Rightarrow> if take (length p) n = p then Some (drop (length p) n) else None)"
proof (induction p arbitrary: s)
  case Nil
  then show ?case by (simp split: option.split)
next
  case (Cons c cs)
  then have "c \<noteq> CHR ''?''" "c \<noteq> CHR ''[''" "c \<noteq> CHR 0x5C" by auto
  then have "matchChunk (c # cs) s = matchChunk cs (Option.bind s (match_char c))"
    by (simp add: matchChunk.simps(2))
  also have "\<dots> = Some (case Option.bind s (match_char c) of None \<Rightarrow> None
      | Some n \<Rightarrow> if take (length cs) n = cs then Some (drop (length cs) n) else None)"
    using Cons by simp
  finally show ?case by (auto simp: match_char_def split: option.split list.splits)
qed

lemma scan_plain: "set p \<inter> {CHR ''*'', CHR 0x5C} = {} \<Longrightarrow> scan_to_star b p = (p, [])"
  by (induction b p rule: scan_to_star.induct) auto

lemma path_Match_plain: "plain_segment p \<Longrightarrow> path_Match p n = Some (n = p)"
proof -
  assume p: "plain_segment p"
  then have so: "stars_off p = p" by (cases p) (auto simp: stars_off_def plain_segment_def)
  then have s: "scanChunk p = (False, p, [])" using p scan_plain by (auto simp: scanChunk_def plain_segment_def)
  have m: "matchChunk p (Some n) = Some (if take (length p) n = p then Some (drop (length p) n) else None)"
    using p matchChunk_plain [of p "Some n"] by (simp add: plain_segment_def)
  have "p \<noteq> []" using p by (simp add: plain_segment_def)
  moreover have "take (length p) n = p \<and> drop (length p) n = [] \<longleftrightarrow> n = p"
    by (metis append_Nil2 append_take_drop_id drop_all order_refl take_all)
  ultimately show ?thesis
    by (subst path_Match.simps) (auto simp: s m path_Match.simps [of "[]"] chunks_ok.simps [of "[]"])
qed

lemma path_Match_star: "path_Match ''*'' n = Some (CHR ''/'' \<notin> set n)"
  by (subst path_Match.simps) (simp add: scanChunk_def stars_off_def)

end
