(* ===== verification/Glob.thy ===== *)
theory Glob
  imports Gopath Belay "HOL-Library.Sublist"
begin

text \<open>
  internal/glob: the path patterns of belay.yaml, compiled, folded and matched segment by segment, and
  sets of them. \<open>strings.ToLower\<close> rests on the Unicode tables and is the argument \<open>lower\<close>.
\<close>

section \<open>Patterns\<close>

record Pattern =
  raw :: string
  segs :: "string list"
  folded_case :: bool

definition Pattern0 :: Pattern where
  "Pattern0 = \<lparr>raw = [], segs = [], folded_case = False\<rparr>"

datatype bad_pattern =
    PatternEmpty | PatternAbsolute string | PatternLeaves string | PatternNamesNothing string
  | PatternGlued string string | PatternMalformed string

definition trim_slash :: "string \<Rightarrow> string" where
  "trim_slash s = (if s \<noteq> [] \<and> last s = CHR ''/'' then butlast s else s)"

fun has_double_star :: "string \<Rightarrow> bool" where
  "has_double_star (c # d # s) \<longleftrightarrow> c = CHR ''*'' \<and> d = CHR ''*'' \<or> has_double_star (d # s)"
| "has_double_star _ \<longleftrightarrow> False"

text \<open>The segments that name something; a \<open>..\<close> refuses the pattern.\<close>

fun pattern_segs :: "string list \<Rightarrow> string list option" where
  "pattern_segs [] = Some []"
| "pattern_segs (seg # rest) =
     (if seg = ''..'' then None
      else if seg = [] \<or> seg = ''.'' then pattern_segs rest
      else map_option (\<lambda>ss. seg # ss) (pattern_segs rest))"

fun check_segs :: "string \<Rightarrow> string list \<Rightarrow> bad_pattern option" where
  "check_segs pattern [] = None"
| "check_segs pattern (seg # rest) =
     (if seg = ''**'' then check_segs pattern rest
      else if has_double_star seg then Some (PatternGlued pattern seg)
      else if path_Match seg [] = None then Some (PatternMalformed pattern)
      else check_segs pattern rest)"

definition Compile :: "string \<Rightarrow> (bad_pattern, Pattern) result" where
  "Compile pattern =
     (let r = TrimSpace pattern in
      if r = [] then Inl PatternEmpty
      else if take 1 r = ''/'' then Inl (PatternAbsolute pattern)
      else case pattern_segs (split_path (trim_slash r)) of
        None \<Rightarrow> Inl (PatternLeaves pattern)
      | Some ss \<Rightarrow>
          if ss = [] then Inl (PatternNamesNothing pattern)
          else (case check_segs pattern ss of
              Some e \<Rightarrow> Inl e
            | None \<Rightarrow> Inr \<lparr>raw = r, segs = ss, folded_case = False\<rparr>))"

definition Pattern_Fold :: "(string \<Rightarrow> string) \<Rightarrow> Pattern \<Rightarrow> Pattern" where
  "Pattern_Fold lower p = \<lparr>raw = raw p, segs = map lower (segs p), folded_case = True\<rparr>"

definition Pattern_String :: "Pattern \<Rightarrow> string" where
  "Pattern_String p = raw p"

section \<open>Matching\<close>

fun match_segs :: "string list \<Rightarrow> string list \<Rightarrow> bool" where
  "match_segs [] name \<longleftrightarrow> name = []"
| "match_segs (p # ps) name \<longleftrightarrow>
     (if p = ''**'' then list_ex (\<lambda>i. match_segs ps (drop i name)) [0..<Suc (length name)]
      else case name of
        [] \<Rightarrow> False
      | n # ns \<Rightarrow> path_Match p n = Some True \<and> match_segs ps ns)"

text \<open>The segments of a name as it is matched; \<open>None\<close> when it names nothing inside the workspace.\<close>

definition clean_name :: "string \<Rightarrow> string" where
  "clean_name name =
     (let c = Clean (TrimSpace name) in trim_slash (if take 2 c = ''./'' then drop 2 c else c))"

definition name_segs :: "(string \<Rightarrow> string) \<Rightarrow> bool \<Rightarrow> string \<Rightarrow> string list option" where
  "name_segs lower fold_case name =
     (let clean = clean_name name in
      if clean = [] \<or> clean = ''.'' then None
      else Some (split_path (if fold_case then lower clean else clean)))"

definition Pattern_Match :: "(string \<Rightarrow> string) \<Rightarrow> Pattern \<Rightarrow> string \<Rightarrow> bool" where
  "Pattern_Match lower p name =
     (if segs p = [] then False
      else case name_segs lower (folded_case p) name of
        None \<Rightarrow> False
      | Some ns \<Rightarrow> match_segs (segs p) ns)"

section \<open>Sets\<close>

type_synonym GSet = "Pattern list"

fun CompileAll :: "string list \<Rightarrow> (bad_pattern, GSet) result" where
  "CompileAll [] = Inr []"
| "CompileAll (p # ps) = bind_result (Compile p) (\<lambda>c. bind_result (CompileAll ps) (\<lambda>cs. Inr (c # cs)))"

definition Set_Fold :: "(string \<Rightarrow> string) \<Rightarrow> GSet \<Rightarrow> GSet" where
  "Set_Fold lower s = map (Pattern_Fold lower) s"

definition Set_Match :: "(string \<Rightarrow> string) \<Rightarrow> GSet \<Rightarrow> string \<Rightarrow> Pattern option" where
  "Set_Match lower s name = List.find (\<lambda>p. Pattern_Match lower p name) s"

section \<open>What a pattern covers\<close>

text \<open>The specification: \<open>**\<close> stands for any run of segments, every other segment of a pattern for one.\<close>

inductive covers :: "string list \<Rightarrow> string list \<Rightarrow> bool" where
  none: "covers [] []"
| one: "p \<noteq> ''**'' \<Longrightarrow> path_Match p n = Some True \<Longrightarrow> covers ps ns \<Longrightarrow> covers (p # ps) (n # ns)"
| many: "covers ps ns \<Longrightarrow> covers (''**'' # ps) (skipped @ ns)"

inductive_cases covers_NilE [elim]: "covers [] ns"
inductive_cases covers_ConsE: "covers (p # ps) ns"
inductive_simps covers_Nil [simp]: "covers [] ns"

lemma match_segs_iff: "match_segs ps ns \<longleftrightarrow> covers ps ns"
proof (induction ps ns rule: match_segs.induct)
  case (2 p ps name)
  show ?case
  proof (cases "p = ''**''")
    case True
    have "match_segs (p # ps) name \<longleftrightarrow> (\<exists>i \<le> length name. covers ps (drop i name))"
      using 2(1) [OF True] by (auto simp: True list_ex_iff less_Suc_eq_le simp del: upt_Suc)
    also have "\<dots> \<longleftrightarrow> (\<exists>skipped rest. name = skipped @ rest \<and> covers ps rest)"
      by (metis append_eq_conv_conj append_take_drop_id length_append le_add1)
    also have "\<dots> \<longleftrightarrow> covers (p # ps) name"
      unfolding True by (auto intro: covers.many elim!: covers_ConsE)
    finally show ?thesis .
  next
    case False
    then show ?thesis using 2(2) by (auto intro: covers.one elim!: covers_ConsE split: list.split)
  qed
qed simp

lemma Compile_segs:
  assumes "Compile pattern = Inr p"
  shows "segs p \<noteq> []" "folded_case p = False" "\<forall>seg \<in> set (segs p). seg = ''**'' \<or> (\<forall>n. path_Match seg n \<noteq> None)"
    "\<forall>seg \<in> set (segs p). seg \<notin> {[], ''.'', ''..''} \<and> CHR ''/'' \<notin> set seg"
proof -
  from assms obtain ss where ss: "pattern_segs (split_path (trim_slash (TrimSpace pattern))) = Some ss" "ss \<noteq> []"
    "check_segs pattern ss = None" "segs p = ss" "folded_case p = False"
    by (auto simp: Compile_def Let_def split: if_splits option.splits)
  have ok: "check_segs pattern ss = None \<Longrightarrow> \<forall>seg \<in> set ss. seg = ''**'' \<or> (\<forall>n. path_Match seg n \<noteq> None)"
    by (induction ss) (auto simp: path_Match_err split: if_splits)
  have named: "pattern_segs xs = Some ss \<Longrightarrow> set ss \<subseteq> set xs - {[], ''.'', ''..''}" for xs
    by (induction xs arbitrary: ss) (auto split: if_splits)
  show "segs p \<noteq> []" "folded_case p = False" "\<forall>seg \<in> set (segs p). seg = ''**'' \<or> (\<forall>n. path_Match seg n \<noteq> None)"
    using ss ok by simp_all
  show "\<forall>seg \<in> set (segs p). seg \<notin> {[], ''.'', ''..''} \<and> CHR ''/'' \<notin> set seg"
    using named [OF ss(1)] ss(4) split_at_free by (auto simp: split_path_def)
qed

text \<open>
  C28. A compiled pattern matches exactly the names it covers: a name is cleaned, \<open>**\<close> stands for any run
  of its segments, every other segment of the pattern for one that \<open>path.Match\<close> accepts; and no match of
  a compiled pattern ever meets the error \<open>path.Match\<close> can return, which the code throws away.
\<close>

theorem Match_iff_covers:
  assumes "Compile pattern = Inr p"
  shows "(Pattern_Match lower p name \<longleftrightarrow> (\<exists>ns. name_segs lower False name = Some ns \<and> covers (segs p) ns)) \<and>
    (\<forall>seg \<in> set (segs p). seg = ''**'' \<or> (\<forall>n. path_Match seg n \<noteq> None))"
  using Compile_segs [OF assms] by (auto simp: Pattern_Match_def match_segs_iff split: option.split)

section \<open>Cleaned names\<close>

text \<open>What \<open>path.Clean\<close> has kept so far: \<open>..\<close> only at the front, and no empty or \<open>.\<close> segment.\<close>

definition cleaned :: "string list \<Rightarrow> bool" where
  "cleaned out \<longleftrightarrow> (\<exists>k ms. out = replicate k ''..'' @ ms \<and> set ms \<inter> {[], ''.'', ''..''} = {})"

lemma cleanedI: "out = replicate k ''..'' @ ms \<Longrightarrow> set ms \<inter> {[], ''.'', ''..''} = {} \<Longrightarrow> cleaned out"
  unfolding cleaned_def by blast

lemma cleanedE:
  assumes "cleaned out" obtains k ms where "out = replicate k ''..'' @ ms" "set ms \<inter> {[], ''.'', ''..''} = {}"
  using assms unfolding cleaned_def by blast

lemma clean_step_cleaned:
  assumes "cleaned out" shows "cleaned (clean_step rooted seg out)"
proof -
  obtain k ms where o: "out = replicate k ''..'' @ ms" "set ms \<inter> {[], ''.'', ''..''} = {}"
    by (rule cleanedE [OF assms])
  consider "seg = [] \<or> seg = ''.''" | "seg = ''..''" "ms \<noteq> []" | "seg = ''..''" "ms = []"
    | "seg \<notin> {[], ''.'', ''..''}" by blast
  then show ?thesis
  proof cases
    case 1
    then show ?thesis using assms by (auto simp: clean_step_def)
  next
    case 2
    then have "last ms \<in> set ms" by simp
    then have "last ms \<noteq> ''..''" using o(2) by auto
    with 2 have "clean_step rooted seg out = replicate k ''..'' @ butlast ms"
      using o(1) by (auto simp: clean_step_def butlast_append)
    then show ?thesis by (rule cleanedI) (use o(2) in_set_butlastD in fastforce)
  next
    case 3
    have "clean_step rooted seg out = replicate (if rooted then k else Suc k) ''..'' @ []"
      using o(1) 3 by (cases k) (auto simp: clean_step_def replicate_append_same last_replicate)
    then show ?thesis by (rule cleanedI) simp
  next
    case 4
    then have "clean_step rooted seg out = replicate k ''..'' @ (ms @ [seg])" using o(1) by (auto simp: clean_step_def)
    then show ?thesis by (rule cleanedI) (use 4 o(2) in auto)
  qed
qed

lemma clean_segs_cleaned: "cleaned (clean_segs rooted xs)"
proof -
  have "cleaned out \<Longrightarrow> cleaned (fold (clean_step rooted) xs out)" for out
    by (induction xs arbitrary: out) (simp_all add: clean_step_cleaned)
  moreover have "cleaned []" by (rule cleanedI [where k = 0 and ms = "[]"]) simp_all
  ultimately show ?thesis by (simp add: clean_segs_def)
qed

lemma cleaned_named: "cleaned out \<Longrightarrow> seg \<in> set out \<Longrightarrow> seg \<noteq> [] \<and> seg \<noteq> ''.''"
proof -
  assume c: "cleaned out" and s: "seg \<in> set out"
  obtain k ms where o: "out = replicate k ''..'' @ ms" "set ms \<inter> {[], ''.'', ''..''} = {}" by (rule cleanedE [OF c])
  have "seg = ''..'' \<or> seg \<in> set ms" using s by (auto simp: o(1))
  then show ?thesis using o(2) by auto
qed

lemma clean_segs_named:
  "seg \<in> set (clean_segs rooted xs) \<Longrightarrow> seg \<in> insert ''..'' (set xs) \<and> seg \<noteq> [] \<and> seg \<noteq> ''.''"
proof -
  have step: "set (clean_step rooted s out) \<subseteq> insert ''..'' (insert s (set out))" for s out
    by (auto simp: clean_step_def dest: in_set_butlastD)
  have "set (fold (clean_step rooted) xs out) \<subseteq> insert ''..'' (set xs \<union> set out)" for out
  proof (induction xs arbitrary: out)
    case (Cons x xs)
    have "set (fold (clean_step rooted) xs (clean_step rooted x out)) \<subseteq> insert ''..'' (set xs \<union> set (clean_step rooted x out))"
      by (rule Cons.IH)
    then show ?case using step [of x out] by auto
  qed auto
  from this [of "[]"] have "set (clean_segs rooted xs) \<subseteq> insert ''..'' (set xs)" by (simp add: clean_segs_def)
  then show "seg \<in> set (clean_segs rooted xs) \<Longrightarrow> ?thesis" using cleaned_named [OF clean_segs_cleaned] by blast
qed

lemma join_segs_ends:
  assumes "out \<noteq> []" "\<forall>s \<in> set out. s \<noteq> [] \<and> CHR ''/'' \<notin> set s"
  shows "join_segs out \<noteq> []" "take 1 (join_segs out) \<noteq> ''/''" "last (join_segs out) \<noteq> CHR ''/''"
    "take 2 (join_segs out) = ''./'' \<Longrightarrow> hd out = ''.''"
proof -
  have ne: "join_segs out \<noteq> []" "last (join_segs out) \<noteq> CHR ''/''" using assms
    by (induction out rule: join_segs.induct) (auto dest: last_in_set)
  then show "join_segs out \<noteq> []" "last (join_segs out) \<noteq> CHR ''/''" by simp_all
  obtain c s ss where o: "out = (c # s) # ss" using assms by (cases out; cases "hd out") auto
  then have c: "c \<noteq> CHR ''/''" "CHR ''/'' \<notin> set s" using assms(2) by auto
  then show "take 1 (join_segs out) \<noteq> ''/''" using o by (cases ss) auto
  show "take 2 (join_segs out) = ''./'' \<Longrightarrow> hd out = ''.''"
    using o c by (cases ss; cases s) auto
qed

text \<open>A name is matched by its cleaned segments, after an empty one when it starts at the root.\<close>

lemma name_segs_False:
  assumes "name_segs lower False name = Some ns"
  obtains out where "out = clean_segs (take 1 (TrimSpace name) = ''/'') (split_path (TrimSpace name))" "out \<noteq> []"
    "ns = (if take 1 (TrimSpace name) = ''/'' then [] # out else out)"
proof -
  let ?t = "TrimSpace name" and ?out = "clean_segs (take 1 (TrimSpace name) = ''/'') (split_path (TrimSpace name))"
  have named: "\<forall>s \<in> set ?out. s \<noteq> [] \<and> s \<noteq> ''.'' \<and> CHR ''/'' \<notin> set s"
    using clean_segs_named split_at_free by (fastforce simp: split_path_def)
  then have named': "\<forall>s \<in> set ?out. s \<noteq> [] \<and> CHR ''/'' \<notin> set s" by blast
  have ns: "ns = split_path (clean_name name)" "clean_name name \<noteq> []" "clean_name name \<noteq> ''.''"
    using assms by (auto simp: name_segs_def Let_def split: if_splits)
  show ?thesis
  proof (cases "?out = []")
    case True
    then have "Clean ?t = (if take 1 ?t = ''/'' then ''/'' else ''.'')" by (auto simp: Clean_def Let_def)
    then have "clean_name name = [] \<or> clean_name name = ''.''"
      by (auto simp: clean_name_def Let_def trim_slash_def)
    then show ?thesis using ns by blast
  next
    case False
    note j = join_segs_ends [OF False named'] and h = hd_in_set [OF False]
    have sp: "split_path (join_segs ?out) = ?out" using split_join [OF False] named by blast
    show ?thesis
    proof (cases "take 1 ?t = ''/''")
      case True
      then have c: "Clean ?t = CHR ''/'' # join_segs ?out" by (simp add: Clean_def Let_def)
      have "clean_name name = CHR ''/'' # join_segs ?out"
        using j(1,3) by (simp add: clean_name_def c trim_slash_def Let_def)
      then have "ns = [] # ?out" using ns(1) sp by (simp add: split_path_def)
      then show ?thesis using that False True by simp
    next
      case nroot: False
      then have c: "Clean ?t = join_segs ?out" using False by (simp add: Clean_def Let_def)
      have "take 2 (join_segs ?out) \<noteq> ''./''" using j(4) h named by blast
      then have "clean_name name = join_segs ?out" using j(1,3) by (simp add: clean_name_def c trim_slash_def Let_def)
      then have "ns = ?out" using ns(1) sp by simp
      then show ?thesis using that False nroot by simp
    qed
  qed
qed

lemma name_segs_inside:
  assumes "name_segs lower False name = Some (s # ns)" "s \<noteq> []" "s \<noteq> ''..''" shows "''..'' \<notin> set (s # ns)"
proof -
  obtain out where out: "out = clean_segs (take 1 (TrimSpace name) = ''/'') (split_path (TrimSpace name))"
    "s # ns = (if take 1 (TrimSpace name) = ''/'' then [] # out else out)"
    by (rule name_segs_False [OF assms(1)])
  then have "s # ns = out" using assms(2) by (auto split: if_splits)
  moreover obtain k ms where "out = replicate k ''..'' @ ms" "set ms \<inter> {[], ''.'', ''..''} = {}"
    using clean_segs_cleaned unfolding out(1) by (rule cleanedE)
  ultimately show ?thesis using assms(3) by (cases k) auto
qed

section \<open>Directory patterns\<close>

lemma covers_plain:
  "\<forall>s \<in> set d. plain_segment s \<Longrightarrow> covers (d @ qs) ns \<longleftrightarrow> (\<exists>ms. ns = d @ ms \<and> covers qs ms)"
proof (induction d arbitrary: ns)
  case (Cons s d)
  then have s: "s \<noteq> ''**''" "path_Match s n = Some True \<longleftrightarrow> n = s" for n
    by (auto simp: path_Match_plain plain_segment_def)
  show ?case
  proof
    assume "covers ((s # d) @ qs) ns"
    then show "\<exists>ms. ns = (s # d) @ ms \<and> covers qs ms"
      using s Cons by (auto elim!: covers_ConsE)
  next
    assume "\<exists>ms. ns = (s # d) @ ms \<and> covers qs ms"
    then show "covers ((s # d) @ qs) ns" using s Cons by (auto intro!: covers.one)
  qed
qed simp

lemma covers_all [simp]: "covers [''**''] ns"
  using covers.many [OF covers.none, of ns] by simp

lemma has_double_star_plain: "plain_segment s \<Longrightarrow> \<not> has_double_star s"
proof -
  have "CHR ''*'' \<notin> set s \<Longrightarrow> \<not> has_double_star s" by (induction s rule: has_double_star.induct) auto
  then show "plain_segment s \<Longrightarrow> \<not> has_double_star s" by (auto simp: plain_segment_def)
qed

definition directory :: "string list \<Rightarrow> bool" where
  "directory d \<longleftrightarrow> d \<noteq> [] \<and> (\<forall>s \<in> set d. plain_segment s \<and> s \<noteq> ''.'' \<and> s \<noteq> ''..'' \<and> CHR ''/'' \<notin> set s)"

lemma Compile_directory:
  assumes d: "directory d" and t: "TrimSpace (join_segs (d @ [''**''])) = join_segs (d @ [''**''])"
  shows "Compile (join_segs (d @ [''**''])) = Inr \<lparr>raw = join_segs (d @ [''**'']), segs = d @ [''**''], folded_case = False\<rparr>"
proof -
  let ?r = "join_segs (d @ [''**''])"
  have segs: "\<forall>s \<in> set (d @ [''**'']). s \<noteq> [] \<and> CHR ''/'' \<notin> set s" "d @ [''**''] \<noteq> []"
    using d by (auto simp: directory_def plain_segment_def)
  note j = join_segs_ends [OF segs(2,1)]
  have "trim_slash ?r = ?r" using j(3) by (simp add: trim_slash_def)
  moreover have "split_path ?r = d @ [''**'']" using split_join segs by blast
  moreover have "pattern_segs xs = Some xs" if "\<forall>s \<in> set xs. s \<notin> {[], ''.'', ''..''}" for xs
    using that by (induction xs) auto
  then have "pattern_segs (d @ [''**'']) = Some (d @ [''**''])"
    using d by (auto simp: directory_def plain_segment_def)
  moreover have "check_segs pat (xs @ [''**'']) = None" if "\<forall>s \<in> set xs. plain_segment s" for xs pat
    using that by (induction xs) (auto simp: path_Match_plain has_double_star_plain)
  then have "check_segs ?r (d @ [''**'']) = None" using d by (simp add: directory_def)
  ultimately show ?thesis using j(1,2) t by (simp add: Compile_def Let_def)
qed

text \<open>
  The pattern of a directory, \<open>infra/**\<close> say, compiles, and matches exactly the directory and what is
  under it: the names whose cleaned segments start with the directory's and never leave it.
\<close>

theorem directory_pattern:
  assumes "directory d" "TrimSpace (join_segs (d @ [''**''])) = join_segs (d @ [''**''])"
  shows "\<exists>p. Compile (join_segs (d @ [''**''])) = Inr p \<and>
    (\<forall>name. Pattern_Match lower p name \<longleftrightarrow>
       (\<exists>ms. name_segs lower False name = Some (d @ ms) \<and> ''..'' \<notin> set ms))"
proof (rule exI, rule conjI, rule Compile_directory [OF assms], rule allI)
  fix name
  obtain s e where d: "d = s # e" "s \<noteq> []" "s \<noteq> ''..''" "\<forall>s \<in> set d. plain_segment s"
    using assms(1) by (cases d) (auto simp: directory_def plain_segment_def)
  have "name_segs lower False name = Some (d @ ms) \<Longrightarrow> ''..'' \<notin> set ms" for ms
    using name_segs_inside [of lower name s "e @ ms"] d by auto
  then show "Pattern_Match lower \<lparr>raw = join_segs (d @ [''**'']), segs = d @ [''**''], folded_case = False\<rparr> name \<longleftrightarrow>
      (\<exists>ms. name_segs lower False name = Some (d @ ms) \<and> ''..'' \<notin> set ms)"
    using d(4) by (auto simp: Pattern_Match_def match_segs_iff covers_plain split: option.split)
qed

theorem directory_pattern_witness:
  "\<exists>p. Compile ''infra/aws/**'' = Inr p \<and> Pattern_Match (\<lambda>s. s) p ''./infra//aws/main.tf'' \<and>
     \<not> Pattern_Match (\<lambda>s. s) p ''infra/aws/../secrets.tf''"
proof -
  have "directory [''infra'', ''aws'']" by (simp add: directory_def plain_segment_def)
  moreover have "TrimSpace ''infra/aws/**'' = ''infra/aws/**''" by code_simp
  ultimately obtain p where p: "Compile ''infra/aws/**'' = Inr p"
    "\<forall>name. Pattern_Match (\<lambda>s. s) p name \<longleftrightarrow>
       (\<exists>ms. name_segs (\<lambda>s. s) False name = Some ([''infra'', ''aws''] @ ms) \<and> ''..'' \<notin> set ms)"
    using directory_pattern [of "[''infra'', ''aws'']" "\<lambda>s. s"] by auto
  have "name_segs (\<lambda>s. s) False ''./infra//aws/main.tf'' = Some [''infra'', ''aws'', ''main.tf'']"
    "name_segs (\<lambda>s. s) False ''infra/aws/../secrets.tf'' = Some [''infra'', ''secrets.tf'']" by code_simp+
  then show ?thesis using p by auto
qed

theorem Match_iff_covers_witness:
  "\<exists>p. Compile ''**/*_test.go'' = Inr p \<and> Pattern_Match (\<lambda>s. s) p ''internal/nodes/join_test.go''"
proof -
  obtain p where p: "Compile ''**/*_test.go'' = Inr p" "segs p = [''**'', ''*_test.go'']"
  proof -
    have "(case Compile ''**/*_test.go'' of Inl _ \<Rightarrow> [] | Inr p \<Rightarrow> segs p) = [''**'', ''*_test.go'']" by code_simp
    then show ?thesis using that by (cases "Compile ''**/*_test.go''") auto
  qed
  have "covers [''*_test.go''] [''join_test.go'']"
    by (rule covers.one [OF _ _ covers.none]) (simp, code_simp)
  from covers.many [OF this, of "[''internal'', ''nodes'']"]
  have "covers (segs p) [''internal'', ''nodes'', ''join_test.go'']" by (simp add: p(2))
  moreover have "name_segs (\<lambda>s. s) False ''internal/nodes/join_test.go'' = Some [''internal'', ''nodes'', ''join_test.go'']"
    by code_simp
  ultimately show ?thesis using Match_iff_covers [OF p(1)] p(1) by auto
qed

end
