(* ===== verification/Policy_Rules.thy ===== *)
theory Policy_Rules
  imports Glob Manifest
begin

text \<open>
  internal/policy: the rules a change is held to, and their evaluation. The rules and the baseline are
  the records of the manifest's pin; the workspace is a tree of files. Regular expressions, JSON, the
  Unicode case tables and the moment of a cancellation are arguments; a message is the data the code
  prints.
\<close>

section \<open>Rules and violations\<close>

datatype Class = ClassFail | ClassFix

datatype Rule =
    RuleForbiddenPath | RuleMaxChangedFiles | RuleMaxChangedLines | RuleNewDependency | RuleRequiredTests
  | RuleForbiddenContent | Rule_other string

definition allRules :: "Rule list" where
  "allRules = [RuleForbiddenPath, RuleMaxChangedFiles, RuleMaxChangedLines, RuleNewDependency,
     RuleRequiredTests, RuleForbiddenContent]"

fun rule_text :: "Rule \<Rightarrow> string" where
  "rule_text RuleForbiddenPath = ''policy:forbidden_path''"
| "rule_text RuleMaxChangedFiles = ''policy:max_changed_files''"
| "rule_text RuleMaxChangedLines = ''policy:max_changed_lines''"
| "rule_text RuleNewDependency = ''policy:no_new_dependencies''"
| "rule_text RuleRequiredTests = ''policy:required_tests''"
| "rule_text RuleForbiddenContent = ''policy:forbidden_content''"
| "rule_text (Rule_other s) = s"

fun Rule_Class :: "Rule \<Rightarrow> Class" where
  "Rule_Class RuleNewDependency = ClassFix"
| "Rule_Class RuleRequiredTests = ClassFix"
| "Rule_Class RuleForbiddenContent = ClassFix"
| "Rule_Class _ = ClassFail"

definition Rule_Severity :: "Rule \<Rightarrow> Severity" where
  "Rule_Severity r = (if Rule_Class r = ClassFail then SeverityBlocker else SeverityMajor)"

datatype message =
    CoveredBy string Pattern | TooManyFiles nat int | TooManyLines nat int | DeclaresNew string string
  | NothingTests "string list" Pattern Pattern | ForbiddenText string nat ContentRule

record Violation =
  V_Rule :: Rule
  V_Class :: Class
  V_Path :: string
  V_Line :: nat
  V_Message :: message

type_synonym Report = "Violation list"

definition violation :: "Rule \<Rightarrow> string \<Rightarrow> nat \<Rightarrow> message \<Rightarrow> Violation" where
  "violation rule path line m = \<lparr>V_Rule = rule, V_Class = Rule_Class rule, V_Path = path, V_Line = line, V_Message = m\<rparr>"

definition Report_Clean :: "Report \<Rightarrow> bool" where "Report_Clean r \<longleftrightarrow> r = []"

definition Report_Failed :: "Report \<Rightarrow> bool" where
  "Report_Failed r \<longleftrightarrow> (\<exists>v \<in> set r. V_Class v = ClassFail)"

definition Policy_Empty :: "PolicyRules \<Rightarrow> bool" where
  "Policy_Empty p \<longleftrightarrow> ForbiddenPaths p = [] \<and> MaxChangedFiles p = 0 \<and> MaxChangedLines p = 0 \<and>
     \<not> NoNewDependencies p \<and> RequiredTests p = [] \<and> ForbiddenContent p = []"

text \<open>\<open>QualityReport\<close>: one issue a violation, counted by severity. \<open>say\<close> prints a message, \<open>summary\<close> the
  report's one line.\<close>

definition count_issue :: "Severity \<Rightarrow> Counts \<Rightarrow> Counts" where
  "count_issue s c =
     (if s = SeverityBlocker then c\<lparr>Blocker := Blocker c + 1\<rparr>
      else if s = SeverityCritical then c\<lparr>Critical := Critical c + 1\<rparr>
      else if s = SeverityMajor then c\<lparr>Major := Major c + 1\<rparr>
      else if s = SeverityMinor then c\<lparr>Minor := Minor c + 1\<rparr>
      else if s = SeverityInfo then c\<lparr>Info := Info c + 1\<rparr>
      else c)"

definition Report_QualityReport :: "(message \<Rightarrow> string) \<Rightarrow> (Report \<Rightarrow> string) \<Rightarrow> Report \<Rightarrow> QualityReport" where
  "Report_QualityReport say summary r =
     \<lparr>Source = ''belay-policy'', Gate = (if Report_Clean r then GatePass else GateFail),
      Report_Counts = fold (\<lambda>v. count_issue (Rule_Severity (V_Rule v))) r zeroCounts,
      Issues = map (\<lambda>v. \<lparr>RuleID = rule_text (V_Rule v), Issue_Severity = Rule_Severity (V_Rule v), File = V_Path v,
        Line = int (V_Line v), Message = say (V_Message v)\<rparr>) r,
      Summary = summary r\<rparr>"

section \<open>The workspace\<close>

text \<open>A file tree as a walk meets it. A file is its bytes, and whether reading them to the end works; the
  odd entries are links, devices and the like, which no walk follows and no open of the gate reads.\<close>

datatype tree = TFile string bool | TOdd | TDir "(string \<times> tree) list" | TBroken

text \<open>What \<open>root.Open\<close> finds at a path of the workspace.\<close>

datatype found = Missing | Unopenable | Irregular | Text string bool

record Libs =
  lower :: "string \<Rightarrow> string"
  re_compile :: "string \<Rightarrow> (string \<Rightarrow> bool) option"
  json_deps :: "string \<Rightarrow> string list option"

record Workspace =
  ws_tree :: tree
  ws_root_ok :: bool
  ws_open :: "string \<Rightarrow> found"
  ws_cancelled :: "nat \<Rightarrow> bool"
  ws_survey_cancelled :: bool

record Change =
  Ch_Files :: "string list"
  Ch_FoldCase :: bool

datatype policy_error =
    Cancelled | BadGlob string bad_pattern | BadRegexp string | NoWorkspace | CannotRead string | LineTooLong string
  | CannotSurvey

section \<open>Dependencies\<close>

definition maxLineBytes :: nat where "maxLineBytes = 1048576"

text \<open>\<open>scanManifest\<close> hands each trimmed line to \<open>take\<close>, with its flag, and keeps the names.\<close>

fun scan_lines :: "(string \<Rightarrow> bool \<Rightarrow> string \<times> bool) \<Rightarrow> bool \<Rightarrow> string list \<Rightarrow> string list option" where
  "scan_lines tak inBlock [] = Some []"
| "scan_lines tak inBlock (l # ls) =
     (if maxLineBytes \<le> length l then None
      else case tak (TrimSpace (drop_cr l)) inBlock of
        (name, inBlock) \<Rightarrow> map_option (\<lambda>names. if name = [] then names else name # names) (scan_lines tak inBlock ls))"

definition scanManifest :: "(string \<Rightarrow> bool \<Rightarrow> string \<times> bool) \<Rightarrow> string \<Rightarrow> string list option" where
  "scanManifest tak text = scan_lines tak False (raw_lines text)"

text \<open>\<open>strings.Fields\<close> up to its first field: what comes before the first space rune of a trimmed line.\<close>

function first_field :: "string \<Rightarrow> string" where
  "first_field s =
     (case s of
        [] \<Rightarrow> []
      | c # cs \<Rightarrow>
          if List.find (\<lambda>r. take (length r) s = r) space_runes \<noteq> None then []
          else let n = snd (DecodeRune c cs) in take n s @ first_field (drop n s))"
  by pat_completeness auto
termination
proof (relation "measure length", goal_cases)
  case (2 s c cs n)
  then show ?case using DecodeRune_size(1) [of c cs] by simp
qed simp

declare first_field.simps [simp del]

definition modulePath :: "string \<Rightarrow> string" where
  "modulePath line =
     (if line = [] \<or> has_prefix ''//'' line then []
      else let f = first_field (TrimSpace line) in
        if f = [] \<or> has_prefix ''//'' f then [] else f)"

definition goMod_take :: "string \<Rightarrow> bool \<Rightarrow> string \<times> bool" where
  "goMod_take line inBlock =
     (if inBlock \<and> line = '')'' then ([], False)
      else if inBlock then (modulePath line, True)
      else if line = ''require ('' then ([], True)
      else if has_prefix ''require '' line then (modulePath (drop 8 line), False)
      else ([], False))"

definition goModDependencies :: "string \<Rightarrow> string list option" where
  "goModDependencies text = scanManifest goMod_take text"

fun norm_dist :: "bool \<Rightarrow> bool \<Rightarrow> rune list \<Rightarrow> rune list" where
  "norm_dist started dash [] = []"
| "norm_dist started dash (r # rs) =
     (if r = 46 \<or> r = 45 \<or> r = 95 then norm_dist started True rs
      else (if dash \<and> started then [45] else []) @ r # norm_dist True False rs)"

definition distributionName :: "(string \<Rightarrow> string) \<Rightarrow> string \<Rightarrow> string" where
  "distributionName low line =
     (let line = takeWhile (\<lambda>c. c \<notin> set (''=<>!~;[ '' @ [CHR 0x09] @ '',@'')) line in
      utf8 (norm_dist False False (runes (low (TrimSpace line)))))"

text \<open>A line that starts with a dash is no dependency. That takes editable requirements with the options: the
  comment of \<open>requirementsDependencies\<close> says that an editable or URL requirement is recorded as
  written, and the code records neither \<open>-e git+...\<close> nor more of a URL than comes before its first of
  \<open>=<>!~;[,@\<close> and blank.\<close>

definition requirements_take :: "(string \<Rightarrow> string) \<Rightarrow> string \<Rightarrow> bool \<Rightarrow> string \<times> bool" where
  "requirements_take low line inBlock =
     (if line = [] \<or> has_prefix ''#'' line \<or> has_prefix ''-'' line then ([], inBlock)
      else let name = TrimSpace (takeWhile (\<lambda>c. c \<noteq> CHR ''#'') line) in
        (if name = [] then [] else distributionName low name, inBlock))"

definition requirementsDependencies :: "(string \<Rightarrow> string) \<Rightarrow> string \<Rightarrow> string list option" where
  "requirementsDependencies low text = scanManifest (requirements_take low) text"

definition manifestKinds :: "Libs \<Rightarrow> string \<Rightarrow> (string \<Rightarrow> string list option) option" where
  "manifestKinds L name =
     (if name = ''go.mod'' then Some goModDependencies
      else if name = ''package.json'' then Some (json_deps L)
      else if name = ''requirements.txt'' then Some (requirementsDependencies (lower L))
      else None)"

definition DefaultMaxDepth :: nat where "DefaultMaxDepth = 3"

definition defaultSkipDirs :: "string list" where
  "defaultSkipDirs = [''.belay'', ''.git'', ''.venv'', ''__pycache__'', ''build'', ''dist'', ''node_modules'', ''target'', ''vendor'']"

text \<open>The walk: \<open>rel\<close> are the directories down to here, \<open>None\<close> a walk that fails, as it does at a
  directory it cannot read unless it skips it.\<close>

definition skipped_dir :: "string list \<Rightarrow> bool" where
  "skipped_dir rel \<longleftrightarrow> rel \<noteq> [] \<and> (last rel \<in> set defaultSkipDirs \<or> DefaultMaxDepth < length rel)"

definition rel_path :: "string list \<Rightarrow> string" where "rel_path rel = join_segs rel"

fun survey_tree :: "Libs \<Rightarrow> string list \<Rightarrow> tree \<Rightarrow> Dependency list option"
  and survey_entries :: "Libs \<Rightarrow> string list \<Rightarrow> (string \<times> tree) list \<Rightarrow> Dependency list option" where
  "survey_tree L rel TOdd = Some []"
| "survey_tree L rel TBroken = (if skipped_dir rel then Some [] else None)"
| "survey_tree L rel (TFile text readable) =
     (case manifestKinds L (last rel) of
        None \<Rightarrow> Some []
      | Some parse \<Rightarrow>
          if \<not> readable then None
          else map_option (map (\<lambda>name. \<lparr>D_Manifest = rel_path rel, D_Name = name\<rparr>)) (parse text))"
| "survey_tree L rel (TDir entries) =
     (if skipped_dir rel then Some []
      else survey_entries L rel entries)"
| "survey_entries L rel [] = Some []"
| "survey_entries L rel ((name, t) # es) =
     Option.bind (survey_tree L (rel @ [name]) t)
       (\<lambda>ds. map_option (\<lambda>ds'. ds @ ds') (survey_entries L rel es))"

definition dep_key :: "Dependency \<Rightarrow> string \<times> string" where
  "dep_key d = (D_Manifest d, D_Name d)"

text \<open>\<open>normalize\<close> sorts by manifest and then by name, and drops the repeats.\<close>

definition pair_le :: "string \<times> string \<Rightarrow> string \<times> string \<Rightarrow> bool" where
  "pair_le a b \<longleftrightarrow> fst a < fst b \<or> fst a = fst b \<and> snd a \<le> snd b"

fun insert_dep :: "Dependency \<Rightarrow> Dependency list \<Rightarrow> Dependency list" where
  "insert_dep d [] = [d]"
| "insert_dep d (e # es) = (if pair_le (dep_key d) (dep_key e) then d # e # es else e # insert_dep d es)"

definition normalize :: "Dependency list \<Rightarrow> Dependency list" where
  "normalize ds = remdups_adj (foldr insert_dep ds [])"

definition Survey :: "Libs \<Rightarrow> Workspace \<Rightarrow> (policy_error, Dependency list) result" where
  "Survey L w =
     (if ws_survey_cancelled w then Inl Cancelled
      else case survey_tree L [] (ws_tree w) of
        None \<Rightarrow> Inl CannotSurvey
      | Some found \<Rightarrow> Inr (normalize found))"

definition newDependencies :: "Libs \<Rightarrow> Dependency list \<Rightarrow> Workspace \<Rightarrow> (policy_error, Dependency list) result" where
  "newDependencies L base w = bind_result (Survey L w) (\<lambda>now. Inr (filter (\<lambda>d. d \<notin> set base) now))"

section \<open>Evaluation\<close>

definition compileSet :: "Libs \<Rightarrow> string \<Rightarrow> string list \<Rightarrow> bool \<Rightarrow> (policy_error, GSet) result" where
  "compileSet L setting patterns fold_case =
     (case CompileAll patterns of
        Inl e \<Rightarrow> Inl (BadGlob setting e)
      | Inr s \<Rightarrow> Inr (if fold_case then Set_Fold (lower L) s else s))"

definition compileOne :: "Libs \<Rightarrow> string \<Rightarrow> string \<Rightarrow> bool \<Rightarrow> (policy_error, Pattern) result" where
  "compileOne L setting pattern fold_case =
     (case Compile pattern of
        Inl e \<Rightarrow> Inl (BadGlob setting e)
      | Inr p \<Rightarrow> Inr (if fold_case then Pattern_Fold (lower L) p else p))"

record contentMatcher =
  cm_rule :: ContentRule
  cm_re :: "string \<Rightarrow> bool"
  cm_paths :: GSet

definition covers_file :: "Libs \<Rightarrow> contentMatcher \<Rightarrow> string \<Rightarrow> bool" where
  "covers_file L m rel \<longleftrightarrow> cm_paths m = [] \<or> Set_Match (lower L) (cm_paths m) rel \<noteq> None"

fun compileContent :: "Libs \<Rightarrow> ContentRule list \<Rightarrow> bool \<Rightarrow> (policy_error, contentMatcher list) result" where
  "compileContent L [] fold_case = Inr []"
| "compileContent L (rule # rules) fold_case =
     (case re_compile L (ContentRule.Pattern rule) of
        None \<Rightarrow> Inl (BadRegexp (ContentRule.Pattern rule))
      | Some re \<Rightarrow>
          bind_result (compileSet L ''policy.forbidden_content.paths'' (Paths rule) fold_case) (\<lambda>paths.
          bind_result (compileContent L rules fold_case) (\<lambda>ms.
          Inr (\<lparr>cm_rule = rule, cm_re = re, cm_paths = paths\<rparr> # ms))))"

text \<open>\<open>readLine\<close>: the lines of a file, each as much of it as is held, without its carriage return, and
  whether it was cut short; a last line with nothing in it is the end. A file that cannot be read to its
  end has its complete lines.\<close>

definition readLine :: "string \<Rightarrow> string \<times> bool" where
  "readLine l = (drop_cr (take maxLineBytes l), maxLineBytes < length l)"

definition file_lines :: "string \<Rightarrow> bool \<Rightarrow> (string \<times> bool) list" where
  "file_lines text readable =
     (let ls = map readLine (split_at newline text) in
      if readable \<and> fst (last ls) \<noteq> [] then ls else butlast ls)"

text \<open>One pass over the lines: each rule fires at most once a file. \<open>fired\<close> are the indices of those that
  have.\<close>

fun line_hits :: "Libs \<Rightarrow> string \<Rightarrow> nat \<Rightarrow> string \<Rightarrow> nat set \<Rightarrow> (nat \<times> contentMatcher) list \<Rightarrow> nat set \<times> Violation list" where
  "line_hits L rel n line fired [] = (fired, [])"
| "line_hits L rel n line fired ((i, m) # ms) =
     (if i \<in> fired \<or> \<not> covers_file L m rel \<or> \<not> cm_re m line then line_hits L rel n line fired ms
      else case line_hits L rel n line (insert i fired) ms of
        (fired, hits) \<Rightarrow> (fired, violation RuleForbiddenContent rel n (ForbiddenText rel n (cm_rule m)) # hits))"

fun scan_file_lines :: "Libs \<Rightarrow> string \<Rightarrow> contentMatcher list \<Rightarrow> nat \<Rightarrow> nat set \<Rightarrow> (string \<times> bool) list \<Rightarrow>
    (policy_error, nat \<times> Violation list) result" where
  "scan_file_lines L rel ms n fired [] = Inr (n, [])"
| "scan_file_lines L rel ms n fired ((line, truncated) # ls) =
     (if truncated \<and> ms \<noteq> [] then Inl (LineTooLong rel)
      else case line_hits L rel (Suc n) line fired (enumerate 0 ms) of
        (fired, hits) \<Rightarrow>
          bind_result (scan_file_lines L rel ms (Suc n) fired ls) (\<lambda>(lines, more). Inr (lines, hits @ more)))"

definition scanFile :: "Libs \<Rightarrow> Workspace \<Rightarrow> contentMatcher list \<Rightarrow> string \<Rightarrow> (policy_error, nat \<times> Violation list) result" where
  "scanFile L w ms rel =
     (case ws_open w rel of
        Missing \<Rightarrow> Inr (0, [])
      | Unopenable \<Rightarrow> Inl (CannotRead rel)
      | Irregular \<Rightarrow> Inr (0, [])
      | Text text readable \<Rightarrow>
          bind_result (scan_file_lines L rel ms 0 {} (file_lines text readable))
            (\<lambda>r. if readable then Inr r else Inl (CannotRead rel)))"

fun scan_files :: "Libs \<Rightarrow> Workspace \<Rightarrow> contentMatcher list \<Rightarrow> nat \<Rightarrow> string list \<Rightarrow> (policy_error, nat \<times> Violation list) result" where
  "scan_files L w ms k [] = Inr (0, [])"
| "scan_files L w ms k (rel # files) =
     (if ws_cancelled w k then Inl Cancelled
      else bind_result (scanFile L w ms rel) (\<lambda>(lines, hits).
        bind_result (scan_files L w ms (Suc k) files) (\<lambda>(lines', hits').
        Inr (lines + lines', hits @ hits'))))"

definition scanChange :: "Libs \<Rightarrow> Workspace \<Rightarrow> PolicyRules \<Rightarrow> Change \<Rightarrow> string list \<Rightarrow> (policy_error, nat \<times> Violation list) result" where
  "scanChange L w p ch files =
     bind_result (compileContent L (ForbiddenContent p) (Ch_FoldCase ch)) (\<lambda>ms.
       if \<not> 0 < MaxChangedLines p \<and> ms = [] then Inr (0, [])
       else if \<not> ws_root_ok w then Inl NoWorkspace
       else scan_files L w ms 1 files)"

text \<open>The loop of \<open>requiredTest\<close> over the files: \<open>None\<close> when one of them is a test the rule requires.\<close>

fun triggered :: "Libs \<Rightarrow> Pattern \<Rightarrow> Pattern \<Rightarrow> string list \<Rightarrow> string list option" where
  "triggered L wh req [] = Some []"
| "triggered L wh req (rel # files) =
     (if Pattern_Match (lower L) req rel then None
      else map_option (\<lambda>fs. if Pattern_Match (lower L) wh rel then rel # fs else fs) (triggered L wh req files))"

definition requiredTest :: "Libs \<Rightarrow> TestRule \<Rightarrow> string list \<Rightarrow> bool \<Rightarrow> (policy_error, Violation option) result" where
  "requiredTest L rule files fold_case =
     bind_result (compileOne L ''policy.required_tests.when'' (When rule) fold_case) (\<lambda>wh.
     bind_result (compileOne L ''policy.required_tests.require'' (Require rule) fold_case) (\<lambda>req.
     Inr (case triggered L wh req files of
        None \<Rightarrow> None
      | Some [] \<Rightarrow> None
      | Some (f # fs) \<Rightarrow> Some (violation RuleRequiredTests f 0 (NothingTests (f # fs) wh req)))))"

fun requiredTests :: "Libs \<Rightarrow> TestRule list \<Rightarrow> string list \<Rightarrow> bool \<Rightarrow> (policy_error, Violation list) result" where
  "requiredTests L [] files fold_case = Inr []"
| "requiredTests L (rule # rules) files fold_case =
     bind_result (requiredTest L rule files fold_case) (\<lambda>v.
     bind_result (requiredTests L rules files fold_case) (\<lambda>vs.
     Inr (case v of None \<Rightarrow> vs | Some v \<Rightarrow> v # vs)))"

definition sorted_files :: "string list \<Rightarrow> string list" where
  "sorted_files files = remdups_adj (sort files)"

definition forbidden_hits :: "Libs \<Rightarrow> GSet \<Rightarrow> string list \<Rightarrow> Violation list" where
  "forbidden_hits L forbidden files = List.map_filter
     (\<lambda>rel. map_option (\<lambda>pat. violation RuleForbiddenPath rel 0 (CoveredBy rel pat)) (Set_Match (lower L) forbidden rel)) files"

definition Evaluate :: "Libs \<Rightarrow> PolicyRules \<Rightarrow> Dependency list \<Rightarrow> Workspace \<Rightarrow> Change \<Rightarrow> (policy_error, Report) result" where
  "Evaluate L p base w ch =
     (if ws_cancelled w 0 then Inl Cancelled
      else let files = sorted_files (Ch_Files ch) in
        bind_result (compileSet L ''policy.forbidden_paths'' (ForbiddenPaths p) (Ch_FoldCase ch)) (\<lambda>forbidden.
        let paths = forbidden_hits L forbidden files;
            many = (if 0 < MaxChangedFiles p \<and> MaxChangedFiles p < int (length files)
                    then [violation RuleMaxChangedFiles [] 0 (TooManyFiles (length files) (MaxChangedFiles p))] else [])
        in bind_result (scanChange L w p ch files) (\<lambda>(lines, content).
        let long = (if 0 < MaxChangedLines p \<and> MaxChangedLines p < int lines
                    then [violation RuleMaxChangedLines [] 0 (TooManyLines lines (MaxChangedLines p))] else [])
        in bind_result (if NoNewDependencies p then newDependencies L base w else Inr []) (\<lambda>added.
        let deps = map (\<lambda>d. violation RuleNewDependency (D_Manifest d) 0 (DeclaresNew (D_Manifest d) (D_Name d))) added
        in bind_result (requiredTests L (RequiredTests p) files (Ch_FoldCase ch)) (\<lambda>tests.
        Inr (paths @ many @ long @ deps @ tests @ content))))))"

section \<open>What the rules ask\<close>

definition pattern_covers :: "Libs \<Rightarrow> bool \<Rightarrow> string \<Rightarrow> string \<Rightarrow> bool" where
  "pattern_covers L fold_case g rel \<longleftrightarrow>
     (\<exists>p. Compile g = Inr p \<and> Pattern_Match (lower L) (if fold_case then Pattern_Fold (lower L) p else p) rel)"

definition lines_in :: "Workspace \<Rightarrow> string \<Rightarrow> string list" where
  "lines_in w rel = (case ws_open w rel of Text text readable \<Rightarrow> map fst (file_lines text True) | _ \<Rightarrow> [])"

definition paths_obeyed :: "Libs \<Rightarrow> PolicyRules \<Rightarrow> bool \<Rightarrow> string set \<Rightarrow> bool" where
  "paths_obeyed L p fold_case files \<longleftrightarrow> (\<forall>f \<in> files. \<forall>g \<in> set (ForbiddenPaths p). \<not> pattern_covers L fold_case g f)"

definition sizes_obeyed :: "PolicyRules \<Rightarrow> Workspace \<Rightarrow> string set \<Rightarrow> bool" where
  "sizes_obeyed p w files \<longleftrightarrow> (0 < MaxChangedFiles p \<longrightarrow> int (card files) \<le> MaxChangedFiles p) \<and>
     (0 < MaxChangedLines p \<longrightarrow> int (\<Sum>f\<in>files. length (lines_in w f)) \<le> MaxChangedLines p)"

definition repairable_obeyed :: "Libs \<Rightarrow> PolicyRules \<Rightarrow> Dependency list \<Rightarrow> Workspace \<Rightarrow> bool \<Rightarrow> string set \<Rightarrow> bool" where
  "repairable_obeyed L p base w fold_case files \<longleftrightarrow>
     (NoNewDependencies p \<longrightarrow> (\<forall>ds. survey_tree L [] (ws_tree w) = Some ds \<longrightarrow> set ds \<subseteq> set base)) \<and>
     (\<forall>rule \<in> set (RequiredTests p). (\<exists>f \<in> files. pattern_covers L fold_case (When rule) f) \<longrightarrow>
        (\<exists>f \<in> files. pattern_covers L fold_case (Require rule) f)) \<and>
     (\<forall>rule \<in> set (ForbiddenContent p). \<forall>f \<in> files. Paths rule = [] \<or> (\<exists>g \<in> set (Paths rule). pattern_covers L fold_case g f) \<longrightarrow>
        (\<forall>re. re_compile L (ContentRule.Pattern rule) = Some re \<longrightarrow> (\<forall>line \<in> set (lines_in w f). \<not> re line)))"

section \<open>The evaluation decides them\<close>

lemma bind_Inr: "bind_result r f = Inr y \<longleftrightarrow> (\<exists>x. r = Inr x \<and> f x = Inr y)"
  by (cases r) (simp_all add: bind_result_def)

lemma CompileAll_ok: "CompileAll ps = Inr cs \<Longrightarrow> list_all2 (\<lambda>g c. Compile g = Inr c) ps cs"
  by (induction ps arbitrary: cs) (auto simp: bind_Inr)

lemma compileSet_match:
  assumes "compileSet L setting ps fold_case = Inr s"
  shows "Set_Match (lower L) s rel \<noteq> None \<longleftrightarrow> (\<exists>g \<in> set ps. pattern_covers L fold_case g rel)" "s = [] \<longleftrightarrow> ps = []"
proof -
  obtain cs where cs: "CompileAll ps = Inr cs" "s = (if fold_case then Set_Fold (lower L) cs else cs)"
    using assms by (auto simp: compileSet_def split: sum.splits)
  then have all: "list_all2 (\<lambda>g c. Compile g = Inr c) ps cs" using CompileAll_ok by blast
  have "(\<exists>c \<in> set cs. Pattern_Match (lower L) (if fold_case then Pattern_Fold (lower L) c else c) rel) \<longleftrightarrow>
      (\<exists>g \<in> set ps. pattern_covers L fold_case g rel)"
    using all by (induction rule: list_all2_induct) (auto simp: pattern_covers_def)
  moreover have "Set_Match (lower L) s rel \<noteq> None \<longleftrightarrow>
      (\<exists>c \<in> set cs. Pattern_Match (lower L) (if fold_case then Pattern_Fold (lower L) c else c) rel)"
    by (auto simp: Set_Match_def cs(2) Set_Fold_def find_None_iff)
  ultimately show "Set_Match (lower L) s rel \<noteq> None \<longleftrightarrow> (\<exists>g \<in> set ps. pattern_covers L fold_case g rel)" by simp
  show "s = [] \<longleftrightarrow> ps = []" using all by (auto simp: cs(2) Set_Fold_def)
qed

lemma forbidden_hits_spec:
  assumes "compileSet L setting (ForbiddenPaths p) fold_case = Inr s"
  shows "forbidden_hits L s files = [] \<longleftrightarrow> paths_obeyed L p fold_case (set files)"
    "\<forall>v \<in> set (forbidden_hits L s files). V_Class v = ClassFail"
proof -
  have mf: "List.map_filter f xs = [] \<longleftrightarrow> (\<forall>x \<in> set xs. f x = None)" for f :: "string \<Rightarrow> Violation option" and xs
    by (induction xs) (auto simp: List.map_filter_simps split: option.split)
  have none: "Set_Match (lower L) s rel = None \<longleftrightarrow> (\<forall>g \<in> set (ForbiddenPaths p). \<not> pattern_covers L fold_case g rel)" for rel
    using compileSet_match(1) [OF assms, of rel] by blast
  show "forbidden_hits L s files = [] \<longleftrightarrow> paths_obeyed L p fold_case (set files)"
    using none by (simp add: forbidden_hits_def mf paths_obeyed_def)
  show "\<forall>v \<in> set (forbidden_hits L s files). V_Class v = ClassFail"
    by (auto simp: forbidden_hits_def List.map_filter_def violation_def)
qed

text \<open>The content rules, as the evaluation compiles them.\<close>

definition compiled :: "Libs \<Rightarrow> bool \<Rightarrow> ContentRule \<Rightarrow> contentMatcher \<Rightarrow> bool" where
  "compiled L fold_case rule m \<longleftrightarrow> re_compile L (ContentRule.Pattern rule) = Some (cm_re m) \<and>
     (\<forall>rel. covers_file L m rel \<longleftrightarrow> Paths rule = [] \<or> (\<exists>g \<in> set (Paths rule). pattern_covers L fold_case g rel))"

lemma compileContent_ok: "compileContent L rules fold_case = Inr ms \<Longrightarrow> list_all2 (compiled L fold_case) rules ms"
proof (induction rules arbitrary: ms)
  case (Cons rule rules)
  then obtain re paths ms' where r: "re_compile L (ContentRule.Pattern rule) = Some re"
    "compileSet L ''policy.forbidden_content.paths'' (Paths rule) fold_case = Inr paths"
    "compileContent L rules fold_case = Inr ms'" "ms = \<lparr>cm_rule = rule, cm_re = re, cm_paths = paths\<rparr> # ms'"
    by (auto simp: bind_Inr split: option.splits)
  have "compiled L fold_case rule \<lparr>cm_rule = rule, cm_re = re, cm_paths = paths\<rparr>"
    using r(1) compileSet_match [OF r(2)] by (simp add: compiled_def covers_file_def)
  then show ?case using Cons.IH [OF r(3)] r(4) by simp
qed simp

text \<open>The rules that break on a line are those that had fired, and those whose file and line they match.\<close>

definition breaks :: "Libs \<Rightarrow> string \<Rightarrow> string \<Rightarrow> contentMatcher \<Rightarrow> bool" where
  "breaks L rel line m \<longleftrightarrow> covers_file L m rel \<and> cm_re m line"

lemma line_hits_class:
  "line_hits L rel n line fired ims = (fired', hits) \<Longrightarrow> \<forall>v \<in> set hits. V_Class v = ClassFix"
  by (induction L rel n line fired ims arbitrary: fired' hits rule: line_hits.induct)
    (auto simp: violation_def split: if_splits prod.splits)

lemma line_hits_Nil:
  "(snd (line_hits L rel n line {} ims) = [] \<longleftrightarrow> (\<forall>m \<in> snd ` set ims. \<not> breaks L rel line m)) \<and>
   (snd (line_hits L rel n line {} ims) = [] \<longrightarrow> fst (line_hits L rel n line {} ims) = {})"
proof (induction ims)
  case (Cons im ims)
  obtain i m where im: "im = (i, m)" by (cases im)
  show ?case
  proof (cases "breaks L rel line m")
    case True
    then have "snd (line_hits L rel n line {} (im # ims)) \<noteq> []"
      by (simp add: im breaks_def split: prod.split)
    then show ?thesis using True by (simp add: im)
  next
    case False
    then have "line_hits L rel n line {} (im # ims) = line_hits L rel n line {} ims" by (simp add: im breaks_def)
    then show ?thesis using Cons False by (simp add: im)
  qed
qed simp

lemma scan_file_lines_spec:
  assumes "scan_file_lines L rel ms n fired ls = Inr (lines, hits)"
  shows "lines = n + length ls" "\<forall>v \<in> set hits. V_Class v = ClassFix"
    "fired = {} \<Longrightarrow> hits = [] \<longleftrightarrow> (\<forall>line \<in> fst ` set ls. \<forall>m \<in> set ms. \<not> breaks L rel line m)"
proof -
  show "lines = n + length ls" "\<forall>v \<in> set hits. V_Class v = ClassFix"
    using assms
    by (induction L rel ms n fired ls arbitrary: lines hits rule: scan_file_lines.induct)
      (fastforce simp: bind_Inr dest: line_hits_class split: if_splits prod.splits)+
  show "fired = {} \<Longrightarrow> hits = [] \<longleftrightarrow> (\<forall>line \<in> fst ` set ls. \<forall>m \<in> set ms. \<not> breaks L rel line m)"
    using assms
  proof (induction ls arbitrary: n lines hits)
    case (Cons l ls)
    obtain line tr where l: "l = (line, tr)" by (cases l)
    obtain fired' now where h: "line_hits L rel (Suc n) line {} (enumerate 0 ms) = (fired', now)" by (cases "line_hits L rel (Suc n) line {} (enumerate 0 ms)")
    from Cons.prems obtain more where m: "scan_file_lines L rel ms (Suc n) fired' ls = Inr (lines, more)" "hits = now @ more"
      by (auto simp: l h bind_Inr split: if_splits)
    have "snd ` set (enumerate 0 ms) = set ms" using map_snd_enumerate [of 0 ms] by (metis set_map)
    then have "now = [] \<longleftrightarrow> (\<forall>m \<in> set ms. \<not> breaks L rel line m)" "now = [] \<Longrightarrow> fired' = {}"
      using line_hits_Nil [of L rel "Suc n" line "enumerate 0 ms"] by (simp_all add: h)
    then show ?case using Cons.IH [of "Suc n" lines more] m Cons.prems(1) by (auto simp: l)
  qed simp
qed

lemma scanFile_spec:
  assumes "scanFile L w ms rel = Inr (lines, hits)"
  shows "lines = length (lines_in w rel)" "\<forall>v \<in> set hits. V_Class v = ClassFix"
    "hits = [] \<longleftrightarrow> (\<forall>line \<in> set (lines_in w rel). \<forall>m \<in> set ms. \<not> breaks L rel line m)"
proof -
  consider "lines = 0" "hits = []" "lines_in w rel = []"
    | body where "ws_open w rel = Text body True" "scan_file_lines L rel ms 0 {} (file_lines body True) = Inr (lines, hits)"
    using assms by (auto simp: scanFile_def lines_in_def bind_Inr split: found.splits if_splits)
  then have "lines = length (lines_in w rel) \<and> (\<forall>v \<in> set hits. V_Class v = ClassFix) \<and>
      (hits = [] \<longleftrightarrow> (\<forall>line \<in> set (lines_in w rel). \<forall>m \<in> set ms. \<not> breaks L rel line m))"
  proof cases
    case 2
    have li: "lines_in w rel = map fst (file_lines body True)" by (simp add: lines_in_def 2(1))
    show ?thesis using scan_file_lines_spec [OF 2(2)] by (simp add: li)
  qed simp
  then show "lines = length (lines_in w rel)" "\<forall>v \<in> set hits. V_Class v = ClassFix"
    "hits = [] \<longleftrightarrow> (\<forall>line \<in> set (lines_in w rel). \<forall>m \<in> set ms. \<not> breaks L rel line m)" by simp_all
qed

lemma scan_files_spec:
  "scan_files L w ms k files = Inr (lines, hits) \<Longrightarrow>
   lines = sum_list (map (\<lambda>f. length (lines_in w f)) files) \<and> (\<forall>v \<in> set hits. V_Class v = ClassFix) \<and>
   (hits = [] \<longleftrightarrow> (\<forall>f \<in> set files. \<forall>line \<in> set (lines_in w f). \<forall>m \<in> set ms. \<not> breaks L f line m))"
proof (induction files arbitrary: k lines hits)
  case (Cons f files)
  then obtain l1 h1 l2 h2 where r: "scanFile L w ms f = Inr (l1, h1)" "scan_files L w ms (Suc k) files = Inr (l2, h2)"
    "lines = l1 + l2" "hits = h1 @ h2"
    by (auto simp: bind_Inr split: if_splits)
  show ?case using scanFile_spec [OF r(1)] Cons.IH [OF r(2)] r(3,4) by auto
qed simp

text \<open>The rules about tests.\<close>

lemma compileOne_match:
  assumes "compileOne L setting g fold_case = Inr p"
  shows "Pattern_Match (lower L) p rel \<longleftrightarrow> pattern_covers L fold_case g rel"
  using assms by (auto simp: compileOne_def pattern_covers_def split: sum.splits)

lemma triggered_spec:
  "triggered L wh req files =
     (if \<exists>f \<in> set files. Pattern_Match (lower L) req f then None
      else Some (filter (Pattern_Match (lower L) wh) files))"
  by (induction files) auto

lemma requiredTest_spec:
  assumes "requiredTest L rule files fold_case = Inr v"
  shows "v = None \<longleftrightarrow> ((\<exists>f \<in> set files. pattern_covers L fold_case (When rule) f) \<longrightarrow>
      (\<exists>f \<in> set files. pattern_covers L fold_case (Require rule) f))"
    "\<forall>x. v = Some x \<longrightarrow> V_Class x = ClassFix"
proof -
  obtain wh req where c: "compileOne L ''policy.required_tests.when'' (When rule) fold_case = Inr wh"
    "compileOne L ''policy.required_tests.require'' (Require rule) fold_case = Inr req"
    "v = (case triggered L wh req files of None \<Rightarrow> None | Some [] \<Rightarrow> None
      | Some (f # fs) \<Rightarrow> Some (violation RuleRequiredTests f 0 (NothingTests (f # fs) wh req)))"
    using assms by (auto simp: requiredTest_def bind_Inr)
  have "v = None \<longleftrightarrow> (\<exists>f \<in> set files. Pattern_Match (lower L) req f) \<or> filter (Pattern_Match (lower L) wh) files = []"
    unfolding c(3) triggered_spec by (auto split: list.split)
  then show "v = None \<longleftrightarrow> ((\<exists>f \<in> set files. pattern_covers L fold_case (When rule) f) \<longrightarrow>
      (\<exists>f \<in> set files. pattern_covers L fold_case (Require rule) f))"
    by (auto simp: compileOne_match [OF c(1)] compileOne_match [OF c(2)] filter_empty_conv)
  show "\<forall>x. v = Some x \<longrightarrow> V_Class x = ClassFix"
    unfolding c(3) by (auto simp: violation_def split: option.splits list.splits)
qed

lemma requiredTests_spec:
  "requiredTests L rules files fold_case = Inr vs \<Longrightarrow>
   (vs = [] \<longleftrightarrow> (\<forall>rule \<in> set rules. (\<exists>f \<in> set files. pattern_covers L fold_case (When rule) f) \<longrightarrow>
      (\<exists>f \<in> set files. pattern_covers L fold_case (Require rule) f))) \<and> (\<forall>v \<in> set vs. V_Class v = ClassFix)"
proof (induction rules arbitrary: vs)
  case (Cons rule rules)
  then obtain v vs' where v: "requiredTest L rule files fold_case = Inr v"
    "requiredTests L rules files fold_case = Inr vs'" "vs = (case v of None \<Rightarrow> vs' | Some v \<Rightarrow> v # vs')"
    by (auto simp: bind_Inr)
  show ?case using requiredTest_spec [OF v(1)] Cons.IH [OF v(2)] v(3) by (cases v) simp_all
qed simp

text \<open>The surveyed dependencies, sorted and without repeats, are those the tree declares.\<close>

lemma set_normalize [simp]: "set (normalize ds) = set ds"
proof -
  have "set (insert_dep d es) = insert d (set es)" for d es by (induction es) auto
  then have "set (foldr insert_dep ds []) = set ds" by (induction ds) auto
  then show ?thesis by (simp add: normalize_def)
qed

lemma newDependencies_spec:
  assumes "newDependencies L base w = Inr added"
  shows "added = [] \<longleftrightarrow> (\<forall>ds. survey_tree L [] (ws_tree w) = Some ds \<longrightarrow> set ds \<subseteq> set base)"
  using assms by (auto simp: newDependencies_def Survey_def bind_Inr filter_empty_conv split: if_splits option.splits)

text \<open>The files a change names are judged as a set.\<close>

lemma sorted_files_set [simp]: "set (sorted_files files) = set files"
  by (simp add: sorted_files_def)

lemma sorted_files_eq: "sorted_files files = sorted_list_of_set (set files)"
proof -
  have "sorted (remdups_adj xs) \<and> distinct (remdups_adj xs)" if "sorted xs" for xs :: "string list"
    using that by (induction xs rule: remdups_adj.induct) (auto simp: order_le_less)
  from this [of "sort files"] show ?thesis
    unfolding sorted_files_def
    by (intro sorted_distinct_set_unique) simp_all
qed

lemma sum_sorted_files: "sum_list (map f (sorted_files files)) = (\<Sum>x\<in>set files. f x :: nat)"
  by (simp add: sorted_files_eq sum_list_distinct_conv_sum_set)

lemma length_sorted_files: "length (sorted_files files) = card (set files)"
  by (simp add: sorted_files_eq)

lemma Report_Failed_parts:
  assumes "\<forall>v \<in> set a. V_Class v = ClassFail" "\<forall>v \<in> set b. V_Class v = ClassFail" "\<forall>v \<in> set c. V_Class v = ClassFix"
  shows "Report_Failed (a @ b @ c) \<longleftrightarrow> a \<noteq> [] \<or> b \<noteq> []"
  using assms by (cases a; cases b) (auto simp: Report_Failed_def)

lemma Evaluate_spec:
  assumes "Evaluate L p base w ch = Inr rep"
  shows "(Report_Clean rep \<longleftrightarrow> paths_obeyed L p (Ch_FoldCase ch) (set (Ch_Files ch)) \<and> sizes_obeyed p w (set (Ch_Files ch)) \<and>
      repairable_obeyed L p base w (Ch_FoldCase ch) (set (Ch_Files ch))) \<and>
    (Report_Failed rep \<longleftrightarrow> \<not> (paths_obeyed L p (Ch_FoldCase ch) (set (Ch_Files ch)) \<and> sizes_obeyed p w (set (Ch_Files ch))))"
proof -
  let ?files = "sorted_files (Ch_Files ch)" and ?fc = "Ch_FoldCase ch"
  let ?many = "if 0 < MaxChangedFiles p \<and> MaxChangedFiles p < int (length ?files)
      then [violation RuleMaxChangedFiles [] 0 (TooManyFiles (length ?files) (MaxChangedFiles p))] else []"
  let ?long = "\<lambda>lines. if 0 < MaxChangedLines p \<and> MaxChangedLines p < int lines
      then [violation RuleMaxChangedLines [] 0 (TooManyLines lines (MaxChangedLines p))] else []"
  let ?deps = "\<lambda>added. map (\<lambda>d. violation RuleNewDependency (D_Manifest d) 0 (DeclaresNew (D_Manifest d) (D_Name d))) added"
  obtain forbidden lines content added tests where
    f: "compileSet L ''policy.forbidden_paths'' (ForbiddenPaths p) ?fc = Inr forbidden" and
    s: "scanChange L w p ch ?files = Inr (lines, content)" and
    n: "(if NoNewDependencies p then newDependencies L base w else Inr []) = Inr added" and
    t: "requiredTests L (RequiredTests p) ?files ?fc = Inr tests" and
    rep: "rep = forbidden_hits L forbidden ?files @ ?many @ ?long lines @ ?deps added @ tests @ content"
    using assms unfolding Evaluate_def Let_def by (auto simp: bind_Inr split: if_splits)
  obtain ms where ms: "compileContent L (ForbiddenContent p) ?fc = Inr ms"
    "\<not> 0 < MaxChangedLines p \<and> ms = [] \<and> (lines, content) = (0, []) \<or> scan_files L w ms 1 ?files = Inr (lines, content)"
    using s by (auto simp: scanChange_def bind_Inr split: if_splits)
  have content: "\<forall>v \<in> set content. V_Class v = ClassFix"
    "content = [] \<longleftrightarrow> (\<forall>f \<in> set ?files. \<forall>line \<in> set (lines_in w f). \<forall>m \<in> set ms. \<not> breaks L f line m)"
    "0 < MaxChangedLines p \<Longrightarrow> lines = (\<Sum>f\<in>set (Ch_Files ch). length (lines_in w f))"
    using ms(2) scan_files_spec [of L w ms 1 ?files lines content] by (auto simp: sum_sorted_files)
  have all: "list_all2 (compiled L ?fc) (ForbiddenContent p) ms" by (rule compileContent_ok [OF ms(1)])
  have one: "(\<forall>m \<in> set ms. \<not> breaks L f line m) \<longleftrightarrow> (\<forall>rule \<in> set (ForbiddenContent p).
      Paths rule = [] \<or> (\<exists>g \<in> set (Paths rule). pattern_covers L ?fc g f) \<longrightarrow>
      (\<forall>re. re_compile L (ContentRule.Pattern rule) = Some re \<longrightarrow> \<not> re line))" for f line
    using all by (induction rule: list_all2_induct) (auto simp: compiled_def breaks_def)
  have added: "added = [] \<longleftrightarrow> (NoNewDependencies p \<longrightarrow> (\<forall>ds. survey_tree L [] (ws_tree w) = Some ds \<longrightarrow> set ds \<subseteq> set base))"
    using n newDependencies_spec [of L base w added] by (auto split: if_splits)
  have repair: "tests = [] \<and> content = [] \<and> added = [] \<longleftrightarrow> repairable_obeyed L p base w ?fc (set (Ch_Files ch))"
    unfolding repairable_obeyed_def content(2) one added sorted_files_set
    using requiredTests_spec [OF t] by (simp only: sorted_files_set) blast
  have sizes: "?many = [] \<and> ?long lines = [] \<longleftrightarrow> sizes_obeyed p w (set (Ch_Files ch))"
    using content(3) by (auto simp: sizes_obeyed_def length_sorted_files)
  note paths = forbidden_hits_spec [OF f, of ?files, unfolded sorted_files_set]
  have clean: "Report_Clean rep \<longleftrightarrow> forbidden_hits L forbidden ?files = [] \<and> (?many = [] \<and> ?long lines = []) \<and>
      (tests = [] \<and> content = [] \<and> added = [])"
    unfolding Report_Clean_def rep by auto
  have cls: "\<forall>v \<in> set (?many @ ?long lines). V_Class v = ClassFail" "\<forall>v \<in> set (?deps added @ tests @ content). V_Class v = ClassFix"
    using content(1) requiredTests_spec [OF t] by (auto simp: violation_def)
  have rep3: "rep = forbidden_hits L forbidden ?files @ (?many @ ?long lines) @ (?deps added @ tests @ content)"
    by (simp only: rep append_assoc)
  have "Report_Failed rep \<longleftrightarrow> forbidden_hits L forbidden ?files \<noteq> [] \<or> ?many @ ?long lines \<noteq> []"
    unfolding rep3 by (rule Report_Failed_parts [OF paths(2) cls])
  also have "\<dots> \<longleftrightarrow> \<not> (forbidden_hits L forbidden ?files = [] \<and> (?many = [] \<and> ?long lines = []))"
    unfolding append_is_Nil_conv by blast
  finally show ?thesis unfolding clean repair sizes paths(1) by blast
qed

text \<open>
  C27. The evaluation decides the rules: a report is clean exactly when the change obeys every one of them,
  and says that the run cannot go on exactly when a forbidden path was touched or the change is over a
  size limit. The dependencies it judges are those the survey reads, and the survey reads no editable
  requirement: the lines of requirements.txt that start with a dash are left out (see \<open>requirements_take\<close>),
  so a change that adds \<open>-e git+...\<close> adds no dependency.
\<close>

theorem Evaluate_decides:
  assumes "Evaluate L p base w ch = Inr rep"
  shows "(Report_Clean rep \<longleftrightarrow> paths_obeyed L p (Ch_FoldCase ch) (set (Ch_Files ch)) \<and> sizes_obeyed p w (set (Ch_Files ch)) \<and>
      repairable_obeyed L p base w (Ch_FoldCase ch) (set (Ch_Files ch))) \<and>
    (Report_Failed rep \<longleftrightarrow> \<not> (paths_obeyed L p (Ch_FoldCase ch) (set (Ch_Files ch)) \<and> sizes_obeyed p w (set (Ch_Files ch))))"
  by (rule Evaluate_spec [OF assms])

text \<open>
  The verdict depends on which files the change touched and not on how the agent listed them: two lists
  with the same files, in any order and with any repeats, are judged alike.
\<close>

theorem Evaluate_order_free:
  assumes "set (Ch_Files ch) = set (Ch_Files ch')" "Ch_FoldCase ch = Ch_FoldCase ch'"
  shows "Evaluate L p base w ch = Evaluate L p base w ch'"
  using assms by (simp add: Evaluate_def sorted_files_eq scanChange_def)

section \<open>A small policy\<close>

definition plain_libs :: Libs where
  "plain_libs = \<lparr>lower = (\<lambda>s. s), re_compile = (\<lambda>_. Some (\<lambda>l. l = ''debug'')), json_deps = (\<lambda>_. Some [])\<rparr>"

definition small_rules :: PolicyRules where
  "small_rules = PolicyRules0\<lparr>ForbiddenPaths := [''infra/**''], MaxChangedFiles := 2\<rparr>"

definition small_workspace :: Workspace where
  "small_workspace = \<lparr>ws_tree = TDir [], ws_root_ok = True, ws_open = (\<lambda>_. Missing), ws_cancelled = (\<lambda>_. False), ws_survey_cancelled = False\<rparr>"

definition small_change :: Change where
  "small_change = \<lparr>Ch_Files = [''infra/x'', ''a.go''], Ch_FoldCase = False\<rparr>"

definition small_report :: Report where
  "small_report = (case Evaluate plain_libs small_rules [] small_workspace small_change of Inr r \<Rightarrow> r | _ \<Rightarrow> [])"

lemma small_verdict:
  "case Evaluate plain_libs small_rules [] small_workspace small_change of Inl e \<Rightarrow> False | Inr r \<Rightarrow> Report_Failed r"
  by code_simp

lemma small_evaluation: "Evaluate plain_libs small_rules [] small_workspace small_change = Inr small_report \<and> Report_Failed small_report"
  using small_verdict by (simp add: small_report_def split: sum.splits)

theorem Evaluate_decides_witness:
  "\<not> (paths_obeyed plain_libs small_rules False {''infra/x'', ''a.go''} \<and> sizes_obeyed small_rules small_workspace {''infra/x'', ''a.go''})"
  using Evaluate_decides [OF conjunct1 [OF small_evaluation]] small_evaluation by (simp add: small_change_def)

theorem Evaluate_order_free_witness:
  "Evaluate plain_libs small_rules [] small_workspace \<lparr>Ch_Files = [''a.go'', ''infra/x'', ''a.go''], Ch_FoldCase = False\<rparr> = Inr small_report"
  using Evaluate_order_free [of "\<lparr>Ch_Files = [''a.go'', ''infra/x'', ''a.go''], Ch_FoldCase = False\<rparr>" small_change
      plain_libs small_rules "[]" small_workspace] small_evaluation by (auto simp: small_change_def)

end
