(* ===== verification/Changed_Files.thy ===== *)
theory Changed_Files
  imports Glob Ndjson
begin

text \<open>
  internal/nodes/code/files.go and diff.go: which files an agent's reply says it changed, from the fenced
  block it was asked for, or salvaged from a unified diff; and the rules every such path has to pass.
\<close>

section \<open>Text\<close>

definition split_lines :: "string \<Rightarrow> string list" where
  "split_lines s = split_at newline s"

fun join_lines :: "string list \<Rightarrow> string" where
  "join_lines [] = []"
| "join_lines [l] = l"
| "join_lines (l # m # ms) = l @ newline # join_lines (m # ms)"

definition trim_prefix :: "string \<Rightarrow> string \<Rightarrow> string" where
  "trim_prefix p s = (if has_prefix p s then drop (length p) s else s)"

definition trim_right :: "char set \<Rightarrow> string \<Rightarrow> string" where
  "trim_right cs s = rev (dropWhile (\<lambda>c. c \<in> cs) (rev s))"

definition fence :: string where "fence = ''```''"

definition ChangedFilesTag :: string where "ChangedFilesTag = ''changed-files''"

definition fence_info :: "string \<Rightarrow> string" where
  "fence_info s = ToLower (TrimSpace (dropWhile (\<lambda>c. c = CHR 0x60) s))"

definition isChangedFilesFenceOpen :: "string \<Rightarrow> bool" where
  "isChangedFilesFenceOpen line = (let s = TrimSpace line in has_prefix fence s \<and> fence_info s = ChangedFilesTag)"

definition isDiffFenceOpen :: "string \<Rightarrow> bool" where
  "isDiffFenceOpen line =
     (let s = TrimSpace line in has_prefix fence s \<and> (fence_info s = ''diff'' \<or> fence_info s = ''patch''))"

definition isFenceClose :: "string \<Rightarrow> bool" where
  "isFenceClose line \<longleftrightarrow> has_prefix fence line \<and> TrimSpace (dropWhile (\<lambda>c. c = CHR 0x60) line) = []"

text \<open>The lines inside the first fence that \<open>opens\<close> and whose lines \<open>accept\<close> takes; the scan goes on after
  the fence it passed over.\<close>

function fenced :: "(string \<Rightarrow> bool) \<Rightarrow> (string list \<Rightarrow> 'a option) \<Rightarrow> string list \<Rightarrow> 'a option" where
  "fenced opens accept [] = None"
| "fenced opens accept (l # ls) =
     (if \<not> opens l then fenced opens accept ls
      else case accept (takeWhile (\<lambda>l. \<not> isFenceClose l) ls) of
        Some a \<Rightarrow> Some a
      | None \<Rightarrow> fenced opens accept (drop 1 (dropWhile (\<lambda>l. \<not> isFenceClose l) ls)))"
  by pat_completeness auto
termination
  by (relation "measure (length \<circ> snd \<circ> snd)") (auto simp: less_Suc_eq_le intro: le_trans [OF diff_le_self length_dropWhile_le])

section \<open>Where the paths come from\<close>

datatype path_source = FromBlock | FromDiff

definition changedFilesBlock :: "string \<Rightarrow> string list option" where
  "changedFilesBlock text =
     fenced isChangedFilesFenceOpen (\<lambda>body. if body = [] then None else Some body) (split_lines text)"

definition joinBlock :: "string list \<Rightarrow> string option" where
  "joinBlock ls =
     (let block = trim_right {CHR '' '', CHR 0x09, newline} (join_lines ls) in
      if TrimSpace block = [] then None else Some (block @ [newline]))"

definition fencedDiff :: "string \<Rightarrow> string option" where
  "fencedDiff text = fenced isDiffFenceOpen joinBlock (split_lines text)"

fun bare_from :: "string list \<Rightarrow> string" where
  "bare_from [] = []"
| "bare_from (l # ls) =
     (if has_prefix ''diff --git '' l \<or> has_prefix ''--- '' l \<and> ls \<noteq> [] \<and> has_prefix ''+++ '' (hd ls)
      then (case joinBlock (l # ls) of None \<Rightarrow> [] | Some b \<Rightarrow> b)
      else bare_from ls)"

definition bareDiff :: "string \<Rightarrow> string" where
  "bareDiff text = bare_from (split_lines text)"

definition extractDiff :: "string \<Rightarrow> string" where
  "extractDiff text = (case fencedDiff text of Some b \<Rightarrow> b | None \<Rightarrow> bareDiff text)"

definition normalizeDiffPath :: "string \<Rightarrow> string option" where
  "normalizeDiffPath p =
     (let p = trim_right {CHR 0x22} (dropWhile (\<lambda>c. c = CHR 0x22) (TrimSpace p)); p = trim_prefix ''b/'' p in
      if p = [] \<or> p = ''/dev/null'' then None else Some p)"

text \<open>What follows the last occurrence of \<open>sep\<close>, and the last field of a line.\<close>

fun after_last :: "string \<Rightarrow> string \<Rightarrow> string option" where
  "after_last sep [] = None"
| "after_last sep (c # cs) =
     (case after_last sep cs of
        Some t \<Rightarrow> Some t
      | None \<Rightarrow> if has_prefix sep (c # cs) then Some (drop (length sep) (c # cs)) else None)"

text \<open>\<open>strings.Fields\<close>: a line cut at every space rune.\<close>

function cut_fields :: "string \<Rightarrow> string \<Rightarrow> string list" where
  "cut_fields cur [] = (if cur = [] then [] else [cur])"
| "cut_fields cur (c # cs) =
     (case List.find (\<lambda>r. take (length r) (c # cs) = r) space_runes of
        Some r \<Rightarrow> (if cur = [] then [] else [cur]) @ cut_fields [] (drop (max 1 (length r)) (c # cs))
      | None \<Rightarrow> cut_fields (cur @ take (snd (DecodeRune c cs)) (c # cs)) (drop (snd (DecodeRune c cs)) (c # cs)))"
  by pat_completeness auto
termination
  using DecodeRune_size(1)
  by (relation "measure (length \<circ> snd)") (auto simp: Suc_le_eq)

definition Fields :: "string \<Rightarrow> string list" where
  "Fields s = cut_fields [] s"

definition gitHeaderPath :: "string \<Rightarrow> string option" where
  "gitHeaderPath line =
     (let rest = trim_prefix ''diff --git '' line in
      case after_last '' b/'' rest of
        Some t \<Rightarrow> normalizeDiffPath (''b/'' @ t)
      | None \<Rightarrow> if Fields rest = [] then None else normalizeDiffPath (last (Fields rest)))"

definition unifiedHeaderPath :: "string \<Rightarrow> string option" where
  "unifiedHeaderPath s = normalizeDiffPath (takeWhile (\<lambda>c. c \<noteq> CHR 0x09) s)"

definition add_path :: "string option \<Rightarrow> string list \<Rightarrow> string list" where
  "add_path p out = (case p of None \<Rightarrow> out | Some p \<Rightarrow> if p \<in> set out then out else out @ [p])"

definition changedFiles :: "string \<Rightarrow> string list" where
  "changedFiles diff = fold (\<lambda>line out.
     if has_prefix ''diff --git '' line then add_path (gitHeaderPath line) out
     else if has_prefix ''+++ '' line then add_path (unifiedHeaderPath (drop 4 line)) out
     else out) (split_lines diff) []"

section \<open>The rules of a path\<close>

datatype path_fault = FaultEmpty | FaultNUL | FaultAbsolute | FaultBackslash | FaultNamesNothing | FaultEscapes

datatype file_list_error = FileListError string path_source path_fault

definition unquote1 :: "char \<Rightarrow> string \<Rightarrow> string option" where
  "unquote1 q s = (if 2 \<le> length s \<and> hd s = q \<and> last s = q then Some (TrimSpace (butlast (tl s))) else None)"

definition unquote :: "string \<Rightarrow> string" where
  "unquote s =
     (case unquote1 CHR 0x22 s of Some t \<Rightarrow> t
      | None \<Rightarrow> (case unquote1 CHR 0x27 s of Some t \<Rightarrow> t | None \<Rightarrow> s))"

text \<open>\<open>Inr None\<close> is a blank line. \<open>filepath.Clean\<close> is \<open>path.Clean\<close> where the separator is a slash.\<close>

definition cleanPath :: "string \<Rightarrow> path_source \<Rightarrow> (file_list_error, string option) result" where
  "cleanPath entry source =
     (let trimmed = unquote (TrimSpace entry); refuse = (\<lambda>why. Inl (FileListError entry source why)) in
      if trimmed = [] then (if TrimSpace entry = [] then Inr None else refuse FaultEmpty)
      else if CHR 0x00 \<in> set trimmed then refuse FaultNUL
      else if has_prefix ''/'' trimmed then refuse FaultAbsolute
      else if CHR 0x5C \<in> set trimmed then refuse FaultBackslash
      else let path = Clean trimmed in
        if path = ''.'' \<or> path = [] then refuse FaultNamesNothing
        else if path = ''..'' \<or> has_prefix ''../'' path then refuse FaultEscapes
        else Inr (Some path))"

fun clean_from :: "path_source \<Rightarrow> string list \<Rightarrow> string list \<Rightarrow> (file_list_error, string list) result" where
  "clean_from source out [] = Inr out"
| "clean_from source out (entry # entries) =
     bind_result (cleanPath entry source) (\<lambda>p.
       clean_from source (case p of None \<Rightarrow> out | Some p \<Rightarrow> if p \<in> set out then out else out @ [p]) entries)"

definition cleanPaths :: "string list \<Rightarrow> path_source \<Rightarrow> (file_list_error, string list) result" where
  "cleanPaths entries source = clean_from source [] entries"

text \<open>\<open>None\<close> is the nil slice: nothing was reported.\<close>

definition ParseChangedFilesBlock :: "string \<Rightarrow> (file_list_error, string list option) result" where
  "ParseChangedFilesBlock text =
     (case changedFilesBlock text of
        None \<Rightarrow> Inr None
      | Some entries \<Rightarrow>
          bind_result (cleanPaths entries FromBlock) (\<lambda>ps. Inr (if ps = [] then None else Some ps)))"

definition ParseChangedFiles :: "string \<Rightarrow> (file_list_error, string list option) result" where
  "ParseChangedFiles text =
     (case ParseChangedFilesBlock text of
        Inl e \<Rightarrow> Inl e
      | Inr (Some ps) \<Rightarrow> Inr (Some ps)
      | Inr None \<Rightarrow>
          let diff = extractDiff text in
          if diff = [] then Inr None
          else bind_result (cleanPaths (changedFiles diff) FromDiff) (\<lambda>ps. Inr (Some ps)))"

section \<open>What a reported path can be\<close>

text \<open>A path below the workspace: segments that name something, none of them a step up.\<close>

definition inside :: "string \<Rightarrow> bool" where
  "inside p \<longleftrightarrow> CHR 0x00 \<notin> set p \<and> CHR 0x5C \<notin> set p \<and>
     (\<exists>ss. ss \<noteq> [] \<and> p = join_segs ss \<and> (\<forall>s \<in> set ss. s \<noteq> [] \<and> s \<noteq> ''.'' \<and> s \<noteq> ''..'' \<and> CHR ''/'' \<notin> set s))"

lemma set_join_segs: "set (join_segs ss) \<subseteq> insert CHR ''/'' (\<Union>s \<in> set ss. set s)"
  by (induction ss rule: join_segs.induct) auto

lemma set_split_path: "s \<in> set (split_path p) \<Longrightarrow> set s \<subseteq> set p"
proof -
  have "s \<in> set (split_at d p) \<Longrightarrow> set s \<subseteq> set p" for d
    by (induction d p arbitrary: s rule: split_at.induct) (force split: if_splits list.splits)+
  then show "s \<in> set (split_path p) \<Longrightarrow> set s \<subseteq> set p" by (simp add: split_path_def)
qed

lemma cleaned_front:
  assumes "cleaned out" "out \<noteq> []" "hd out \<noteq> ''..''" shows "''..'' \<notin> set out"
proof -
  obtain k ms where o: "out = replicate k ''..'' @ ms" "set ms \<inter> {[], ''.'', ''..''} = {}" by (rule cleanedE [OF assms(1)])
  then have "k = 0" using assms(3) by (cases k) auto
  then show ?thesis using o by auto
qed

lemma cleanPath_inside:
  assumes "cleanPath entry source = Inr (Some p)" shows "inside p"
proof -
  define t where "t = unquote (TrimSpace entry)"
  have t: "t \<noteq> []" "CHR 0x00 \<notin> set t" "\<not> has_prefix ''/'' t" "CHR 0x5C \<notin> set t" "p = Clean t"
    "p \<noteq> ''.''" "p \<noteq> ''..''" "\<not> has_prefix ''../'' p"
    using assms by (auto simp: cleanPath_def t_def Let_def split: if_splits)
  let ?out = "clean_segs False (split_path t)"
  have "take 1 t \<noteq> ''/''" using t(1,3) by (simp add: has_prefix_def)
  then have p: "p = (if ?out = [] then ''.'' else join_segs ?out)" using t(5) by (simp add: Clean_def Let_def)
  then have out: "?out \<noteq> []" "p = join_segs ?out" using t(6) by (simp_all split: if_splits)
  have named: "\<forall>s \<in> set ?out. s \<noteq> [] \<and> s \<noteq> ''.'' \<and> CHR ''/'' \<notin> set s"
  proof
    fix s assume "s \<in> set ?out"
    then have "s = ''..'' \<or> s \<in> set (split_path t)" "s \<noteq> []" "s \<noteq> ''.''" using clean_segs_named by blast+
    then show "s \<noteq> [] \<and> s \<noteq> ''.'' \<and> CHR ''/'' \<notin> set s" using split_at_free by (auto simp: split_path_def)
  qed
  have "hd ?out \<noteq> ''..''"
  proof
    assume h: "hd ?out = ''..''"
    then show False using out t(7,8) by (cases ?out; cases "tl ?out") (auto simp: has_prefix_def)
  qed
  then have up: "''..'' \<notin> set ?out" using cleaned_front [OF clean_segs_cleaned out(1)] by blast
  have chars: "set p \<subseteq> insert CHR ''/'' (insert CHR ''.'' (set t))"
  proof -
    have "set s \<subseteq> insert CHR ''.'' (set t)" if "s \<in> set ?out" for s
      using clean_segs_named [OF that] set_split_path [of s t] by auto
    then show ?thesis using set_join_segs [of ?out] by (auto simp: out(2))
  qed
  have plain: "CHR 0x00 \<notin> set p" "CHR 0x5C \<notin> set p" using chars t(2,4) by auto
  show ?thesis unfolding inside_def
  proof (intro conjI plain exI)
    show "?out \<noteq> []" "p = join_segs ?out" by (rule out)+
    show "\<forall>s \<in> set ?out. s \<noteq> [] \<and> s \<noteq> ''.'' \<and> s \<noteq> ''..'' \<and> CHR ''/'' \<notin> set s" using named up by blast
  qed
qed

lemma clean_from_inside:
  "clean_from source out entries = Inr ps \<Longrightarrow> \<forall>p \<in> set out. inside p \<Longrightarrow> distinct out \<Longrightarrow>
   (\<forall>p \<in> set ps. inside p) \<and> distinct ps"
proof (induction entries arbitrary: out)
  case (Cons entry entries)
  obtain p where p: "cleanPath entry source = Inr p" using Cons.prems(1) by (auto simp: bind_result_def split: sum.splits)
  let ?out = "case p of None \<Rightarrow> out | Some p \<Rightarrow> if p \<in> set out then out else out @ [p]"
  have "clean_from source ?out entries = Inr ps" using Cons.prems(1) by (simp add: p bind_result_def)
  moreover have "\<forall>p \<in> set ?out. inside p" "distinct ?out"
    using Cons.prems(2,3) cleanPath_inside [of entry source] p by (auto split: option.splits)
  ultimately show ?case by (rule Cons.IH)
qed simp

text \<open>
  Every path taken from an agent's reply, declared in its block or salvaged from a diff, lies inside
  the workspace as it is written: relative, cleaned, with no step up, no backslash and no NUL, each
  reported once, and never an empty report of the block.
\<close>

theorem reported_paths_inside:
  assumes "ParseChangedFiles text = Inr (Some ps)"
  shows "(\<forall>p \<in> set ps. inside p) \<and> distinct ps"
proof -
  obtain entries source where "cleanPaths entries source = Inr ps"
    using assms by (auto simp: ParseChangedFiles_def ParseChangedFilesBlock_def bind_result_def Let_def
        split: option.splits sum.splits if_splits)
  then show ?thesis using clean_from_inside [of source "[]" entries ps] by (simp add: cleanPaths_def)
qed

theorem reported_paths_inside_witness:
  "ParseChangedFiles (''```changed-files'' @ newline # ''a/./b.go'' @ newline # ''c.go'' @ newline # ''```'') =
     Inr (Some [''a/b.go'', ''c.go'']) \<and> inside ''a/b.go''"
proof -
  have p: "ParseChangedFiles (''```changed-files'' @ newline # ''a/./b.go'' @ newline # ''c.go'' @ newline # ''```'') =
     Inr (Some [''a/b.go'', ''c.go''])" by code_simp
  show ?thesis using reported_paths_inside [OF p] p by simp
qed

end
