(* ===== verification/Gates.thy ===== *)
theory Gates
  imports Graph Policy_Rules Changed_Files
begin

text \<open>
  The nodes that judge and repair a change: internal/nodes/test, review, policy and fix. A node is a
  function of the context it is shown and of what its adapters answer; it answers a result and an error,
  either of which may be the one that counts. A note is the data the code prints.
\<close>

section \<open>Nodes\<close>

definition NodePlan :: string where "NodePlan = ''plan''"
definition NodeApprove :: string where "NodeApprove = ''approve''"
definition NodeCode :: string where "NodeCode = ''code''"
definition NodeWrite :: string where "NodeWrite = ''write''"
definition NodePolicy :: string where "NodePolicy = ''policy''"
definition NodeTest :: string where "NodeTest = ''test''"
definition NodeFix :: string where "NodeFix = ''fix''"
definition NodeReview :: string where "NodeReview = ''review''"
definition NodeFanout :: string where "NodeFanout = ''fanout''"
definition NodeJoin :: string where "NodeJoin = ''join''"
definition NodePromote :: string where "NodePromote = ''promote''"

lemmas node_names = NodePlan_def NodeApprove_def NodeCode_def NodeWrite_def NodePolicy_def NodeTest_def NodeFix_def
  NodeReview_def NodeFanout_def NodeJoin_def NodePromote_def End_def

definition Result0 :: Result where
  "Result0 = \<lparr>Res_Next = [], Res_Status = StatusUnknown, Res_Patch = Patch0, Res_Usage = zeroUsage, Res_Note = []\<rparr>"

text \<open>A result that routes: status ok, a successor, a patch, a note.\<close>

definition routed :: "string \<Rightarrow> Patch \<Rightarrow> string \<Rightarrow> Result" where
  "routed next patch note = Result0\<lparr>Res_Next := next, Res_Status := StatusOK, Res_Patch := patch, Res_Note := note\<rparr>"

definition ended :: "Status \<Rightarrow> Patch \<Rightarrow> string \<Rightarrow> Result" where
  "ended status patch note = Result0\<lparr>Res_Status := status, Res_Patch := patch, Res_Note := note\<rparr>"

lemma result_simps [simp]:
  "Res_Next Result0 = []" "Res_Status Result0 = StatusUnknown" "Res_Patch Result0 = Patch0"
  "Res_Next (routed n p t) = n" "Res_Status (routed n p t) = StatusOK" "Res_Patch (routed n p t) = p"
  "Res_Next (ended s p t) = []" "Res_Status (ended s p t) = s" "Res_Patch (ended s p t) = p"
  by (simp_all add: Result0_def routed_def ended_def)

section \<open>test\<close>

record TestReport =
  TR_Total :: int
  TR_Passed :: int
  TR_Failed :: int
  TR_Failures :: "TestFailure list"

definition TestReport_OK :: "TestReport \<Rightarrow> bool" where
  "TestReport_OK r \<longleftrightarrow> TR_Total r > 0 \<and> TR_Failed r = 0"

definition NewTest :: "TestReport \<Rightarrow> string \<Rightarrow> Test" where
  "NewTest r reportPath = \<lparr>Passed = TR_Passed r, T_Total = TR_Total r, Failed = TR_Failed r,
     Failures = TR_Failures r, T_ReportPath = reportPath\<rparr>"

definition Test_Report :: "Test \<Rightarrow> TestReport" where
  "Test_Report t = \<lparr>TR_Total = T_Total t, TR_Passed = Passed t, TR_Failed = Failed t, TR_Failures = Failures t\<rparr>"

datatype node_note =
    TestNote TestReport | ReviewNote GateStatus string Counts Severity string | UnguardedNote
  | PolicyNote Report string nat "string list" string | FixNote int int | GiveUpNote int int | OtherNote string

datatype node_fault =
    FaultNoRunner | FaultCancelled | FaultNoWorkspace | FaultAdapter string | FaultNotRecorded string
  | FaultThreshold | FaultAdapterMissing | FaultUnknownMode string | FaultGateUnresolved
  | FaultPolicy policy_error | FaultChanges string | FaultNothingToFix | FaultNoAgent | FaultFileList file_list_error

text \<open>What a node meets: cancellation before it starts and after its adapter has answered, and whether
  its artifact can be written (its path) and its node files.\<close>

record Meets =
  n_cancelled :: bool
  n_cancelled_after :: bool
  n_artifact :: "(string, string) result"
  n_files :: "string option"

definition Test_Run :: "(node_note \<Rightarrow> string) \<Rightarrow> Meets \<Rightarrow> (string, TestReport) result option \<Rightarrow> RunContext \<Rightarrow> Result \<times> node_fault option" where
  "Test_Run say m runner rc =
     (case runner of
        None \<Rightarrow> (Result0, Some FaultNoRunner)
      | Some answer \<Rightarrow>
          if n_cancelled m then (Result0, Some FaultCancelled)
          else if RC_Workspace rc = [] then (Result0, Some FaultNoWorkspace)
          else case answer of
            Inl err \<Rightarrow> (Result0, Some (FaultAdapter err))
          | Inr report \<Rightarrow>
              if n_cancelled_after m then (Result0, Some FaultCancelled)
              else (case n_artifact m of
                  Inl err \<Rightarrow> (Result0, Some (FaultNotRecorded err))
                | Inr path \<Rightarrow>
                    (routed (if TestReport_OK report then NodeReview else NodeFix)
                       (Patch0\<lparr>Patch_Test := Some (NewTest report path)\<rparr>) (say (TestNote report)), None)))"

section \<open>review\<close>

datatype ReviewMode = ReviewModeLint | ReviewModeSonar | ReviewModeAI | ReviewMode_other string

text \<open>An adapter's error, and whether it is the context's.\<close>

record ReviewConfig =
  Rev_Mode :: ReviewMode
  Rev_FailOn :: string

type_synonym gate_answer = "(bool \<times> string, QualityReport) result option"

definition resolveGate :: "GateStatus \<Rightarrow> Counts \<Rightarrow> Severity \<Rightarrow> GateStatus" where
  "resolveGate reported counts failOn =
     (if reported = GateError \<or> reported = GateUnknown then GateError
      else if Counts_AtOrAbove counts failOn > 0 then GateFail
      else GatePass)"

definition runGate :: "ReviewConfig \<Rightarrow> gate_answer \<Rightarrow> gate_answer \<Rightarrow> (bool \<times> node_fault, QualityReport) result" where
  "runGate cfg linter reviewer =
     (let ask = (\<lambda>a. case a of None \<Rightarrow> Inl (False, FaultAdapterMissing)
            | Some (Inl (ctx, err)) \<Rightarrow> Inl (ctx, FaultAdapter err) | Some (Inr report) \<Rightarrow> Inr report) in
      case Rev_Mode cfg of
        ReviewModeLint \<Rightarrow> ask linter
      | ReviewModeSonar \<Rightarrow> ask reviewer
      | ReviewModeAI \<Rightarrow> ask reviewer
      | ReviewMode_other mode \<Rightarrow> Inl (False, FaultUnknownMode mode))"

definition verdict :: "(node_note \<Rightarrow> string) \<Rightarrow> Meets \<Rightarrow> string \<Rightarrow> QualityReport \<Rightarrow> Severity \<Rightarrow> string \<Rightarrow> Result \<times> node_fault option" where
  "verdict say m mode report failOn onPass =
     (let gate = resolveGate (Gate report) (Report_Counts report) failOn; report = report\<lparr>Gate := gate\<rparr> in
      case n_artifact m of
        Inl err \<Rightarrow> (ended StatusFailed Patch0 [], Some (FaultNotRecorded err))
      | Inr path \<Rightarrow>
          (let source = (if Source report = [] then mode else Source report);
               note = say (ReviewNote gate source (Report_Counts report) failOn path);
               patch = Patch0\<lparr>Patch_Review := Some (NewReview report path)\<rparr>
           in if gate = GatePass then (routed onPass patch note, None)
              else if gate = GateFail then (routed NodeFix patch note, None)
              else (ended StatusFailed patch note, Some FaultGateUnresolved)))"

fun mode_text :: "ReviewMode \<Rightarrow> string" where
  "mode_text ReviewModeLint = ''lint''"
| "mode_text ReviewModeSonar = ''sonar''"
| "mode_text ReviewModeAI = ''ai''"
| "mode_text (ReviewMode_other s) = s"

definition Review_Run :: "(node_note \<Rightarrow> string) \<Rightarrow> Meets \<Rightarrow> string \<Rightarrow> ReviewConfig \<Rightarrow> gate_answer \<Rightarrow> gate_answer \<Rightarrow> RunContext \<Rightarrow>
    Result \<times> node_fault option" where
  "Review_Run say m onPass cfg linter reviewer rc =
     (if n_cancelled m then (ended StatusAborted Patch0 [], Some FaultCancelled)
      else case ParseSeverity (Rev_FailOn cfg) of
        None \<Rightarrow> (ended StatusFailed Patch0 [], Some FaultThreshold)
      | Some failOn \<Rightarrow>
          if RC_Workspace rc = [] then (ended StatusFailed Patch0 [], Some FaultNoWorkspace)
          else case runGate cfg linter reviewer of
            Inl (ctx, err) \<Rightarrow> (ended (if ctx then StatusAborted else StatusFailed) Patch0 [], Some err)
          | Inr report \<Rightarrow> verdict say m (mode_text (Rev_Mode cfg)) report failOn onPass)"

section \<open>policy\<close>

text \<open>What the workspace says changed: nothing to ask, no record to measure against (and why), an error,
  or the files.\<close>

datatype truth = NoSource | Unrecorded string | NoAnswer string | Changed "string list"

definition judged :: "truth \<Rightarrow> Code \<Rightarrow> (string, string list \<times> string list \<times> string) result" where
  "judged tr code =
     (case tr of
        NoSource \<Rightarrow> Inr (ChangedFiles code, [], ''nothing checks the report against the workspace'')
      | Unrecorded why \<Rightarrow> Inr (ChangedFiles code, [], why)
      | NoAnswer err \<Rightarrow> Inl err
      | Changed files \<Rightarrow>
          Inr (remdups_adj (sort (ChangedFiles code @ files)),
               remdups_adj (sort (Unreported code @ filter (\<lambda>t. t \<notin> set (ChangedFiles code)) files)), []))"

record Gate_Tools =
  g_say :: "message \<Rightarrow> string"
  g_summary :: "Report \<Rightarrow> string"
  g_note :: "node_note \<Rightarrow> string"

definition Policy_Run :: "Gate_Tools \<Rightarrow> Libs \<Rightarrow> Meets \<Rightarrow> truth \<Rightarrow> Workspace \<Rightarrow> RunContext \<Rightarrow> Result \<times> node_fault option" where
  "Policy_Run T L m tr w rc =
     (if n_cancelled m then (ended StatusAborted Patch0 [], Some FaultCancelled)
      else case RC_Policy rc of
        None \<Rightarrow> (routed NodeTest Patch0 (g_note T UnguardedNote), None)
      | Some pin \<Rightarrow>
          (case judged tr (B_Code (RC_State rc)) of
             Inl err \<Rightarrow> (ended StatusFailed Patch0 [], Some (FaultChanges err))
           | Inr (files, missed, why) \<Rightarrow>
               (case Evaluate L (PP_Policy pin) (Baseline pin) w \<lparr>Ch_Files = files, Ch_FoldCase = FoldCase pin\<rparr> of
                  Inl err \<Rightarrow> (ended StatusFailed Patch0 [], Some (FaultPolicy err))
                | Inr report \<Rightarrow>
                    (let quality = Report_QualityReport (g_say T) (g_summary T) report in
                     case n_artifact m of
                       Inl err \<Rightarrow> (ended StatusFailed Patch0 [], Some (FaultNotRecorded err))
                     | Inr path \<Rightarrow>
                         (let patch = Patch0\<lparr>Patch_Policy := Some (NewPolicy quality path)\<rparr>;
                              note = (\<lambda>what. g_note T (PolicyNote report what (length files) missed why))
                          in if Report_Clean report then (routed NodeTest patch (note ''the change obeys every rule''), None)
                             else if Report_Failed report then (ended StatusFailed patch (note ''the run cannot continue past''), None)
                             else (routed NodeFix patch (note ''asking for a repair of''), None))))))"

section \<open>fix\<close>

datatype cause = causeNone | causeTests | causeReview | causePolicy

definition testsFailing :: "Test \<Rightarrow> bool" where
  "testsFailing t \<longleftrightarrow> (T_ReportPath t \<noteq> [] \<or> T_Total t > 0 \<or> Failed t > 0 \<or> Failures t \<noteq> []) \<and> \<not> TestReport_OK (Test_Report t)"

definition detectCause :: "Blackboard \<Rightarrow> cause" where
  "detectCause st =
     (if Pol_Gate (B_Policy st) = GateFail then causePolicy
      else if testsFailing (B_Test st) then causeTests
      else if R_Gate (B_Review st) = GateFail then causeReview
      else causeNone)"

definition unionFiles :: "string list \<Rightarrow> string list \<Rightarrow> string list" where
  "unionFiles recorded reported = remdups_adj (sort (recorded @ reported))"

record AgentResponse =
  A_Text :: string
  A_SessionID :: string
  A_Usage :: usage

text \<open>What an agent answers: a response, or an error with whatever it spent.\<close>

type_synonym agent = "(usage \<times> string, AgentResponse) result"

definition spent :: "usage \<Rightarrow> Result" where
  "spent u = Result0\<lparr>Res_Usage := u\<rparr>"

definition Fix_Run :: "(node_note \<Rightarrow> string) \<Rightarrow> Meets \<Rightarrow> agent option \<Rightarrow> string option \<Rightarrow> RunContext \<Rightarrow> Result \<times> node_fault option" where
  "Fix_Run say m agent archived rc =
     (if n_cancelled m then (Result0, Some FaultCancelled)
      else
        let attempts = Attempts (B_Fix (RC_State rc)); giveUp = G_GiveUp (Cfg_Graph (RC_Config rc)) in
        if attempts \<ge> giveUp then
          (ended StatusFailed (Patch0\<lparr>Patch_Fix := Some \<lparr>Attempts = attempts, GiveUp = True\<rparr>\<rparr>) (say (GiveUpNote attempts giveUp)), None)
        else if detectCause (RC_State rc) = causeNone then (Result0, Some FaultNothingToFix)
        else case agent of
          None \<Rightarrow> (Result0, Some FaultNoAgent)
        | Some answer \<Rightarrow>
            if RC_Workspace rc = [] then (Result0, Some FaultNoWorkspace)
            else case n_files m of
              Some err \<Rightarrow> (Result0, Some (FaultNotRecorded err))
            | None \<Rightarrow>
                (case answer of
                   Inl (u, err) \<Rightarrow> (spent u, Some (FaultAdapter err))
                 | Inr resp \<Rightarrow>
                     (case archived of
                        Some err \<Rightarrow> (Result0, Some (FaultNotRecorded err))
                      | None \<Rightarrow>
                          (case ParseChangedFilesBlock (A_Text resp) of
                             Inl err \<Rightarrow> (Result0, Some (FaultFileList err))
                           | Inr reported \<Rightarrow>
                               (let code = B_Code (RC_State rc);
                                    changed = code\<lparr>ChangedFiles := unionFiles (ChangedFiles code)
                                      (case reported of None \<Rightarrow> [] | Some ps \<Rightarrow> ps)\<rparr>;
                                    attempt = wrap64 (attempts + 1)
                                in ((routed NodeWrite (Patch0\<lparr>Patch_Code := Some changed,
                                      Patch_Fix := Some \<lparr>Attempts = attempt, GiveUp = False\<rparr>\<rparr>) (say (FixNote attempt giveUp)))
                                      \<lparr>Res_Usage := A_Usage resp\<rparr>, None))))))"

section \<open>A context to run nodes in\<close>

definition sample_config :: Config where
  "sample_config = \<lparr>Cfg_Graph = \<lparr>G_GiveUp = 3, MaxSteps = 20, NodeTimeout = 0, Approval = True\<rparr>,
     Cfg_Budget = \<lparr>MaxUSD = Fin 0, MaxTokens = 100, OnExceed = ''abort''\<rparr>,
     Cfg_Fanout = \<lparr>Enabled = False, FC_Candidates = 0, Concurrency = 0, Isolator = [], FC_Select = []\<rparr>,
     Cfg_Policy = PolicyRules0\<rparr>"

definition sample_context :: "Blackboard \<Rightarrow> PolicyPin option \<Rightarrow> RunContext" where
  "sample_context st pin = \<lparr>RC_Goal = Goal st, RC_State = st, RC_Config = sample_config, RC_Workspace = ''/w'',
     RC_RunID = ''r'', RC_Budget = \<lparr>Snap_LimitUSD = Fin 0, Snap_SpentUSD = Fin 0, Snap_TokensIn = 0, Snap_TokensOut = 0, Snap_Estimated = False\<rparr>,
     NodeName = [], RC_Step = 1, RC_Attempt = 1, RC_Output = M_Output Manifest0, ArchiveDir = [], RC_Policy = pin\<rparr>"

lemma sample_simps [simp]:
  "RC_State (sample_context st pin) = st" "RC_Policy (sample_context st pin) = pin" "RC_Config (sample_context st pin) = sample_config"
  "RC_Workspace (sample_context st pin) = ''/w''" "G_GiveUp (Cfg_Graph sample_config) = 3" "Approval (Cfg_Graph sample_config) = True"
  by (simp_all add: sample_context_def sample_config_def)

definition calm :: Meets where
  "calm = \<lparr>n_cancelled = False, n_cancelled_after = False, n_artifact = Inr ''artifacts/x'', n_files = None\<rparr>"

lemma calm_simps [simp]:
  "n_cancelled calm = False" "n_cancelled_after calm = False" "n_artifact calm = Inr ''artifacts/x''" "n_files calm = None"
  by (simp_all add: calm_def)

end
