(* ===== verification/Work_Nodes.thy ===== *)
theory Work_Nodes
  imports Gates
begin

text \<open>
  The nodes that make and record a change: internal/nodes/code, whose agent edits the workspace, and
  internal/nodes/write, which proves every claimed path a file inside the workspace and records the change
  as a patch document. The file system answers through \<open>FS\<close>: what a path resolves to and what is there.
\<close>

section \<open>code\<close>

datatype code_fault =
    CodeFault node_fault | CodePlanNotApproved | CodePlanPath | CodePlanUnreadable string | CodePlanEmpty

definition artifactName :: "string \<Rightarrow> string option" where
  "artifactName path =
     (let name = trim_prefix ''artifacts/'' (TrimSpace path) in
      if name = [] \<or> CHR ''/'' \<in> set name then None else Some name)"

text \<open>\<open>read\<close> is what \<open>ReadArtifact\<close> answers for a name.\<close>

definition code_readPlan :: "(string \<Rightarrow> (string, string) result) \<Rightarrow> string \<Rightarrow> (code_fault, string) result" where
  "code_readPlan read path =
     (case artifactName path of
        None \<Rightarrow> Inl CodePlanPath
      | Some name \<Rightarrow>
          (case read name of
             Inl err \<Rightarrow> Inl (CodePlanUnreadable err)
           | Inr data \<Rightarrow> if TrimSpace data = [] then Inl CodePlanEmpty else Inr data))"

definition recordChange :: "Code \<Rightarrow> AgentResponse \<Rightarrow> string list option \<Rightarrow> Code" where
  "recordChange code resp files =
     (let code = (if A_SessionID resp \<noteq> [] then code\<lparr>SessionID := A_SessionID resp\<rparr> else code) in
      case files of None \<Rightarrow> code | Some fs \<Rightarrow> code\<lparr>ChangedFiles := fs\<rparr>)"

definition Code_Run :: "(node_note \<Rightarrow> string) \<Rightarrow> Meets \<Rightarrow> (string \<Rightarrow> (string, string) result) \<Rightarrow> agent option \<Rightarrow> string option \<Rightarrow>
    RunContext \<Rightarrow> Result \<times> code_fault option" where
  "Code_Run say m read agent archived rc =
     (if n_cancelled m then (Result0, Some (CodeFault FaultCancelled))
      else case agent of
        None \<Rightarrow> (Result0, Some (CodeFault FaultNoAgent))
      | Some answer \<Rightarrow>
          if Approval (Cfg_Graph (RC_Config rc)) \<and> \<not> Approved (B_Plan (RC_State rc)) then (Result0, Some CodePlanNotApproved)
          else (case code_readPlan read (P_Path (B_Plan (RC_State rc))) of
             Inl err \<Rightarrow> (Result0, Some err)
           | Inr plan \<Rightarrow>
               if RC_Workspace rc = [] then (Result0, Some (CodeFault FaultNoWorkspace))
               else case n_files m of
                 Some err \<Rightarrow> (Result0, Some (CodeFault (FaultNotRecorded err)))
               | None \<Rightarrow>
                   (case answer of
                      Inl (u, err) \<Rightarrow> (spent u, Some (CodeFault (FaultAdapter err)))
                    | Inr resp \<Rightarrow>
                        (case archived of
                           Some err \<Rightarrow> (Result0, Some (CodeFault (FaultNotRecorded err)))
                         | None \<Rightarrow>
                             (case ParseChangedFiles (A_Text resp) of
                                Inl err \<Rightarrow> (Result0, Some (CodeFault (FaultFileList err)))
                              | Inr files \<Rightarrow>
                                  ((routed NodeWrite (Patch0\<lparr>Patch_Code := Some (recordChange (B_Code (RC_State rc)) resp files)\<rparr>)
                                     (say (OtherNote ''code'')))\<lparr>Res_Usage := A_Usage resp\<rparr>, None))))))"

section \<open>write: containment\<close>

datatype lkind = LNotExist | LErr string | LEscape | LDir | LSymlink | LRegular bool nat | LOther

text \<open>What resolving the links of a directory answers: where it is, that it is not there, or an error.\<close>

datatype resolved = ResolvesTo string | ResolvesToNothing | ResolveErr string

record FS =
  fs_eval :: "string \<Rightarrow> resolved"
  fs_lstat :: "string \<Rightarrow> lkind"
  fs_root_lstat :: "string \<Rightarrow> lkind"
  fs_read :: "string \<Rightarrow> (bool \<times> string, string) result"
  fs_same_file :: "string \<Rightarrow> string \<Rightarrow> bool"

datatype refusal =
    RefusedEmpty | RefusedBlank | RefusedNUL | RefusedAbsolute | RefusedBackslash | RefusedUp | RefusedOutside
  | RefusedBelay | RefusedParent string | RefusedSymlink | RefusedDirectory | RefusedIrregular | RefusedByKernel

datatype write_error = ContainmentError string refusal | WriteIO string | WriteCancelled | WriteNoWorkspace | WriteChanges string

definition under :: "string \<Rightarrow> string" where
  "under wsroot = (if wsroot \<noteq> [] \<and> last wsroot = CHR ''/'' then wsroot else wsroot @ ''/'')"

definition dir_of :: "string \<Rightarrow> string" where
  "dir_of p = (let d = rev (drop 1 (dropWhile (\<lambda>c. c \<noteq> CHR ''/'') (rev p))) in if d = [] then ''/'' else Clean d)"

text \<open>\<open>isWithin\<close>: strictly below, by whole segments. A path that passes the prefix test cannot fail the
  last one, since it is cleaned.\<close>

definition isWithin :: "string \<Rightarrow> string \<Rightarrow> bool" where
  "isWithin wsroot path \<longleftrightarrow>
     take 1 wsroot = ''/'' \<and> take 1 path = ''/'' \<and>
     (let wsroot = Clean wsroot; path = Clean path in wsroot \<noteq> path \<and> has_prefix (under wsroot) path)"

definition rel_to :: "string \<Rightarrow> string \<Rightarrow> string" where
  "rel_to wsroot path = drop (length (under wsroot)) path"

definition isBelayPath :: "string \<Rightarrow> bool" where
  "isBelayPath rel = (let rel = Clean rel in rel = ''.belay'' \<or> has_prefix ''.belay/'' rel)"

definition safeJoin :: "FS \<Rightarrow> string \<Rightarrow> string \<Rightarrow> (write_error, string) result" where
  "safeJoin fs wsroot rel =
     (let refuse = (\<lambda>why. Inl (ContainmentError rel why)) in
      if rel = [] then refuse RefusedEmpty
      else if TrimSpace rel = [] then refuse RefusedBlank
      else if CHR 0x00 \<in> set rel then refuse RefusedNUL
      else if take 1 rel = ''/'' then refuse RefusedAbsolute
      else if CHR 0x5C \<in> set rel then refuse RefusedBackslash
      else if ''..'' \<in> set (split_path rel) then refuse RefusedUp
      else
        let abs = Clean (wsroot @ CHR ''/'' # rel) in
        if \<not> isWithin wsroot abs then refuse RefusedOutside
        else if isBelayPath (rel_to wsroot abs) then refuse RefusedBelay
        else
          let here = (case fs_lstat fs abs of
              LNotExist \<Rightarrow> Inr abs | LErr err \<Rightarrow> Inl (WriteIO err) | LSymlink \<Rightarrow> refuse RefusedSymlink | _ \<Rightarrow> Inr abs)
          in (case fs_eval fs (dir_of abs) of
                ResolvesTo parent \<Rightarrow>
                  (let parent = Clean parent in
                   if parent \<noteq> wsroot \<and> \<not> isWithin wsroot parent then refuse (RefusedParent parent) else here)
              | ResolvesToNothing \<Rightarrow> here
              | ResolveErr err \<Rightarrow> Inl (WriteIO err)))"

datatype changeKind = changePresent | changeAbsent

record change =
  Ch_Rel :: string
  Ch_Kind :: changeKind
  Ch_Exec :: bool
  Ch_Size :: nat

definition classify :: "FS \<Rightarrow> string \<Rightarrow> string \<Rightarrow> (write_error, change) result" where
  "classify fs rel claimed =
     (case fs_root_lstat fs rel of
        LNotExist \<Rightarrow> Inr \<lparr>Ch_Rel = rel, Ch_Kind = changeAbsent, Ch_Exec = False, Ch_Size = 0\<rparr>
      | LErr err \<Rightarrow> Inl (WriteIO err)
      | LEscape \<Rightarrow> Inl (ContainmentError claimed RefusedByKernel)
      | LDir \<Rightarrow> Inl (ContainmentError claimed RefusedDirectory)
      | LSymlink \<Rightarrow> Inl (ContainmentError claimed RefusedIrregular)
      | LOther \<Rightarrow> Inl (ContainmentError claimed RefusedIrregular)
      | LRegular ex bytes \<Rightarrow> Inr \<lparr>Ch_Rel = rel, Ch_Kind = changePresent, Ch_Exec = ex, Ch_Size = bytes\<rparr>)"

fun verify_from :: "FS \<Rightarrow> string \<Rightarrow> change list \<Rightarrow> string list \<Rightarrow> (write_error, change list) result" where
  "verify_from fs wsroot out [] = Inr out"
| "verify_from fs wsroot out (claim # claims) =
     bind_result (safeJoin fs wsroot claim) (\<lambda>abs.
       let rel = rel_to wsroot abs in
       if rel \<in> Ch_Rel ` set out then verify_from fs wsroot out claims
       else bind_result (classify fs rel claim) (\<lambda>c. verify_from fs wsroot (out @ [c]) claims))"

text \<open>The result is sorted by path; no two entries have the same.\<close>

definition verify_claims :: "FS \<Rightarrow> string \<Rightarrow> string list \<Rightarrow> (write_error, change list) result" where
  "verify_claims fs wsroot claimed = bind_result (verify_from fs wsroot [] claimed) (\<lambda>out. Inr (sort_key Ch_Rel out))"

section \<open>write: the patch document\<close>

fun decimal_from :: "nat \<Rightarrow> nat \<Rightarrow> string" where
  "decimal_from 0 n = []"
| "decimal_from (Suc k) n = (if n < 10 then [char_of (48 + n)] else decimal_from k (n div 10) @ [char_of (48 + n mod 10)])"

definition decimal :: "nat \<Rightarrow> string" where
  "decimal n = decimal_from (Suc n) n"

definition writeHunk :: "string \<Rightarrow> string" where
  "writeHunk content =
     (if content = [] then []
      else
        let ends = (last content = newline); body = (if ends then butlast content else content); ls = split_lines body
        in ''@@ -0,0 +1,'' @ decimal (length ls) @ '' @@'' @ [newline] @
           concat (map (\<lambda>l. ''+'' @ l @ [newline]) ls) @
           (if ends then [] else CHR 0x5C # '' No newline at end of file'' @ [newline]))"

text \<open>\<open>readCapped\<close>: at most \<open>cap\<close> bytes; \<open>None\<close> when there are more.\<close>

definition readCapped :: "FS \<Rightarrow> string \<Rightarrow> nat \<Rightarrow> (bool \<times> string, string option) result" where
  "readCapped fs path cap =
     (case fs_read fs path of
        Inl err \<Rightarrow> Inl err
      | Inr content \<Rightarrow> Inr (if length content > cap then None else Some content))"

definition header_line :: "string \<Rightarrow> string" where
  "header_line rel = ''diff --git a/'' @ rel @ '' b/'' @ rel @ [newline]"

definition differ_line :: "string \<Rightarrow> string \<Rightarrow> string" where
  "differ_line rel why = ''Files /dev/null and b/'' @ rel @ '' differ ('' @ why @ '')'' @ [newline]"

definition renderChange :: "FS \<Rightarrow> nat \<Rightarrow> change \<Rightarrow> (write_error, string) result" where
  "renderChange fs cap c =
     (let rel = Ch_Rel c in
      if Ch_Kind c = changeAbsent then
        Inr (header_line rel @ ''deleted file mode 100644'' @ [newline] @ ''--- a/'' @ rel @ [newline] @ ''+++ /dev/null'' @ [newline])
      else
        let head = header_line rel @ ''new file mode '' @ (if Ch_Exec c then ''100755'' else ''100644'') @ [newline] in
        if Ch_Size c > cap then
          Inr (head @ differ_line rel (decimal (Ch_Size c) @ '' bytes exceeds the '' @ decimal cap @ '' byte record limit''))
        else case readCapped fs rel cap of
          Inl (escapes, err) \<Rightarrow> Inl (if escapes then ContainmentError rel RefusedByKernel else WriteIO err)
        | Inr None \<Rightarrow> Inr (head @ differ_line rel (''grew past the '' @ decimal cap @ '' byte record limit while being read''))
        | Inr (Some content) \<Rightarrow>
            if CHR 0x00 \<in> set content then Inr (head @ ''Binary files /dev/null and b/'' @ rel @ '' differ'' @ [newline])
            else Inr (head @ ''--- /dev/null'' @ [newline] @ ''+++ b/'' @ rel @ [newline] @ writeHunk content))"

fun renderPatch :: "FS \<Rightarrow> nat \<Rightarrow> change list \<Rightarrow> (write_error, string) result" where
  "renderPatch fs cap [] = Inr []"
| "renderPatch fs cap (c # cs) =
     bind_result (renderChange fs cap c) (\<lambda>s. bind_result (renderPatch fs cap cs) (\<lambda>ss. Inr (s @ ss)))"

definition DefaultMaxFileBytes :: nat where "DefaultMaxFileBytes = 1048576"

section \<open>write: the node\<close>

definition groundTruth :: "truth \<Rightarrow> (write_error, string list \<times> string) result" where
  "groundTruth tr =
     (case tr of
        NoSource \<Rightarrow> Inr ([], ''nothing checks it against the workspace'')
      | Unrecorded why \<Rightarrow> Inr ([], why)
      | NoAnswer err \<Rightarrow> Inl (WriteChanges err)
      | Changed files \<Rightarrow> Inr (files, []))"

text \<open>A reported path that is the workspace's name for a file in another case is that file. \<open>fold_eq\<close> is
  \<open>strings.EqualFold\<close>.\<close>

definition alias_of :: "(string \<Rightarrow> string \<Rightarrow> bool) \<Rightarrow> FS \<Rightarrow> string list \<Rightarrow> string \<Rightarrow> string option" where
  "alias_of fold_eq fs truth r = List.find (\<lambda>t. t \<noteq> r \<and> fold_eq t r \<and> fs_same_file fs t r) truth"

definition withoutAliases :: "(string \<Rightarrow> string \<Rightarrow> bool) \<Rightarrow> FS \<Rightarrow> string list \<Rightarrow> string list \<Rightarrow> string list \<times> string list" where
  "withoutAliases fold_eq fs reported truth =
     (filter (\<lambda>r. alias_of fold_eq fs truth r = None) reported, List.map_filter (alias_of fold_eq fs truth) reported)"

definition unreported_files :: "string list \<Rightarrow> string list \<Rightarrow> string list \<Rightarrow> string list \<Rightarrow> string list" where
  "unreported_files truth reported aliased before =
     remdups_adj (sort (filter (\<lambda>t. t \<notin> set reported \<and> t \<notin> set aliased) truth @ filter (\<lambda>b. b \<in> set truth) before))"

record WriteNode =
  wn_root :: "string option"
  wn_cap :: nat
  wn_onVerified :: string

definition write_next :: "WriteNode \<Rightarrow> string" where
  "write_next n = (if wn_onVerified n \<noteq> [] then wn_onVerified n else NodeTest)"

definition write_limit :: "WriteNode \<Rightarrow> nat" where
  "write_limit n = (if wn_cap n > 0 then wn_cap n else DefaultMaxFileBytes)"

definition materialize :: "WriteNode \<Rightarrow> FS \<Rightarrow> string \<Rightarrow> string list \<Rightarrow> (write_error, change list \<times> string) result" where
  "materialize n fs wsroot claimed =
     bind_result (verify_claims fs wsroot claimed) (\<lambda>changes.
     bind_result (renderPatch fs (write_limit n) changes) (\<lambda>patch. Inr (changes, patch)))"

text \<open>\<open>opened\<close> is the workspace root with its links resolved, or nothing when it cannot be opened.\<close>

definition Write_Run :: "(node_note \<Rightarrow> string) \<Rightarrow> Meets \<Rightarrow> WriteNode \<Rightarrow> (string \<Rightarrow> string \<Rightarrow> bool) \<Rightarrow> FS \<Rightarrow> string option \<Rightarrow> truth \<Rightarrow>
    RunContext \<Rightarrow> Result \<times> write_error option" where
  "Write_Run say m n fold_eq fs opened tr rc =
     (if n_cancelled m then (Result0, Some WriteCancelled)
      else case opened of
        None \<Rightarrow> (Result0, Some WriteNoWorkspace)
      | Some wsroot \<Rightarrow>
          let code = B_Code (RC_State rc); reported = ChangedFiles code in
          (case groundTruth tr of
             Inl err \<Rightarrow> (Result0, Some err)
           | Inr (truth, unrecorded) \<Rightarrow>
               (case withoutAliases fold_eq fs reported truth of
                  (kept, aliased) \<Rightarrow>
                    (case materialize n fs wsroot (truth @ kept) of
                       Inl (ContainmentError p why) \<Rightarrow> (ended StatusFailed Patch0 (say (OtherNote ''refused'')), None)
                     | Inl err \<Rightarrow> (Result0, Some err)
                     | Inr (changes, patch) \<Rightarrow>
                         (case n_artifact m of
                            Inl err \<Rightarrow> (Result0, Some (WriteIO err))
                          | Inr path \<Rightarrow>
                              (routed (write_next n) (Patch0\<lparr>Patch_Code := Some (code\<lparr>LastDiff := path,
                                 ChangedFiles := map Ch_Rel changes,
                                 Unreported := unreported_files truth reported aliased (Unreported code)\<rparr>)\<rparr>)
                                 (say (OtherNote ''recorded'')), None))))))"

section \<open>Rooted paths\<close>

lemma rooted_step_up: "''..'' \<notin> set out \<Longrightarrow> ''..'' \<notin> set (clean_step True seg out)"
  by (auto simp: clean_step_def dest: in_set_butlastD)

lemma rooted_no_up: "''..'' \<notin> set (clean_segs True xs)"
proof -
  have "''..'' \<notin> set out \<Longrightarrow> ''..'' \<notin> set (fold (clean_step True) xs out)" for out
    by (induction xs arbitrary: out) (simp_all add: rooted_step_up)
  then show ?thesis by (simp add: clean_segs_def)
qed

text \<open>Segments that name something are kept as they are.\<close>

definition named_segs :: "string list \<Rightarrow> bool" where
  "named_segs ss \<longleftrightarrow> (\<forall>s \<in> set ss. s \<noteq> [] \<and> s \<noteq> ''.'' \<and> s \<noteq> ''..'' \<and> CHR ''/'' \<notin> set s)"

lemma fold_named: "named_segs ss \<Longrightarrow> fold (clean_step r) ss out = out @ ss"
  by (induction ss arbitrary: out) (auto simp: clean_step_def named_segs_def)

lemma clean_segs_append: "clean_segs r (xs @ ys) = fold (clean_step r) ys (clean_segs r xs)"
  by (simp add: clean_segs_def)

lemma named_clean_segs: "named_segs (clean_segs True (split_path p))"
  unfolding named_segs_def
proof
  fix s assume s: "s \<in> set (clean_segs True (split_path p))"
  then have "s \<noteq> ''..''" using rooted_no_up by metis
  then have "s \<in> set (split_path p)" "s \<noteq> []" "s \<noteq> ''.''" using clean_segs_named [OF s] by blast+
  then show "s \<noteq> [] \<and> s \<noteq> ''.'' \<and> s \<noteq> ''..'' \<and> CHR ''/'' \<notin> set s"
    using split_at_free \<open>s \<noteq> ''..''\<close> by (auto simp: split_path_def)
qed

lemma split_path_slash [simp]: "split_path (CHR ''/'' # s) = [] # split_path s"
  by (simp add: split_path_def)

lemma split_path_append: "split_path (s @ CHR ''/'' # t) = split_path s @ split_path t"
proof -
  have "split_at CHR ''/'' (s @ CHR ''/'' # t) = split_at CHR ''/'' s @ split_at CHR ''/'' t"
  proof (induction s)
    case (Cons c s)
    show ?case
    proof (cases "c = CHR ''/''")
      case False
      obtain u us where "split_at CHR ''/'' s = u # us" by (cases "split_at CHR ''/'' s") auto
      then show ?thesis using Cons False by simp
    qed (simp add: Cons)
  qed simp
  then show ?thesis by (simp add: split_path_def)
qed

lemma split_named: "named_segs ss \<Longrightarrow> ss \<noteq> [] \<Longrightarrow> split_path (join_segs ss) = ss"
  by (rule split_join) (auto simp: named_segs_def)

text \<open>A rooted path and its named segments.\<close>

definition abs_path :: "string list \<Rightarrow> string" where
  "abs_path ss = CHR ''/'' # join_segs ss"

lemma Clean_rooted: "take 1 p = ''/'' \<Longrightarrow> Clean p = abs_path (clean_segs True (split_path p))"
  by (simp add: Clean_def abs_path_def Let_def)

lemma Clean_abs_path [simp]: "named_segs ss \<Longrightarrow> Clean (abs_path ss) = abs_path ss"
proof -
  assume n: "named_segs ss"
  have "clean_segs True (split_path (abs_path ss)) = ss"
  proof (cases "ss = []")
    case True
    then show ?thesis by (simp add: abs_path_def) (simp add: split_path_def clean_segs_def clean_step_def)
  next
    case False
    then have "split_path (abs_path ss) = [] # ss" using split_named [OF n] by (simp add: abs_path_def)
    then show ?thesis using fold_named [OF n, of True "[]"] by (simp add: clean_segs_def clean_step_def)
  qed
  then show ?thesis using Clean_rooted [of "abs_path ss"] by (simp add: abs_path_def)
qed

lemma Clean_idem: "take 1 p = ''/'' \<Longrightarrow> Clean (Clean p) = Clean p"
  using Clean_rooted named_clean_segs by simp

lemma abs_path_append: "ss \<noteq> [] \<Longrightarrow> ts \<noteq> [] \<Longrightarrow> abs_path (ss @ ts) = abs_path ss @ CHR ''/'' # join_segs ts"
proof -
  have "ss \<noteq> [] \<Longrightarrow> ts \<noteq> [] \<Longrightarrow> join_segs (ss @ ts) = join_segs ss @ CHR ''/'' # join_segs ts"
    by (induction ss rule: join_segs.induct) (cases ts; simp)+
  then show "ss \<noteq> [] \<Longrightarrow> ts \<noteq> [] \<Longrightarrow> ?thesis" by (simp add: abs_path_def)
qed

lemma under_abs_path:
  assumes "named_segs ss" "ts \<noteq> []" shows "abs_path (ss @ ts) = under (abs_path ss) @ join_segs ts"
proof (cases "ss = []")
  case True
  then show ?thesis by (simp add: under_def abs_path_def)
next
  case False
  have "last (join_segs ss) \<noteq> CHR ''/''" "join_segs ss \<noteq> []"
    using join_segs_ends [of ss] False assms(1) by (auto simp: named_segs_def)
  then show ?thesis using abs_path_append [OF False assms(2)] by (simp add: under_def abs_path_def)
qed

text \<open>A path with no step up, joined to a root, stays below it: it is the root or under it by named segments.\<close>

lemma joined_below:
  assumes r: "named_segs ss" and up: "''..'' \<notin> set (split_path rel)"
  obtains ts where "Clean (abs_path ss @ CHR ''/'' # rel) = abs_path (ss @ ts)" "named_segs ts"
    "ts = filter (\<lambda>s. s \<noteq> [] \<and> s \<noteq> ''.'') (split_path rel)"
proof -
  let ?ts = "filter (\<lambda>s. s \<noteq> [] \<and> s \<noteq> ''.'') (split_path rel)"
  have kept: "''..'' \<notin> set xs \<Longrightarrow> fold (clean_step True) xs out = out @ filter (\<lambda>s. s \<noteq> [] \<and> s \<noteq> ''.'') xs" for xs out
    by (induction xs arbitrary: out) (auto simp: clean_step_def)
  have sp: "split_path (abs_path ss @ CHR ''/'' # rel) = split_path (abs_path ss) @ split_path rel" by (rule split_path_append)
  have "clean_segs True (split_path (abs_path ss)) = ss"
  proof (cases "ss = []")
    case True
    then show ?thesis by (simp add: abs_path_def) (simp add: split_path_def clean_segs_def clean_step_def)
  next
    case False
    then have "split_path (abs_path ss) = [] # ss" using split_named [OF r] by (simp add: abs_path_def)
    then show ?thesis using fold_named [OF r, of True "[]"] by (simp add: clean_segs_def clean_step_def)
  qed
  then have "clean_segs True (split_path (abs_path ss @ CHR ''/'' # rel)) = ss @ ?ts"
    by (simp add: sp clean_segs_append kept [OF up])
  then have "Clean (abs_path ss @ CHR ''/'' # rel) = abs_path (ss @ ?ts)"
    using Clean_rooted [of "abs_path ss @ CHR ''/'' # rel"] by (simp add: abs_path_def)
  moreover have "named_segs ?ts" using up split_at_free by (auto simp: named_segs_def split_path_def)
  ultimately show ?thesis using that by blast
qed

lemma rel_to_abs_path: "named_segs ss \<Longrightarrow> ts \<noteq> [] \<Longrightarrow> rel_to (abs_path ss) (abs_path (ss @ ts)) = join_segs ts"
  using under_abs_path by (simp add: rel_to_def)

text \<open>What \<open>safeJoin\<close> lets through: a path strictly below the root, and not belay's own directory.\<close>

lemma safeJoin_below:
  assumes r: "named_segs ss" and j: "safeJoin fs (abs_path ss) rel = Inr full"
  obtains ts where "full = abs_path (ss @ ts)" "ts \<noteq> []" "named_segs ts" "hd ts \<noteq> ''.belay''"
    "ts = filter (\<lambda>s. s \<noteq> [] \<and> s \<noteq> ''.'') (split_path rel)" "CHR 0x5C \<notin> set rel" "CHR 0x00 \<notin> set rel"
proof -
  from j have up: "''..'' \<notin> set (split_path rel)" and ab: "full = Clean (abs_path ss @ CHR ''/'' # rel)"
    and w: "isWithin (abs_path ss) full" and nb: "\<not> isBelayPath (rel_to (abs_path ss) full)"
    and ch: "CHR 0x5C \<notin> set rel" "CHR 0x00 \<notin> set rel"
    by (auto simp: safeJoin_def Let_def split: if_splits resolved.splits lkind.splits)
  obtain ts where ts: "Clean (abs_path ss @ CHR ''/'' # rel) = abs_path (ss @ ts)" "named_segs ts"
    "ts = filter (\<lambda>s. s \<noteq> [] \<and> s \<noteq> ''.'') (split_path rel)" by (rule joined_below [OF r up])
  have n2: "named_segs (ss @ ts)" using r ts(2) by (auto simp: named_segs_def)
  have ne: "ts \<noteq> []" using w ab ts(1) r by (auto simp: isWithin_def)
  have rt: "rel_to (abs_path ss) full = join_segs ts" using rel_to_abs_path [OF r ne] ab ts(1) by simp
  have "hd ts \<noteq> ''.belay''"
  proof
    assume h: "hd ts = ''.belay''"
    have "take 1 (join_segs ts) \<noteq> ''/''" using join_segs_ends(2) [OF ne] ts(2) by (auto simp: named_segs_def)
    then have "Clean (join_segs ts) = join_segs ts"
      using ne split_named [OF ts(2) ne] fold_named [OF ts(2), of False "[]"] by (simp add: Clean_def clean_segs_def Let_def)
    then show False using nb h ne unfolding rt by (cases ts; cases "tl ts") (auto simp: isBelayPath_def Let_def has_prefix_def)
  qed
  then show ?thesis using that ab ts ne ch by blast
qed

section \<open>What the write node records\<close>

lemma classify_ok:
  "classify fs rel claimed = Inr c \<Longrightarrow> Ch_Rel c = rel \<and>
     (Ch_Kind c = changeAbsent \<and> fs_root_lstat fs rel = LNotExist \<or> Ch_Kind c = changePresent \<and> (\<exists>ex k. fs_root_lstat fs rel = LRegular ex k))"
  by (auto simp: classify_def split: lkind.splits)

text \<open>A recorded path: below the workspace, not belay's, and a regular file or none.\<close>

definition recorded_ok :: "FS \<Rightarrow> string \<Rightarrow> bool" where
  "recorded_ok fs p \<longleftrightarrow> (\<exists>ts. p = join_segs ts \<and> ts \<noteq> [] \<and> named_segs ts \<and> hd ts \<noteq> ''.belay'') \<and>
     (fs_root_lstat fs p = LNotExist \<or> (\<exists>ex k. fs_root_lstat fs p = LRegular ex k))"

definition rel_of :: "string \<Rightarrow> string" where
  "rel_of claim = join_segs (filter (\<lambda>s. s \<noteq> [] \<and> s \<noteq> ''.'') (split_path claim))"

lemma verify_from_ok:
  assumes r: "named_segs ss"
  shows "verify_from fs (abs_path ss) out claims = Inr cs \<Longrightarrow> \<forall>c \<in> set out. recorded_ok fs (Ch_Rel c) \<Longrightarrow> distinct (map Ch_Rel out) \<Longrightarrow>
    (\<forall>c \<in> set cs. recorded_ok fs (Ch_Rel c)) \<and> distinct (map Ch_Rel cs) \<and> Ch_Rel ` set cs = Ch_Rel ` set out \<union> rel_of ` set claims"
proof (induction claims arbitrary: out)
  case (Cons claim claims)
  then obtain full where j: "safeJoin fs (abs_path ss) claim = Inr full" by (auto simp: bind_Inr)
  obtain ts where ts: "full = abs_path (ss @ ts)" "ts \<noteq> []" "named_segs ts" "hd ts \<noteq> ''.belay''"
    "ts = filter (\<lambda>s. s \<noteq> [] \<and> s \<noteq> ''.'') (split_path claim)" by (rule safeJoin_below [OF r j])
  have rel: "rel_to (abs_path ss) full = rel_of claim"
    unfolding ts(1) rel_to_abs_path [OF r ts(2)] rel_of_def by (simp add: ts(5))
  have rest: "(if rel_of claim \<in> Ch_Rel ` set out then verify_from fs (abs_path ss) out claims
      else bind_result (classify fs (rel_of claim) claim) (\<lambda>c. verify_from fs (abs_path ss) (out @ [c]) claims)) = Inr cs"
    using Cons.prems(1) unfolding verify_from.simps j bind_result_simps Let_def rel by simp
  show ?case
  proof (cases "rel_of claim \<in> Ch_Rel ` set out")
    case True
    then show ?thesis using Cons.IH [OF _ Cons.prems(2,3)] rest by auto
  next
    case False
    then obtain c where c: "classify fs (rel_of claim) claim = Inr c" "verify_from fs (abs_path ss) (out @ [c]) claims = Inr cs"
      using rest by (auto simp: bind_Inr)
    have "recorded_ok fs (Ch_Rel c)" "Ch_Rel c = rel_of claim"
      using classify_ok [OF c(1)] ts(2-4) by (auto simp: recorded_ok_def rel_of_def ts(5) [symmetric])
    then show ?thesis using Cons.IH [OF c(2)] Cons.prems(2,3) False by auto
  qed
qed simp

lemma Write_Run_parts:
  assumes "Write_Run say m n fold_eq fs opened tr rc = (r, None)" "Res_Status r = StatusOK"
  obtains wsroot truth unrec kept aliased changes patch path where "opened = Some wsroot" "groundTruth tr = Inr (truth, unrec)"
    "withoutAliases fold_eq fs (ChangedFiles (B_Code (RC_State rc))) truth = (kept, aliased)"
    "materialize n fs wsroot (truth @ kept) = Inr (changes, patch)"
    "r = routed (write_next n) (Patch0\<lparr>Patch_Code := Some ((B_Code (RC_State rc))\<lparr>LastDiff := path, ChangedFiles := map Ch_Rel changes,
        Unreported := unreported_files truth (ChangedFiles (B_Code (RC_State rc))) aliased (Unreported (B_Code (RC_State rc)))\<rparr>)\<rparr>)
        (say (OtherNote ''recorded''))"
proof -
  obtain wsroot where o: "opened = Some wsroot" using assms(1) by (auto simp: Write_Run_def split: if_splits option.splits)
  obtain truth unrec where g: "groundTruth tr = Inr (truth, unrec)"
    using assms(1,2) o by (auto simp: Write_Run_def Let_def split: if_splits sum.splits)
  obtain kept aliased where k: "withoutAliases fold_eq fs (ChangedFiles (B_Code (RC_State rc))) truth = (kept, aliased)"
    by (cases "withoutAliases fold_eq fs (ChangedFiles (B_Code (RC_State rc))) truth")
  show ?thesis
    using that assms(1,2) o g k by (auto simp: Write_Run_def Let_def split: if_splits sum.splits write_error.splits)
qed

text \<open>
  C19. Whatever an agent reports, the write node routes on only with a record it has proved: every path of
  the record lies below the workspace, outside belay's directory, and is a regular file or gone; the record
  is sorted, holds each path once, and leaves out nothing the workspace says changed.
\<close>

theorem Write_records:
  assumes "Write_Run say m n fold_eq fs (Some (abs_path ss)) tr rc = (r, None)" "Res_Status r = StatusOK" "named_segs ss"
  shows "\<exists>code. Patch_Code (Res_Patch r) = Some code \<and> Res_Next r = write_next n \<and>
    (\<forall>p \<in> set (ChangedFiles code). recorded_ok fs p) \<and> sorted (ChangedFiles code) \<and> distinct (ChangedFiles code) \<and>
    (\<forall>files. tr = Changed files \<longrightarrow> rel_of ` set files \<subseteq> set (ChangedFiles code))"
proof -
  obtain truth unrec kept aliased changes patch path where g: "groundTruth tr = Inr (truth, unrec)"
    and o: "materialize n fs (abs_path ss) (truth @ kept) = Inr (changes, patch)"
    "r = routed (write_next n) (Patch0\<lparr>Patch_Code := Some ((B_Code (RC_State rc))\<lparr>LastDiff := path, ChangedFiles := map Ch_Rel changes,
        Unreported := unreported_files truth (ChangedFiles (B_Code (RC_State rc))) aliased (Unreported (B_Code (RC_State rc)))\<rparr>)\<rparr>)
        (say (OtherNote ''recorded''))"
    using Write_Run_parts [OF assms(1,2)] by (metis option.inject)
  obtain out where v: "verify_from fs (abs_path ss) [] (truth @ kept) = Inr out" "changes = sort_key Ch_Rel out"
    using o(1) by (auto simp: materialize_def verify_claims_def bind_Inr)
  have out: "\<forall>c \<in> set out. recorded_ok fs (Ch_Rel c)" "distinct (map Ch_Rel out)"
    "Ch_Rel ` set out = rel_of ` set (truth @ kept)"
    using verify_from_ok [OF assms(3) v(1)] by simp_all
  have sorted: "sorted (map Ch_Rel changes)" unfolding v(2) by (rule sorted_sort_key)
  have perm: "mset (map Ch_Rel changes) = mset (map Ch_Rel out)" by (simp add: v(2))
  have "distinct (map Ch_Rel changes)" "set (map Ch_Rel changes) = set (map Ch_Rel out)"
    using out(2) perm mset_eq_imp_distinct_iff [OF perm] mset_eq_setD [OF perm] by simp_all
  moreover have "\<forall>p \<in> set (map Ch_Rel out). recorded_ok fs p" using out(1) by simp
  moreover have "rel_of ` set truth \<subseteq> set (map Ch_Rel out)" using out(3) by auto
  moreover have "tr = Changed files \<Longrightarrow> truth = files" for files using g by (simp add: groundTruth_def)
  ultimately show ?thesis using sorted unfolding o(2) by auto
qed

definition tidy_fs :: FS where
  "tidy_fs = \<lparr>fs_eval = ResolvesTo, fs_lstat = (\<lambda>_. LRegular False 2), fs_root_lstat = (\<lambda>p. if p = ''a.go'' then LRegular False 2 else LNotExist),
     fs_read = (\<lambda>_. Inr [CHR ''x'', newline]), fs_same_file = (\<lambda>_ _. False)\<rparr>"

definition reporting :: "string list \<Rightarrow> Blackboard" where
  "reporting files = (NewState ''g'')\<lparr>B_Code := \<lparr>SessionID = [], LastDiff = [], ChangedFiles = files, Unreported = []\<rparr>\<rparr>"

definition sample_write :: "Result \<times> write_error option" where
  "sample_write = Write_Run (\<lambda>_. []) calm \<lparr>wn_root = None, wn_cap = 9, wn_onVerified = []\<rparr> (=) tidy_fs (Some (abs_path [''w'']))
     (Changed [''a.go'', ''b/c.go'']) (sample_context (reporting [''./a.go'']) None)"

lemma sample_write_ok: "snd sample_write = None \<and> Res_Status (fst sample_write) = StatusOK"
  by code_simp

theorem Write_records_witness:
  "\<exists>code. Patch_Code (Res_Patch (fst sample_write)) = Some code \<and> rel_of ` {''a.go'', ''b/c.go''} \<subseteq> set (ChangedFiles code)"
proof -
  have "Write_Run (\<lambda>_. []) calm \<lparr>wn_root = None, wn_cap = 9, wn_onVerified = []\<rparr> (=) tidy_fs (Some (abs_path [''w'']))
     (Changed [''a.go'', ''b/c.go'']) (sample_context (reporting [''./a.go'']) None) = (fst sample_write, None)"
    using sample_write_ok by (simp add: sample_write_def prod_eq_iff)
  from Write_records [OF this] show ?thesis using sample_write_ok by (fastforce simp: named_segs_def)
qed

end
