(* ===== verification/Work_Loop.thy ===== *)
theory Work_Loop
  imports Work_Nodes
begin

text \<open>
  The work of a run as a walk: code, write, policy, test, review and fix, each answering whatever its
  adapters make it answer, its patch applied to the blackboard, and the successor it names next. The
  walk stops on an error, on a result that is not ok, and at the node outside the loop review passes to.
\<close>

section \<open>One step of the walk\<close>

record Loop =
  lp_onPass :: string
  lp_write :: WriteNode
  lp_giveUp :: int
  lp_pin :: "PolicyPin option"

text \<open>What the nodes of the loop can answer in a context. An artifact has a path.\<close>

inductive work_answer :: "Loop \<Rightarrow> RunContext \<Rightarrow> string \<Rightarrow> Result \<Rightarrow> bool" for W rc where
  AnswerCode: "Code_Run say m read agent archived rc = (r, None) \<Longrightarrow> work_answer W rc NodeCode r"
| AnswerWrite: "Write_Run say m (lp_write W) fold_eq fs opened tr rc = (r, None) \<Longrightarrow> work_answer W rc NodeWrite r"
| AnswerPolicy: "Policy_Run T L m tr w rc = (r, None) \<Longrightarrow> work_answer W rc NodePolicy r"
| AnswerTest: "Test_Run say m runner rc = (r, None) \<Longrightarrow> n_artifact m \<noteq> Inr [] \<Longrightarrow> work_answer W rc NodeTest r"
| AnswerReview: "Review_Run say m (lp_onPass W) cfg linter reviewer rc = (r, None) \<Longrightarrow> work_answer W rc NodeReview r"
| AnswerFix: "Fix_Run say m agent archived rc = (r, None) \<Longrightarrow> work_answer W rc NodeFix r"

text \<open>The context is the run's: its blackboard, its repair budget and its pinned policy. The dispatcher adds
  the history entry to the patch.\<close>

inductive work_step :: "Loop \<Rightarrow> string \<times> Blackboard \<Rightarrow> string \<times> Blackboard \<Rightarrow> bool" for W where
  Step: "work_answer W rc n r \<Longrightarrow> RC_State rc = st \<Longrightarrow> G_GiveUp (Cfg_Graph (RC_Config rc)) = lp_giveUp W \<Longrightarrow>
     RC_Policy rc = lp_pin W \<Longrightarrow> Res_Status r = StatusOK \<Longrightarrow> Apply ((Res_Patch r)\<lparr>Patch_History := h\<rparr>) st = Inr st' \<Longrightarrow>
     work_step W (n, st) (Res_Next r, st')"

section \<open>What each node's success says\<close>

lemma patch_simps [simp]:
  "Patch_Code Patch0 = None" "Patch_Test Patch0 = None" "Patch_Review Patch0 = None" "Patch_Fix Patch0 = None"
  "Patch_Policy Patch0 = None"
  by (simp_all add: Patch0_def)

lemma usage_simps [simp]:
  "Res_Status (r\<lparr>Res_Usage := u\<rparr>) = Res_Status r" "Res_Next (r\<lparr>Res_Usage := u\<rparr>) = Res_Next r"
  "Res_Patch (r\<lparr>Res_Usage := u\<rparr>) = Res_Patch r"
  by simp_all

lemma Code_Run_ok:
  assumes "Code_Run say m read agent archived rc = (r, None)"
  shows "Res_Status r = StatusOK \<and> Res_Next r = NodeWrite \<and> Patch_Fix (Res_Patch r) = None"
  using assms by (auto simp: Code_Run_def split: if_splits option.splits sum.splits)

lemma Write_Run_ok:
  assumes "Write_Run say m n fold_eq fs opened tr rc = (r, None)" "Res_Status r = StatusOK"
  shows "Res_Next r = write_next n \<and> Patch_Fix (Res_Patch r) = None \<and> Patch_Policy (Res_Patch r) = None"
  by (rule Write_Run_parts [OF assms]) simp

lemma Test_Run_ok:
  assumes "Test_Run say m runner rc = (r, None)"
  shows "Res_Status r = StatusOK \<and> Patch_Fix (Res_Patch r) = None \<and> Patch_Policy (Res_Patch r) = None \<and>
    (\<exists>report path. n_artifact m = Inr path \<and> runner = Some (Inr report) \<and> Patch_Test (Res_Patch r) = Some (NewTest report path) \<and>
       Res_Next r = (if TestReport_OK report then NodeReview else NodeFix))"
proof -
  obtain answer where a: "runner = Some answer" using assms by (auto simp: Test_Run_def split: option.splits)
  obtain report where b: "answer = Inr report" using assms by (auto simp: Test_Run_def a split: if_splits sum.splits)
  obtain path where c: "n_artifact m = Inr path" using assms by (auto simp: Test_Run_def a b split: if_splits sum.splits)
  have "r = routed (if TestReport_OK report then NodeReview else NodeFix) (Patch0\<lparr>Patch_Test := Some (NewTest report path)\<rparr>) (say (TestNote report))"
    using assms unfolding Test_Run_def a b c by (simp split: if_split_asm)
  then show ?thesis by (simp add: a b c)
qed

lemma Review_Run_ok:
  assumes "Review_Run say m onPass cfg linter reviewer rc = (r, None)"
  shows "Res_Status r = StatusOK \<and> Patch_Fix (Res_Patch r) = None \<and> Patch_Policy (Res_Patch r) = None \<and> Patch_Test (Res_Patch r) = None \<and>
    (\<exists>review. Patch_Review (Res_Patch r) = Some review \<and>
       (R_Gate review = GatePass \<and> Res_Next r = onPass \<or> R_Gate review = GateFail \<and> Res_Next r = NodeFix))"
  using assms by (auto simp: Review_Run_def verdict_def Let_def NewReview_def split: if_splits option.splits sum.splits)

lemma Policy_Run_ok:
  assumes "Policy_Run T L m tr w rc = (r, None)" "Res_Status r = StatusOK"
  shows "Patch_Fix (Res_Patch r) = None \<and>
    (RC_Policy rc = None \<and> Res_Next r = NodeTest \<or>
     (\<exists>policy. Patch_Policy (Res_Patch r) = Some policy \<and>
       (Pol_Gate policy = GatePass \<and> Res_Next r = NodeTest \<or> Pol_Gate policy = GateFail \<and> Res_Next r = NodeFix)))"
  using assms by (auto simp: Policy_Run_def Let_def NewPolicy_def Report_QualityReport_def split: if_splits option.splits sum.splits prod.splits)

lemma Fix_Run_ok:
  assumes "Fix_Run say m agent archived rc = (r, None)" "Res_Status r = StatusOK"
  shows "Res_Next r = NodeWrite \<and> Attempts (B_Fix (RC_State rc)) < G_GiveUp (Cfg_Graph (RC_Config rc)) \<and>
    Patch_Fix (Res_Patch r) = Some \<lparr>Attempts = wrap64 (Attempts (B_Fix (RC_State rc)) + 1), GiveUp = False\<rparr>"
  using assms by (auto simp: Fix_Run_def Let_def split: if_splits option.splits sum.splits)

lemma Apply_ok: "Apply p st = Inr st' \<Longrightarrow> st' = Apply_fields p st"
  by (auto simp: Apply_def split: if_splits)

section \<open>The walk ends\<close>

text \<open>The interface the bound rests on: a step relation on states that keeps \<open>good\<close> and goes down in \<open>rank\<close>.\<close>

locale ranked_walk =
  fixes walk :: "'s \<Rightarrow> 's \<Rightarrow> bool" and good :: "'s \<Rightarrow> bool" and rank :: "'s \<Rightarrow> nat"
  assumes keeps: "walk s s' \<Longrightarrow> good s \<Longrightarrow> good s'"
    and down: "walk s s' \<Longrightarrow> good s \<Longrightarrow> rank s' < rank s"
begin

lemma walk_keeps: "(walk ^^ k) s s' \<Longrightarrow> good s \<Longrightarrow> good s'"
  by (induction k arbitrary: s') (auto intro: keeps)

lemma walk_bound: "(walk ^^ k) s s' \<Longrightarrow> good s \<Longrightarrow> k + rank s' \<le> rank s"
proof (induction k arbitrary: s')
  case (Suc k)
  then obtain t where t: "(walk ^^ k) s t" "walk t s'" by auto
  then show ?case using Suc.IH [OF t(1) Suc.prems(2)] down [OF t(2) walk_keeps [OF t(1) Suc.prems(2)]] by simp
qed simp

end

definition stage :: "string \<Rightarrow> nat" where
  "stage n = (if n = NodeCode then 5 else if n = NodeWrite then 4 else if n = NodePolicy then 3 else if n = NodeTest then 2
     else if n = NodeReview then 1 else 0)"

definition repairs_left :: "Loop \<Rightarrow> Blackboard \<Rightarrow> nat" where
  "repairs_left W st = nat (lp_giveUp W - Attempts (B_Fix st))"

definition potential :: "Loop \<Rightarrow> string \<times> Blackboard \<Rightarrow> nat" where
  "potential W s = 6 * repairs_left W (snd s) + stage (fst s)"

text \<open>The write node hands on to policy or test, review passes out of the loop, and the counts are a Go int's.\<close>

definition wired :: "Loop \<Rightarrow> bool" where
  "wired W \<longleftrightarrow> write_next (lp_write W) \<in> {NodePolicy, NodeTest} \<and> in64 (lp_giveUp W) \<and>
     lp_onPass W \<notin> {NodeCode, NodeWrite, NodePolicy, NodeTest, NodeReview, NodeFix}"

lemma stage_simps [simp]:
  "stage NodeCode = 5" "stage NodeWrite = 4" "stage NodePolicy = 3" "stage NodeTest = 2" "stage NodeReview = 1" "stage NodeFix = 0"
  by (simp_all add: stage_def node_names)

lemma node_distinct [simp]:
  "NodeCode \<noteq> NodeWrite" "NodeCode \<noteq> NodePolicy" "NodeCode \<noteq> NodeTest" "NodeCode \<noteq> NodeReview" "NodeCode \<noteq> NodeFix"
  "NodeWrite \<noteq> NodeCode" "NodeWrite \<noteq> NodePolicy" "NodeWrite \<noteq> NodeTest" "NodeWrite \<noteq> NodeReview" "NodeWrite \<noteq> NodeFix"
  "NodePolicy \<noteq> NodeCode" "NodePolicy \<noteq> NodeWrite" "NodePolicy \<noteq> NodeTest" "NodePolicy \<noteq> NodeReview" "NodePolicy \<noteq> NodeFix"
  "NodeTest \<noteq> NodeCode" "NodeTest \<noteq> NodeWrite" "NodeTest \<noteq> NodePolicy" "NodeTest \<noteq> NodeReview" "NodeTest \<noteq> NodeFix"
  "NodeReview \<noteq> NodeCode" "NodeReview \<noteq> NodeWrite" "NodeReview \<noteq> NodePolicy" "NodeReview \<noteq> NodeTest" "NodeReview \<noteq> NodeFix"
  "NodeFix \<noteq> NodeCode" "NodeFix \<noteq> NodeWrite" "NodeFix \<noteq> NodePolicy" "NodeFix \<noteq> NodeTest" "NodeFix \<noteq> NodeReview"
  by (simp_all add: node_names)

inductive_cases work_step_elim: "work_step W (n, st) (n', st')"

lemma Apply_fields_simps [simp]:
  "B_Fix (Apply_fields p st) = or_else (Patch_Fix p) (B_Fix st)"
  "B_Test (Apply_fields p st) = or_else (Patch_Test p) (B_Test st)"
  "B_Review (Apply_fields p st) = or_else (Patch_Review p) (B_Review st)"
  "B_Policy (Apply_fields p st) = or_else (Patch_Policy p) (B_Policy st)"
  "B_Code (Apply_fields p st) = or_else (Patch_Code p) (B_Code st)"
  by (simp_all add: Apply_fields_eq)

lemma or_else_simps [simp]: "or_else None d = d" "or_else (Some x) d = x"
  by (simp_all add: or_else_def)

text \<open>What a step does, node by node: where it goes and what it does to the repair count, the tests, the review
  and the policy verdict.\<close>

lemma work_step_parts:
  assumes "work_step W (n, st) (n', st')"
  obtains
    (coded) "n = NodeCode" "n' = NodeWrite" "B_Fix st' = B_Fix st"
  | (written) "n = NodeWrite" "n' = write_next (lp_write W)" "B_Fix st' = B_Fix st"
  | (unguarded) "n = NodePolicy" "n' = NodeTest" "B_Fix st' = B_Fix st" "lp_pin W = None"
  | (judged) "n = NodePolicy" "B_Fix st' = B_Fix st"
      "Pol_Gate (B_Policy st') = GatePass \<and> n' = NodeTest \<or> Pol_Gate (B_Policy st') = GateFail \<and> n' = NodeFix"
  | (tested) report path where "n = NodeTest" "B_Fix st' = B_Fix st" "B_Policy st' = B_Policy st" "path \<noteq> []"
      "B_Test st' = NewTest report path" "n' = (if TestReport_OK report then NodeReview else NodeFix)"
  | (reviewed) "n = NodeReview" "B_Fix st' = B_Fix st" "B_Policy st' = B_Policy st" "B_Test st' = B_Test st"
      "R_Gate (B_Review st') = GatePass \<and> n' = lp_onPass W \<or> R_Gate (B_Review st') = GateFail \<and> n' = NodeFix"
  | (repair) "n = NodeFix" "n' = NodeWrite" "Attempts (B_Fix st) < lp_giveUp W"
      "B_Fix st' = \<lparr>Attempts = wrap64 (Attempts (B_Fix st) + 1), GiveUp = False\<rparr>"
  using assms
proof cases
  case (Step rc r h)
  note eq = Apply_ok [OF Step(7)]
  from Step(2) show ?thesis
  proof cases
    case (AnswerCode say m read agent archived)
    then show ?thesis using that(1) Code_Run_ok [OF AnswerCode(2)] Step(1) eq by simp
  next
    case (AnswerWrite say m fold_eq fs opened tr)
    then show ?thesis using that(2) Write_Run_ok [OF AnswerWrite(2) Step(6)] Step(1) eq by simp
  next
    case (AnswerPolicy T L m tr w)
    from Policy_Run_ok [OF AnswerPolicy(2) Step(6)] show ?thesis
      using that(3,4) Step(1,5) AnswerPolicy(1) eq by auto
  next
    case (AnswerTest say m runner)
    then show ?thesis using that(5) Test_Run_ok [OF AnswerTest(2)] Step(1) eq by auto
  next
    case (AnswerReview say m cfg linter reviewer)
    then show ?thesis using that(6) Review_Run_ok [OF AnswerReview(2)] Step(1) eq by auto
  next
    case (AnswerFix say m agent archived)
    then show ?thesis using that(7) Fix_Run_ok [OF AnswerFix(2) Step(6)] Step(1,3,4) eq by simp
  qed
qed

definition counted :: "Loop \<Rightarrow> string \<times> Blackboard \<Rightarrow> bool" where
  "counted W s \<longleftrightarrow> wired W \<and> in64 (Attempts (B_Fix (snd s)))"

lemma step_counted: "work_step W s s' \<Longrightarrow> counted W s \<Longrightarrow> counted W s'"
proof -
  assume a: "work_step W s s'" "counted W s"
  obtain n st n' st' where s: "s = (n, st)" "s' = (n', st')" by (cases s; cases s')
  from a(1) [unfolded s] show "counted W s'" using a(2) unfolding s by (elim work_step_parts) (auto simp: counted_def)
qed

lemma step_down: "work_step W s s' \<Longrightarrow> counted W s \<Longrightarrow> potential W s' < potential W s"
proof -
  assume a: "work_step W s s'" "counted W s"
  obtain n st n' st' where s: "s = (n, st)" "s' = (n', st')" by (cases s; cases s')
  have w: "stage (write_next (lp_write W)) < 4" "stage (lp_onPass W) = 0" and i: "in64 (Attempts (B_Fix st))" "in64 (lp_giveUp W)"
    using a(2) by (auto simp: counted_def wired_def s stage_def)
  from a(1) [unfolded s] have "potential W (n', st') < potential W (n, st)"
  proof (cases rule: work_step_parts)
    case repair
    then have "wrap64 (Attempts (B_Fix st) + 1) = Attempts (B_Fix st) + 1" using i by (intro wrap64_id) (auto simp: in64_def)
    then show ?thesis using repair by (simp add: potential_def repairs_left_def)
  qed (use w in \<open>auto simp: potential_def repairs_left_def\<close>)
  then show "potential W s' < potential W s" by (simp add: s)
qed

interpretation repair: ranked_walk "work_step W" "counted W" "potential W" for W
  by unfold_locales (rule step_counted, assumption+, rule step_down)

text \<open>
  C11. The repair loop ends, whatever agents, tests, linters and reviewers answer: from any node of the work
  at most six steps follow for each repair still allowed, and five for the first pass.
\<close>

theorem repair_loop_ends:
  assumes "wired W" "in64 (Attempts (B_Fix st))" "(work_step W ^^ k) (n, st) s"
  shows "k \<le> 6 * nat (lp_giveUp W - Attempts (B_Fix st)) + stage n"
  using repair.walk_bound [OF assms(3)] assms(1,2) by (simp add: counted_def potential_def repairs_left_def)

section \<open>What leaves the loop has passed\<close>

definition passed :: "Loop \<Rightarrow> string \<times> Blackboard \<Rightarrow> bool" where
  "passed W s \<longleftrightarrow> (case s of (n, st) \<Rightarrow>
     (n \<in> {NodeTest, NodeReview, lp_onPass W} \<and> lp_pin W \<noteq> None \<longrightarrow> Pol_Gate (B_Policy st) = GatePass) \<and>
     (n \<in> {NodeReview, lp_onPass W} \<longrightarrow> TestReport_OK (Test_Report (B_Test st))) \<and>
     (n = lp_onPass W \<longrightarrow> R_Gate (B_Review st) = GatePass))"

lemma report_kept [simp]: "Test_Report (NewTest report path) = report"
  by (simp add: Test_Report_def NewTest_def)

lemma T_ReportPath_New [simp]: "T_ReportPath (NewTest report path) = path"
  by (simp add: NewTest_def)

lemma step_passed:
  assumes "wired W" "write_next (lp_write W) = NodePolicy" "work_step W s s'" "passed W s" shows "passed W s'"
proof -
  obtain n st n' st' where s: "s = (n, st)" "s' = (n', st')" by (cases s; cases s')
  from assms(1) have "lp_onPass W \<noteq> NodeCode" "lp_onPass W \<noteq> NodeWrite" "lp_onPass W \<noteq> NodePolicy" "lp_onPass W \<noteq> NodeTest"
    "lp_onPass W \<noteq> NodeReview" "lp_onPass W \<noteq> NodeFix" by (auto simp: wired_def)
  then show ?thesis using assms(3) [unfolded s] assms(2,4) unfolding s
    by (elim work_step_parts) (auto simp: passed_def split: if_splits)
qed

text \<open>
  C12. Nothing leaves the loop ungated: a change review passes on has a policy verdict that passes, when the run
  pins a policy, tests that ran and all passed, and a review that passes, the verdicts of the last round.
\<close>

theorem nothing_leaves_ungated:
  assumes "wired W" "write_next (lp_write W) = NodePolicy" "(work_step W)\<^sup>*\<^sup>* (NodeCode, st) (lp_onPass W, st')"
  shows "(lp_pin W \<noteq> None \<longrightarrow> Pol_Gate (B_Policy st') = GatePass) \<and> TestReport_OK (Test_Report (B_Test st')) \<and> R_Gate (B_Review st') = GatePass"
proof -
  have "passed W (NodeCode, st)" using assms(1) by (auto simp: passed_def wired_def)
  with assms(3) have "passed W (lp_onPass W, st')" by induction (use step_passed [OF assms(1,2)] in blast)+
  then show ?thesis by (simp add: passed_def)
qed

text \<open>
  A gate that sends the change to fix leaves fix something to find: fix never stops the run with nothing to
  repair.
\<close>

theorem fix_has_a_cause:
  assumes "wired W" "work_step W s (NodeFix, st)" "RC_State rc = st"
  shows "snd (Fix_Run say m agent archived rc) \<noteq> Some FaultNothingToFix"
proof -
  obtain n st0 where s: "s = (n, st0)" by (cases s)
  from assms(1) have w: "lp_onPass W \<noteq> NodeFix" "write_next (lp_write W) \<noteq> NodeFix" by (auto simp: wired_def)
  from assms(2) have "detectCause st \<noteq> causeNone" unfolding s
  proof (cases rule: work_step_parts)
    case (tested report path)
    then have "testsFailing (B_Test st)" by (cases "TestReport_OK report") (auto simp: testsFailing_def)
    then show ?thesis by (simp add: detectCause_def)
  qed (use w in \<open>auto simp: detectCause_def\<close>)
  then show ?thesis using assms(3) by (auto simp: Fix_Run_def Let_def split: option.splits sum.splits)
qed

section \<open>A walk, evaluated\<close>

text \<open>One repair: the tests fail until fix has run once.\<close>

definition sample_loop :: Loop where
  "sample_loop = \<lparr>lp_onPass = End, lp_write = \<lparr>wn_root = None, wn_cap = 9, wn_onVerified = NodePolicy\<rparr>, lp_giveUp = 3,
     lp_pin = Some \<lparr>PP_Policy = PolicyRules0, Baseline = [], FoldCase = False\<rparr>\<rparr>"

definition planned :: Blackboard where
  "planned = (NewState ''g'')\<lparr>B_Plan := Plan0\<lparr>P_Path := ''artifacts/plan.md'', Approved := True\<rparr>\<rparr>"

abbreviation quiet :: "node_note \<Rightarrow> string" where "quiet \<equiv> \<lambda>_. []"

definition sample_agent :: agent where
  "sample_agent = Inr \<lparr>A_Text = [], A_SessionID = ''s'', A_Usage = zeroUsage\<rparr>"

definition sample_tests :: "Blackboard \<Rightarrow> (string, TestReport) result option" where
  "sample_tests st = Some (Inr (if Attempts (B_Fix st) = 0 then \<lparr>TR_Total = 2, TR_Passed = 1, TR_Failed = 1, TR_Failures = []\<rparr>
     else \<lparr>TR_Total = 2, TR_Passed = 2, TR_Failed = 0, TR_Failures = []\<rparr>))"

definition sample_lint :: gate_answer where
  "sample_lint = Some (Inr \<lparr>Source = ''lint'', Gate = GatePass, Report_Counts = zeroCounts, Issues = [], Summary = []\<rparr>)"

definition sample_tools :: Gate_Tools where
  "sample_tools = \<lparr>g_say = (\<lambda>_. []), g_summary = (\<lambda>_. []), g_note = quiet\<rparr>"

definition sample_turn :: "string \<Rightarrow> Blackboard \<Rightarrow> Result \<times> bool" where
  "sample_turn n st =
     (let rc = sample_context st (lp_pin sample_loop) in
      if n = NodeCode then (let a = Code_Run quiet calm (\<lambda>_. Inr ''do it'') (Some sample_agent) None rc in (fst a, Option.is_none (snd a)))
      else if n = NodeWrite then (let a = Write_Run quiet calm (lp_write sample_loop) (=) tidy_fs (Some ''/w'') NoSource rc in (fst a, Option.is_none (snd a)))
      else if n = NodePolicy then (let a = Policy_Run sample_tools plain_libs calm NoSource small_workspace rc in (fst a, Option.is_none (snd a)))
      else if n = NodeTest then (let a = Test_Run quiet calm (sample_tests st) rc in (fst a, Option.is_none (snd a)))
      else if n = NodeReview then
        (let a = Review_Run quiet calm End \<lparr>Rev_Mode = ReviewModeLint, Rev_FailOn = ''major''\<rparr> sample_lint None rc in (fst a, Option.is_none (snd a)))
      else if n = NodeFix then (let a = Fix_Run quiet calm (Some sample_agent) None rc in (fst a, Option.is_none (snd a)))
      else (Result0, False))"

fun sample_walk :: "nat \<Rightarrow> string \<times> Blackboard \<Rightarrow> (string \<times> Blackboard) option" where
  "sample_walk 0 s = Some s"
| "sample_walk (Suc k) (n, st) =
     (case sample_turn n st of (r, fine) \<Rightarrow>
        if fine \<and> Res_Status r = StatusOK then sample_walk k (Res_Next r, Apply_fields ((Res_Patch r)\<lparr>Patch_History := None\<rparr>) st) else None)"

lemma sample_turn_answer:
  "sample_turn n st = (r, True) \<Longrightarrow> work_answer sample_loop (sample_context st (lp_pin sample_loop)) n r"
  by (auto simp: sample_turn_def Let_def Option.is_none_def sample_loop_def prod_eq_iff split: if_splits
      intro!: AnswerCode AnswerWrite AnswerPolicy AnswerTest AnswerReview AnswerFix)

lemma sample_walk_steps: "sample_walk k s = Some s' \<Longrightarrow> (work_step sample_loop ^^ k) s s'"
proof (induction k s rule: sample_walk.induct)
  case (2 k n st)
  obtain r fine where t: "sample_turn n st = (r, fine)" by (cases "sample_turn n st")
  let ?st = "Apply_fields ((Res_Patch r)\<lparr>Patch_History := None\<rparr>) st"
  from 2(2) t have f: "fine" "Res_Status r = StatusOK" "sample_walk k (Res_Next r, ?st) = Some s'" by (auto split: if_splits)
  have "work_step sample_loop (n, st) (Res_Next r, ?st)"
    by (rule Step [OF sample_turn_answer, where h = None]) (use t f in \<open>simp_all add: Apply_def sample_loop_def\<close>)
  moreover have "(work_step sample_loop ^^ k) (Res_Next r, ?st) s'" using 2(1) t f by simp
  ultimately show ?case by (rule relpowp_Suc_I2)
qed simp

definition repaired :: Blackboard where
  "repaired = planned\<lparr>B_Fix := \<lparr>Attempts = 1, GiveUp = False\<rparr>\<rparr>"

lemma sample_wired: "wired sample_loop"
  by (simp add: wired_def sample_loop_def write_next_def node_names in64_def)

lemma walk_passes: "map_option fst (sample_walk 5 (NodeCode, repaired)) = Some End"
  by code_simp

lemma walk_repairs: "map_option fst (sample_walk 2 (NodeTest, planned)) = Some NodeWrite"
  by code_simp

lemma test_asks_for_repair: "map_option fst (sample_walk 1 (NodeTest, planned)) = Some NodeFix"
  by code_simp

theorem repair_loop_ends_witness:
  "\<exists>s. (work_step sample_loop ^^ 2) (NodeTest, planned) s \<and> fst s = NodeWrite \<and> (2::nat) \<le> 6 * 3 + 2"
proof -
  obtain s where s: "sample_walk 2 (NodeTest, planned) = Some s" "fst s = NodeWrite" using walk_repairs by auto
  have a: "Attempts (B_Fix planned) = 0" "lp_giveUp sample_loop = 3" by (simp_all add: planned_def NewState_def sample_loop_def)
  have "in64 (Attempts (B_Fix planned))" by (simp add: a in64_def)
  from repair_loop_ends [OF sample_wired this sample_walk_steps [OF s(1)]] have "(2::nat) \<le> 6 * 3 + 2" by (simp add: a)
  then show ?thesis using sample_walk_steps [OF s(1)] s(2) by blast
qed

theorem nothing_leaves_ungated_witness:
  "\<exists>st'. (work_step sample_loop)\<^sup>*\<^sup>* (NodeCode, repaired) (End, st') \<and> Pol_Gate (B_Policy st') = GatePass \<and>
     TestReport_OK (Test_Report (B_Test st')) \<and> R_Gate (B_Review st') = GatePass"
proof -
  obtain st' where s: "sample_walk 5 (NodeCode, repaired) = Some (End, st')" using walk_passes by auto
  have r: "(work_step sample_loop)\<^sup>*\<^sup>* (NodeCode, repaired) (lp_onPass sample_loop, st')"
    using relpowp_imp_rtranclp [OF sample_walk_steps [OF s]] by (simp add: sample_loop_def)
  have "write_next (lp_write sample_loop) = NodePolicy" by (simp add: sample_loop_def write_next_def node_names)
  from nothing_leaves_ungated [OF sample_wired this r] show ?thesis using r by (auto simp: sample_loop_def)
qed

theorem fix_has_a_cause_witness:
  "\<exists>st. work_step sample_loop (NodeTest, planned) (NodeFix, st) \<and>
     snd (Fix_Run quiet calm (Some sample_agent) None (sample_context st None)) \<noteq> Some FaultNothingToFix"
proof -
  obtain st where s: "sample_walk 1 (NodeTest, planned) = Some (NodeFix, st)" using test_asks_for_repair by auto
  have w: "work_step sample_loop (NodeTest, planned) (NodeFix, st)" using sample_walk_steps [OF s] unfolding relpowp_1 .
  from fix_has_a_cause [OF sample_wired this, of "sample_context st None"] w show ?thesis by auto
qed

end
