(* ===== verification/Join.thy ===== *)
theory Join
  imports Gates Dispatcher
begin

text \<open>
  internal/nodes/join: the choice of a winner among a run's candidates (select.go) and the node that
  records it (join.go). A row of the table is its name; \<open>pick\<close> and \<open>approximates\<close> are its functions.
\<close>

section \<open>The selection table\<close>

datatype Strategy = SelectFewestIssues | SelectFirstPass | SelectFastest

definition Strategies :: "Strategy list" where
  "Strategies = [SelectFewestIssues, SelectFirstPass, SelectFastest]"

fun Strategy_Name :: "Strategy \<Rightarrow> string" where
  "Strategy_Name SelectFewestIssues = ''fewest_issues''"
| "Strategy_Name SelectFirstPass = ''first_pass''"
| "Strategy_Name SelectFastest = ''fastest''"

definition allTimed :: "Candidate list \<Rightarrow> bool" where
  "allTimed cs \<longleftrightarrow> (\<forall>c \<in> set cs. 0 < C_DurationMS c)"

text \<open>The loop of a row: the best so far is replaced by a candidate with a smaller key, or with the same
  key and a smaller ID.\<close>

definition better :: "(Candidate \<Rightarrow> int) \<Rightarrow> Candidate \<Rightarrow> Candidate \<Rightarrow> Candidate" where
  "better key c best = (if key c < key best \<or> key c = key best \<and> C_ID c < C_ID best then c else best)"

definition best_of :: "(Candidate \<Rightarrow> int) \<Rightarrow> Candidate list \<Rightarrow> Candidate" where
  "best_of key cs = fold (better key) (tl cs) (hd cs)"

definition firstInOrder :: "Candidate list \<Rightarrow> Candidate" where
  "firstInOrder cs = hd cs"

definition fastest :: "Candidate list \<Rightarrow> Candidate" where
  "fastest cs = (if \<not> allTimed cs then firstInOrder cs else best_of C_DurationMS cs)"

definition fewestIssues :: "Candidate list \<Rightarrow> Candidate" where
  "fewestIssues cs = best_of IssueCount cs"

fun pick :: "Strategy \<Rightarrow> Candidate list \<Rightarrow> Candidate" where
  "pick SelectFewestIssues cs = fewestIssues cs"
| "pick SelectFirstPass cs = firstInOrder cs"
| "pick SelectFastest cs = fastest cs"

text \<open>Whether this selection had to approximate: the text of \<open>Approximation\<close> that is left in the outcome.\<close>

fun approximated :: "Strategy \<Rightarrow> Candidate list \<Rightarrow> bool" where
  "approximated SelectFastest cs = (\<not> allTimed cs)"
| "approximated _ cs = False"

datatype select_error = ErrUnknownStrategy string | ErrNoCandidates | NoCandidateID nat | DuplicateID nat nat string

definition strategy_lookup :: "string \<Rightarrow> (select_error, Strategy) result" where
  "strategy_lookup name =
     (case List.find (\<lambda>s. Strategy_Name s = name) Strategies of Some s \<Rightarrow> Inr s | None \<Rightarrow> Inl (ErrUnknownStrategy name))"

section \<open>Selection\<close>

fun RunStatus_String :: "RunStatus \<Rightarrow> string" where
  "RunStatus_String RunStatusUnknown = ''unknown''"
| "RunStatus_String RunStatusRunning = ''running''"
| "RunStatus_String RunStatusPaused = ''paused''"
| "RunStatus_String RunStatusCompleted = ''completed''"
| "RunStatus_String RunStatusFailed = ''failed''"
| "RunStatus_String RunStatusAborted = ''aborted''"
| "RunStatus_String (RunStatus_other i) = ''RunStatus('' @ Itoa i @ '')''"

definition completedRun :: "Candidate \<Rightarrow> bool" where
  "completedRun c \<longleftrightarrow> Candidate.Outcome c = [] \<or> Candidate.Outcome c = RunStatus_String RunStatusCompleted"

definition eligible :: "Candidate \<Rightarrow> bool" where
  "eligible c \<longleftrightarrow> TestPassed c \<and> completedRun c \<and> PolicyViolations c = 0"

record Selection =
  Sel_Strategy :: Strategy
  Sel_Approximated :: bool
  Sel_Winner :: "Candidate option"
  Sel_Total :: nat
  Sel_Completed :: nat
  Sel_Passed :: nat

definition Selected :: "Selection \<Rightarrow> bool" where
  "Selected sel \<longleftrightarrow> Sel_Passed sel > 0"

text \<open>\<open>validate\<close>, over the candidates from index \<open>i\<close>, having seen IDs at the indices \<open>seen\<close>.\<close>

fun validate_from :: "nat \<Rightarrow> (string \<rightharpoonup> nat) \<Rightarrow> Candidate list \<Rightarrow> select_error option" where
  "validate_from i seen [] = None"
| "validate_from i seen (c # cs) =
     (if C_ID c = [] then Some (NoCandidateID i)
      else case seen (C_ID c) of
        Some first \<Rightarrow> Some (DuplicateID first i (C_ID c))
      | None \<Rightarrow> validate_from (Suc i) (seen(C_ID c \<mapsto> i)) cs)"

definition Select :: "Candidate list \<Rightarrow> string \<Rightarrow> (select_error, Selection) result" where
  "Select cs name =
     bind_result (strategy_lookup name) (\<lambda>s.
       if cs = [] then Inl ErrNoCandidates
       else case validate_from 0 Map.empty cs of
         Some why \<Rightarrow> Inl why
       | None \<Rightarrow>
           let offered = filter eligible cs in
           Inr \<lparr>Sel_Strategy = s, Sel_Approximated = approximated s offered,
             Sel_Winner = (if offered = [] then None else Some (pick s offered)),
             Sel_Total = length cs, Sel_Completed = length (filter completedRun cs), Sel_Passed = length offered\<rparr>)"

section \<open>The node\<close>

datatype join_note = NoneCompleted nat Strategy | AllFailedTests nat Strategy | SomeFailed nat nat nat Strategy
  | SelectedNote Selection string

datatype join_fault = JoinCancelled | JoinSelect select_error

definition noWinnerNote :: "Selection \<Rightarrow> join_note" where
  "noWinnerNote sel =
     (if Sel_Completed sel = 0 then NoneCompleted (Sel_Total sel) (Sel_Strategy sel)
      else if Sel_Completed sel = Sel_Total sel then AllFailedTests (Sel_Total sel) (Sel_Strategy sel)
      else SomeFailed (Sel_Total sel) (Sel_Completed sel) (Sel_Total sel - Sel_Completed sel) (Sel_Strategy sel))"

definition Join_Run :: "(join_note \<Rightarrow> string) \<Rightarrow> Meets \<Rightarrow> string \<Rightarrow> RunContext \<Rightarrow> Result \<times> join_fault option" where
  "Join_Run say m onSelected rc =
     (if n_cancelled m then (ended StatusAborted Patch0 [], Some JoinCancelled)
      else case Select (Candidates (RC_State rc)) (FC_Select (Cfg_Fanout (RC_Config rc))) of
        Inl why \<Rightarrow> (ended StatusFailed Patch0 [], Some (JoinSelect why))
      | Inr sel \<Rightarrow>
          (case Sel_Winner sel of
             None \<Rightarrow> (ended StatusFailed (Patch0\<lparr>Patch_Winner := Some []\<rparr>) (say (noWinnerNote sel)), None)
           | Some w \<Rightarrow> (routed onSelected (Patch0\<lparr>Patch_Winner := Some (C_ID w)\<rparr>) (say (SelectedNote sel onSelected)), None)))"

section \<open>The winner\<close>

text \<open>The key order of a row: by the key, then by the ID.\<close>

definition no_worse :: "(Candidate \<Rightarrow> int) \<Rightarrow> Candidate \<Rightarrow> Candidate \<Rightarrow> bool" where
  "no_worse key a b \<longleftrightarrow> key a < key b \<or> key a = key b \<and> C_ID a \<le> C_ID b"

lemma no_worse_order:
  "no_worse key a a" "no_worse key a b \<Longrightarrow> no_worse key b c \<Longrightarrow> no_worse key a c" "no_worse key a b \<or> no_worse key b a"
  "no_worse key a b \<Longrightarrow> no_worse key b a \<Longrightarrow> C_ID a = C_ID b"
  by (auto simp: no_worse_def)

lemma better_least: "no_worse key (better key c best) c \<and> no_worse key (better key c best) best \<and> better key c best \<in> {c, best}"
  by (auto simp: better_def no_worse_def)

lemma fold_better:
  "fold (better key) cs best \<in> insert best (set cs) \<and> (\<forall>c \<in> insert best (set cs). no_worse key (fold (better key) cs best) c)"
proof (induction cs arbitrary: best)
  case (Cons c cs)
  let ?b = "better key c best"
  from Cons [of ?b] have m: "fold (better key) cs ?b \<in> insert ?b (set cs)"
    and l: "\<forall>d \<in> insert ?b (set cs). no_worse key (fold (better key) cs ?b) d" by blast+
  have "no_worse key (fold (better key) cs ?b) d" if "d \<in> {c, best}" for d
    using l better_least [of key c best] that no_worse_order(2) by (metis insert_iff singletonD)
  then show ?case using m l better_least [of key c best] by auto
qed (simp add: no_worse_order(1))

lemma best_of_least:
  assumes "cs \<noteq> []" shows "best_of key cs \<in> set cs \<and> (\<forall>c \<in> set cs. no_worse key (best_of key cs) c)"
  using fold_better [of key "tl cs" "hd cs"] assms by (cases cs) (auto simp: best_of_def)

text \<open>What a row promises of the candidates it is offered, in the order they were recorded.\<close>

fun wins :: "Strategy \<Rightarrow> Candidate list \<Rightarrow> Candidate \<Rightarrow> bool" where
  "wins SelectFirstPass cs w \<longleftrightarrow> w = hd cs"
| "wins SelectFewestIssues cs w \<longleftrightarrow> (\<forall>c \<in> set cs. no_worse IssueCount w c)"
| "wins SelectFastest cs w \<longleftrightarrow> (if \<forall>c \<in> set cs. 0 < C_DurationMS c then \<forall>c \<in> set cs. no_worse C_DurationMS w c else w = hd cs)"

lemma pick_wins: "cs \<noteq> [] \<Longrightarrow> pick s cs \<in> set cs \<and> wins s cs (pick s cs)"
  using best_of_least [of cs] by (cases s) (auto simp: fewestIssues_def fastest_def firstInOrder_def allTimed_def)

lemma validate_from_None:
  "validate_from i seen cs = None \<longleftrightarrow> (\<forall>c \<in> set cs. C_ID c \<noteq> [] \<and> seen (C_ID c) = None) \<and> distinct (map C_ID cs)"
proof (induction cs arbitrary: i seen)
  case (Cons c cs)
  show ?case
  proof (cases "C_ID c = [] \<or> seen (C_ID c) \<noteq> None")
    case True
    then show ?thesis by (auto split: option.split)
  next
    case False
    have "validate_from i seen (c # cs) = None \<longleftrightarrow>
        (\<forall>d \<in> set cs. C_ID d \<noteq> [] \<and> (seen(C_ID c \<mapsto> i)) (C_ID d) = None) \<and> distinct (map C_ID cs)"
      using False Cons.IH [of "Suc i" "seen(C_ID c \<mapsto> i)"] by (simp del: fun_upd_apply)
    moreover have "(seen(C_ID c \<mapsto> i)) k = None \<longleftrightarrow> seen k = None \<and> k \<noteq> C_ID c" for k by simp
    moreover have "(\<forall>d \<in> set cs. C_ID d \<noteq> C_ID c) \<longleftrightarrow> C_ID c \<notin> set (map C_ID cs)" by (simp add: image_iff) metis
    ultimately show ?thesis using False by (simp del: fun_upd_apply) blast
  qed
qed simp

lemma strategy_lookup_name: "strategy_lookup name = Inr s \<longleftrightarrow> name = Strategy_Name s"
  by (cases s) (auto simp: strategy_lookup_def Strategies_def)

definition nameable :: "Candidate list \<Rightarrow> bool" where
  "nameable cs \<longleftrightarrow> cs \<noteq> [] \<and> (\<forall>c \<in> set cs. C_ID c \<noteq> []) \<and> distinct (map C_ID cs)"

lemma Select_ok: "(\<exists>sel. Select cs (Strategy_Name s) = Inr sel) \<longleftrightarrow> nameable cs"
  using validate_from_None [of 0 Map.empty cs]
  by (cases "validate_from 0 Map.empty cs") (auto simp: Select_def strategy_lookup_name [THEN iffD2, OF refl] nameable_def Let_def)

lemma Select_parts:
  assumes "Select cs name = Inr sel"
  shows "name = Strategy_Name (Sel_Strategy sel) \<and> nameable cs \<and> Sel_Passed sel = length (filter eligible cs) \<and>
    Sel_Winner sel = (if filter eligible cs = [] then None else Some (pick (Sel_Strategy sel) (filter eligible cs)))"
  using assms
  by (auto simp: Select_def nameable_def validate_from_None Let_def bind_Inr strategy_lookup_name split: if_splits option.splits)

lemma wins_unique:
  assumes "inj_on C_ID (set cs)" "w \<in> set cs" "wins s cs w" "w' \<in> set cs" "wins s cs w'" shows "w = w'"
proof -
  have same: "no_worse key w w' \<Longrightarrow> no_worse key w' w \<Longrightarrow> w = w'" for key
    using no_worse_order(4) inj_onD [OF assms(1) _ assms(2,4)] by blast
  show ?thesis
  proof (cases s)
    case SelectFewestIssues
    then show ?thesis using assms by (intro same [of IssueCount]) auto
  next
    case SelectFastest
    then show ?thesis using assms same [of C_DurationMS] by (cases "\<forall>c \<in> set cs. 0 < C_DurationMS c") auto
  next
    case SelectFirstPass
    then show ?thesis using assms by simp
  qed
qed

lemma Strategy_Name_inj [simp]: "Strategy_Name s = Strategy_Name t \<longleftrightarrow> s = t"
  by (cases s; cases t) simp_all

lemma Select_strategy: "Select cs (Strategy_Name s) = Inr sel \<Longrightarrow> Sel_Strategy sel = s"
  using Select_parts [of cs "Strategy_Name s" sel] by (simp del: Strategy_Name.simps)

text \<open>
  C22. The selection names a winner exactly when some candidate is eligible, that is passed its tests, completed
  its run and broke no rule; the winner is one of them and the one the strategy promises, and no two of the
  candidates a record can name answer to that promise.
\<close>

theorem Select_winner:
  assumes "Select cs name = Inr sel"
  shows "(Sel_Winner sel = None \<longleftrightarrow> \<not> (\<exists>c \<in> set cs. eligible c)) \<and>
    (\<forall>w. Sel_Winner sel = Some w \<longleftrightarrow>
       w \<in> set cs \<and> eligible w \<and> wins (Sel_Strategy sel) (filter eligible cs) w)"
proof -
  let ?e = "filter eligible cs"
  note p = Select_parts [OF assms]
  have inj: "inj_on C_ID (set cs)" using p by (simp add: nameable_def distinct_map)
  have inj_e: "inj_on C_ID (set ?e)" by (rule inj_on_subset [OF inj]) auto
  show ?thesis
  proof (cases "?e = []")
    case True
    then show ?thesis using p by (auto simp: filter_empty_conv)
  next
    case False
    note pw = pick_wins [OF False, of "Sel_Strategy sel"]
    have "Sel_Winner sel = Some w \<longleftrightarrow> w \<in> set ?e \<and> wins (Sel_Strategy sel) ?e w" for w
      using p False pw wins_unique [OF inj_e, of w "Sel_Strategy sel" "pick (Sel_Strategy sel) ?e"] by auto
    moreover have "\<exists>c \<in> set cs. eligible c" using False by (auto simp: filter_empty_conv)
    ultimately show ?thesis using p False by auto
  qed
qed

text \<open>
  The winner by fewest issues, and by least time when every time is known, does not depend on the order the
  candidates were recorded in.
\<close>

theorem Select_order_free:
  assumes "Select cs name = Inr sel" "mset cs = mset cs'"
    "Sel_Strategy sel = SelectFewestIssues \<or> Sel_Strategy sel = SelectFastest \<and> (\<forall>c \<in> set cs. eligible c \<longrightarrow> 0 < C_DurationMS c)"
  shows "\<exists>sel'. Select cs' name = Inr sel' \<and> Sel_Winner sel' = Sel_Winner sel"
proof -
  note p = Select_parts [OF assms(1)]
  have same: "set cs' = set cs" "mset (map C_ID cs') = mset (map C_ID cs)" using mset_eq_setD [OF assms(2)] assms(2) by simp_all
  have "nameable cs'"
    using p same(1) mset_eq_imp_distinct_iff [OF same(2)] by (auto simp: nameable_def)
  then obtain sel' where s': "Select cs' name = Inr sel'" using Select_ok p by metis
  note p' = Select_parts [OF s']
  have st: "Sel_Strategy sel' = Sel_Strategy sel" using p p' Strategy_Name_inj by metis
  let ?e = "filter eligible cs" and ?e' = "filter eligible cs'"
  have e: "set ?e' = set ?e" "?e' = [] \<longleftrightarrow> ?e = []" using same(1) by (auto simp: filter_empty_conv)
  show ?thesis
  proof (cases "?e = []")
    case True
    then have "Sel_Winner sel' = Sel_Winner sel" using p p' e(2) by simp
    then show ?thesis using s' by blast
  next
    case False
    have "inj_on C_ID (set cs)" using p by (simp add: nameable_def distinct_map)
    then have inj: "inj_on C_ID (set ?e)" by (rule inj_on_subset) auto
    have ne: "?e' \<noteq> []" using False unfolding e(2) .
    note w = conjunct1 [OF pick_wins [OF ne, of "Sel_Strategy sel"]] conjunct2 [OF pick_wins [OF ne, of "Sel_Strategy sel"]]
    have "wins (Sel_Strategy sel) ?e (pick (Sel_Strategy sel) ?e')"
      using assms(3)
    proof (elim disjE conjE)
      assume s: "Sel_Strategy sel = SelectFewestIssues"
      show ?thesis using w(2) unfolding s wins.simps e(1) .
    next
      assume s: "Sel_Strategy sel = SelectFastest" and t: "\<forall>c \<in> set cs. eligible c \<longrightarrow> 0 < C_DurationMS c"
      have t': "\<forall>c \<in> set ?e. 0 < C_DurationMS c" using t by simp
      show ?thesis using w(2) unfolding s wins.simps e(1) using t' by simp
    qed
    then have "pick (Sel_Strategy sel) ?e' = pick (Sel_Strategy sel) ?e"
      using wins_unique [OF inj] pick_wins [OF False, of "Sel_Strategy sel"] w(1) e(1) by metis
    then have "Sel_Winner sel' = Sel_Winner sel" using p p' st False ne by simp
    then show ?thesis using s' by blast
  qed
qed

text \<open>A join: ok with a winner, or failed and the winner cleared.\<close>

lemma Join_Run_ok:
  assumes "Join_Run say m next rc = (r, None)"
  obtains sel where "Select (Candidates (RC_State rc)) (FC_Select (Cfg_Fanout (RC_Config rc))) = Inr sel"
    "Patch_Winner (Res_Patch r) = Some (case Sel_Winner sel of None \<Rightarrow> [] | Some w \<Rightarrow> C_ID w)"
    "Sel_Winner sel = None \<and> Res_Status r = StatusFailed \<and> Res_Next r = [] \<or> Sel_Winner sel \<noteq> None \<and> Res_Status r = StatusOK \<and> Res_Next r = next"
  using assms by (auto simp: Join_Run_def split: if_splits sum.splits option.splits)

section \<open>An example\<close>

definition sample_candidate :: "string \<Rightarrow> bool \<Rightarrow> int \<Rightarrow> int \<Rightarrow> int \<Rightarrow> Candidate" where
  "sample_candidate i ok issues viol ms = \<lparr>C_ID = i, C_Dir = ''/c'', TestPassed = ok, IssueCount = issues, PolicyViolations = viol,
     Ephemeral = True, Outcome = ''completed'', C_RunDir = [], C_SpentUSD = Fin 0, C_Estimated = False, C_DurationMS = ms, C_Note = [],
     C_ChangedFiles = [], C_Unreported = []\<rparr>"

definition three :: "Candidate list" where
  "three = [sample_candidate ''cand-01'' True 4 0 7, sample_candidate ''cand-02'' True 1 0 9, sample_candidate ''cand-03'' True 0 2 5]"

lemma three_simps [simp]:
  "C_ID (sample_candidate i ok n b ms) = i" "IssueCount (sample_candidate i ok n b ms) = n" "C_DurationMS (sample_candidate i ok n b ms) = ms"
  "eligible (sample_candidate i ok n b ms) \<longleftrightarrow> ok \<and> b = 0"
  by (simp_all add: sample_candidate_def eligible_def completedRun_def)

lemma nameable_three: "nameable three"
  by (simp add: nameable_def three_def)

theorem Select_winner_witness:
  "\<exists>sel. Select three ''fewest_issues'' = Inr sel \<and> Sel_Winner sel = Some (sample_candidate ''cand-02'' True 1 0 9)"
proof -
  obtain sel where s: "Select three ''fewest_issues'' = Inr sel" using Select_ok [of three SelectFewestIssues] nameable_three by auto
  then have st: "Sel_Strategy sel = SelectFewestIssues" using Select_strategy [of three SelectFewestIssues sel] by simp
  have "Sel_Winner sel = Some (sample_candidate ''cand-02'' True 1 0 9)"
    using conjunct2 [OF Select_winner [OF s]] st by (simp add: three_def no_worse_def)
  then show ?thesis using s by blast
qed

theorem Select_order_free_witness:
  "\<exists>sel sel'. Select three ''fewest_issues'' = Inr sel \<and> Select (rev three) ''fewest_issues'' = Inr sel' \<and> Sel_Winner sel' = Sel_Winner sel"
proof -
  obtain sel where s: "Select three ''fewest_issues'' = Inr sel" using Select_ok [of three SelectFewestIssues] nameable_three by auto
  then have st: "Sel_Strategy sel = SelectFewestIssues" using Select_strategy [of three SelectFewestIssues sel] by simp
  have "\<exists>sel'. Select (rev three) ''fewest_issues'' = Inr sel' \<and> Sel_Winner sel' = Sel_Winner sel"
    by (rule Select_order_free [OF s]) (simp_all add: st)
  then show ?thesis using s by blast
qed

text \<open>
  The note of a join without a winner says that all candidates failed their tests although one may have passed
  them and broken a rule instead.
\<close>

theorem note_blames_the_tests:
  "\<exists>sel. Select [sample_candidate ''cand-01'' True 0 1 5] ''first_pass'' = Inr sel \<and> Sel_Winner sel = None \<and>
     noWinnerNote sel = AllFailedTests 1 SelectFirstPass \<and> TestPassed (sample_candidate ''cand-01'' True 0 1 5)"
  by (simp add: Select_def strategy_lookup_def Strategies_def noWinnerNote_def completedRun_def Let_def) (simp add: sample_candidate_def completedRun_def)

end
