(* ===== verification/Fanout.thy ===== *)
theory Fanout
  imports Join Changed_Files
begin

text \<open>
  internal/nodes/fanout: the node that decides a fanout (fanout.go, envelope.go). The pool that runs the
  candidates is the interface \<open>CandidateRunner\<close> of internal/graph/children.go: the record \<open>runner\<close> of its two
  operations, and its contract as a locale.
\<close>

section \<open>The seam\<close>

definition ProvisionPending :: string where "ProvisionPending = []"
definition ProvisionOK :: string where "ProvisionOK = ''ok''"
definition ProvisionRefused :: string where "ProvisionRefused = ''refused''"

record CandidateSpec =
  Sp_ID :: string
  Sp_Index :: int
  Sp_Source :: string
  Sp_Envelope :: Envelope
  Sp_Seed :: Blackboard
  Sp_Plan :: string

record CandidateOutcome =
  Co_ID :: string
  Co_Index :: int
  Co_RunDir :: string
  Co_Status :: RunStatus
  Co_State :: Blackboard
  Co_Spent :: usage
  Co_Envelope :: Envelope
  Co_Steps :: int
  Co_DurationMS :: int
  Co_Workspace :: "Manifest.Workspace"
  Co_Note :: string
  Co_Provision :: string
  Co_Stopped :: "NodeError option"
  Co_Err :: "string option"

record runner =
  r_run :: "CandidateSpec list \<Rightarrow> CandidateOutcome list \<times> string option"
  r_claimed :: "string list \<Rightarrow> (string, bool) result"

section \<open>Placing outcomes\<close>

datatype fanout_fault =
    FanoutDisabled | FanoutTooFew int | FanoutNoRunner | FanoutNoWorkspace | FanoutNoPlan string | FanoutRefused BudgetError
  | FanoutPartition partition_error | FanoutCancelled | FanoutInterrupted string
  | FanoutContract contract_fault | FanoutAtLimit "(string \<times> NodeError) list" "string list"
and contract_fault = OutOfRange string int nat | ClaimedTwice int string | WrongCandidate int string string | NoOutcome string nat nat

fun place_each :: "CandidateSpec list \<Rightarrow> CandidateOutcome option list \<Rightarrow> CandidateOutcome list \<Rightarrow>
    (contract_fault, CandidateOutcome option list) result" where
  "place_each specs placed [] = Inr placed"
| "place_each specs placed (out # outs) =
     (let i = Co_Index out - 1 in
      if i < 0 \<or> i \<ge> int (length specs) then Inl (OutOfRange (Co_ID out) (Co_Index out) (length specs))
      else if placed ! nat i \<noteq> None then Inl (ClaimedTwice (Co_Index out) (Co_ID out))
      else if Co_ID out \<noteq> Sp_ID (specs ! nat i) then Inl (WrongCandidate (Co_Index out) (Sp_ID (specs ! nat i)) (Co_ID out))
      else place_each specs (placed[nat i := Some out]) outs)"

fun first_open :: "CandidateSpec list \<Rightarrow> CandidateOutcome option list \<Rightarrow> CandidateSpec option" where
  "first_open (s # ss) (p # ps) = (if p = None then Some s else first_open ss ps)"
| "first_open _ _ = None"

definition place :: "CandidateOutcome list \<Rightarrow> CandidateSpec list \<Rightarrow> (contract_fault, CandidateOutcome list) result" where
  "place outs specs =
     bind_result (place_each specs (replicate (length specs) None) outs) (\<lambda>placed.
       case first_open specs placed of
         Some s \<Rightarrow> Inl (NoOutcome (Sp_ID s) (length outs) (length specs))
       | None \<Rightarrow> Inr (map the placed))"

section \<open>What the candidates' ends mean\<close>

fun float_add :: "float64 \<Rightarrow> float64 \<Rightarrow> float64" where
  "float_add (Fin a) (Fin b) = fl (a + b)"
| "float_add NaN _ = NaN"
| "float_add _ NaN = NaN"
| "float_add PInf NInf = NaN"
| "float_add NInf PInf = NaN"
| "float_add PInf _ = PInf"
| "float_add NInf _ = NInf"
| "float_add _ PInf = PInf"
| "float_add _ NInf = NInf"

definition spentBy :: "CandidateOutcome list \<Rightarrow> usage" where
  "spentBy outs = fold (\<lambda>out u. \<lparr>InputTokens = wrap64 (InputTokens u + InputTokens (Co_Spent out)),
     OutputTokens = wrap64 (OutputTokens u + OutputTokens (Co_Spent out)), USD = float_add (USD u) (USD (Co_Spent out)),
     Estimated = (Estimated u \<or> Estimated (Co_Spent out))\<rparr>) outs zeroUsage"

definition atLimit :: "CandidateOutcome list \<Rightarrow> CandidateOutcome list" where
  "atLimit = filter (\<lambda>out. Co_Err out = None \<and> Co_Stopped out \<noteq> None)"

definition durableStatus :: "RunStatus \<Rightarrow> bool" where
  "durableStatus s \<longleftrightarrow> s \<in> {RunStatusCompleted, RunStatusFailed, RunStatusAborted}"

text \<open>Why a candidate is not durable, in the order the code asks; a candidate stopped at a limit is not one.\<close>

definition open_reason :: "CandidateOutcome \<Rightarrow> string option" where
  "open_reason out =
     (if Co_Err out = None \<and> Co_Stopped out \<noteq> None then None
      else case Co_Err out of
        Some e \<Rightarrow> Some (Co_ID out @ '': '' @ e)
      | None \<Rightarrow>
          if Co_Provision out = ProvisionRefused then None
          else if durableStatus (Co_Status out) then None
          else Some (Co_ID out @ '': its run is '' @ RunStatus_String (Co_Status out) @ '', not ended''))"

definition notDurable :: "CandidateOutcome list \<Rightarrow> string list" where
  "notDurable = List.map_filter open_reason"

definition outcomeWord :: "CandidateOutcome \<Rightarrow> string" where
  "outcomeWord out = (if Co_Provision out = ProvisionRefused then ''error'' else RunStatus_String (Co_Status out))"

definition asCandidate :: "CandidateOutcome \<Rightarrow> Candidate" where
  "asCandidate out = \<lparr>C_ID = Co_ID out, C_Dir = W_Dir (Co_Workspace out),
     TestPassed = (T_Total (B_Test (Co_State out)) > 0 \<and> Failed (B_Test (Co_State out)) = 0),
     IssueCount = int (length (R_Issues (B_Review (Co_State out)))),
     PolicyViolations = int (length (Violations (B_Policy (Co_State out)))),
     Ephemeral = W_Ephemeral (Co_Workspace out), Outcome = outcomeWord out, C_RunDir = Co_RunDir out,
     C_SpentUSD = USD (Co_Spent out), C_Estimated = Estimated (Co_Spent out), C_DurationMS = Co_DurationMS out, C_Note = Co_Note out,
     C_ChangedFiles = ChangedFiles (B_Code (Co_State out)), C_Unreported = Unreported (B_Code (Co_State out))\<rparr>"

section \<open>Before launching\<close>

definition minCandidates :: int where "minCandidates = 2"

definition candidateID :: "nat \<Rightarrow> string" where
  "candidateID i = ''cand-'' @ (if i < 10 then ''0'' else []) @ decimal i"

definition candidateIDs :: "nat \<Rightarrow> string list" where
  "candidateIDs n = map candidateID [1..<Suc n]"

definition buildSpecs :: "RunContext \<Rightarrow> string \<Rightarrow> Envelope \<Rightarrow> nat \<Rightarrow> CandidateSpec list" where
  "buildSpecs rc plan envelope n = map (\<lambda>i. \<lparr>Sp_ID = candidateID i, Sp_Index = int i, Sp_Source = RC_Workspace rc,
     Sp_Envelope = envelope, Sp_Seed = SeedCandidateState (RC_State rc), Sp_Plan = plan\<rparr>) [1..<Suc n]"

definition fanout_artifact :: "string \<Rightarrow> string option" where
  "fanout_artifact recorded =
     (let raw = TrimSpace recorded; name = trim_prefix ''artifacts/'' (Clean raw) in
      if raw = [] \<or> name = [] \<or> name = ''.'' \<or> CHR ''/'' \<in> set name then None else Some name)"

definition fanout_readPlan :: "(string \<Rightarrow> (string, string) result) \<Rightarrow> string \<Rightarrow> (fanout_fault, string) result" where
  "fanout_readPlan read recorded =
     (case fanout_artifact recorded of
        None \<Rightarrow> Inl (FanoutNoPlan recorded)
      | Some name \<Rightarrow>
          (case read name of
             Inl e \<Rightarrow> Inl (FanoutNoPlan e)
           | Inr data \<Rightarrow> if TrimSpace data = [] then Inl (FanoutNoPlan recorded) else Inr data))"

definition ProjectCandidateCost :: "usage \<Rightarrow> usage" where
  "ProjectCandidateCost sofar = \<lparr>InputTokens = max 0 (InputTokens sofar), OutputTokens = max 0 (OutputTokens sofar),
     USD = float_max (Fin 0) (USD sofar), Estimated = True\<rparr>"

definition affordable :: "RunContext \<Rightarrow> int \<Rightarrow> (fanout_fault, usage) result" where
  "affordable rc n =
     (let cfg = Cfg_Budget (RC_Config rc); b = RC_Budget rc;
          sofar = \<lparr>InputTokens = Snap_TokensIn b, OutputTokens = Snap_TokensOut b, USD = Snap_SpentUSD b, Estimated = Snap_Estimated b\<rparr>;
          projected = ProjectCandidateCost sofar in
      case CanAfford (Restore (b\<lparr>Snap_LimitUSD := MaxUSD cfg\<rparr>)) n projected cfg of
        Some e \<Rightarrow> Inl (FanoutRefused e)
      | None \<Rightarrow> Inr projected)"

definition Envelopes :: "Snapshot \<Rightarrow> BudgetConfig \<Rightarrow> int \<Rightarrow> (fanout_fault, Envelope) result" where
  "Envelopes remaining bc n =
     (case Partition remaining bc n of
        Inl e \<Rightarrow> Inl (FanoutPartition e)
      | Inr (usd, tokens) \<Rightarrow> Inr \<lparr>E_LimitUSD = usd, E_LimitTokens = tokens\<rparr>)"

section \<open>The node\<close>

datatype fanout_note = CouldNotRun int string | Unfinished "string list" int | SettledNote "Candidate list"

definition paused_result :: "usage \<Rightarrow> string \<Rightarrow> Result" where
  "paused_result u note = (ended StatusPaused Patch0 note)\<lparr>Res_Usage := u\<rparr>"

definition settled :: "(fanout_note \<Rightarrow> string) \<Rightarrow> CandidateOutcome list \<Rightarrow> Result" where
  "settled say outs =
     (let cs = map asCandidate outs in
      (routed NodeJoin (Patch0\<lparr>Patch_Candidates := Some cs\<rparr>) (say (SettledNote cs)))\<lparr>Res_Usage := spentBy outs\<rparr>)"

definition checkConfig :: "runner option \<Rightarrow> RunContext \<Rightarrow> (fanout_fault, runner \<times> int) result" where
  "checkConfig pool rc =
     (let f = Cfg_Fanout (RC_Config rc) in
      if \<not> Enabled f then Inl FanoutDisabled
      else if FC_Candidates f < minCandidates then Inl (FanoutTooFew (FC_Candidates f))
      else case pool of None \<Rightarrow> Inl FanoutNoRunner | Some r \<Rightarrow> Inr (r, FC_Candidates f))"

definition after_run :: "(fanout_note \<Rightarrow> string) \<Rightarrow> Meets \<Rightarrow> CandidateSpec list \<Rightarrow> int \<Rightarrow>
    CandidateOutcome list \<times> string option \<Rightarrow> Result \<times> fanout_fault option" where
  "after_run say m specs n answer =
     (case answer of
        (outs, Some e) \<Rightarrow>
          if n_cancelled_after m then (spent (spentBy outs), Some (FanoutInterrupted e))
          else (paused_result (spentBy outs) (say (CouldNotRun n e)), None)
      | (outs, None) \<Rightarrow>
          (case place outs specs of
             Inl e \<Rightarrow> (Result0, Some (FanoutContract e))
           | Inr placed \<Rightarrow>
               if atLimit placed \<noteq> [] then
                 (spent (spentBy placed), Some (FanoutAtLimit (map (\<lambda>out. (Co_ID out, the (Co_Stopped out))) (atLimit placed)) (notDurable placed)))
               else if notDurable placed \<noteq> [] then (paused_result (spentBy placed) (say (Unfinished (notDurable placed) n)), None)
               else (settled say placed, None)))"

definition Fanout_Run :: "(fanout_note \<Rightarrow> string) \<Rightarrow> Meets \<Rightarrow> (string \<Rightarrow> (string, string) result) \<Rightarrow> runner option \<Rightarrow> RunContext \<Rightarrow>
    Result \<times> fanout_fault option" where
  "Fanout_Run say m read pool rc =
     (case checkConfig pool rc of
        Inl e \<Rightarrow> (Result0, Some e)
      | Inr (r, n) \<Rightarrow>
          if RC_Workspace rc = [] then (Result0, Some FanoutNoWorkspace)
          else case fanout_readPlan read (P_Path (B_Plan (RC_State rc))) of
            Inl e \<Rightarrow> (Result0, Some e)
          | Inr plan \<Rightarrow>
              (case r_claimed r (candidateIDs (nat n)) of
                 Inl e \<Rightarrow> (paused_result zeroUsage (say (CouldNotRun n e)), None)
               | Inr claimed \<Rightarrow>
                   (case (if claimed then Inr zeroUsage else affordable rc n) of
                      Inl e \<Rightarrow> (Result0, Some e)
                    | Inr _ \<Rightarrow>
                        (case Envelopes (RC_Budget rc) (Cfg_Budget (RC_Config rc)) n of
                           Inl e \<Rightarrow> (Result0, Some e)
                         | Inr envelope \<Rightarrow>
                             if n_cancelled m then (Result0, Some FanoutCancelled)
                             else let specs = buildSpecs rc plan envelope (nat n) in after_run say m specs n (r_run r specs)))))"

section \<open>Candidate IDs\<close>

definition digits_value :: "string \<Rightarrow> nat" where
  "digits_value = foldl (\<lambda>n c. 10 * n + (of_char c - 48)) 0"

lemma decimal_value: "digits_value (decimal n) = n"
proof (induction n rule: decimal.induct)
  case (1 n)
  show ?case
  proof (cases "n < 10")
    case True
    then show ?thesis by (simp add: decimal.simps [of n] digits_value_def)
  next
    case False
    have "n mod 10 < 10" by simp
    then have "of_char (char_of (48 + n mod 10) :: char) = 48 + n mod 10" by simp
    then show ?thesis using 1 False by (simp add: decimal.simps [of n] digits_value_def)
  qed
qed

lemma candidateID_inj: "candidateID i = candidateID j \<longleftrightarrow> i = j"
proof -
  have "digits_value (drop 5 (candidateID k)) = k" for k
    using decimal_value [of k] by (simp add: candidateID_def digits_value_def)
  then show ?thesis by metis
qed

lemma candidateIDs_distinct: "distinct (candidateIDs n)"
  by (simp add: candidateIDs_def distinct_map inj_on_def candidateID_inj)

lemma buildSpecs_ids:
  "map Sp_ID (buildSpecs rc plan env n) = candidateIDs n" "map Sp_Index (buildSpecs rc plan env n) = map int [1..<Suc n]"
  "length (buildSpecs rc plan env n) = n"
  by (simp_all add: buildSpecs_def candidateIDs_def comp_def del: upt_Suc)

section \<open>Placement\<close>

lemma update_keeps:
  assumes "\<forall>k < n. \<forall>q. xs ! k = Some q \<longrightarrow> P k q" "P i x" "length xs = n"
  shows "\<forall>k < n. \<forall>q. xs[i := Some x] ! k = Some q \<longrightarrow> P k q"
proof (intro allI impI)
  fix k q assume k: "k < n" "xs[i := Some x] ! k = Some q"
  show "P k q"
  proof (cases "k = i")
    case True
    then have "q = x" using k assms(3) by simp
    then show ?thesis using True assms(2) by simp
  next
    case False
    then have "xs ! k = Some q" using k(2) by simp
    then show ?thesis using assms(1) k(1) by blast
  qed
qed

text \<open>Every slot filled by an outcome of its own candidate.\<close>

lemma place_each_ids:
  assumes "place_each specs placed outs = Inr placed'" "length placed = length specs"
    "\<forall>k < length specs. \<forall>out. placed ! k = Some out \<longrightarrow> Co_ID out = Sp_ID (specs ! k)"
  shows "length placed' = length specs \<and> (\<forall>k < length specs. \<forall>out. placed' ! k = Some out \<longrightarrow> Co_ID out = Sp_ID (specs ! k))"
  using assms
proof (induction specs placed outs rule: place_each.induct)
  case (2 specs placed out outs)
  let ?i = "nat (Co_Index out - 1)"
  have e: "place_each specs placed (out # outs) = Inr placed'" by (rule 2(2))
  have c1: "\<not> (Co_Index out - 1 < 0 \<or> Co_Index out - 1 \<ge> int (length specs))"
  proof
    assume "Co_Index out - 1 < 0 \<or> Co_Index out - 1 \<ge> int (length specs)"
    with e show False by (simp only: place_each.simps Let_def if_True sum.distinct)
  qed
  have c2: "\<not> placed ! ?i \<noteq> None"
  proof
    assume "placed ! ?i \<noteq> None"
    with e c1 show False by (simp only: place_each.simps Let_def if_True if_False sum.distinct not_False_eq_True)
  qed
  have c3: "\<not> Co_ID out \<noteq> Sp_ID (specs ! ?i)"
  proof
    assume "Co_ID out \<noteq> Sp_ID (specs ! ?i)"
    with e c1 c2 show False by (simp only: place_each.simps Let_def if_True if_False sum.distinct not_False_eq_True)
  qed
  have c: "place_each specs (placed[?i := Some out]) outs = Inr placed'"
    using e c1 c2 c3 by (simp only: place_each.simps Let_def if_False)
  have "\<forall>k < length specs. \<forall>q. placed[?i := Some out] ! k = Some q \<longrightarrow> Co_ID q = Sp_ID (specs ! k)"
    by (rule update_keeps [OF 2(4) _ 2(3)]) (use c3 in blast)
  moreover have "length (placed[?i := Some out]) = length specs" using 2(3) by simp
  ultimately show ?case using 2(1) [OF refl c1 c2 c3 c] by blast
qed simp

lemma first_open_None: "length ss = length ps \<Longrightarrow> first_open ss ps = None \<longleftrightarrow> None \<notin> set ps"
  by (induction ss ps rule: first_open.induct) auto

lemma place_ids:
  assumes "place outs specs = Inr placed" shows "map Co_ID placed = map Sp_ID specs"
proof -
  obtain ps where ps: "place_each specs (replicate (length specs) None) outs = Inr ps" "first_open specs ps = None" "placed = map the ps"
    using assms by (auto simp: place_def bind_Inr split: option.splits)
  have l: "length ps = length specs" "\<forall>k < length specs. \<forall>out. ps ! k = Some out \<longrightarrow> Co_ID out = Sp_ID (specs ! k)"
    using place_each_ids [OF ps(1)] by auto
  have none: "None \<notin> set ps" using ps(2) first_open_None l(1) by metis
  show ?thesis
  proof (rule nth_equalityI)
    fix k assume "k < length (map Co_ID placed)"
    then have k: "k < length specs" using ps(3) l(1) by simp
    then obtain out where "ps ! k = Some out" using none l(1) by (metis not_None_eq nth_mem)
    then show "map Co_ID placed ! k = map Sp_ID specs ! k" using k l ps(3) by simp
  qed (use ps(3) l(1) in simp)
qed

text \<open>The contract of the pool: an outcome for each spec, in order, that says which. What the node needs of it
  is that such outcomes can be placed.\<close>

lemma place_each_in_order:
  assumes "length pre = k" "length pre + length outs = length specs"
    "\<forall>j < length outs. Co_ID (outs ! j) = Sp_ID (specs ! (k + j)) \<and> Co_Index (outs ! j) = int (k + j) + 1"
  shows "place_each specs (map Some pre @ replicate (length outs) None) outs = Inr (map Some (pre @ outs))"
  using assms
proof (induction outs arbitrary: pre k)
  case (Cons out outs)
  have c: "Co_ID out = Sp_ID (specs ! k)" "Co_Index out = int k + 1" using Cons.prems(3) by force+
  have "map Some pre @ replicate (length (out # outs)) None = (map Some pre @ [None]) @ replicate (length outs) None" by simp
  then have u: "(map Some pre @ replicate (length (out # outs)) None)[k := Some out] = map Some (pre @ [out]) @ replicate (length outs) None"
    "(map Some pre @ replicate (length (out # outs)) None) ! k = None"
    using Cons.prems(1) by (simp_all add: list_update_append nth_append)
  have "place_each specs (map Some pre @ replicate (length (out # outs)) None) (out # outs) =
      place_each specs (map Some (pre @ [out]) @ replicate (length outs) None) outs"
    using c Cons.prems(1,2) u by (simp add: Let_def del: replicate.simps)
  also have "\<dots> = Inr (map Some ((pre @ [out]) @ outs))"
    by (rule Cons.IH) (use Cons.prems in \<open>auto simp: nth_Cons' less_Suc_eq_0_disj\<close>)
  finally show ?case by simp
qed simp

locale candidate_runner =
  fixes run :: "CandidateSpec list \<Rightarrow> CandidateOutcome list \<times> string option"
  assumes one_per_spec: "map (\<lambda>out. (Co_ID out, Co_Index out)) (fst (run specs)) = map (\<lambda>s. (Sp_ID s, Sp_Index s)) specs"
begin

lemma placed_in_order:
  assumes "map Sp_Index specs = map int [1..<Suc (length specs)]"
  shows "place (fst (run specs)) specs = Inr (fst (run specs))"
proof -
  let ?outs = "fst (run specs)"
  have l: "length ?outs = length specs" using one_per_spec [of specs] by (metis length_map)
  have nth: "Co_ID (?outs ! j) = Sp_ID (specs ! j) \<and> Co_Index (?outs ! j) = int j + 1" if "j < length specs" for j
  proof -
    have "map (\<lambda>out. (Co_ID out, Co_Index out)) ?outs ! j = map (\<lambda>s. (Sp_ID s, Sp_Index s)) specs ! j" by (simp add: one_per_spec)
    moreover have "map Sp_Index specs ! j = int j + 1" unfolding assms using that by (simp del: upt_Suc add: nth_map_upt)
    ultimately show ?thesis using that l by simp
  qed
  have "place_each specs (map Some [] @ replicate (length ?outs) None) ?outs = Inr (map Some ([] @ ?outs))"
    by (rule place_each_in_order [where k = 0]) (use l nth in auto)
  moreover have "first_open specs (map Some ?outs) = None" using first_open_None [of specs "map Some ?outs"] l by auto
  ultimately show ?thesis using l by (simp add: place_def comp_def)
qed

lemma no_contract_fault: "snd (after_run say m (buildSpecs rc plan env n) k (run (buildSpecs rc plan env n))) \<noteq> Some (FanoutContract e)"
proof -
  let ?specs = "buildSpecs rc plan env n"
  have "map Sp_Index ?specs = map int [1..<Suc (length ?specs)]" by (simp only: buildSpecs_ids)
  from placed_in_order [OF this] show ?thesis
    by (cases "run ?specs") (auto simp: after_run_def split: option.splits)
qed

end

section \<open>A fanout that settles\<close>

lemma after_run_joins:
  assumes "after_run say m specs n answer = (r, None)" "Res_Next r = NodeJoin"
  obtains outs placed where "answer = (outs, None)" "place outs specs = Inr placed" "atLimit placed = []" "notDurable placed = []"
    "Patch_Candidates (Res_Patch r) = Some (map asCandidate placed)"
proof -
  obtain outs e where a: "answer = (outs, e)" by (cases answer)
  have e: "e = None" using assms by (auto simp: after_run_def a paused_result_def NodeJoin_def split: option.splits if_splits)
  obtain placed where p: "place outs specs = Inr placed" using assms(1) by (auto simp: after_run_def a e split: sum.splits)
  have q: "atLimit placed = []" using assms(1) by (auto simp: after_run_def a e p split: if_splits)
  have d: "notDurable placed = []" using assms by (auto simp: after_run_def a e p q paused_result_def NodeJoin_def split: if_splits)
  have "r = settled say placed" using assms(1) by (simp add: after_run_def a e p q d)
  then show ?thesis using that a e p q d by (simp add: settled_def Let_def)
qed

lemma map_filter_Nil: "List.map_filter f xs = [] \<longleftrightarrow> (\<forall>x \<in> set xs. f x = None)"
  by (induction xs) (auto simp: List.map_filter_def split: option.splits)

lemma settled_words:
  assumes "atLimit placed = []" "notDurable placed = []" "out \<in> set placed"
  shows "outcomeWord out \<in> {''completed'', ''failed'', ''aborted'', ''error''} \<and> Co_Err out = None \<and> Co_Stopped out = None"
proof -
  have "\<not> (Co_Err out = None \<and> Co_Stopped out \<noteq> None)" using assms(1,3) by (auto simp: atLimit_def filter_empty_conv)
  moreover have "open_reason out = None" using assms(2,3) by (simp add: notDurable_def map_filter_Nil)
  ultimately show ?thesis
    by (auto simp: open_reason_def outcomeWord_def durableStatus_def split: if_splits option.splits)
qed

lemma Fanout_Run_joins:
  assumes "Fanout_Run say m read pool rc = (r, None)" "Res_Next r = NodeJoin"
  obtains pool' n plan env where "pool = Some pool'" "n = FC_Candidates (Cfg_Fanout (RC_Config rc))" "2 \<le> n"
    "Envelopes (RC_Budget rc) (Cfg_Budget (RC_Config rc)) n = Inr env"
    "r_claimed pool' (candidateIDs (nat n)) = Inr True \<or> (\<exists>u. affordable rc n = Inr u)"
    "after_run say m (buildSpecs rc plan env (nat n)) n (r_run pool' (buildSpecs rc plan env (nat n))) = (r, None)"
proof -
  obtain pool' n where c: "checkConfig pool rc = Inr (pool', n)"
    using assms(1) by (cases "checkConfig pool rc") (auto simp: Fanout_Run_def)
  have n: "pool = Some pool'" "n = FC_Candidates (Cfg_Fanout (RC_Config rc))" "2 \<le> n"
    using c by (auto simp: checkConfig_def Let_def minCandidates_def split: if_splits option.splits)
  have ws: "RC_Workspace rc \<noteq> []" using assms(1) by (auto simp: Fanout_Run_def c)
  obtain plan where p: "fanout_readPlan read (P_Path (B_Plan (RC_State rc))) = Inr plan"
    using assms(1) by (cases "fanout_readPlan read (P_Path (B_Plan (RC_State rc)))") (auto simp: Fanout_Run_def c ws)
  obtain cl where cl: "r_claimed pool' (candidateIDs (nat n)) = Inr cl"
    using assms by (cases "r_claimed pool' (candidateIDs (nat n))") (auto simp: Fanout_Run_def c ws p paused_result_def NodeJoin_def)
  obtain u where u: "(if cl then Inr zeroUsage else affordable rc n) = Inr u"
    using assms(1) by (cases "if cl then Inr zeroUsage else affordable rc n") (simp_all add: Fanout_Run_def c ws p cl)
  obtain env where env: "Envelopes (RC_Budget rc) (Cfg_Budget (RC_Config rc)) n = Inr env"
    using assms(1) by (cases "Envelopes (RC_Budget rc) (Cfg_Budget (RC_Config rc)) n") (simp_all add: Fanout_Run_def c ws p cl u)
  have "\<not> n_cancelled m" using assms(1) by (auto simp: Fanout_Run_def c ws p cl u env)
  then have "after_run say m (buildSpecs rc plan env (nat n)) n (r_run pool' (buildSpecs rc plan env (nat n))) = (r, None)"
    using assms(1) by (simp add: Fanout_Run_def c ws p cl u env Let_def)
  then show ?thesis using that n cl u env by (cases cl) auto
qed

text \<open>
  C23. A fanout that settles can be joined: it routes to join with every configured candidate, each once and under
  its own ID, each with an end that cannot change, so whichever strategy the run selects by, the selection is
  made without an error.
\<close>

theorem fanout_feeds_join:
  assumes "Fanout_Run say m read pool rc = (r, None)" "Res_Next r = NodeJoin"
  shows "\<exists>cs. Patch_Candidates (Res_Patch r) = Some cs \<and>
    map C_ID cs = candidateIDs (nat (FC_Candidates (Cfg_Fanout (RC_Config rc)))) \<and> 2 \<le> length cs \<and>
    (\<forall>c \<in> set cs. Candidate.Outcome c \<in> {''completed'', ''failed'', ''aborted'', ''error''}) \<and>
    (\<forall>s. \<exists>sel. Select cs (Strategy_Name s) = Inr sel)"
proof -
  obtain pool' n plan env where f0: "pool = Some pool'" and f1: "n = FC_Candidates (Cfg_Fanout (RC_Config rc))" "2 \<le> n"
    and "Envelopes (RC_Budget rc) (Cfg_Budget (RC_Config rc)) n = Inr env"
    "r_claimed pool' (candidateIDs (nat n)) = Inr True \<or> (\<exists>u. affordable rc n = Inr u)"
    and f2: "after_run say m (buildSpecs rc plan env (nat n)) n (r_run pool' (buildSpecs rc plan env (nat n))) = (r, None)"
    by (rule Fanout_Run_joins [OF assms])
  note f = f1 f2
  obtain outs placed where a: "r_run pool' (buildSpecs rc plan env (nat n)) = (outs, None)" and p: "place outs (buildSpecs rc plan env (nat n)) = Inr placed" "atLimit placed = []" "notDurable placed = []"
    "Patch_Candidates (Res_Patch r) = Some (map asCandidate placed)" by (rule after_run_joins [OF f(3) assms(2)])
  let ?cs = "map asCandidate placed"
  have ids: "map C_ID ?cs = candidateIDs (nat n)"
    using place_ids [OF p(1)] by (simp add: buildSpecs_ids asCandidate_def comp_def)
  have len: "length ?cs = nat n" using arg_cong [OF ids, of length] by (simp add: candidateIDs_def)
  have "nameable ?cs"
  proof -
    have "\<forall>i \<in> set (map C_ID ?cs). i \<noteq> []" unfolding ids by (auto simp: candidateIDs_def candidateID_def)
    moreover have "?cs \<noteq> []" using len f(2) by auto
    ultimately show ?thesis unfolding nameable_def using candidateIDs_distinct [of "nat n"] ids by (metis imageI set_map)
  qed
  then have sel: "\<forall>s. \<exists>sel. Select ?cs (Strategy_Name s) = Inr sel" using Select_ok by blast
  have "\<forall>c \<in> set ?cs. Candidate.Outcome c \<in> {''completed'', ''failed'', ''aborted'', ''error''}"
    using settled_words [OF p(2,3)] by (simp add: asCandidate_def)
  then show ?thesis using p(4) ids f(1,2) len sel by (intro exI [of _ ?cs]) auto
qed

section \<open>An example\<close>

text \<open>A pool whose candidates all complete, with tests that pass.\<close>

definition finished_one :: "CandidateSpec \<Rightarrow> CandidateOutcome" where
  "finished_one s = \<lparr>Co_ID = Sp_ID s, Co_Index = Sp_Index s, Co_RunDir = ''candidate-runs/'' @ Sp_ID s, Co_Status = RunStatusCompleted,
     Co_State = (Sp_Seed s)\<lparr>B_Test := \<lparr>Passed = 1, T_Total = 1, Failed = 0, Failures = [], T_ReportPath = []\<rparr>\<rparr>, Co_Spent = zeroUsage,
     Co_Envelope = Sp_Envelope s, Co_Steps = 4, Co_DurationMS = 5, Co_Workspace = \<lparr>W_ID = Sp_ID s, W_Dir = ''/c'', W_Ephemeral = True\<rparr>,
     Co_Note = [], Co_Provision = ProvisionOK, Co_Stopped = None, Co_Err = None\<rparr>"

definition finishing_pool :: runner where
  "finishing_pool = \<lparr>r_run = (\<lambda>specs. (map finished_one specs, None)), r_claimed = (\<lambda>_. Inr True)\<rparr>"

definition fanout_context :: RunContext where
  "fanout_context = (sample_context ((NewState ''g'')\<lparr>B_Plan := Plan0\<lparr>P_Path := ''artifacts/plan.md''\<rparr>\<rparr>) None)
     \<lparr>RC_Budget := Ledger_Snapshot New (Fin 1),
       RC_Config := sample_config\<lparr>Cfg_Budget := \<lparr>MaxUSD = microsToUSD 1000000, MaxTokens = 9, OnExceed = OnExceedAbort\<rparr>,
         Cfg_Fanout := \<lparr>Enabled = True, FC_Candidates = 2, Concurrency = 2, Isolator = [], FC_Select = ''first_pass''\<rparr>\<rparr>\<rparr>"

definition sample_fanout :: "Result \<times> fanout_fault option" where
  "sample_fanout = Fanout_Run (\<lambda>_. []) calm (\<lambda>_. Inr ''do it'') (Some finishing_pool) fanout_context"

lemma finished_simps [simp]:
  "Co_ID (finished_one s) = Sp_ID s" "Co_Index (finished_one s) = Sp_Index s" "Co_Err (finished_one s) = None"
  "Co_Stopped (finished_one s) = None" "Co_Status (finished_one s) = RunStatusCompleted"
  by (simp_all add: finished_one_def)

lemma sample_plan: "fanout_readPlan (\<lambda>_. Inr ''do it'') ''artifacts/plan.md'' = Inr ''do it''"
  by code_simp

lemma finishing_settles:
  "after_run say calm (buildSpecs rc plan env 2) 2 (r_run finishing_pool (buildSpecs rc plan env 2)) =
     (settled say (map finished_one (buildSpecs rc plan env 2)), None)"
  by (simp add: after_run_def finishing_pool_def place_def buildSpecs_def upt_rec atLimit_def notDurable_def open_reason_def
      durableStatus_def List.map_filter_def)

lemma sample_fanout_joins: "snd sample_fanout = None \<and> Res_Next (fst sample_fanout) = NodeJoin"
proof -
  have c: "checkConfig (Some finishing_pool) fanout_context = Inr (finishing_pool, 2)" "RC_Workspace fanout_context = ''/w''"
    "P_Path (B_Plan (RC_State fanout_context)) = ''artifacts/plan.md''" "RC_Budget fanout_context = Ledger_Snapshot New (Fin 1)"
    "Cfg_Budget (RC_Config fanout_context) = \<lparr>MaxUSD = microsToUSD 1000000, MaxTokens = 9, OnExceed = OnExceedAbort\<rparr>"
    by (simp_all add: checkConfig_def fanout_context_def minCandidates_def sample_context_def)
  have "r_claimed finishing_pool ids = Inr True" for ids by (simp add: finishing_pool_def)
  then show ?thesis
    by (simp add: sample_fanout_def Fanout_Run_def c sample_plan Envelopes_def Partition_example finishing_settles Let_def settled_def)
qed

theorem fanout_feeds_join_witness:
  "\<exists>cs. Patch_Candidates (Res_Patch (fst sample_fanout)) = Some cs \<and> 2 \<le> length cs \<and> (\<exists>sel. Select cs (Strategy_Name SelectFirstPass) = Inr sel)"
proof -
  have "Fanout_Run (\<lambda>_. []) calm (\<lambda>_. Inr ''do it'') (Some finishing_pool) fanout_context = (fst sample_fanout, None)"
    using sample_fanout_joins by (simp add: sample_fanout_def prod_eq_iff)
  from fanout_feeds_join [OF this] show ?thesis using sample_fanout_joins by blast
qed

end
