(* ===== verification/Children.thy ===== *)
theory Children
  imports Fanout Dispatch_Runs
begin

text \<open>
  internal/graph/children.go: the pool that runs a fanout's candidates, each a belay run of its own under the
  parent's candidate-runs directory. A candidate's directory is a \<open>slot\<close>; each durable change of it is a
  \<open>slot_write\<close>, and a crash keeps a prefix of them. The candidate's own run is the dispatcher of theory
  Dispatcher on the slot's documents.
\<close>

section \<open>Directories\<close>

text \<open>\<open>Debris\<close> is a directory without a manifest and the names in it. \<open>Held\<close> is one with a manifest: the run's
  documents and the plan that was copied in.\<close>

datatype slot = Vacant | Symlink | NotADir | Debris "string list" | Held Disk string

datatype slot_write = Becomes slot | Writes disk_write

fun apply_slot :: "slot_write \<Rightarrow> slot \<Rightarrow> slot" where
  "apply_slot (Becomes s) _ = s"
| "apply_slot (Writes x) (Held D plan) = Held (apply_write x D) plan"
| "apply_slot (Writes x) s = s"

definition candidateRunEntries :: "string list" where
  "candidateRunEntries = [''manifest.json'', ''state.json'', ''journal.ndjson'', ''artifacts'', ''snapshots'', ''nodes'', ''worktree'']"

text \<open>The configuration's fingerprint, its rendering and its agent section, which a manifest records.\<close>

record ConfigText =
  cx_digest :: string
  cx_snapshot :: "string \<rightharpoonup> string"
  cx_agent :: AgentInfo
  cx_plan :: ArchivedPlan

definition NewManifest :: "(Config \<Rightarrow> ConfigText) \<Rightarrow> int \<Rightarrow> string \<Rightarrow> string \<Rightarrow> string \<Rightarrow> Config \<Rightarrow> Manifest" where
  "NewManifest ct now run_id ws goal conf = \<lparr>SchemaVersion = ManifestSchemaVersion, Requires = [], RunID = run_id, CreatedAt = now,
     UpdatedAt = now, M_Workspace = ws, M_Goal = goal, M_Status = RunStatusRunning, CurrentNode = [], Step = 0,
     ConfigDigest = cx_digest (ct conf), ConfigSnapshot = cx_snapshot (ct conf),
     M_Budget = \<lparr>LimitUSD' = MaxUSD (Cfg_Budget conf), SpentUSD' = Fin 0, TokensIn = 0, TokensOut = 0, Budget_Estimated = False\<rparr>,
     Agent = cx_agent (ct conf),
     M_Output = \<lparr>O_Mode = [], Repo = [], Branch = [], Base = [], BaseRef = [], WorkTree = [], Prefix = [], PullRequest = False\<rparr>,
     M_ArchivedPlan = cx_plan (ct conf), M_Fanout = None, M_Candidate = None, M_Policy = None, M_Origin = None, M_Changes = None,
     GiveUpFloor = 0\<rparr>"

section \<open>The pool\<close>

text \<open>What the pool is built with, and what one candidate meets in one attempt: the error of each operation on
  its files, what its isolator answers, and the machine its own run is on. \<open>k_through\<close> says whether a manifest is
  found through a link in its place; \<open>k_tmp\<close> is the random end of the names of temporary files; \<open>k_fresh\<close> is the
  number of writes a claim makes before it fails; \<open>k_panic\<close> the number of writes its run makes before a panic.\<close>

record Pool =
  p_parent :: Dispatcher
  p_registry :: Registry
  p_names :: "string list"
  p_text :: "Config \<Rightarrow> ConfigText"
  p_isolator :: bool
  p_reclaims :: bool
  p_spell :: "dispatch_error \<Rightarrow> string"

datatype created = CreateUnsupported string | CreateFailed string | Made "Manifest.Workspace"

record Meets_Candidate =
  k_now :: int
  k_layout :: "string option"
  k_lstat :: "string option"
  k_stat :: "string option"
  k_through :: bool
  k_readdir :: "string option"
  k_remove :: "(string \<times> string list) option"
  k_tmp :: string
  k_fresh :: "(nat \<times> string) option"
  k_load :: "string option"
  k_raise :: io
  k_admitted :: bool
  k_reclaim :: "string option"
  k_create :: created
  k_record :: "string option"
  k_made :: io
  k_refuse :: io
  k_resume :: "string option"
  k_fuel :: nat
  k_env :: Env
  k_tick :: nat
  k_panic :: "(nat \<times> string) option"
  k_journal :: "string option"
  k_manifest :: "string option"
  k_state :: "string option"

text \<open>A document saved: whether the call says so, and the write that lands.\<close>

definition save_manifest :: "io \<Rightarrow> Manifest \<Rightarrow> bool \<times> slot_write list" where
  "save_manifest how m = (how = IO_ok, if how = IO_failed then [] else [Writes (WManifest m)])"

definition candidateConfig :: "Config \<Rightarrow> Envelope \<Rightarrow> Config" where
  "candidateConfig conf env = conf\<lparr>Cfg_Budget := \<lparr>MaxUSD = E_LimitUSD env, MaxTokens = E_LimitTokens env, OnExceed = OnExceedAbort\<rparr>\<rparr>"

fun float_pos :: "float64 \<Rightarrow> bool" where
  "float_pos (Fin q) \<longleftrightarrow> q > 0"
| "float_pos PInf \<longleftrightarrow> True"
| "float_pos _ \<longleftrightarrow> False"

definition raiseEnvelope :: "Envelope \<Rightarrow> Envelope \<Rightarrow> Envelope" where
  "raiseEnvelope persisted share =
     \<lparr>E_LimitUSD = (if float_pos (E_LimitUSD persisted) \<and> float_pos (E_LimitUSD share)
        then float_max (E_LimitUSD persisted) (E_LimitUSD share) else Fin 0),
      E_LimitTokens = (if E_LimitTokens persisted > 0 \<and> E_LimitTokens share > 0
        then max (E_LimitTokens persisted) (E_LimitTokens share) else 0)\<rparr>"

section \<open>Claiming\<close>

record Claim =
  cl_spec :: CandidateSpec
  cl_man :: Manifest
  cl_envelope :: Envelope
  cl_provision :: string
  cl_workspace :: "Manifest.Workspace"
  cl_note :: string
  cl_adopted :: bool

datatype claim_fault = ClaimIO string | RunCorrupt string

definition Workspace0 :: "Manifest.Workspace" where
  "Workspace0 = \<lparr>W_ID = [], W_Dir = [], W_Ephemeral = False\<rparr>"

definition fresh_manifest :: "Pool \<Rightarrow> Meets_Candidate \<Rightarrow> Manifest \<Rightarrow> CandidateSpec \<Rightarrow> Manifest" where
  "fresh_manifest P k parent s =
     (let goal = (if Goal (Sp_Seed s) = [] then M_Goal parent else Goal (Sp_Seed s));
          man = NewManifest (p_text P) (k_now k) (RunID parent @ ''-'' @ Sp_ID s) (Sp_Source s) goal
            (candidateConfig (cfg (p_parent P)) (Sp_Envelope s));
          man = SetCandidate \<lparr>ParentRunID = RunID parent, CR_ID = Sp_ID s, Index = Sp_Index s, CR_Workspace = Workspace0,
            Provision = ProvisionPending, ProvisionNote = [], CR_Envelope = Sp_Envelope s\<rparr> man;
          man = (case M_Policy parent of None \<Rightarrow> man | Some p \<Rightarrow> SetPolicy p man)
      in case M_Changes parent of None \<Rightarrow> man | Some c \<Rightarrow> SetChanges c man)"

text \<open>The writes of a claim in their order: the directory, the blackboard, the plan, and the manifest last. Each of
  the two documents is staged in a temporary file beside it, which a crash before the rename leaves there.\<close>

definition staging :: "string \<Rightarrow> string \<Rightarrow> string" where
  "staging name tmp = name @ ''.tmp-'' @ tmp"

definition claim_writes :: "string \<Rightarrow> Manifest \<Rightarrow> CandidateSpec \<Rightarrow> slot_write list" where
  "claim_writes tmp man s =
     (let held = ''state.json'' # (if Sp_Plan s = [] then [] else [''artifacts'']) in
      [Becomes (Debris []), Becomes (Debris [staging ''state.json'' tmp]), Becomes (Debris [''state.json''])] @
      (if Sp_Plan s = [] then [] else [Becomes (Debris held)]) @
      [Becomes (Debris (staging ''manifest.json'' tmp # held)),
       Becomes (Held \<lparr>D_Manifest = man, ManifestVersion = ManifestSchemaVersion, D_State = Sp_Seed s, D_Journal = [],
        D_Snapshots = Map.empty\<rparr> (Sp_Plan s))])"

definition claimFresh :: "Pool \<Rightarrow> Meets_Candidate \<Rightarrow> Manifest \<Rightarrow> CandidateSpec \<Rightarrow> slot_write list \<times> (claim_fault, Claim) result" where
  "claimFresh P k parent s =
     (let man = fresh_manifest P k parent s; ws = claim_writes (k_tmp k) man s in
      case k_fresh k of
        Some (n, e) \<Rightarrow> (take n ws, Inl (ClaimIO e))
      | None \<Rightarrow> (ws, Inr \<lparr>cl_spec = s, cl_man = man, cl_envelope = Sp_Envelope s, cl_provision = ProvisionPending,
          cl_workspace = Workspace0, cl_note = [], cl_adopted = False\<rparr>))"

definition adopt :: "Meets_Candidate \<Rightarrow> CandidateSpec \<Rightarrow> Disk \<Rightarrow> slot_write list \<times> (claim_fault, Claim) result" where
  "adopt k s D =
     (case k_load k of
        Some e \<Rightarrow> ([], Inl (ClaimIO e))
      | None \<Rightarrow>
          (let man = D_Manifest D in
           case M_Candidate man of
             None \<Rightarrow> ([], Inl (RunCorrupt ''not a candidate run''))
           | Some c \<Rightarrow>
               (let envelope = raiseEnvelope (CR_Envelope c) (Sp_Envelope s);
                    raised = (envelope \<noteq> CR_Envelope c);
                    man' = (if raised then (let m = SetCandidate (c\<lparr>CR_Envelope := envelope\<rparr>) man in
                        m\<lparr>M_Budget := (M_Budget m)\<lparr>LimitUSD' := E_LimitUSD envelope\<rparr>\<rparr>) else man);
                    (ok, ws) = (if raised then save_manifest (k_raise k) man' else (True, []))
                in if \<not> ok then (ws, Inl (ClaimIO ''raise the envelope''))
                   else (ws, Inr \<lparr>cl_spec = s, cl_man = man', cl_envelope = envelope, cl_provision = Provision c,
                     cl_workspace = CR_Workspace c, cl_note = ProvisionNote c, cl_adopted = True\<rparr>))))"

text \<open>\<open>removeTornClaim\<close>: a failing removal leaves the names it had not reached.\<close>

definition removeTornClaim :: "Meets_Candidate \<Rightarrow> string list \<Rightarrow> slot_write list \<times> claim_fault option" where
  "removeTornClaim k names =
     (case k_readdir k of
        Some e \<Rightarrow> ([], Some (ClaimIO e))
      | None \<Rightarrow>
          if \<not> set names \<subseteq> set candidateRunEntries then ([], Some (RunCorrupt ''holds what no candidate run does''))
          else case k_remove k of
            Some (e, left) \<Rightarrow> ([Becomes (Debris (filter (\<lambda>n. n \<in> set left) names))], Some (ClaimIO e))
          | None \<Rightarrow> ([Becomes Vacant], None))"

definition claim :: "Pool \<Rightarrow> Meets_Candidate \<Rightarrow> Manifest \<Rightarrow> CandidateSpec \<Rightarrow> slot \<Rightarrow> slot_write list \<times> (claim_fault, Claim) result" where
  "claim P k parent s slot =
     (case k_layout k of
        Some e \<Rightarrow> ([], Inl (ClaimIO e))
      | None \<Rightarrow>
     (case k_lstat k of
        Some e \<Rightarrow> ([], Inl (ClaimIO e))
      | None \<Rightarrow>
          (case slot of
             Vacant \<Rightarrow> claimFresh P k parent s
           | Symlink \<Rightarrow> ([], Inl (RunCorrupt ''is a symlink''))
           | NotADir \<Rightarrow> ([], Inl (RunCorrupt ''is not a directory''))
           | _ \<Rightarrow>
               (case k_stat k of
                  Some e \<Rightarrow> ([], Inl (ClaimIO e))
                | None \<Rightarrow>
                    (case slot of
                       Debris names \<Rightarrow>
                         (case removeTornClaim k names of
                            (ws, Some e) \<Rightarrow> (ws, Inl e)
                          | (ws, None) \<Rightarrow> (case claimFresh P k parent s of (ws', r) \<Rightarrow> (ws @ ws', r)))
                     | Held D plan \<Rightarrow> adopt k s D
                     | _ \<Rightarrow> ([], Inl (RunCorrupt [])))))))"

text \<open>A claim a crash cut off while it was staging a document is refused by every later one: the name of the temporary
  file is none a candidate's directory holds.\<close>

lemma staging_foreign: "staging ''state.json'' tmp \<notin> set candidateRunEntries" "staging ''manifest.json'' tmp \<notin> set candidateRunEntries"
  by (simp_all add: staging_def candidateRunEntries_def)

lemma staged_claim_refused:
  assumes "fold apply_slot (take 2 (claim_writes tmp man sp)) s = slot"
    "k_layout k = None" "k_lstat k = None" "k_stat k = None" "k_readdir k = None"
  shows "claim P k parent sp' slot = ([], Inl (RunCorrupt ''holds what no candidate run does''))"
proof -
  have "slot = Debris [staging ''state.json'' tmp]" using assms(1) by (simp add: claim_writes_def Let_def numeral_2_eq_2)
  then show ?thesis using staging_foreign(1) assms(2-) by (simp add: claim_def removeTornClaim_def)
qed

section \<open>A candidate's run\<close>

text \<open>\<open>SaveManifest\<close> of the claim's own copy, with the candidate's block replaced.\<close>

definition with_block :: "Claim \<Rightarrow> (CandidateRun \<Rightarrow> CandidateRun) \<Rightarrow> Manifest" where
  "with_block c f = (case M_Candidate (cl_man c) of None \<Rightarrow> cl_man c | Some b \<Rightarrow> SetCandidate (f b) (cl_man c))"

definition refuse :: "Pool \<Rightarrow> Meets_Candidate \<Rightarrow> Claim \<Rightarrow> CandidateOutcome \<Rightarrow> string \<Rightarrow> slot_write list \<times> CandidateOutcome" where
  "refuse P k c out cause =
     (let note = spell (p_parent P) (NText cause);
          (ok, ws) = save_manifest (k_refuse k) (with_block c (\<lambda>b. b\<lparr>Provision := ProvisionRefused, ProvisionNote := note\<rparr>))
      in (ws, if ok then out\<lparr>Co_Provision := ProvisionRefused, Co_Note := note\<rparr> else out\<lparr>Co_Err := Some ''record the refusal''\<rparr>))"

text \<open>The answer of \<open>makeWorkspace\<close>: the writes, the outcome, and the claim to go on with. \<open>asked\<close> says whether the
  isolator was asked to make a workspace.\<close>

record made =
  mk_writes :: "slot_write list"
  mk_out :: CandidateOutcome
  mk_claim :: "Claim option"
  mk_asked :: bool

definition ChangesFromRecord :: string where "ChangesFromRecord = ''record''"

definition makeWorkspace :: "Pool \<Rightarrow> Meets_Candidate \<Rightarrow> Claim \<Rightarrow> CandidateOutcome \<Rightarrow> made" where
  "makeWorkspace P k c out =
     (let stop = (\<lambda>asked e. \<lparr>mk_writes = [], mk_out = out\<lparr>Co_Err := Some e\<rparr>, mk_claim = None, mk_asked = asked\<rparr>) in
      if \<not> p_isolator P then stop False ''no isolator''
      else if cl_adopted c \<and> \<not> p_reclaims P then stop False ''cannot reclaim''
      else if cl_adopted c \<and> k_reclaim k \<noteq> None then stop False (the (k_reclaim k))
      else case k_create k of
        CreateUnsupported e \<Rightarrow> (case refuse P k c out e of (ws, out) \<Rightarrow> \<lparr>mk_writes = ws, mk_out = out, mk_claim = None, mk_asked = True\<rparr>)
      | CreateFailed e \<Rightarrow> stop True e
      | Made ws \<Rightarrow>
          if W_Dir ws = [] then stop True ''no directory''
          else
            let recorded = (case M_Changes (cl_man c) of Some pin \<Rightarrow> From pin = ChangesFromRecord | None \<Rightarrow> False) in
            if recorded \<and> k_record k \<noteq> None then stop True (the (k_record k))
            else
              let man = (if recorded then SetChanges ((the (M_Changes (cl_man c)))\<lparr>Ch_Record := True\<rparr>) (cl_man c) else cl_man c);
                  man = (with_block (c\<lparr>cl_man := man\<lparr>M_Workspace := W_Dir ws\<rparr>\<rparr>) (\<lambda>b. b\<lparr>Provision := ProvisionOK, CR_Workspace := ws\<rparr>));
                  (ok, writes) = save_manifest (k_made k) man
              in if \<not> ok then \<lparr>mk_writes = writes, mk_out = out\<lparr>Co_Err := Some ''record the workspace''\<rparr>, mk_claim = None, mk_asked = True\<rparr>
                 else \<lparr>mk_writes = writes, mk_out = out\<lparr>Co_Workspace := ws, Co_Provision := ProvisionOK\<rparr>,
                   mk_claim = Some (c\<lparr>cl_man := man, cl_workspace := ws, cl_provision := ProvisionOK\<rparr>), mk_asked = True\<rparr>)"

definition childOptions :: "Pool \<Rightarrow> usage \<Rightarrow> Claim \<Rightarrow> Dispatcher" where
  "childOptions P least c = (p_parent P)\<lparr>registry := p_registry P, cfg := candidateConfig (cfg (p_parent P)) (cl_envelope c),
     entry_node := NodeCode, interruptedFloor := least, pauseOnCancel := True, pauseAfter := 0, workspace := W_Dir (cl_workspace c)\<rparr>"

fun limit_of :: "dispatch_error \<Rightarrow> NodeError" where
  "limit_of (ErrBudget n e) = \<lparr>IsBudgetExceeded = True, IsNoCeiling = False, IsMaxSteps = False, IsNodeTimeout = False, ErrText = n\<rparr>"
| "limit_of (ErrMaxSteps a b) = \<lparr>IsBudgetExceeded = False, IsNoCeiling = False, IsMaxSteps = True, IsNodeTimeout = False, ErrText = []\<rparr>"
| "limit_of (ErrNodeTimeout n) = \<lparr>IsBudgetExceeded = False, IsNoCeiling = False, IsMaxSteps = False, IsNodeTimeout = True, ErrText = n\<rparr>"
| "limit_of (ErrNodeLimit x) = x"
| "limit_of (ErrNodeErr n x) = x"
| "limit_of e = \<lparr>IsBudgetExceeded = False, IsNoCeiling = False, IsMaxSteps = False, IsNodeTimeout = False, ErrText = []\<rparr>"

definition runMarkerNote :: "JRecord \<Rightarrow> string option" where
  "runMarkerNote r = (if Event r \<in> {EventRunCompleted, EventRunFailed, EventRunAborted, EventRunPaused} then Some (Note r) else None)"

definition collect_record :: "JRecord \<Rightarrow> CandidateOutcome \<Rightarrow> CandidateOutcome" where
  "collect_record r out =
     (let out = (if Event r = EventNodeFinished \<and> \<not> Interrupted r then out\<lparr>Co_DurationMS := wrap64 (Co_DurationMS out + DurationMS r)\<rparr> else out)
      in case runMarkerNote r of Some note \<Rightarrow> out\<lparr>Co_Note := note\<rparr> | None \<Rightarrow> out)"

definition collect :: "Pool \<Rightarrow> Meets_Candidate \<Rightarrow> Disk \<Rightarrow> dispatch_error option \<Rightarrow> CandidateOutcome \<Rightarrow> CandidateOutcome" where
  "collect P k D run_err out =
     (let fault = (\<lambda>out e. out\<lparr>Co_Err := Some (e @ (case run_err of None \<Rightarrow> [] | Some x \<Rightarrow> p_spell P x))\<rparr>) in
      case k_journal k of
        Some e \<Rightarrow> fault out e
      | None \<Rightarrow>
     (case ResolveStart (D_Journal D) of
        Inl _ \<Rightarrow> fault out ''resolve the end state''
      | Inr start \<Rightarrow>
          let out = fold collect_record (D_Journal D) (out\<lparr>Co_Status := runStatusFor (State start)\<rparr>) in
          (case k_manifest k of
             Some e \<Rightarrow> fault out e
           | None \<Rightarrow>
               let man = D_Manifest D;
                   out = out\<lparr>Co_Steps := Step man,
                     Co_Spent := Ledger_Total (rebuildLedger (D_Journal D) (M_Budget man) (\<lambda>_. False))\<rparr>;
                   out = (case M_Candidate man of None \<Rightarrow> out
                     | Some c \<Rightarrow> out\<lparr>Co_Envelope := CR_Envelope c, Co_Provision := Provision c, Co_Workspace := CR_Workspace c\<rparr>)
               in case k_state k of
                    Some e \<Rightarrow> fault out e
                  | None \<Rightarrow>
                      let out = out\<lparr>Co_State := D_State D\<rparr>;
                          out = (if State start = RunStatePaused \<and> LimitSettings (map_option limit_of run_err) \<noteq> []
                            then out\<lparr>Co_Stopped := map_option limit_of run_err\<rparr> else out)
                      in if State start = RunStateRunnable
                         then out\<lparr>Co_Err := Some (case run_err of None \<Rightarrow> ''stopped without reaching an end state'' | Some x \<Rightarrow> p_spell P x)\<rparr>
                         else out)))"

definition resume_child :: "Pool \<Rightarrow> usage \<Rightarrow> Meets_Candidate \<Rightarrow> Claim \<Rightarrow> CandidateOutcome \<Rightarrow> slot \<Rightarrow> slot_write list \<times> CandidateOutcome" where
  "resume_child P least k c out slot =
     (case k_resume k of
        Some e \<Rightarrow> ([], out\<lparr>Co_Err := Some e\<rparr>)
      | None \<Rightarrow>
     (case NewDispatcher (p_names P) (childOptions P least c) of
        Inl _ \<Rightarrow> ([], out\<lparr>Co_Err := Some ''build the dispatcher''\<rparr>)
      | Inr d \<Rightarrow>
     (case slot of
        Held D plan \<Rightarrow>
          (case Resume (k_fuel k) d (k_env k) (boot D (k_tick k)) of
             (w, answer) \<Rightarrow>
               (case k_panic k of
                  Some (n, e) \<Rightarrow> (map Writes (take n (wlog w)), out\<lparr>Co_Err := Some e\<rparr>)
                | None \<Rightarrow> (map Writes (wlog w), collect P k (disk w) (case answer of None \<Rightarrow> None | Some a \<Rightarrow> snd a) out)))
      | _ \<Rightarrow> ([], out\<lparr>Co_Err := Some ''no run directory''\<rparr>))))"

text \<open>One candidate, taken from wherever it is: the writes after the claim, its outcome, and whether the isolator
  was asked for a workspace.\<close>

definition one :: "Pool \<Rightarrow> usage \<Rightarrow> Meets_Candidate \<Rightarrow> Claim \<Rightarrow> CandidateOutcome \<Rightarrow> slot \<Rightarrow> slot_write list \<times> CandidateOutcome \<times> bool" where
  "one P least k c out slot =
     (if cl_provision c = ProvisionRefused then ([], out\<lparr>Co_Provision := ProvisionRefused, Co_Note := cl_note c\<rparr>, False)
      else if cl_provision c = ProvisionOK then
        (case resume_child P least k c out slot of (ws, out) \<Rightarrow> (ws, out, False))
      else
        let mk = makeWorkspace P k c out in
        case mk_claim mk of
          None \<Rightarrow> (mk_writes mk, mk_out mk, mk_asked mk)
        | Some c' \<Rightarrow>
            (case resume_child P least k c' (mk_out mk) (fold apply_slot (mk_writes mk) slot) of
               (ws, out) \<Rightarrow> (mk_writes mk @ ws, out, True)))"

section \<open>All candidates\<close>

text \<open>The zero value of an outcome, naming its candidate.\<close>

definition named_outcome :: "CandidateSpec \<Rightarrow> CandidateOutcome" where
  "named_outcome s = \<lparr>Co_ID = Sp_ID s, Co_Index = Sp_Index s, Co_RunDir = [], Co_Status = RunStatusUnknown,
     Co_State = (NewState [])\<lparr>B_SchemaVersion := 0\<rparr>, Co_Spent = zeroUsage, Co_Envelope = Sp_Envelope s, Co_Steps = 0, Co_DurationMS = 0,
     Co_Workspace = Workspace0, Co_Note = [], Co_Provision = ProvisionPending, Co_Stopped = None, Co_Err = None\<rparr>"

text \<open>A candidate's part of a call: what its claim wrote, what its run wrote, and its outcome.\<close>

record part =
  pt_claimed :: "slot_write list"
  pt_ran :: "slot_write list"
  pt_out :: CandidateOutcome
  pt_asked :: bool

fun claim_fault_text :: "claim_fault \<Rightarrow> string" where
  "claim_fault_text (ClaimIO e) = e"
| "claim_fault_text (RunCorrupt e) = e"

definition run_dir :: "CandidateSpec \<Rightarrow> string" where
  "run_dir s = ''candidate-runs/'' @ Sp_ID s"

definition drive_one :: "Pool \<Rightarrow> usage \<Rightarrow> bool \<Rightarrow> Meets_Candidate \<Rightarrow> Manifest \<Rightarrow> CandidateSpec \<Rightarrow> slot \<Rightarrow> part" where
  "drive_one P least whole k parent s slot =
     (case claim P k parent s slot of
        (ws, Inl e) \<Rightarrow> \<lparr>pt_claimed = ws, pt_ran = [], pt_out = (named_outcome s)\<lparr>Co_Err := Some (claim_fault_text e)\<rparr>, pt_asked = False\<rparr>
      | (ws, Inr c) \<Rightarrow>
          let out = (named_outcome s)\<lparr>Co_RunDir := run_dir s\<rparr> in
          if \<not> whole \<or> \<not> k_admitted k then \<lparr>pt_claimed = ws, pt_ran = [], pt_out = out, pt_asked = False\<rparr>
          else (case one P least k c out (fold apply_slot ws slot) of
            (ws2, out, asked) \<Rightarrow> \<lparr>pt_claimed = ws, pt_ran = ws2, pt_out = out, pt_asked = asked\<rparr>))"

text \<open>What the pool meets as a whole: the parent's documents, or the error of reading them, and whether the
  context was cancelled by the end. The candidates share no file, so the order the workers take them in does not
  matter to any of them.\<close>

record Meets_Pool =
  po_parent :: "(string, Manifest) result"
  po_journal :: "(string, JRecord list) result"
  po_cancelled :: bool
  po_each :: "string \<Rightarrow> Meets_Candidate"

definition costliestParentStep :: "Pool \<Rightarrow> JRecord list \<Rightarrow> usage" where
  "costliestParentStep P records =
     (let l = Ledger_Largest (rebuildLedger records
            \<lparr>LimitUSD' = Fin 0, SpentUSD' = Fin 0, TokensIn = 0, TokensOut = 0, Budget_Estimated = False\<rparr> (supervises (p_parent P)));
          f = interruptedFloor (p_parent P)
      in \<lparr>InputTokens = max (InputTokens l) (InputTokens f), OutputTokens = max (OutputTokens l) (OutputTokens f),
          USD = float_max (USD l) (USD f), Estimated = False\<rparr>)"

definition parts :: "Pool \<Rightarrow> Meets_Pool \<Rightarrow> usage \<Rightarrow> Manifest \<Rightarrow> (string \<Rightarrow> slot) \<Rightarrow> CandidateSpec list \<Rightarrow> part list" where
  "parts P m least parent slots specs =
     (let whole = (\<forall>s \<in> set specs. is_ok (snd (claim P (po_each m (Sp_ID s)) parent s (slots (Sp_ID s))))) in
      map (\<lambda>s. drive_one P least whole (po_each m (Sp_ID s)) parent s (slots (Sp_ID s))) specs)"

definition Pool_Run :: "Pool \<Rightarrow> Meets_Pool \<Rightarrow> (string \<Rightarrow> slot) \<Rightarrow> CandidateSpec list \<Rightarrow> CandidateOutcome list \<times> string option" where
  "Pool_Run P m slots specs =
     (let outs = map named_outcome specs in
      if specs = [] then (outs, None)
      else case po_parent m of
        Inl e \<Rightarrow> (outs, Some e)
      | Inr parent \<Rightarrow>
     (case po_journal m of
        Inl e \<Rightarrow> (outs, Some e)
      | Inr records \<Rightarrow>
          let ps = parts P m (costliestParentStep P records) parent slots specs;
              whole = (\<forall>s \<in> set specs. is_ok (snd (claim P (po_each m (Sp_ID s)) parent s (slots (Sp_ID s)))))
          in (map pt_out ps, if whole \<and> po_cancelled m then Some ''interrupted'' else None)))"

fun is_held :: "slot \<Rightarrow> bool" where
  "is_held (Held D plan) \<longleftrightarrow> True"
| "is_held s \<longleftrightarrow> False"

text \<open>What \<open>os.Stat\<close> says of the manifest of a directory: it follows a link, and below what is not a directory there
  is not a missing file but an error.\<close>

fun stat_manifest :: "Meets_Candidate \<Rightarrow> slot \<Rightarrow> (string, bool) result" where
  "stat_manifest k Symlink = (case k_stat k of Some e \<Rightarrow> Inl e | None \<Rightarrow> Inr (k_through k))"
| "stat_manifest k NotADir = Inl ''not a directory''"
| "stat_manifest k s = (case k_stat k of Some e \<Rightarrow> Inl e | None \<Rightarrow> Inr (is_held s))"

fun Pool_Claimed :: "Meets_Pool \<Rightarrow> (string \<Rightarrow> slot) \<Rightarrow> string list \<Rightarrow> (string, bool) result" where
  "Pool_Claimed m slots [] = Inr False"
| "Pool_Claimed m slots (i # is) =
     (case k_layout (po_each m i) of
        Some e \<Rightarrow> Inl e
      | None \<Rightarrow>
          (case stat_manifest (po_each m i) (slots i) of
             Inl e \<Rightarrow> Inl e
           | Inr found \<Rightarrow> if found then Inr True else Pool_Claimed m slots is))"

section \<open>The contract of the pool\<close>

definition names_spec :: "CandidateSpec \<Rightarrow> CandidateOutcome \<Rightarrow> bool" where
  "names_spec s out \<longleftrightarrow> Co_ID out = Sp_ID s \<and> Co_Index out = Sp_Index s"

lemma names_named [simp]: "names_spec s (named_outcome s)"
  by (simp add: names_spec_def named_outcome_def)

lemma names_update [simp]:
  "names_spec s (out\<lparr>Co_RunDir := a\<rparr>) = names_spec s out" "names_spec s (out\<lparr>Co_Status := b\<rparr>) = names_spec s out"
  "names_spec s (out\<lparr>Co_State := c\<rparr>) = names_spec s out" "names_spec s (out\<lparr>Co_Spent := d\<rparr>) = names_spec s out"
  "names_spec s (out\<lparr>Co_Envelope := e\<rparr>) = names_spec s out" "names_spec s (out\<lparr>Co_Steps := n\<rparr>) = names_spec s out"
  "names_spec s (out\<lparr>Co_DurationMS := n\<rparr>) = names_spec s out" "names_spec s (out\<lparr>Co_Workspace := w\<rparr>) = names_spec s out"
  "names_spec s (out\<lparr>Co_Note := t\<rparr>) = names_spec s out" "names_spec s (out\<lparr>Co_Provision := t\<rparr>) = names_spec s out"
  "names_spec s (out\<lparr>Co_Stopped := x\<rparr>) = names_spec s out" "names_spec s (out\<lparr>Co_Err := y\<rparr>) = names_spec s out"
  by (simp_all add: names_spec_def)

lemma names_collect_record: "names_spec s out \<Longrightarrow> names_spec s (collect_record r out)"
  by (simp add: collect_record_def Let_def split: option.split)

lemma names_fold: "names_spec s out \<Longrightarrow> names_spec s (fold collect_record rs out)"
  by (induction rs arbitrary: out) (simp_all add: names_collect_record)

lemma names_collect: "names_spec s out \<Longrightarrow> names_spec s (collect P k D e out)"
  by (simp add: collect_def Let_def names_fold split: option.split sum.split)

lemma names_resume: "names_spec s out \<Longrightarrow> names_spec s (snd (resume_child P least k c out slot))"
  by (simp add: resume_child_def names_collect split: option.split sum.split slot.split prod.split)

lemma names_refuse: "names_spec s out \<Longrightarrow> names_spec s (snd (refuse P k c out e))"
  by (simp add: refuse_def Let_def split: prod.split)

lemma names_make: "names_spec s out \<Longrightarrow> names_spec s (mk_out (makeWorkspace P k c out))"
  using names_refuse [of s out P k c]
  by (simp add: makeWorkspace_def Let_def save_manifest_def split: created.split prod.split) (metis snd_conv)

lemma names_one: "names_spec s out \<Longrightarrow> names_spec s (fst (snd (one P least k c out slot)))"
  using names_resume [of s out P least k c slot] names_make [of s out P k c] names_resume [of s "mk_out (makeWorkspace P k c out)"]
  by (simp add: one_def Let_def split: option.split prod.split) (metis snd_conv)

lemma names_drive_one: "names_spec s (pt_out (drive_one P least whole k parent s slot))"
  using names_one [of s "(named_outcome s)\<lparr>Co_RunDir := run_dir s\<rparr>"]
  by (simp add: drive_one_def Let_def split: sum.split prod.split) (metis fst_conv snd_conv)

lemma Pool_Run_names: "map (\<lambda>out. (Co_ID out, Co_Index out)) (fst (Pool_Run P m slots specs)) = map (\<lambda>s. (Sp_ID s, Sp_Index s)) specs"
  using names_drive_one
  by (simp add: Pool_Run_def parts_def Let_def comp_def names_spec_def named_outcome_def split: sum.split)

text \<open>The pool keeps to what the fanout node relies on, so the node never meets an outcome it cannot place.\<close>

interpretation pool: candidate_runner "Pool_Run P m slots" for P m slots
  by unfold_locales (rule Pool_Run_names)

section \<open>A candidate across attempts and crashes\<close>

text \<open>What no attempt takes back. A ceiling of zero is none, so nothing lies above it.\<close>

fun float_le :: "float64 \<Rightarrow> float64 \<Rightarrow> bool" where
  "float_le (Fin a) (Fin b) \<longleftrightarrow> a \<le> b"
| "float_le (Fin a) PInf \<longleftrightarrow> True"
| "float_le PInf PInf \<longleftrightarrow> True"
| "float_le NInf x \<longleftrightarrow> x \<noteq> NaN"
| "float_le _ _ \<longleftrightarrow> False"

definition envelope_le :: "Envelope \<Rightarrow> Envelope \<Rightarrow> bool" where
  "envelope_le a b \<longleftrightarrow>
     (float_pos (E_LimitUSD b) \<longrightarrow> float_pos (E_LimitUSD a) \<and> float_le (E_LimitUSD a) (E_LimitUSD b)) \<and>
     (0 < E_LimitTokens b \<longrightarrow> 0 < E_LimitTokens a \<and> E_LimitTokens a \<le> E_LimitTokens b)"

lemma float_le_refl: "float_pos a \<Longrightarrow> float_le a a"
  by (cases a) auto

lemma float_le_trans: "float_le a b \<Longrightarrow> float_le b c \<Longrightarrow> float_le a c"
  by (cases a; cases b; cases c) auto

lemma envelope_le_refl [simp]: "envelope_le a a"
  by (simp add: envelope_le_def float_le_refl)

lemma envelope_le_trans: "envelope_le a b \<Longrightarrow> envelope_le b c \<Longrightarrow> envelope_le a c"
  unfolding envelope_le_def using float_le_trans by force

lemma raiseEnvelope_le: "envelope_le a (raiseEnvelope a b)"
  by (cases "E_LimitUSD a"; cases "E_LimitUSD b") (auto simp: envelope_le_def raiseEnvelope_def)

text \<open>The candidate of a later manifest against an earlier one's.\<close>

definition block_kept :: "CandidateRun \<Rightarrow> CandidateRun \<Rightarrow> bool" where
  "block_kept c c' \<longleftrightarrow> ParentRunID c' = ParentRunID c \<and> CR_ID c' = CR_ID c \<and> Index c' = Index c \<and>
     envelope_le (CR_Envelope c) (CR_Envelope c') \<and>
     (Provision c = ProvisionOK \<longrightarrow> Provision c' = ProvisionOK \<and> CR_Workspace c' = CR_Workspace c) \<and>
     (Provision c = ProvisionRefused \<longrightarrow> Provision c' = ProvisionRefused \<and> ProvisionNote c' = ProvisionNote c)"

fun goes_on :: "slot \<Rightarrow> slot \<Rightarrow> bool" where
  "goes_on (Held D plan) s' \<longleftrightarrow>
     (case M_Candidate (D_Manifest D) of
        None \<Rightarrow> s' = Held D plan
      | Some c \<Rightarrow> (\<exists>D' c'. s' = Held D' plan \<and> M_Candidate (D_Manifest D') = Some c' \<and> block_kept c c' \<and>
          prefix (D_Journal D) (D_Journal D') \<and> (\<forall>key sn. D_Snapshots D key = Some sn \<longrightarrow> D_Snapshots D' key = Some sn)))"
| "goes_on Symlink s' \<longleftrightarrow> s' = Symlink"
| "goes_on NotADir s' \<longleftrightarrow> s' = NotADir"
| "goes_on (Debris names) s' \<longleftrightarrow>
     (if set names \<subseteq> set candidateRunEntries then s' \<noteq> Symlink \<and> s' \<noteq> NotADir else s' = Debris names)"
| "goes_on Vacant s' \<longleftrightarrow> s' \<noteq> Symlink \<and> s' \<noteq> NotADir"

fun slot_ok :: "slot \<Rightarrow> bool" where
  "slot_ok (Held D plan) \<longleftrightarrow> disk_ok D"
| "slot_ok s \<longleftrightarrow> True"

lemma block_kept_refl [simp]: "block_kept c c"
  by (simp add: block_kept_def)

lemma block_kept_trans: "block_kept a b \<Longrightarrow> block_kept b c \<Longrightarrow> block_kept a c"
  unfolding block_kept_def using envelope_le_trans by metis

lemma goes_on_refl [simp]: "goes_on s s"
  by (cases s) (auto split: option.split)

lemma goes_on_held: "goes_on s s' \<Longrightarrow> is_held s \<Longrightarrow> is_held s'"
  by (cases s) (auto split: option.splits if_splits)

lemma goes_on_trans: "goes_on a b \<Longrightarrow> goes_on b c \<Longrightarrow> goes_on a c"
proof (cases a)
  case (Held D plan)
  assume g: "goes_on a b" "goes_on b c"
  show ?thesis
  proof (cases "M_Candidate (D_Manifest D)")
    case (Some k)
    then obtain D' k' where b: "b = Held D' plan" "M_Candidate (D_Manifest D') = Some k'" "block_kept k k'"
      "prefix (D_Journal D) (D_Journal D')" "\<forall>key sn. D_Snapshots D key = Some sn \<longrightarrow> D_Snapshots D' key = Some sn"
      using g(1) Held by auto
    then obtain D'' k'' where c: "c = Held D'' plan" "M_Candidate (D_Manifest D'') = Some k''" "block_kept k' k''"
      "prefix (D_Journal D') (D_Journal D'')" "\<forall>key sn. D_Snapshots D' key = Some sn \<longrightarrow> D_Snapshots D'' key = Some sn"
      using g(2) by auto
    have "block_kept k k''" "prefix (D_Journal D) (D_Journal D'')" using b c block_kept_trans prefix_order.trans by blast+
    then show ?thesis using Held Some b c by auto
  qed (use g Held in auto)
qed (cases b; cases c; auto split: option.splits if_splits)+

section \<open>Every write of an attempt goes on from where the candidate is\<close>

definition walk_ok :: "slot \<Rightarrow> slot_write list \<Rightarrow> bool" where
  "walk_ok s ws \<longleftrightarrow> (\<forall>us. prefix us ws \<longrightarrow> goes_on s (fold apply_slot us s) \<and> slot_ok (fold apply_slot us s))"

lemma walk_end: "walk_ok s ws \<Longrightarrow> goes_on s (fold apply_slot ws s) \<and> slot_ok (fold apply_slot ws s)"
  by (simp add: walk_ok_def)

lemma walk_Nil [simp]: "walk_ok s [] = slot_ok s"
  by (simp add: walk_ok_def)

lemma walk_append: "walk_ok s ws \<Longrightarrow> walk_ok (fold apply_slot ws s) ws' \<Longrightarrow> walk_ok s (ws @ ws')"
  unfolding walk_ok_def prefix_append by (auto intro: goes_on_trans)

lemma walk_prefix: "walk_ok s ws \<Longrightarrow> prefix us ws \<Longrightarrow> walk_ok s us"
  unfolding walk_ok_def using prefix_order.trans by blast

lemma walk_single: "slot_ok s \<Longrightarrow> goes_on s (apply_slot x s) \<Longrightarrow> slot_ok (apply_slot x s) \<Longrightarrow> walk_ok s [x]"
  by (auto simp: walk_ok_def prefix_Cons)

lemma writes_held: "fold apply_slot (map Writes ws) (Held D plan) = Held (fold apply_write ws D) plan"
  by (induction ws arbitrary: D) auto

lemma disk_ok_manifest [simp]: "disk_ok (D\<lparr>D_Manifest := m, ManifestVersion := v\<rparr>) = disk_ok D" "disk_ok (D\<lparr>D_Manifest := m\<rparr>) = disk_ok D"
  by (simp_all add: disk_ok_def committed_def)

lemma walk_manifest:
  assumes "disk_ok D" "M_Candidate (D_Manifest D) = Some b" "M_Candidate m = Some b'" "block_kept b b'"
  shows "walk_ok (Held D plan) (snd (save_manifest how m))"
  using assms by (auto simp: save_manifest_def intro!: walk_single)

lemma walk_run:
  assumes "legal_seq D ws" "disk_ok D" "M_Candidate (D_Manifest D) = Some b"
  shows "walk_ok (Held D plan) (map Writes ws)"
  unfolding walk_ok_def
proof (intro allI impI)
  fix us assume "prefix us (map Writes ws)"
  then obtain vs where us: "us = map Writes vs" and "prefix vs ws" by (auto simp: prefix_def map_eq_append_conv)
  then have l: "legal_seq D vs" using legal_prefix assms(1) by blast
  note k = legal_seq_kept [OF l]
  then have "M_Candidate (D_Manifest (fold apply_write vs D)) = Some b"
    using assms(3) by (auto simp: same_run_def lifecycle_def)
  then show "goes_on (Held D plan) (fold apply_slot us (Held D plan)) \<and> slot_ok (fold apply_slot us (Held D plan))"
    using k assms(3) legal_seq_disk_ok [OF l assms(2)] unfolding us writes_held by simp
qed

text \<open>A claim that was made speaks for what is in the slot.\<close>

definition speaks_for :: "Claim \<Rightarrow> slot \<Rightarrow> bool" where
  "speaks_for c s \<longleftrightarrow> (\<exists>D plan b. s = Held D plan \<and> cl_man c = D_Manifest D \<and> M_Candidate (D_Manifest D) = Some b \<and>
     Provision b = cl_provision c \<and> CR_Workspace b = cl_workspace c \<and> ProvisionNote b = cl_note c)"

lemma fresh_manifest_block:
  "M_Candidate (fresh_manifest P k parent s) = Some \<lparr>ParentRunID = RunID parent, CR_ID = Sp_ID s, Index = Sp_Index s,
     CR_Workspace = Workspace0, Provision = ProvisionPending, ProvisionNote = [], CR_Envelope = Sp_Envelope s\<rparr>"
  by (simp add: fresh_manifest_def Let_def SetCandidate_def SetPolicy_def SetChanges_def split: option.split)

lemma fresh_disk_ok: "disk_ok \<lparr>D_Manifest = m, ManifestVersion = v, D_State = st, D_Journal = [], D_Snapshots = sn\<rparr>"
  by (simp add: disk_ok_def committed_def Validate_def scan_def)

definition unclaimed :: "slot \<Rightarrow> bool" where
  "unclaimed s \<longleftrightarrow> s = Vacant \<or> (\<exists>names. s = Debris names \<and> set names \<subseteq> set candidateRunEntries)"

lemma unclaimed_slot_ok: "unclaimed s \<Longrightarrow> slot_ok s"
  by (auto simp: unclaimed_def)

lemma walk_fresh:
  assumes "unclaimed s" shows "walk_ok s (claim_writes tmp man sp)"
  using assms fresh_disk_ok
  by (auto simp: unclaimed_def claim_writes_def Let_def walk_ok_def prefix_Cons)

lemma claimFresh_walk:
  assumes "claimFresh P k parent sp = (ws, r)" "unclaimed s"
  shows "walk_ok s ws" "r = Inr c \<Longrightarrow> speaks_for c (fold apply_slot ws s)"
proof -
  have w: "walk_ok s (claim_writes (k_tmp k) (fresh_manifest P k parent sp) sp)" by (rule walk_fresh [OF assms(2)])
  show "walk_ok s ws"
    using assms(1) w walk_prefix [OF w take_is_prefix] by (auto simp: claimFresh_def Let_def split: option.splits)
  assume "r = Inr c"
  then show "speaks_for c (fold apply_slot ws s)"
    using assms(1) fresh_manifest_block [of P k parent sp]
    by (auto simp: claimFresh_def Let_def claim_writes_def staging_def speaks_for_def split: option.splits)
qed

lemma block_raise: "block_kept b (b\<lparr>CR_Envelope := raiseEnvelope (CR_Envelope b) e\<rparr>)"
  by (simp add: block_kept_def raiseEnvelope_le)

lemma adopt_walk:
  assumes "adopt k sp D = (ws, r)" "disk_ok D"
  shows "walk_ok (Held D plan) ws" "r = Inr c \<Longrightarrow> speaks_for c (fold apply_slot ws (Held D plan))"
  using assms block_raise
  by (auto simp: adopt_def Let_def save_manifest_def speaks_for_def SetCandidate_def intro!: walk_single
      split: option.splits if_splits)

lemma removeTornClaim_walk:
  assumes "removeTornClaim k names = (ws, e)"
  shows "walk_ok (Debris names) ws" "e = None \<Longrightarrow> fold apply_slot ws (Debris names) = Vacant"
  using assms by (auto simp: removeTornClaim_def intro!: walk_single split: option.splits if_splits)

lemma claim_walk:
  assumes "claim P k parent sp s = (ws, r)" "slot_ok s"
  shows "walk_ok s ws" "r = Inr c \<Longrightarrow> speaks_for c (fold apply_slot ws s)"
proof -
  have "walk_ok s ws \<and> (r = Inr c \<longrightarrow> speaks_for c (fold apply_slot ws s))"
  proof (cases "k_layout k = None \<and> k_lstat k = None \<and> (s = Vacant \<or> k_stat k = None)")
    case False
    then show ?thesis using assms by (cases s) (auto simp: claim_def split: option.splits)
  next
    case True
    show ?thesis
    proof (cases s)
      case Vacant
      then show ?thesis using assms(1) True claimFresh_walk [of P k parent sp ws r s] by (auto simp: claim_def unclaimed_def)
    next
      case (Held D plan)
      then show ?thesis using assms True adopt_walk [of k sp D ws r] by (auto simp: claim_def)
    next
      case (Debris names)
      obtain us e where u: "removeTornClaim k names = (us, e)" by fastforce
      note rw = removeTornClaim_walk [OF u]
      show ?thesis
      proof (cases e)
        case None
        obtain vs r' where v: "claimFresh P k parent sp = (vs, r')" by fastforce
        have vac: "fold apply_slot us s = Vacant" using rw(2) None Debris by simp
        have ws: "ws = us @ vs" "r = r'" using assms(1) True Debris u None v by (auto simp: claim_def)
        have "unclaimed Vacant" by (simp add: unclaimed_def)
        from claimFresh_walk [OF v this] show ?thesis
          unfolding ws using walk_append [OF rw(1)] vac Debris by simp
      next
        case (Some x)
        then have "ws = us" "r = Inl x" using assms(1) True Debris u by (auto simp: claim_def)
        then show ?thesis using rw(1) Debris by simp
      qed
    qed (use assms True in \<open>auto simp: claim_def\<close>)
  qed
  then show "walk_ok s ws" "r = Inr c \<Longrightarrow> speaks_for c (fold apply_slot ws s)" by blast+
qed

lemma with_block_candidate: "M_Candidate (cl_man c) = Some b \<Longrightarrow> M_Candidate (with_block c f) = Some (f b)"
  by (simp add: with_block_def SetCandidate_def)

lemma refuse_walk:
  assumes "speaks_for c s" "slot_ok s" "cl_provision c \<noteq> ProvisionOK" "cl_provision c \<noteq> ProvisionRefused"
  shows "walk_ok s (fst (refuse P k c out cause))"
proof -
  obtain D plan b where s: "s = Held D plan" "cl_man c = D_Manifest D" "M_Candidate (D_Manifest D) = Some b" "Provision b = cl_provision c"
    using assms(1) by (auto simp: speaks_for_def)
  define f where "f = (\<lambda>b::CandidateRun. b\<lparr>Provision := ProvisionRefused, ProvisionNote := spell (p_parent P) (NText cause)\<rparr>)"
  have "block_kept b (f b)" using s(4) assms(3,4) by (simp add: block_kept_def f_def)
  moreover have "M_Candidate (with_block c f) = Some (f b)" using with_block_candidate s(2,3) by simp
  ultimately have "walk_ok s (snd (save_manifest (k_refuse k) (with_block c f)))"
    using walk_manifest [of D b _ "f b"] s assms(2) by simp
  then show ?thesis by (auto simp: refuse_def Let_def f_def split: prod.split)
qed

definition provisioned :: "Manifest.Workspace \<Rightarrow> CandidateRun \<Rightarrow> CandidateRun" where
  "provisioned ws b = b\<lparr>Provision := ProvisionOK, CR_Workspace := ws\<rparr>"

lemma makeWorkspace_cases:
  assumes mk: "mk = makeWorkspace P k c out"
  shows "mk_writes mk = [] \<and> mk_claim mk = None \<or> (\<exists>e. mk_writes mk = fst (refuse P k c out e) \<and> mk_claim mk = None) \<or>
    (\<exists>m ws. M_Candidate m = M_Candidate (cl_man c) \<and>
       mk_writes mk = snd (save_manifest (k_made k) (with_block (c\<lparr>cl_man := m\<rparr>) (provisioned ws))) \<and>
       (mk_claim mk = None \<or> k_made k = IO_ok \<and> mk_claim mk =
          Some (c\<lparr>cl_man := with_block (c\<lparr>cl_man := m\<rparr>) (provisioned ws), cl_workspace := ws, cl_provision := ProvisionOK\<rparr>)))"
proof (cases "k_create k")
  case (Made ws)
  define m where "m = (if \<exists>pin. M_Changes (cl_man c) = Some pin \<and> From pin = ChangesFromRecord
    then SetChanges ((the (M_Changes (cl_man c)))\<lparr>Ch_Record := True\<rparr>) (cl_man c) else cl_man c)\<lparr>M_Workspace := W_Dir ws\<rparr>"
  define m2 where "m2 = with_block (c\<lparr>cl_man := m\<rparr>) (provisioned ws)"
  have m: "M_Candidate m = M_Candidate (cl_man c)" by (simp add: m_def SetChanges_def)
  have "mk_writes mk = [] \<and> mk_claim mk = None \<or> mk_writes mk = snd (save_manifest (k_made k) m2) \<and>
      (mk_claim mk = None \<or> k_made k = IO_ok \<and> mk_claim mk = Some (c\<lparr>cl_man := m2, cl_workspace := ws, cl_provision := ProvisionOK\<rparr>))"
    unfolding mk makeWorkspace_def Made
    by (cases "M_Changes (cl_man c)") (auto simp: Let_def save_manifest_def m2_def m_def provisioned_def [abs_def])
  then show ?thesis unfolding m2_def using m by blast
next
  case (CreateUnsupported e)
  have "mk_writes mk = [] \<and> mk_claim mk = None \<or> mk_writes mk = fst (refuse P k c out e) \<and> mk_claim mk = None"
    unfolding mk makeWorkspace_def CreateUnsupported by (simp add: Let_def split: prod.split)
  then show ?thesis by blast
qed (simp add: mk makeWorkspace_def Let_def)

lemma makeWorkspace_walk:
  assumes "speaks_for c s" "slot_ok s" "cl_provision c \<noteq> ProvisionOK" "cl_provision c \<noteq> ProvisionRefused"
    and mk: "mk = makeWorkspace P k c out"
  shows "walk_ok s (mk_writes mk)"
    "mk_claim mk = Some c' \<Longrightarrow> speaks_for c' (fold apply_slot (mk_writes mk) s) \<and> cl_provision c' = ProvisionOK"
proof -
  obtain D plan b where s: "s = Held D plan" "cl_man c = D_Manifest D" "M_Candidate (D_Manifest D) = Some b" "Provision b = cl_provision c"
      "ProvisionNote b = cl_note c"
    using assms(1) by (auto simp: speaks_for_def)
  have "walk_ok s (mk_writes mk) \<and> (mk_claim mk = Some c' \<longrightarrow> speaks_for c' (fold apply_slot (mk_writes mk) s) \<and> cl_provision c' = ProvisionOK)"
    using makeWorkspace_cases [OF mk]
  proof (elim disjE exE conjE)
    fix m ws assume m: "M_Candidate m = M_Candidate (cl_man c)"
      and w: "mk_writes mk = snd (save_manifest (k_made k) (with_block (c\<lparr>cl_man := m\<rparr>) (provisioned ws)))"
      and cl: "k_made k = IO_ok" "mk_claim mk = Some (c\<lparr>cl_man := with_block (c\<lparr>cl_man := m\<rparr>) (provisioned ws), cl_workspace := ws, cl_provision := ProvisionOK\<rparr>)"
    have b': "M_Candidate (with_block (c\<lparr>cl_man := m\<rparr>) (provisioned ws)) = Some (provisioned ws b)"
      using with_block_candidate [of "c\<lparr>cl_man := m\<rparr>"] m s(2,3) by simp
    have "block_kept b (provisioned ws b)" using s(4) assms(3,4) by (simp add: block_kept_def provisioned_def)
    from walk_manifest [OF _ s(3) b' this] have "walk_ok s (mk_writes mk)" using s(1) assms(2) w by simp
    moreover have "fold apply_slot (mk_writes mk) s = Held (apply_write (WManifest (with_block (c\<lparr>cl_man := m\<rparr>) (provisioned ws))) D) plan"
      using w cl(1) s(1) by (simp add: save_manifest_def)
    ultimately show ?thesis using cl(2) b' s(5) by (auto simp: speaks_for_def provisioned_def)
  next
    fix m ws assume m: "M_Candidate m = M_Candidate (cl_man c)" "mk_claim mk = None"
      and w: "mk_writes mk = snd (save_manifest (k_made k) (with_block (c\<lparr>cl_man := m\<rparr>) (provisioned ws)))"
    have b': "M_Candidate (with_block (c\<lparr>cl_man := m\<rparr>) (provisioned ws)) = Some (provisioned ws b)"
      using with_block_candidate [of "c\<lparr>cl_man := m\<rparr>"] m s(2,3) by simp
    have "block_kept b (provisioned ws b)" using s(4) assms(3,4) by (simp add: block_kept_def provisioned_def)
    from walk_manifest [OF _ s(3) b' this] show ?thesis using s(1) assms(2) w m(2) by simp
  next
    fix e assume e: "mk_writes mk = fst (refuse P k c out e)" "mk_claim mk = None"
    have "walk_ok s (fst (refuse P k c out e))" by (rule refuse_walk [OF assms(1-4)])
    with e show ?thesis by simp
  qed (simp add: assms(2))
  then show "walk_ok s (mk_writes mk)"
    "mk_claim mk = Some c' \<Longrightarrow> speaks_for c' (fold apply_slot (mk_writes mk) s) \<and> cl_provision c' = ProvisionOK" by blast+
qed

lemma resume_walk:
  assumes "speaks_for c s" "slot_ok s" "registry_ok (p_registry P)"
  shows "walk_ok s (fst (resume_child P least k c out s))"
proof -
  obtain D plan b where s: "s = Held D plan" "M_Candidate (D_Manifest D) = Some b"
    using assms(1) by (auto simp: speaks_for_def)
  have D: "disk_ok D" using assms(2) s by simp
  show ?thesis
  proof (cases "NewDispatcher (p_names P) (childOptions P least c)")
    case (Inr d)
    then have r: "registry_ok (registry d)" using assms(3) by (auto simp: NewDispatcher_def childOptions_def split: if_splits)
    obtain w a where w: "dispatch (k_fuel k) d (k_env k) True (boot D (k_tick k)) = (w, a)" by fastforce
    have "walk_ok s (map Writes (wlog w))" unfolding s(1) by (rule walk_run [OF dispatch_runs(1) [OF r D w] D s(2)])
    moreover have "walk_ok s (map Writes (take n (wlog w)))" for n
      using walk_prefix [OF calculation map_mono_prefix [OF take_is_prefix]] .
    ultimately show ?thesis using Inr w s assms(2)
      by (simp add: resume_child_def Resume_def split: option.split)
  qed (simp add: resume_child_def assms(2) split: option.split)
qed

lemma one_walk:
  assumes "speaks_for c s" "slot_ok s" "registry_ok (p_registry P)"
  shows "walk_ok s (fst (one P least k c out s))"
proof (cases "cl_provision c = ProvisionRefused \<or> cl_provision c = ProvisionOK")
  case True
  then show ?thesis using resume_walk [OF assms] assms(2) by (auto simp: one_def split: prod.split) (metis fst_conv)
next
  case False
  let ?mk = "makeWorkspace P k c out"
  note mw = makeWorkspace_walk [OF assms(1,2) _ _ refl]
  show ?thesis
  proof (cases "mk_claim ?mk")
    case None
    then show ?thesis using mw(1) False by (simp add: one_def Let_def)
  next
    case (Some c')
    let ?s = "fold apply_slot (mk_writes ?mk) s"
    have w: "walk_ok s (mk_writes ?mk)" and c: "speaks_for c' ?s" using mw Some False by blast+
    have "walk_ok ?s (fst (resume_child P least k c' (mk_out ?mk) ?s))"
      by (rule resume_walk [OF c _ assms(3)]) (use walk_end [OF w] in blast)
    from walk_append [OF w this] show ?thesis using False Some by (auto simp: one_def Let_def split: prod.split)
  qed
qed

lemma drive_one_walk:
  assumes "slot_ok s" "registry_ok (p_registry P)"
  shows "walk_ok s (pt_claimed (drive_one P least whole k parent sp s) @ pt_ran (drive_one P least whole k parent sp s))"
proof (cases "claim P k parent sp s")
  case (Pair ws r)
  note cw = claim_walk [OF Pair assms(1)]
  show ?thesis
  proof (cases r)
    case (Inl e)
    then show ?thesis using Pair cw(1) by (simp add: drive_one_def)
  next
    case (Inr c)
    let ?s = "fold apply_slot ws s"
    have "walk_ok ?s (fst (one P least k c out ?s))" for out
      by (rule one_walk [OF cw(2) [OF Inr] _ assms(2)]) (use walk_end [OF cw(1)] in blast)
    from walk_append [OF cw(1) this] show ?thesis
      using Pair Inr cw(1) by (auto simp: drive_one_def Let_def split: prod.split) (metis fst_conv)
  qed
qed

section \<open>The life of a candidate\<close>

text \<open>Any number of attempts at one candidate, each by a belay of its own on a machine of its own, each killed
  after some prefix of its writes.\<close>

inductive candidate_life :: "CandidateSpec \<Rightarrow> slot \<Rightarrow> slot \<Rightarrow> bool" for sp s where
  found: "candidate_life sp s s"
| attempted: "candidate_life sp s s1 \<Longrightarrow> registry_ok (p_registry P) \<Longrightarrow> pt = drive_one P least whole k parent sp s1 \<Longrightarrow>
    prefix us (pt_claimed pt @ pt_ran pt) \<Longrightarrow> candidate_life sp s (fold apply_slot us s1)"

lemma life_goes_on:
  assumes "candidate_life sp s s'" "slot_ok s"
  shows "goes_on s s' \<and> slot_ok s'"
  using assms
proof (induction rule: candidate_life.induct)
  case (attempted s1 P pt least whole k parent us)
  then have s1: "goes_on s s1" "slot_ok s1" by blast+
  have "goes_on s1 (fold apply_slot us s1) \<and> slot_ok (fold apply_slot us s1)"
    using drive_one_walk [OF s1(2) attempted.hyps(2)] attempted.hyps(3,4) unfolding walk_ok_def by blast
  with s1 show ?case using goes_on_trans by blast
qed simp

definition sample_parent :: Manifest where
  "sample_parent = Manifest0\<lparr>RunID := ''r''\<rparr>"

definition sample_block :: CandidateRun where
  "sample_block = \<lparr>ParentRunID = ''r'', CR_ID = ''c1'', Index = 1, CR_Workspace = Workspace0, Provision = ProvisionPending,
     ProvisionNote = [], CR_Envelope = \<lparr>E_LimitUSD = Fin 0, E_LimitTokens = 0\<rparr>\<rparr>"

definition sample_spec :: CandidateSpec where
  "sample_spec = \<lparr>Sp_ID = ''c1'', Sp_Index = 1, Sp_Source = ''/w'', Sp_Envelope = \<lparr>E_LimitUSD = Fin 0, E_LimitTokens = 0\<rparr>,
     Sp_Seed = NewState ''g'', Sp_Plan = []\<rparr>"

definition sample_slot :: "CandidateRun \<Rightarrow> slot" where
  "sample_slot b = Held (demo_disk\<lparr>D_Manifest := SetCandidate b Manifest0, ManifestVersion := ManifestSchemaVersion\<rparr>) []"

definition sample_pool :: Pool where
  "sample_pool = \<lparr>p_parent = demo\<lparr>spell := (\<lambda>_. ''said'')\<rparr>, p_registry = registry demo, p_names = [''plan''],
     p_text = (\<lambda>_. \<lparr>cx_digest = [], cx_snapshot = Map.empty, cx_agent = Agent Manifest0, cx_plan = M_ArchivedPlan Manifest0\<rparr>),
     p_isolator = True, p_reclaims = True, p_spell = (\<lambda>_. [])\<rparr>"

definition sample_meets :: "created \<Rightarrow> Meets_Candidate" where
  "sample_meets made = \<lparr>k_now = 1, k_layout = None, k_lstat = None, k_stat = None, k_through = False, k_readdir = None, k_remove = None,
     k_tmp = ''7'', k_fresh = None, k_load = None, k_raise = IO_ok, k_admitted = True, k_reclaim = None, k_create = made, k_record = None,
     k_made = IO_ok, k_refuse = IO_ok, k_resume = None, k_fuel = 3, k_env = demo_env, k_tick = 0, k_panic = None,
     k_journal = None, k_manifest = None, k_state = None\<rparr>"

definition sample_attempt :: "created \<Rightarrow> slot \<Rightarrow> part" where
  "sample_attempt made = drive_one sample_pool zeroUsage True (sample_meets made) sample_parent sample_spec"

definition refused_block :: CandidateRun where
  "refused_block = sample_block\<lparr>Provision := ProvisionRefused, ProvisionNote := ''said''\<rparr>"

lemma sample_slot_ok: "slot_ok (sample_slot b)"
  by (simp add: sample_slot_def demo_disk_ok)

lemma sample_registry: "registry_ok (p_registry sample_pool)"
  using demo_registry by (simp only: sample_pool_def Pool.simps)

lemma sample_refused:
  "fold apply_slot (pt_claimed (sample_attempt (CreateUnsupported ''no copy here'') (sample_slot sample_block))
     @ pt_ran (sample_attempt (CreateUnsupported ''no copy here'') (sample_slot sample_block))) (sample_slot sample_block)
   = sample_slot refused_block"
  by (simp add: sample_attempt_def drive_one_def claim_def sample_meets_def sample_slot_def adopt_def sample_block_def
      SetCandidate_def raiseEnvelope_def sample_spec_def Let_def one_def makeWorkspace_def sample_pool_def refuse_def
      save_manifest_def with_block_def refused_block_def ProvisionPending_def ProvisionOK_def ProvisionRefused_def)

lemma sample_step:
  "candidate_life sample_spec s (fold apply_slot (pt_claimed (sample_attempt made s) @ pt_ran (sample_attempt made s)) s)"
  by (rule candidate_life.attempted [OF candidate_life.found sample_registry sample_attempt_def [THEN fun_cong] prefix_order.refl])

lemma sample_life: "candidate_life sample_spec (sample_slot sample_block) (sample_slot refused_block)"
  using sample_step [of "sample_slot sample_block" "CreateUnsupported ''no copy here''"] unfolding sample_refused .

text \<open>
  C20. A candidate is never started twice and nothing of it is taken back. Over any number of attempts, each killed
  after any of its writes, a directory that holds a candidate's run goes on holding that candidate of that parent and
  its plan; its journal is only extended, its snapshots are kept, its ceiling is never lowered, and an answer of its
  isolator, once recorded, stands. A symbolic link, a file, a directory without a manifest that holds a name no
  candidate's does, and a run that is not a candidate's are left as they are.
\<close>

theorem candidate_goes_on:
  assumes "candidate_life sp s s'" "slot_ok s"
  shows "goes_on s s' \<and> slot_ok s'"
  by (rule life_goes_on [OF assms])

theorem candidate_goes_on_witness:
  "goes_on (sample_slot sample_block) (sample_slot refused_block) \<and> Provision sample_block \<noteq> Provision refused_block"
proof -
  have "Provision sample_block \<noteq> Provision refused_block"
    by (simp add: sample_block_def refused_block_def ProvisionPending_def ProvisionRefused_def)
  then show ?thesis using candidate_goes_on [OF sample_life sample_slot_ok] by blast
qed

text \<open>A candidate whose isolator has answered, at the next attempt.\<close>

lemma drive_one_settled:
  assumes "slot_ok s" "s = Held D plan" "M_Candidate (D_Manifest D) = Some b" "Provision b = ProvisionOK \<or> Provision b = ProvisionRefused"
    and pt: "pt = drive_one P least whole k parent sp s"
  shows "\<not> pt_asked pt \<and> (Provision b = ProvisionRefused \<longrightarrow> pt_ran pt = [] \<and>
    (Co_Err (pt_out pt) = None \<and> whole \<and> k_admitted k \<longrightarrow>
      Co_Provision (pt_out pt) = ProvisionRefused \<and> Co_Note (pt_out pt) = ProvisionNote b))"
proof (cases "claim P k parent sp s")
  case (Pair ws r)
  note cw = claim_walk [OF Pair assms(1)]
  show ?thesis
  proof (cases r)
    case (Inl e)
    then show ?thesis using Pair by (simp add: pt drive_one_def)
  next
    case (Inr c)
    have "goes_on s (fold apply_slot ws s)" using walk_end [OF cw(1)] ..
    then obtain D' b' where "fold apply_slot ws s = Held D' plan" "M_Candidate (D_Manifest D') = Some b'" "block_kept b b'"
      using assms(2,3) by auto
    with cw(2) [OF Inr] have c: "cl_provision c = Provision b" "Provision b = ProvisionRefused \<longrightarrow> cl_note c = ProvisionNote b"
      using assms(4) by (auto simp: speaks_for_def block_kept_def)
    have "ProvisionOK \<noteq> ProvisionRefused" by (simp add: ProvisionOK_def ProvisionRefused_def)
    then show ?thesis using Pair Inr c assms(4)
      by (auto simp: pt drive_one_def Let_def one_def split: prod.split)
  qed
qed

text \<open>
  C21. The isolator's answer is final. Once a candidate's manifest says its workspace was made or was refused, no later
  attempt, over any number of crashes, asks the isolator for one again, and a refused candidate is never run: the
  attempt changes nothing after its claim and reports the refusal with the note it was recorded with.
\<close>

theorem isolator_answer_is_final:
  assumes "candidate_life sp (Held D plan) s" "disk_ok D" "M_Candidate (D_Manifest D) = Some b"
    "Provision b = ProvisionOK \<or> Provision b = ProvisionRefused" "pt = drive_one P least whole k parent sp s"
  shows "\<not> pt_asked pt \<and> (Provision b = ProvisionRefused \<longrightarrow> pt_ran pt = [] \<and>
    (Co_Err (pt_out pt) = None \<and> whole \<and> k_admitted k \<longrightarrow>
      Co_Provision (pt_out pt) = ProvisionRefused \<and> Co_Note (pt_out pt) = ProvisionNote b))"
proof -
  have "goes_on (Held D plan) s \<and> slot_ok s" using life_goes_on [OF assms(1)] assms(2) by simp
  then obtain D' b' where s: "s = Held D' plan" "M_Candidate (D_Manifest D') = Some b'" "block_kept b b'" and ok: "slot_ok s"
    using assms(3) by auto
  have kept: "Provision b' = Provision b" "Provision b = ProvisionRefused \<longrightarrow> ProvisionNote b' = ProvisionNote b"
    using s(3) assms(4) by (auto simp: block_kept_def)
  from drive_one_settled [OF ok s(1,2) _ assms(5)] kept assms(4) show ?thesis by simp
qed

theorem isolator_answer_is_final_witness:
  "\<not> pt_asked (sample_attempt (CreateFailed []) (sample_slot refused_block)) \<and>
   Co_Note (pt_out (sample_attempt (CreateFailed []) (sample_slot refused_block))) = ''said''"
proof -
  let ?pt = "sample_attempt (CreateFailed []) (sample_slot refused_block)" and ?D = "demo_disk\<lparr>D_Manifest := SetCandidate refused_block Manifest0, ManifestVersion := ManifestSchemaVersion\<rparr>"
  have D: "disk_ok ?D" "M_Candidate (D_Manifest ?D) = Some refused_block" by (simp_all add: demo_disk_ok SetCandidate_def)
  have r: "Provision refused_block = ProvisionRefused" "ProvisionNote refused_block = ''said''" by (simp_all add: refused_block_def)
  have "Co_Err (pt_out ?pt) = None"
    by (simp add: sample_attempt_def drive_one_def claim_def sample_meets_def sample_slot_def adopt_def refused_block_def sample_block_def
      SetCandidate_def raiseEnvelope_def sample_spec_def Let_def one_def named_outcome_def)
  with isolator_answer_is_final [OF candidate_life.found D _ sample_attempt_def [THEN fun_cong]] r
  show ?thesis by (simp add: sample_slot_def sample_meets_def)
qed

lemma funds_not_contract: "affordable rc n \<noteq> Inl (FanoutContract e)" "Envelopes b bc n \<noteq> Inl (FanoutContract e)"
  by (simp_all add: affordable_def Envelopes_def Let_def split: option.split sum.split)

text \<open>The pool as the fanout node is given it.\<close>

definition children :: "Pool \<Rightarrow> Meets_Pool \<Rightarrow> (string \<Rightarrow> slot) \<Rightarrow> runner" where
  "children P po slots = \<lparr>r_run = Pool_Run P po slots, r_claimed = Pool_Claimed po slots\<rparr>"

text \<open>
  C33. The pool keeps its contract. Whatever is in the candidates' directories and whatever happens to each of them, a
  fanout node over the pool is never given an outcome it cannot place against the candidate it asked for.
\<close>

theorem fanout_over_pool_places: "snd (Fanout_Run say m read (Some (children P po slots)) rc) \<noteq> Some (FanoutContract e)"
proof (cases "checkConfig (Some (children P po slots)) rc")
  case (Inr x)
  then obtain n where x: "x = (children P po slots, n)" by (auto simp: checkConfig_def Let_def split: if_splits)
  have "snd (after_run say m (buildSpecs rc plan env (nat n)) n (r_run (children P po slots) (buildSpecs rc plan env (nat n)))) \<noteq> Some (FanoutContract e)"
    for plan env by (simp add: children_def pool.no_contract_fault)
  then show ?thesis unfolding Fanout_Run_def Inr x
    by (auto simp: Let_def fanout_readPlan_def funds_not_contract split: sum.splits option.splits)
qed (auto simp: Fanout_Run_def checkConfig_def Let_def split: if_splits)

end
