(* ===== verification/Plan_Gate.thy ===== *)
theory Plan_Gate
  imports Children Queue_Driver Work_Nodes
begin

text \<open>
  internal/nodes/plan and approve with the commands of internal/cli that act on a waiting plan: the plan node
  writes the plan, the approve node waits for a person, who may edit the file, approve it, or ask for another.
  The artifacts of a run are a map from names to contents; \<open>digest\<close> is the SHA-256 digest.
\<close>

section \<open>The plan as an artifact\<close>

definition path_Base :: "string \<Rightarrow> string" where
  "path_Base p =
     (if p = [] then ''.''
      else let t = dropWhile (\<lambda>c. c = CHR ''/'') (rev p); b = rev (takeWhile (\<lambda>c. c \<noteq> CHR ''/'') t)
        in if b = [] then ''/'' else b)"

text \<open>\<open>ArtifactPath\<close> relative to the run directory, for a layout that has one.\<close>

definition artifact_rel :: "string \<Rightarrow> string option" where
  "artifact_rel name =
     (if validateSegment name \<noteq> None then None else Some (if name = ''.'' then ''artifacts'' else ''artifacts/'' @ name))"

datatype plan_error = PlanNotRecorded | PlanBadName string | PlanNotArtifact string string | PlanUnreadable string | PlanEmpty | PlanNotUTF8

definition PlanArtifact :: "string \<Rightarrow> (plan_error, string) result" where
  "PlanArtifact recorded =
     (if recorded = [] then Inl PlanNotRecorded
      else let name = path_Base recorded in
        case artifact_rel name of
          None \<Rightarrow> Inl (PlanBadName recorded)
        | Some rel \<Rightarrow> if recorded \<noteq> name \<and> recorded \<noteq> rel then Inl (PlanNotArtifact recorded rel) else Inr name)"

text \<open>\<open>utf8.Valid\<close>.\<close>

function utf8_Valid :: "string \<Rightarrow> bool" where
  "utf8_Valid [] = True"
| "utf8_Valid (c # rest) =
     (let (r, n) = DecodeRune c rest in \<not> (r = RuneError \<and> n = 1) \<and> utf8_Valid (drop (n - 1) rest))"
  by pat_completeness auto
termination by (relation "measure length") auto

declare utf8_Valid.simps(2) [simp del]

definition CheckPlan :: "string \<Rightarrow> plan_error option" where
  "CheckPlan plan = (if TrimSpace plan = [] then Some PlanEmpty else if \<not> utf8_Valid plan then Some PlanNotUTF8 else None)"

definition unapprovable :: "plan_error option \<Rightarrow> bool" where
  "unapprovable e \<longleftrightarrow> e = Some PlanEmpty \<or> e = Some PlanNotUTF8"

definition approve_readPlan :: "(string \<Rightarrow> (string, string) result) \<Rightarrow> Plan \<Rightarrow> (plan_error, string) result" where
  "approve_readPlan read p =
     (case PlanArtifact (P_Path p) of
        Inl e \<Rightarrow> Inl e
      | Inr name \<Rightarrow>
          (case read name of
             Inl e \<Rightarrow> Inl (PlanUnreadable e)
           | Inr data \<Rightarrow> (case CheckPlan data of Some e \<Rightarrow> Inl e | None \<Rightarrow> Inr data)))"

definition ReplacedArtifact :: "int \<Rightarrow> string" where
  "ReplacedArtifact request = ''plan-replaced-'' @ Itoa request @ ''.md''"

section \<open>plan\<close>

definition served :: "Regeneration \<Rightarrow> Regeneration" where
  "served r = (if Served r < Request r then r\<lparr>Served := Request r\<rparr> else r)"

definition previousPlanStands :: "(node_note \<Rightarrow> string) \<Rightarrow> (string \<Rightarrow> string) \<Rightarrow> (string \<Rightarrow> (string, string) result) \<Rightarrow> RunContext \<Rightarrow>
    Regeneration \<Rightarrow> usage \<Rightarrow> Result option" where
  "previousPlanStands say digest read rc request u =
     (if Request request = 0 then None
      else case approve_readPlan read (B_Plan (RC_State rc)) of
        Inl _ \<Rightarrow> None
      | Inr data \<Rightarrow> Some ((routed NodeApprove (Patch0\<lparr>Patch_Plan := Some ((B_Plan (RC_State rc))\<lparr>Digest := digest data,
          Approved := False, Regenerate := served request\<rparr>)\<rparr>) (say (OtherNote ''stands'')))\<lparr>Res_Usage := u\<rparr>))"

datatype plan_fault = PlanFault node_fault | PlanAgentEmpty | PlanArchive string

definition workEntry :: "string \<Rightarrow> string" where
  "workEntry work = (if work = [] then NodeCode else work)"

definition plan_path :: string where "plan_path = ''artifacts/plan.md''"

text \<open>\<open>n_files\<close> is the evidence of the request, \<open>archived\<close> the evidence of the response. The last component is what was
  written as the plan: the node's own document, or, when writing it failed, whatever the failure left.\<close>

definition Plan_Run :: "string \<Rightarrow> (node_note \<Rightarrow> string) \<Rightarrow> (string \<Rightarrow> string) \<Rightarrow> Meets \<Rightarrow> (string \<Rightarrow> (string, string) result) \<Rightarrow> agent option \<Rightarrow>
    string option \<Rightarrow> RunContext \<Rightarrow> (Result \<times> plan_fault option) \<times> string option" where
  "Plan_Run work say digest m read agent archived rc =
     (if n_cancelled m then ((Result0, Some (PlanFault FaultCancelled)), None)
      else case agent of
        None \<Rightarrow> ((Result0, Some (PlanFault FaultNoAgent)), None)
      | Some reply \<Rightarrow>
          if RC_Workspace rc = [] then ((Result0, Some (PlanFault FaultNoWorkspace)), None)
          else case n_files m of
            Some e \<Rightarrow> ((Result0, Some (PlanFault (FaultNotRecorded e))), None)
          | None \<Rightarrow>
              (let request = Regenerate (B_Plan (RC_State rc)) in
               case reply of
                 Inl (u, e) \<Rightarrow>
                   (case previousPlanStands say digest read rc request u of
                      Some ans \<Rightarrow> ((ans, None), None)
                    | None \<Rightarrow> ((spent u, Some (PlanFault (FaultAdapter e))), None))
               | Inr resp \<Rightarrow>
                   (case archived of
                      Some e \<Rightarrow> ((spent (A_Usage resp), Some (PlanFault (FaultNotRecorded e))), None)
                    | None \<Rightarrow>
                        if TrimSpace (A_Text resp) = [] then
                          (case previousPlanStands say digest read rc request (A_Usage resp) of
                             Some ans \<Rightarrow> ((ans, None), None)
                           | None \<Rightarrow> ((spent (A_Usage resp), Some PlanAgentEmpty), None))
                        else
                          (let doc = TrimSpace (A_Text resp) @ [CHR 0x0A] in
                           case n_artifact m of
                             Inl left \<Rightarrow> ((spent (A_Usage resp), Some (PlanArchive left)), Some left)
                           | Inr _ \<Rightarrow>
                               (let next = (if Approval (Cfg_Graph (RC_Config rc)) \<or> 0 < Request request then NodeApprove else workEntry work) in
                                (((routed next (Patch0\<lparr>Patch_Plan := Some \<lparr>P_Path = plan_path, Approved = False, Digest = digest doc,
                                   Regenerate = served request\<rparr>\<rparr>) (say (OtherNote ''plan'')))\<lparr>Res_Usage := A_Usage resp\<rparr>, None), Some doc))))))"

section \<open>approve\<close>

datatype approve_note = PlanRegenerate int | PlanUnapprovable plan_error | PlanApproved string "string option"
  | PlanApprovalOff string "string option" | PlanWaiting

datatype approve_fault = ApproveCancelled | ApprovePlan plan_error

definition Approve_Run :: "string \<Rightarrow> (approve_note \<Rightarrow> string) \<Rightarrow> (string \<Rightarrow> string) \<Rightarrow> Meets \<Rightarrow> (string \<Rightarrow> (string, string) result) \<Rightarrow>
    RunContext \<Rightarrow> Result \<times> approve_fault option" where
  "Approve_Run work say digest m read rc =
     (if n_cancelled m then (Result0, Some ApproveCancelled)
      else
        let plan = B_Plan (RC_State rc); found = approve_readPlan read plan;
            current = (case found of Inl _ \<Rightarrow> [] | Inr data \<Rightarrow> digest data);
            edited = (is_ok found \<and> Digest plan \<noteq> [] \<and> Digest plan \<noteq> current);
            patch = (if is_ok found \<and> Digest plan \<noteq> current then Patch0\<lparr>Patch_Plan := Some (plan\<lparr>Digest := current\<rparr>)\<rparr> else Patch0);
            next = workEntry work; noted = (if edited then Some current else None) in
        if Pending (Regenerate plan) then (routed NodePlan patch (say (PlanRegenerate (Request (Regenerate plan)))), None)
        else case found of
          Inl e \<Rightarrow> if unapprovable (Some e) then (ended StatusPaused Patch0 (say (PlanUnapprovable e)), None)
            else (Result0, Some (ApprovePlan e))
        | Inr data \<Rightarrow>
            if Approved plan then (routed next patch (say (PlanApproved next noted)), None)
            else if \<not> Approval (Cfg_Graph (RC_Config rc)) then (routed next patch (say (PlanApprovalOff next noted)), None)
            else (ended StatusPaused patch (say PlanWaiting), None))"

section \<open>What a person does to a waiting plan\<close>

text \<open>\<open>keepReplacedPlan\<close>: what is kept under the request's name, when there is a plan to keep. The artifact is written
  atomically, so a failure leaves none of it.\<close>

definition keepReplacedPlan :: "(string \<Rightarrow> (string, string) result) \<Rightarrow> Plan \<Rightarrow> int \<Rightarrow> (string \<times> string) option" where
  "keepReplacedPlan read p request =
     (case PlanArtifact (P_Path p) of
        Inl _ \<Rightarrow> None
      | Inr name \<Rightarrow>
          (case read name of
             Inl _ \<Rightarrow> None
           | Inr body \<Rightarrow>
               if CheckPlan body \<noteq> None \<or> name = ReplacedArtifact request then None else Some (ReplacedArtifact request, body)))"

definition next_request :: "string \<Rightarrow> Regeneration \<Rightarrow> Regeneration" where
  "next_request guidance r =
     (if Pending r then r else r\<lparr>Request := wrap64 (max (Request r) (Served r) + 1)\<rparr>)\<lparr>Guidance := guidance\<rparr>"

definition requestRegeneration :: "string \<Rightarrow> (string \<Rightarrow> (string, string) result) \<Rightarrow> Blackboard \<Rightarrow> (string \<times> string) option \<times> Blackboard" where
  "requestRegeneration guidance read st =
     (let request = next_request guidance (Regenerate (B_Plan st))
      in (keepReplacedPlan read (B_Plan st) (Request request),
          SetRegeneration request (st\<lparr>B_Plan := (B_Plan st)\<lparr>Approved := False\<rparr>\<rparr>)))"

section \<open>The gate as a walk\<close>

text \<open>What a run is while its plan is made and approved: its blackboard, its artifacts, the node that is next and whether
  the gate has asked. A step is a node that ran, one that was cut short, or a person's act; an act on the plan is
  taken only while the gate has asked. A plan node is cut short before its patch is on the disk (\<open>PlanCut\<close>, whatever it left in the
  file) or after (\<open>PlanSaved\<close>); the gate writes nothing but its patch, so it is cut short after that (\<open>GateSaved\<close>). A node that
  was cut short is next again, and has asked nothing that was not asked before it.\<close>

record gate =
  g_board :: Blackboard
  g_art :: "string \<rightharpoonup> string"
  g_at :: string
  g_waits :: bool

datatype gate_event = Planned bool | PlanCut | PlanSaved | Gated bool | GateSaved | Edited | ApprovedIt | AskedFor | AskCut

definition plan_md :: string where "plan_md = ''plan.md''"

definition read_art :: "(string \<rightharpoonup> string) \<Rightarrow> string \<Rightarrow> (string, string) result" where
  "read_art art name = (case art name of None \<Rightarrow> Inl name | Some d \<Rightarrow> Inr d)"

definition put_kept :: "(string \<times> string) option \<Rightarrow> (string \<rightharpoonup> string) \<Rightarrow> (string \<rightharpoonup> string)" where
  "put_kept kept art = (case kept of None \<Rightarrow> art | Some (n, d) \<Rightarrow> art(n \<mapsto> d))"

definition put_plan :: "string option \<Rightarrow> (string \<rightharpoonup> string) \<Rightarrow> (string \<rightharpoonup> string)" where
  "put_plan doc art = (case doc of None \<Rightarrow> art | Some d \<Rightarrow> art(plan_md \<mapsto> d))"

inductive gate_step :: "string \<Rightarrow> (string \<Rightarrow> string) \<Rightarrow> gate \<Rightarrow> gate_event \<Rightarrow> gate \<Rightarrow> bool" for work digest where
  planned: "g_at g = NodePlan \<Longrightarrow> RC_State rc = g_board g \<Longrightarrow>
    Plan_Run work say digest m (read_art (g_art g)) agent archived rc = ((ans, None), doc) \<Longrightarrow>
    Apply (Res_Patch ans) (g_board g) = Inr st \<Longrightarrow>
    gate_step work digest g (Planned (Approval (Cfg_Graph (RC_Config rc))))
      \<lparr>g_board = st, g_art = put_plan doc (g_art g), g_at = Res_Next ans, g_waits = False\<rparr>"
| plan_cut: "g_at g = NodePlan \<Longrightarrow> gate_step work digest g PlanCut (g\<lparr>g_art := put_plan left (g_art g)\<rparr>)"
| plan_saved: "g_at g = NodePlan \<Longrightarrow> RC_State rc = g_board g \<Longrightarrow>
    Plan_Run work say digest m (read_art (g_art g)) agent archived rc = ((ans, None), doc) \<Longrightarrow>
    Apply (Res_Patch ans) (g_board g) = Inr st \<Longrightarrow>
    gate_step work digest g PlanSaved (g\<lparr>g_board := st, g_art := put_plan doc (g_art g)\<rparr>)"
| gate_saved: "g_at g = NodeApprove \<Longrightarrow> RC_State rc = g_board g \<Longrightarrow>
    Approve_Run work say digest m (read_art (g_art g)) rc = (ans, None) \<Longrightarrow>
    Apply (Res_Patch ans) (g_board g) = Inr st \<Longrightarrow> (asked \<longrightarrow> g_waits g) \<Longrightarrow>
    gate_step work digest g GateSaved (g\<lparr>g_board := st, g_waits := asked\<rparr>)"
| gated: "g_at g = NodeApprove \<Longrightarrow> RC_State rc = g_board g \<Longrightarrow>
    Approve_Run work say digest m (read_art (g_art g)) rc = (ans, None) \<Longrightarrow>
    Apply (Res_Patch ans) (g_board g) = Inr st \<Longrightarrow>
    gate_step work digest g (Gated (Approval (Cfg_Graph (RC_Config rc))))
      \<lparr>g_board = st, g_art = g_art g, g_at = (if Res_Status ans = StatusPaused then NodeApprove else Res_Next ans),
       g_waits = (Res_Status ans = StatusPaused)\<rparr>"
| edited: "gate_step work digest g Edited (g\<lparr>g_art := (g_art g)(plan_md := c)\<rparr>)"
| approved: "g_at g = NodeApprove \<Longrightarrow> g_waits g \<Longrightarrow>
    gate_step work digest g ApprovedIt (g\<lparr>g_board := fst (approvePlan (g_board g))\<rparr>)"
| asked: "g_at g = NodeApprove \<Longrightarrow> g_waits g \<Longrightarrow> requestRegeneration guidance (read_art (g_art g)) (g_board g) = (kept, st) \<Longrightarrow>
    gate_step work digest g AskedFor (g\<lparr>g_board := st, g_art := put_kept kept (g_art g)\<rparr>)"
| ask_cut: "g_at g = NodeApprove \<Longrightarrow> g_waits g \<Longrightarrow> requestRegeneration guidance (read_art (g_art g)) (g_board g) = (kept, st) \<Longrightarrow>
    gate_step work digest g AskCut (g\<lparr>g_art := put_kept kept (g_art g)\<rparr>)"

inductive gate_walk :: "string \<Rightarrow> (string \<Rightarrow> string) \<Rightarrow> gate \<Rightarrow> gate_event list \<Rightarrow> gate \<Rightarrow> bool" for work digest g where
  here: "gate_walk work digest g [] g"
| further: "gate_walk work digest g evs g1 \<Longrightarrow> gate_step work digest g1 e g2 \<Longrightarrow> gate_walk work digest g (evs @ [e]) g2"

section \<open>What the nodes decide\<close>

abbreviation plan_of :: "gate \<Rightarrow> Plan" where "plan_of g \<equiv> B_Plan (g_board g)"

lemma served_facts [simp]: "\<not> Pending (served r)" "Request (served r) = Request r" "Served (served r) = max (Served r) (Request r)"
  by (auto simp: served_def Pending_def)

lemma Plan_Run_ok:
  assumes "Plan_Run work say digest m read agent archived rc = ((ans, None), doc)"
  obtains (written) d where "doc = Some d"
      "Res_Patch ans = Patch0\<lparr>Patch_Plan := Some \<lparr>P_Path = plan_path, Approved = False, Digest = digest d,
         Regenerate = served (Regenerate (B_Plan (RC_State rc)))\<rparr>\<rparr>"
      "Res_Next ans = (if Approval (Cfg_Graph (RC_Config rc)) \<or> 0 < Request (Regenerate (B_Plan (RC_State rc))) then NodeApprove else workEntry work)"
  | (stands) data where "doc = None"
      "Res_Patch ans = Patch0\<lparr>Patch_Plan := Some ((B_Plan (RC_State rc))\<lparr>Digest := digest data, Approved := False,
         Regenerate := served (Regenerate (B_Plan (RC_State rc)))\<rparr>)\<rparr>"
      "Res_Next ans = NodeApprove"
proof -
  let ?request = "Regenerate (B_Plan (RC_State rc))"
  obtain reply where a: "agent = Some reply" and c: "\<not> n_cancelled m" "RC_Workspace rc \<noteq> []" "n_files m = None"
    using assms by (auto simp: Plan_Run_def split: if_splits option.splits)
  have st: thesis if "previousPlanStands say digest read rc ?request u = Some ans" "doc = None" for u
    using that stands by (auto simp: previousPlanStands_def split: if_splits sum.splits)
  show thesis
  proof (cases reply)
    case (Inl x)
    then show thesis using assms a c st by (cases x) (auto simp: Plan_Run_def Let_def split: option.splits)
  next
    case (Inr resp)
    show thesis
    proof (cases "TrimSpace (A_Text resp) = []")
      case True
      then show thesis using assms a c Inr st by (auto simp: Plan_Run_def Let_def split: option.splits)
    next
      case False
      then show thesis using assms a c Inr written by (auto simp: Plan_Run_def Let_def split: option.splits sum.splits)
    qed
  qed
qed

lemma Approve_Run_ok:
  assumes "Approve_Run work say digest m read rc = (ans, None)"
  obtains (regenerate) "Pending (Regenerate (B_Plan (RC_State rc)))" "Res_Next ans = NodePlan" "Res_Status ans = StatusOK"
  | (waits) "Res_Status ans = StatusPaused"
  | (leaves) data where "\<not> Pending (Regenerate (B_Plan (RC_State rc)))" "approve_readPlan read (B_Plan (RC_State rc)) = Inr data"
      "Approved (B_Plan (RC_State rc)) \<or> \<not> Approval (Cfg_Graph (RC_Config rc))"
      "Res_Patch ans = (if Digest (B_Plan (RC_State rc)) \<noteq> digest data
         then Patch0\<lparr>Patch_Plan := Some ((B_Plan (RC_State rc))\<lparr>Digest := digest data\<rparr>)\<rparr> else Patch0)"
      "Res_Next ans = workEntry work" "Res_Status ans = StatusOK"
proof (cases "Pending (Regenerate (B_Plan (RC_State rc)))")
  case True
  then show thesis using assms regenerate by (auto simp: Approve_Run_def Let_def split: if_splits)
next
  case False
  show thesis
  proof (cases "approve_readPlan read (B_Plan (RC_State rc))")
    case (Inl e)
    then show thesis using assms False waits by (auto simp: Approve_Run_def Let_def split: if_splits)
  next
    case (Inr data)
    show thesis
    proof (cases "Approved (B_Plan (RC_State rc)) \<or> \<not> Approval (Cfg_Graph (RC_Config rc))")
      case True
      from assms False Inr True show thesis
        by (intro leaves [OF False Inr True]) (auto simp: Approve_Run_def Let_def split: if_splits)
    next
      case False
      with assms \<open>\<not> Pending _\<close> Inr show thesis by (intro waits) (auto simp: Approve_Run_def Let_def split: if_splits)
    qed
  qed
qed

lemma Apply_plan:
  "Apply Patch0 s = Inr s"
  "Apply (Patch0\<lparr>Patch_Plan := Some p\<rparr>) s = Inr st \<Longrightarrow> B_Plan st = p"
  by (auto simp: Apply_def Apply_fields_def Patch0_def when_set_def requireRegeneration_eq)

lemma Approve_Run_plan:
  assumes "Approve_Run work say digest m read rc = (ans, None)" "Apply (Res_Patch ans) (RC_State rc) = Inr st"
  shows "B_Plan st = B_Plan (RC_State rc) \<or> (\<exists>data. B_Plan st = (B_Plan (RC_State rc))\<lparr>Digest := digest data\<rparr>)"
proof -
  have "Res_Patch ans = Patch0 \<or> (\<exists>data. Res_Patch ans = Patch0\<lparr>Patch_Plan := Some ((B_Plan (RC_State rc))\<lparr>Digest := digest data\<rparr>)\<rparr>)"
    using assms(1) by (cases "approve_readPlan read (B_Plan (RC_State rc))") (auto simp: Approve_Run_def Let_def split: if_splits)
  then show ?thesis using assms(2) Apply_plan by fastforce
qed

lemma approvePlan_facts:
  "Approved (B_Plan (fst (approvePlan st)))" "\<not> Pending (Regenerate (B_Plan (fst (approvePlan st))))"
  by (auto simp: approvePlan_def Let_def SetRegeneration_def requireRegeneration_eq Pending_def)

lemma requestRegeneration_plan:
  "requestRegeneration guidance read st = (kept, st') \<Longrightarrow>
     B_Plan st' = (B_Plan st)\<lparr>Approved := False, Regenerate := next_request guidance (Regenerate (B_Plan st))\<rparr> \<and>
     kept = keepReplacedPlan read (B_Plan st) (Request (Regenerate (B_Plan st')))"
  by (auto simp: requestRegeneration_def Let_def SetRegeneration_def requireRegeneration_eq)

section \<open>Approval over a walk\<close>

text \<open>Whether what last made or unmade an approval was a person's approval.\<close>

definition neutral :: "gate_event \<Rightarrow> bool" where
  "neutral e = (case e of Edited \<Rightarrow> True | AskCut \<Rightarrow> True | Gated _ \<Rightarrow> True | GateSaved \<Rightarrow> True | _ \<Rightarrow> False)"

definition approved_since :: "gate_event list \<Rightarrow> bool" where
  "approved_since evs = (case dropWhile neutral (rev evs) of ApprovedIt # _ \<Rightarrow> True | _ \<Rightarrow> False)"

lemma approved_since_snoc [simp]:
  "approved_since (evs @ [e]) = (case e of ApprovedIt \<Rightarrow> True | Planned _ \<Rightarrow> False | PlanCut \<Rightarrow> False | PlanSaved \<Rightarrow> False | AskedFor \<Rightarrow> False | _ \<Rightarrow> approved_since evs)"
  by (cases e) (simp_all add: approved_since_def neutral_def)

definition approval_inv :: "gate \<Rightarrow> gate_event list \<Rightarrow> bool" where
  "approval_inv g evs \<longleftrightarrow> (Approved (plan_of g) \<longrightarrow> approved_since evs \<and> \<not> Pending (Regenerate (plan_of g)) \<and> g_at g \<noteq> NodePlan)"

lemma node_name_facts [simp]: "NodePlan \<noteq> NodeApprove" "NodeApprove \<noteq> NodePlan"
  by (simp_all add: NodePlan_def NodeApprove_def)

lemma approval_inv_step:
  assumes "gate_step work digest g e g'" "approval_inv g evs" "workEntry work \<noteq> NodePlan"
  shows "approval_inv g' (evs @ [e])"
  using assms
proof (induction rule: gate_step.induct)
  case (planned g rc say m agent archived ans doc st)
  have "\<not> Approved (B_Plan st)"
    by (rule Plan_Run_ok [OF planned.hyps(3)]) (use planned.hyps(4) Apply_plan(2) in fastforce)+
  then show ?case by (simp add: approval_inv_def)
next
  case (plan_saved g rc say m agent archived ans doc st)
  have "\<not> Approved (B_Plan st)"
    by (rule Plan_Run_ok [OF plan_saved.hyps(3)]) (use plan_saved.hyps(4) Apply_plan(2) in fastforce)+
  then show ?case by (simp add: approval_inv_def)
next
  case (gate_saved g rc say m ans st asked)
  have "Approved (B_Plan st) = Approved (plan_of g)" "Regenerate (B_Plan st) = Regenerate (plan_of g)"
    using Approve_Run_plan [OF gate_saved.hyps(3)] gate_saved.hyps(2,4) by auto
  then show ?case using gate_saved.prems gate_saved.hyps(1) by (simp add: approval_inv_def)
next
  case (gated g rc say m ans st)
  have p: "Approved (B_Plan st) = Approved (plan_of g)" "Regenerate (B_Plan st) = Regenerate (plan_of g)"
    using Approve_Run_plan [OF gated.hyps(3)] gated.hyps(2,4) by auto
  show ?case
    by (rule Approve_Run_ok [OF gated.hyps(3)])
      (use gated.prems p gated.hyps(2) in \<open>auto simp: approval_inv_def\<close>)
next
  case (approved g)
  then show ?case using approvePlan_facts by (simp add: approval_inv_def)
next
  case (asked g guidance kept st)
  then show ?case using requestRegeneration_plan [OF asked.hyps(3)] by (simp add: approval_inv_def)
qed (auto simp: approval_inv_def)

lemma approval_inv_walk:
  assumes "gate_walk work digest g evs g'" "\<not> Approved (plan_of g)" "workEntry work \<noteq> NodePlan"
  shows "approval_inv g' evs"
  using assms
proof (induction rule: gate_walk.induct)
  case (further evs g1 e g2)
  then show ?case using approval_inv_step by blast
qed (simp add: approval_inv_def)

lemma approve_readPlan_path: "P_Path p = P_Path q \<Longrightarrow> approve_readPlan read p = approve_readPlan read q"
  by (simp add: approve_readPlan_def)

lemma Gated_leaves:
  assumes "gate_step work digest g e g'" "e = Gated True \<or> e = Planned True" "g_at g' = workEntry work"
    "workEntry work \<notin> {NodePlan, NodeApprove}"
  shows "e = Gated True \<and> Approved (plan_of g) \<and> \<not> Pending (Regenerate (plan_of g')) \<and>
    (\<exists>data. approve_readPlan (read_art (g_art g')) (plan_of g') = Inr data \<and> Digest (plan_of g') = digest data)"
  using assms
proof (induction rule: gate_step.induct)
  case (planned g rc say m agent archived ans doc st)
  have "Res_Next ans = NodeApprove"
    by (rule Plan_Run_ok [OF planned.hyps(3)]) (use planned.prems(1) in auto)
  then show ?case using planned.prems by simp
next
  case (gated g rc say m ans st)
  have w: "workEntry work \<noteq> NodePlan" "workEntry work \<noteq> NodeApprove" using gated.prems(3) by auto
  show ?case
  proof (cases rule: Approve_Run_ok [OF gated.hyps(3)])
    case (3 data)
    have "B_Plan st = plan_of g\<lparr>Digest := digest data\<rparr>"
      using 3(4) gated.hyps(2,4) Apply_plan by (cases "Digest (plan_of g) = digest data") auto
    then show ?thesis using 3 gated.hyps(2) gated.prems(1) approve_readPlan_path [of "B_Plan st" "plan_of g"] by auto
  qed (use gated.prems(2) w in auto)
qed auto

text \<open>
  C13. No work on a plan nobody approved. Whatever a person and any number of resumes do, and wherever a plan node or the gate is cut
  short: when the run goes on to its work with approval on, a person approved the plan after it was last written and
  after any new one was last asked for, nobody is waiting for another, the plan in the file is one a person can
  read, and the blackboard records its digest.
\<close>

theorem work_needs_approval:
  assumes "gate_walk work digest g evs g1" "\<not> Approved (plan_of g)" "workEntry work \<notin> {NodePlan, NodeApprove}"
    "gate_step work digest g1 e g2" "e = Gated True \<or> e = Planned True" "g_at g2 = workEntry work"
  shows "approved_since evs \<and> \<not> Pending (Regenerate (plan_of g2)) \<and>
    (\<exists>data. approve_readPlan (read_art (g_art g2)) (plan_of g2) = Inr data \<and> Digest (plan_of g2) = digest data)"
  using approval_inv_walk [OF assms(1,2)] Gated_leaves [OF assms(4-6,3)] assms(3) by (simp add: approval_inv_def)

section \<open>The plan that was replaced\<close>

definition numbers_ok :: "int \<Rightarrow> Regeneration \<Rightarrow> bool" where
  "numbers_ok k r \<longleftrightarrow> 0 \<le> Served r \<and> Served r \<le> Request r \<and> Request r + k < 2 ^ 63"

lemma next_request_number:
  assumes "0 \<le> Served r" "Served r \<le> Request r" "Request r + 1 < 2 ^ 63"
  shows "Request r \<le> Request (next_request t r)" "Request (next_request t r) \<le> Request r + 1"
    "Served (next_request t r) = Served r" "Served r < Request (next_request t r)"
    "\<not> Pending r \<Longrightarrow> Request r < Request (next_request t r)"
  using assms by (auto simp: next_request_def Pending_def in64_def)

lemma ReplacedArtifact_inj: "0 \<le> a \<Longrightarrow> 0 \<le> b \<Longrightarrow> ReplacedArtifact a = ReplacedArtifact b \<longleftrightarrow> a = b"
proof
  assume a: "0 \<le> a" "0 \<le> b" "ReplacedArtifact a = ReplacedArtifact b"
  then have "Dispatcher.decimal (nat a) = Dispatcher.decimal (nat b)" unfolding ReplacedArtifact_def Itoa_def by simp
  then have "nat a = nat b" by (metis decimal_value)
  with a(1,2) show "a = b" by simp
qed simp

lemma ReplacedArtifact_plan [simp]: "ReplacedArtifact n \<noteq> plan_md" "plan_md \<noteq> ReplacedArtifact n"
  by (simp_all add: ReplacedArtifact_def plan_md_def)

lemma put_plan_other [simp]: "name \<noteq> plan_md \<Longrightarrow> put_plan doc art name = art name"
  by (simp add: put_plan_def split: option.split)

lemma keepReplacedPlan_name: "keepReplacedPlan read p n = Some (m, d) \<Longrightarrow> m = ReplacedArtifact n"
  by (auto simp: keepReplacedPlan_def split: sum.splits if_splits)

lemma put_kept_other: "name \<noteq> ReplacedArtifact n \<Longrightarrow> put_kept (keepReplacedPlan read p n) art name = art name"
  using keepReplacedPlan_name by (fastforce simp: put_kept_def split: option.split)

text \<open>What a step does to the numbers and to a copy that was kept: a copy of a served request is never written again, and
  one of a request still open only by a person's asking again.\<close>

lemma approvePlan_regenerate:
  "Regenerate (B_Plan (fst (approvePlan st))) \<in> {Regenerate (B_Plan st), (Regenerate (B_Plan st))\<lparr>Served := Request (Regenerate (B_Plan st))\<rparr>}"
  by (simp add: approvePlan_def Let_def SetRegeneration_def requireRegeneration_eq)

lemma gate_step_regenerate:
  assumes "gate_step work digest g e g'"
  obtains (planned) b where "e = Planned b" "Regenerate (plan_of g') = served (Regenerate (plan_of g))"
  | (asked) t where "e = AskedFor" "Regenerate (plan_of g') = next_request t (Regenerate (plan_of g))"
  | (approved) "e = ApprovedIt" "Regenerate (plan_of g') = (Regenerate (plan_of g))\<lparr>Served := Request (Regenerate (plan_of g))\<rparr>"
  | (saved) "e = PlanSaved" "Regenerate (plan_of g') = served (Regenerate (plan_of g))"
  | (same) "\<not> (\<exists>b. e = Planned b)" "Regenerate (plan_of g') = Regenerate (plan_of g)"
  using assms
proof (cases rule: gate_step.cases)
  case (planned rc say m agent archived ans doc st)
  have "Regenerate (B_Plan st) = served (Regenerate (plan_of g))"
    by (rule Plan_Run_ok [OF planned(5)]) (use planned(4,6) Apply_plan(2) in fastforce)+
  then show thesis using that(1) planned(1,2) by simp
next
  case (plan_saved rc say m agent archived ans doc st)
  have "Regenerate (B_Plan st) = served (Regenerate (plan_of g))"
    by (rule Plan_Run_ok [OF plan_saved(5)]) (use plan_saved(4,6) Apply_plan(2) in fastforce)+
  then show thesis using that(4) plan_saved(1,2) by simp
next
  case (gate_saved rc say m ans st asked)
  have "Regenerate (B_Plan st) = Regenerate (plan_of g)"
    using Approve_Run_plan [OF gate_saved(5)] gate_saved(4,6) by auto
  then show thesis using that(5) gate_saved(1,2) by simp
next
  case (gated rc say m ans st)
  have "Regenerate (B_Plan st) = Regenerate (plan_of g)"
    using Approve_Run_plan [OF gated(5)] gated(4,6) by auto
  then show thesis using that(5) gated(1,2) by simp
next
  case approved
  then show thesis using approvePlan_regenerate [of "g_board g"] that(3,5) by auto
next
  case (asked guidance kept st)
  then show thesis using requestRegeneration_plan [OF asked(5)] that(2) by simp
qed (use that(5) in simp_all)

lemma gate_step_numbers:
  assumes "gate_step work digest g e g'" "numbers_ok (k + 1) (Regenerate (plan_of g))" "0 \<le> k"
  shows "numbers_ok k (Regenerate (plan_of g'))" "Served (Regenerate (plan_of g)) \<le> Served (Regenerate (plan_of g'))"
    "Request (Regenerate (plan_of g)) \<le> Request (Regenerate (plan_of g'))"
    "\<exists>b. e = Planned b \<Longrightarrow> Request (Regenerate (plan_of g)) \<le> Served (Regenerate (plan_of g'))"
proof -
  let ?r = "Regenerate (plan_of g)" and ?r' = "Regenerate (plan_of g')"
  have r: "0 \<le> Served ?r" "Served ?r \<le> Request ?r" "Request ?r + k + 1 < 2 ^ 63" using assms(2) by (simp_all add: numbers_ok_def)
  have "numbers_ok k ?r' \<and> Served ?r \<le> Served ?r' \<and> Request ?r \<le> Request ?r' \<and> ((\<exists>b. e = Planned b) \<longrightarrow> Request ?r \<le> Served ?r')"
    using assms(1)
  proof (cases rule: gate_step_regenerate)
    case (asked t)
    show ?thesis using next_request_number [of ?r t] r assms(3) unfolding asked numbers_ok_def by simp
  qed (use r in \<open>simp_all add: numbers_ok_def\<close>)
  then show "numbers_ok k ?r'" "Served ?r \<le> Served ?r'" "Request ?r \<le> Request ?r'"
    "\<exists>b. e = Planned b \<Longrightarrow> Request ?r \<le> Served ?r'" by blast+
qed

lemma gate_step_keeps:
  assumes "gate_step work digest g e g'" "numbers_ok 1 (Regenerate (plan_of g))" "0 \<le> n"
    "n \<le> Served (Regenerate (plan_of g)) \<or> e \<noteq> AskedFor \<and> e \<noteq> AskCut"
  shows "g_art g' (ReplacedArtifact n) = g_art g (ReplacedArtifact n)"
proof -
  have ask: "put_kept kept (g_art g) (ReplacedArtifact n) = g_art g (ReplacedArtifact n)"
    if r: "requestRegeneration guidance (read_art (g_art g)) (g_board g) = (kept, st)" "n \<le> Served (Regenerate (plan_of g))"
    for guidance kept st
  proof -
    let ?n = "Request (next_request guidance (Regenerate (plan_of g)))"
    have "n < ?n" "0 \<le> ?n" using next_request_number [of "Regenerate (plan_of g)" guidance] assms(2,3) r(2)
      by (auto simp: numbers_ok_def)
    then have "ReplacedArtifact n \<noteq> ReplacedArtifact ?n" using ReplacedArtifact_inj assms(3) by simp
    moreover have "kept = keepReplacedPlan (read_art (g_art g)) (plan_of g) ?n" using requestRegeneration_plan [OF r(1)] by simp
    ultimately show ?thesis by (simp add: put_kept_other)
  qed
  show ?thesis using assms(1,4) ask by (cases rule: gate_step.cases) auto
qed

fun is_planned :: "gate_event \<Rightarrow> bool" where
  "is_planned (Planned _) \<longleftrightarrow> True"
| "is_planned e \<longleftrightarrow> False"

text \<open>No one asks again before the plan has been made again.\<close>

definition asks_wait :: "gate_event list \<Rightarrow> bool" where
  "asks_wait evs \<longleftrightarrow> AskedFor \<notin> set (takeWhile (\<lambda>e. \<not> is_planned e) evs) \<and> AskCut \<notin> set (takeWhile (\<lambda>e. \<not> is_planned e) evs)"

lemma asks_wait_snoc:
  "asks_wait (evs @ [e]) \<longleftrightarrow> asks_wait evs \<and> ((\<exists>x \<in> set evs. is_planned x) \<or> e \<noteq> AskedFor \<and> e \<noteq> AskCut)"
proof (cases "\<exists>x \<in> set evs. is_planned x")
  case True
  then have "takeWhile (\<lambda>e. \<not> is_planned e) (evs @ [e]) = takeWhile (\<lambda>e. \<not> is_planned e) evs" by (auto simp: takeWhile_append)
  then show ?thesis using True by (simp add: asks_wait_def)
next
  case False
  have t: "takeWhile (\<lambda>e. \<not> is_planned e) (evs @ [e]) = evs @ takeWhile (\<lambda>e. \<not> is_planned e) [e]"
    "takeWhile (\<lambda>e. \<not> is_planned e) evs = evs" using False by (auto simp: takeWhile_append)
  show ?thesis unfolding asks_wait_def t using False by (cases e) auto
qed

lemma kept_walk:
  assumes "gate_walk work digest g evs g'" "numbers_ok (k + int (length evs) + 1) (Regenerate (plan_of g))" "0 \<le> k" "asks_wait evs"
    "n = Request (Regenerate (plan_of g))"
  shows "numbers_ok (k + 1) (Regenerate (plan_of g')) \<and> n \<le> Request (Regenerate (plan_of g')) \<and>
    ((\<exists>x \<in> set evs. is_planned x) \<longrightarrow> n \<le> Served (Regenerate (plan_of g'))) \<and>
    g_art g' (ReplacedArtifact n) = g_art g (ReplacedArtifact n)"
  using assms
proof (induction arbitrary: k rule: gate_walk.induct)
  case (further evs g1 e g2)
  have e: "asks_wait evs" "(\<exists>x \<in> set evs. is_planned x) \<or> e \<noteq> AskedFor \<and> e \<noteq> AskCut"
    using further.prems(3) asks_wait_snoc by blast+
  have IH: "numbers_ok (k + 1 + 1) (Regenerate (plan_of g1))" "n \<le> Request (Regenerate (plan_of g1))"
    "(\<exists>x \<in> set evs. is_planned x) \<longrightarrow> n \<le> Served (Regenerate (plan_of g1))"
    "g_art g1 (ReplacedArtifact n) = g_art g (ReplacedArtifact n)"
    using further.IH [of "k + 1"] further.prems e(1) by (auto simp: algebra_simps)
  note st = gate_step_numbers [OF further.hyps(2) IH(1)]
  have n: "0 \<le> n" using further.prems by (auto simp: numbers_ok_def)
  have "numbers_ok 1 (Regenerate (plan_of g1))" using IH(1) further.prems(2) by (simp add: numbers_ok_def)
  from gate_step_keeps [OF further.hyps(2) this n] IH(3) e(2)
  have a: "g_art g2 (ReplacedArtifact n) = g_art g1 (ReplacedArtifact n)" by blast
  have p: "(\<exists>x \<in> set (evs @ [e]). is_planned x) \<longrightarrow> n \<le> Served (Regenerate (plan_of g2))"
    using IH(2,3) st(2,4) further.prems(2) by (cases e) auto
  show ?case using st(1,3) IH(2,4) a p further.prems(2) by auto
qed (auto simp: numbers_ok_def)

text \<open>
  C32. A plan a person asked to replace is kept. Asking for a new plan keeps a copy of the one in the file under the
  request's number, and nothing that happens later, plan nodes cut short and further requests included, changes that
  copy, unless the person asks again before the plan has been made again.
\<close>

theorem replaced_plan_is_kept:
  assumes "gate_step work digest g AskedFor g1" "approve_readPlan (read_art (g_art g)) (plan_of g) = Inr text"
    "P_Path (plan_of g) = plan_path" "numbers_ok (int (length evs) + 2) (Regenerate (plan_of g))" "gate_walk work digest g1 evs g2" "asks_wait evs"
  shows "g_art g2 (ReplacedArtifact (Request (Regenerate (plan_of g1)))) = Some text"
proof -
  let ?n = "Request (Regenerate (plan_of g1))"
  have "numbers_ok (int (length evs) + 1 + 1) (Regenerate (plan_of g))" using assms(4) by (simp add: algebra_simps)
  from gate_step_numbers(1) [OF assms(1) this] have k: "numbers_ok (0 + int (length evs) + 1) (Regenerate (plan_of g1))" by simp
  have name: "PlanArtifact plan_path = Inr plan_md" by code_simp
  from assms(1) have "g_art g1 (ReplacedArtifact ?n) = Some text"
  proof (cases rule: gate_step.cases)
    case (asked guidance kept st)
    from requestRegeneration_plan [OF asked(4)] have "kept = keepReplacedPlan (read_art (g_art g)) (plan_of g) ?n" using asked(1) by simp
    moreover have "keepReplacedPlan (read_art (g_art g)) (plan_of g) ?n = Some (ReplacedArtifact ?n, text)"
      using assms(2,3) name by (auto simp: keepReplacedPlan_def approve_readPlan_def split: sum.splits option.splits)
    ultimately show ?thesis using asked(1) by (simp add: put_kept_def)
  qed
  then show ?thesis using kept_walk [OF assms(5) k _ assms(6) refl] by simp
qed

section \<open>A plan that was approved, and one that was replaced\<close>

definition waiting_plan :: Plan where
  "waiting_plan = \<lparr>P_Path = plan_path, Approved = False, Digest = ''d'', Regenerate = Regeneration0\<rparr>"

definition waiting_gate :: gate where
  "waiting_gate = \<lparr>g_board = (NewState ''g'')\<lparr>B_Plan := waiting_plan\<rparr>, g_art = [plan_md \<mapsto> ''p''], g_at = NodeApprove, g_waits = True\<rparr>"

lemma sample_plan_read: "approve_readPlan (read_art [plan_md \<mapsto> ''p'']) waiting_plan = Inr ''p''"
proof -
  have "PlanArtifact plan_path = Inr plan_md" by code_simp
  moreover have "TrimSpace ''p'' = ''p''" by code_simp
  moreover have "utf8_Valid ''p''" by (simp add: utf8_Valid.simps DecodeRune_def byte_of_def RuneError_def)
  ultimately show ?thesis by (simp add: approve_readPlan_def waiting_plan_def read_art_def CheckPlan_def)
qed

definition approved_board :: Blackboard where
  "approved_board = fst (approvePlan (g_board waiting_gate))"

lemma approved_board_plan: "B_Plan approved_board = waiting_plan\<lparr>Approved := True\<rparr>"
  by (simp add: approved_board_def approvePlan_def waiting_gate_def waiting_plan_def Let_def SetRegeneration_def requireRegeneration_eq
      Regeneration0_def Pending_def)

lemma approved_read: "approve_readPlan (read_art [plan_md \<mapsto> ''p'']) (B_Plan approved_board) = Inr ''p''"
  using sample_plan_read approve_readPlan_path [of "B_Plan approved_board" waiting_plan] by (simp add: approved_board_plan)

lemma sample_leaves:
  "gate_step [] (\<lambda>_. ''d'') (waiting_gate\<lparr>g_board := approved_board\<rparr>) (Gated True)
     \<lparr>g_board = approved_board, g_art = [plan_md \<mapsto> ''p''], g_at = NodeCode, g_waits = False\<rparr>"
proof -
  let ?r = "routed NodeCode Patch0 []" and ?rc = "sample_context approved_board None"
  have p: "\<not> Pending (Regenerate (B_Plan approved_board))" "Approved (B_Plan approved_board)" "Digest (B_Plan approved_board) = ''d''"
    by (simp_all add: approved_board_plan waiting_plan_def Regeneration0_def Pending_def)
  have run: "Approve_Run [] (\<lambda>_. []) (\<lambda>_. ''d'') Gates.calm (read_art (g_art (waiting_gate\<lparr>g_board := approved_board\<rparr>))) ?rc = (?r, None)"
    using p approved_read by (simp add: Approve_Run_def Let_def waiting_gate_def workEntry_def)
  from gate_step.gated [of "waiting_gate\<lparr>g_board := approved_board\<rparr>" ?rc, OF _ _ run, of approved_board]
  show ?thesis using Apply_plan(1) by (simp add: waiting_gate_def)
qed

theorem work_needs_approval_witness:
  "approved_since [ApprovedIt] \<and> Digest (B_Plan approved_board) = ''d''"
proof -
  have w: "gate_walk [] (\<lambda>_. ''d'') waiting_gate ([] @ [ApprovedIt]) (waiting_gate\<lparr>g_board := approved_board\<rparr>)"
    unfolding approved_board_def
    by (rule gate_walk.further [OF gate_walk.here gate_step.approved]) (simp_all add: waiting_gate_def)
  have "workEntry [] \<notin> {NodePlan, NodeApprove}" by (simp add: workEntry_def NodeCode_def NodePlan_def NodeApprove_def)
  from work_needs_approval [OF w _ this sample_leaves] show ?thesis
    by (simp add: waiting_gate_def waiting_plan_def workEntry_def)
qed

theorem replaced_plan_is_kept_witness:
  "\<exists>g1 g2. gate_step [] (\<lambda>_. ''d'') waiting_gate AskedFor g1 \<and> gate_walk [] (\<lambda>_. ''d'') g1 [Edited] g2 \<and>
     g_art g2 plan_md = None \<and> g_art g2 (ReplacedArtifact 1) = Some ''p''"
proof -
  let ?read = "read_art (g_art waiting_gate)"
  obtain kept st where r: "requestRegeneration ''shorter'' ?read (g_board waiting_gate) = (kept, st)" by fastforce
  let ?g1 = "waiting_gate\<lparr>g_board := st, g_art := put_kept kept (g_art waiting_gate)\<rparr>"
  have s: "gate_step [] (\<lambda>_. ''d'') waiting_gate AskedFor ?g1"
    by (rule gate_step.asked [OF _ _ r]) (simp_all add: waiting_gate_def)
  let ?g2 = "?g1\<lparr>g_art := (g_art ?g1)(plan_md := None)\<rparr>"
  have w: "gate_walk [] (\<lambda>_. ''d'') ?g1 [Edited] ?g2"
    using gate_walk.further [OF gate_walk.here gate_step.edited] by (metis append_Nil)
  have n: "Request (Regenerate (plan_of ?g1)) = 1"
    using requestRegeneration_plan [OF r] by (simp add: waiting_gate_def waiting_plan_def Regeneration0_def next_request_def Pending_def in64_def)
  have "g_art ?g2 (ReplacedArtifact (Request (Regenerate (plan_of ?g1)))) = Some ''p''"
    by (rule replaced_plan_is_kept [OF s _ _ _ w])
      (use sample_plan_read in \<open>simp_all add: waiting_gate_def waiting_plan_def numbers_ok_def Regeneration0_def asks_wait_def\<close>)
  then show ?thesis using s w n by (intro exI [of _ ?g1] exI [of _ ?g2]) simp
qed

end
