(* ===== verification/Plan_Archive.thy ===== *)
theory Plan_Archive
  imports Plan_Gate
begin

text \<open>
  internal/planarchive: the approved plan of a run, filed under a directory of the workspace when the run is over, and
  then removed from the run. A path is relative to the workspace after its links were resolved. Every durable change
  of an attempt is an \<open>archive_write\<close>, so that a crash keeps a prefix of them.
\<close>

section \<open>Where a plan goes\<close>

fun slug_char :: "char \<Rightarrow> char option" where
  "slug_char c =
     (let n = (of_char c :: nat) in
      if 97 \<le> n \<and> n \<le> 122 \<or> 48 \<le> n \<and> n \<le> 57 then Some c
      else if 65 \<le> n \<and> n \<le> 90 then Some (char_of (n + 32)) else None)"

declare slug_char.simps [simp del]

text \<open>A byte that is no letter or digit of ASCII is a gap, so the bytes of a longer rune are one as the rune is.\<close>

fun slug_from :: "bool \<Rightarrow> string \<Rightarrow> string \<Rightarrow> string" where
  "slug_from gap out [] = out"
| "slug_from gap out (c # cs) =
     (case slug_char c of
        None \<Rightarrow> slug_from (out \<noteq> []) out cs
      | Some d \<Rightarrow> slug_from False (out @ (if gap then ''-'' else []) @ [d]) cs)"

definition last_dash :: "string \<Rightarrow> nat option" where
  "last_dash s = (let t = dropWhile (\<lambda>c. c \<noteq> CHR ''-'') (rev s) in if t = [] then None else Some (length t - 1))"

definition maxSlug :: nat where "maxSlug = 48"

definition Slug :: "string \<Rightarrow> string" where
  "Slug goal =
     (let slug = slug_from False [] goal;
          slug = (if maxSlug < length slug then
              take (if slug ! maxSlug \<noteq> CHR ''-'' then (case last_dash (take maxSlug slug) of Some i \<Rightarrow> if 0 < i then i else maxSlug | None \<Rightarrow> maxSlug)
                else maxSlug) slug
            else slug)
      in if slug = [] then ''plan'' else slug)"

definition Filename :: "string \<Rightarrow> string \<Rightarrow> string" where
  "Filename run goal = run @ ''-'' @ Slug goal @ ''.md''"

text \<open>\<open>path.Join\<close> of two elements.\<close>

definition path_Join :: "string \<Rightarrow> string \<Rightarrow> string" where
  "path_Join a b = (if a = [] then (if b = [] then [] else Clean b) else if b = [] then Clean a else Clean (a @ ''/'' @ b))"

definition archive_Rel :: "string \<Rightarrow> string \<Rightarrow> string \<Rightarrow> string" where
  "archive_Rel dir run goal = path_Join dir (Filename run goal)"

section \<open>The approved plan\<close>

datatype archive_error = ArchivePlanError plan_error | ArchiveChanged | ArchiveNoPlan | ArchiveOutside | ArchiveOccupied | ArchiveIO string

text \<open>\<open>source\<close> is the file the plan's artifact is: its contents, that there is none, or an error.\<close>

definition archive_Approved :: "(string \<Rightarrow> string) \<Rightarrow> (string, string option) result \<Rightarrow> Plan \<Rightarrow> (archive_error, string) result" where
  "archive_Approved digest source p =
     (case PlanArtifact (P_Path p) of
        Inl e \<Rightarrow> Inl (ArchivePlanError e)
      | Inr _ \<Rightarrow>
          (case source of
             Inl e \<Rightarrow> Inl (ArchiveIO e)
           | Inr None \<Rightarrow> Inl ArchiveNoPlan
           | Inr (Some data) \<Rightarrow> if Digest p = [] \<or> digest data \<noteq> Digest p then Inl ArchiveChanged else Inr data))"

section \<open>Placing a file\<close>

datatype entry = Absent | Regular string | Irregular

record archive_disk =
  ar_files :: "string \<Rightarrow> entry"
  ar_source :: "string option"
  ar_man :: Manifest

datatype archive_write = SetFile string entry | SaveMan Manifest | DropSource

fun apply_archive :: "archive_write \<Rightarrow> archive_disk \<Rightarrow> archive_disk" where
  "apply_archive (SetFile p e) d = d\<lparr>ar_files := (ar_files d)(p := e)\<rparr>"
| "apply_archive (SaveMan m) d = d\<lparr>ar_man := m\<rparr>"
| "apply_archive DropSource d = d\<lparr>ar_source := None\<rparr>"

text \<open>What one attempt meets. \<open>am_walk\<close> is where the links above the destination lead; \<open>am_temp\<close> a failing write of the
  temporary file, with what it leaves; \<open>am_raced\<close> a file another process puts at the destination first.\<close>

record Meets_Archive =
  am_load :: "string option"
  am_state :: "string option"
  am_source :: "string option"
  am_walk :: "archive_error option"
  am_stale :: "string option"
  am_look :: "string option"
  am_mkdir :: "string option"
  am_temp :: "(entry \<times> string) option"
  am_raced :: "entry option"
  am_link :: "string option"
  am_untemp :: "string option"
  am_sync :: "string option"
  am_save :: io
  am_drop :: "string option"
  am_dirsync :: "string option"

definition tempPath :: "string \<Rightarrow> string" where
  "tempPath dest = rev (dropWhile (\<lambda>c. c \<noteq> CHR ''/'') (rev dest)) @ ''.'' @ path_Base dest @ ''.belay-tmp''"

definition archive_resolve :: "Meets_Archive \<Rightarrow> string \<Rightarrow> (archive_error, string) result" where
  "archive_resolve m rel =
     (if rel = [] \<or> hd rel = CHR ''/'' \<or> ''..'' \<in> set (split_path rel) then Inl ArchiveOutside
      else case am_walk m of Some e \<Rightarrow> Inl e | None \<Rightarrow> Inr (Clean rel))"

definition holds :: "Meets_Archive \<Rightarrow> (string \<Rightarrow> entry) \<Rightarrow> string \<Rightarrow> string \<Rightarrow> (archive_error, bool) result" where
  "holds m files dest data =
     (case am_look m of
        Some e \<Rightarrow> Inl (ArchiveIO e)
      | None \<Rightarrow>
          (case files dest of
             Absent \<Rightarrow> Inr False
           | Irregular \<Rightarrow> Inl ArchiveOccupied
           | Regular have \<Rightarrow> if have = data then Inr True else Inl ArchiveOccupied))"

definition Place :: "Meets_Archive \<Rightarrow> string \<Rightarrow> string \<Rightarrow> (string \<Rightarrow> entry) \<Rightarrow> archive_write list \<times> (archive_error, bool) result" where
  "Place m rel data files =
     (case archive_resolve m rel of
        Inl e \<Rightarrow> ([], Inl e)
      | Inr dest \<Rightarrow>
          let tmp = tempPath dest in
          case am_stale m of
            Some e \<Rightarrow> ([], Inl (ArchiveIO e))
          | None \<Rightarrow>
              let w0 = [SetFile tmp Absent]; files = files(tmp := Absent) in
              case holds m files dest data of
                Inl e \<Rightarrow> (w0, Inl e)
              | Inr True \<Rightarrow> (w0, Inr False)
              | Inr False \<Rightarrow>
                  (case am_mkdir m of
                     Some e \<Rightarrow> (w0, Inl (ArchiveIO e))
                   | None \<Rightarrow>
                  (case am_temp m of
                     Some (left, e) \<Rightarrow> (w0 @ [SetFile tmp left], Inl (ArchiveIO e))
                   | None \<Rightarrow>
                      let w1 = w0 @ [SetFile tmp (Regular data)];
                          untemp = (if am_untemp m = None then [SetFile tmp Absent] else []) in
                      case am_raced m of
                        Some other \<Rightarrow>
                          (let w2 = w1 @ [SetFile dest other] @ untemp in
                           case holds m (files(dest := other)) dest data of
                             Inl e \<Rightarrow> (w2, Inl e) | Inr True \<Rightarrow> (w2, Inr False) | Inr False \<Rightarrow> (w2, Inl (ArchiveIO ''exists'')))
                      | None \<Rightarrow>
                          (case am_link m of
                             Some e \<Rightarrow> (w1 @ untemp, Inl (ArchiveIO e))
                           | None \<Rightarrow>
                               let w2 = w1 @ [SetFile dest (Regular data)] @ untemp in
                               case am_untemp m of
                                 Some e \<Rightarrow> (w2, Inl (ArchiveIO e))
                               | None \<Rightarrow> (w2, (case am_sync m of Some e \<Rightarrow> Inl (ArchiveIO e) | None \<Rightarrow> Inr True))))))"

section \<open>Filing the plan of a finished run\<close>

datatype archive_outcome = Filed | AlreadyFiled | NotAsked | Kept string

definition archive_rel_of :: "Manifest \<Rightarrow> string" where
  "archive_rel_of man = (if A_Path (M_ArchivedPlan man) = [] then archive_Rel (A_Dir (M_ArchivedPlan man)) (RunID man) (M_Goal man)
     else A_Path (M_ArchivedPlan man))"

text \<open>\<open>remove\<close>: the run's copy, and the directory it was in.\<close>

definition drop_source :: "Meets_Archive \<Rightarrow> archive_write list \<times> (archive_error, archive_outcome) result" where
  "drop_source m =
     (case am_drop m of
        Some e \<Rightarrow> ([], Inl (ArchiveIO e))
      | None \<Rightarrow> ([DropSource], (case am_dirsync m of Some e \<Rightarrow> Inl (ArchiveIO e) | None \<Rightarrow> Inr Filed)))"

definition finish_filing :: "Meets_Archive \<Rightarrow> bool \<Rightarrow> string \<Rightarrow> archive_disk \<Rightarrow> archive_write list \<times> (archive_error, archive_outcome) result" where
  "finish_filing m has_source rel d =
     (if \<not> has_source then ([], Inr AlreadyFiled)
      else case am_source m of
        Some e \<Rightarrow> ([], Inl (ArchiveIO e))
      | None \<Rightarrow>
          (case ar_source d of
             None \<Rightarrow> ([], Inr AlreadyFiled)
           | Some data \<Rightarrow> if holds m (ar_files d) (Clean rel) data \<noteq> Inr True then ([], Inr (Kept ''not the plan any more'')) else drop_source m))"

definition missingFromCommit :: "Meets_Archive \<Rightarrow> string \<Rightarrow> string \<Rightarrow> (string \<Rightarrow> entry) \<Rightarrow> (archive_error, string option) result" where
  "missingFromCommit m rel data files =
     (case archive_resolve m rel of
        Inl _ \<Rightarrow> Inr (Some ''cannot look'')
      | Inr dest \<Rightarrow>
          (case holds m files dest data of
             Inl ArchiveOccupied \<Rightarrow> Inr (Some ''a different file'')
           | Inl e \<Rightarrow> Inl e
           | Inr held \<Rightarrow> Inr (if held then None else Some ''not in the commit'')))"

text \<open>The last two stages: the manifest says where the plan went, and only then the run's copy goes.\<close>

definition record_and_drop :: "Meets_Archive \<Rightarrow> string \<Rightarrow> Manifest \<Rightarrow> archive_write list \<times> (archive_error, archive_outcome) result" where
  "record_and_drop m rel man =
     (let man' = man\<lparr>M_ArchivedPlan := (M_ArchivedPlan man)\<lparr>A_Path := rel\<rparr>\<rparr>;
          saved = (if am_save m = IO_failed then [] else [SaveMan man']) in
      if am_save m \<noteq> IO_ok then (saved, Inl (ArchiveIO ''record where the plan went''))
      else (case drop_source m of (ws, r) \<Rightarrow> (saved @ ws, r)))"

definition File :: "(string \<Rightarrow> string) \<Rightarrow> Meets_Archive \<Rightarrow> Plan \<Rightarrow> archive_disk \<Rightarrow> archive_write list \<times> (archive_error, archive_outcome) result" where
  "File digest m plan d =
     (let man = ar_man d; rel = archive_rel_of man; source = (case am_source m of Some e \<Rightarrow> Inl e | None \<Rightarrow> Inr (ar_source d)) in
      case am_load m of
        Some e \<Rightarrow> ([], Inl (ArchiveIO e))
      | None \<Rightarrow>
      if A_Dir (M_ArchivedPlan man) = [] then ([], Inr NotAsked)
      else case am_state m of
        Some e \<Rightarrow> ([], Inl (ArchiveIO e))
      | None \<Rightarrow>
      if M_Status man \<noteq> RunStatusCompleted then ([], Inr (Kept ''the run has not finished successfully''))
      else if A_Path (M_ArchivedPlan man) \<noteq> [] then finish_filing m (is_ok (PlanArtifact (P_Path plan))) rel d
      else case archive_Approved digest source plan of
        Inl ArchiveChanged \<Rightarrow> ([], Inr (Kept ''changed after the run last read it''))
      | Inl ArchiveNoPlan \<Rightarrow> ([], Inr (Kept ''no plan''))
      | Inl e \<Rightarrow> ([], Inr (Kept ''cannot use the plan''))
      | Inr data \<Rightarrow>
          if Branched (M_Output man) then
            (case missingFromCommit m rel data (ar_files d) of
               Inl e \<Rightarrow> ([], Inl e)
             | Inr (Some reason) \<Rightarrow> ([], Inr (Kept reason))
             | Inr None \<Rightarrow> record_and_drop m rel man)
          else
            (case Place m rel data (ar_files d) of
               (ws, Inl ArchiveOccupied) \<Rightarrow> (ws, Inr (Kept ''already a different file''))
             | (ws, Inl ArchiveOutside) \<Rightarrow> (ws, Inr (Kept ''leads outside''))
             | (ws, Inl e) \<Rightarrow> (ws, Inl e)
             | (ws, Inr _) \<Rightarrow> (case record_and_drop m rel man of (ws', r) \<Rightarrow> (ws @ ws', r))))"

section \<open>What placing a file changes\<close>

lemma tempPath_not [simp]: "tempPath p \<noteq> p" "p \<noteq> tempPath p"
proof -
  let ?P = "\<lambda>c. c \<noteq> CHR ''/''"
  let ?dir = "rev (dropWhile ?P (rev p))" and ?rest = "rev (takeWhile ?P (rev p))"
  have p: "p = ?dir @ ?rest" by (metis rev_append rev_rev_ident takeWhile_dropWhile_id)
  show ne: "tempPath p \<noteq> p"
  proof (cases "?rest = []")
    case True
    then have "p = ?dir" using p by simp
    then show ?thesis unfolding tempPath_def by (metis append_self_conv append_is_Nil_conv list.distinct(1))
  next
    case False
    then obtain c cs where c: "rev p = c # cs" "c \<noteq> CHR ''/''" by (cases "rev p") (auto split: if_splits)
    then have "path_Base p = ?rest" using False by (auto simp: path_Base_def Let_def)
    then have "length (tempPath p) = length ?dir + length ?rest + 11" by (simp add: tempPath_def)
    also have "\<dots> = length p + 11" using arg_cong [OF p, of length] by simp
    finally show ?thesis by (metis add_eq_self_zero zero_neq_numeral)
  qed
  then show "p \<noteq> tempPath p" by simp
qed

text \<open>The writes of a placement: the temporary file, and the destination when nothing was there.\<close>

definition place_write :: "string \<Rightarrow> (string \<Rightarrow> entry) \<Rightarrow> archive_write \<Rightarrow> bool" where
  "place_write dest files x \<longleftrightarrow> (\<exists>e. x = SetFile (tempPath dest) e) \<or> files dest = Absent \<and> (\<exists>e. x = SetFile dest e)"

lemma holds_tmp: "holds m (files(tempPath dest := e)) dest data = holds m files dest data"
  unfolding holds_def fun_upd_other [OF tempPath_not(2)] ..

lemma Place_writes:
  assumes "Place m rel data files = (ws, r)" shows "\<forall>x \<in> set ws. place_write (Clean rel) files x"
proof (cases "archive_resolve m rel")
  case (Inr dest)
  then have dest: "dest = Clean rel" by (auto simp: archive_resolve_def split: if_splits option.splits)
  have h: "holds m (files(tempPath dest := Absent)) dest data = holds m files dest data" by (rule holds_tmp)
  have f: "holds m files dest data = Inr False \<Longrightarrow> files dest = Absent" by (auto simp: holds_def split: option.splits entry.splits if_splits)
  show ?thesis
  proof (cases "holds m files dest data")
    case (Inr held)
    then show ?thesis using assms f h unfolding Place_def \<open>archive_resolve m rel = Inr dest\<close> dest [symmetric]
      by (cases held) (auto simp: Let_def place_write_def split: option.splits if_splits sum.splits bool.splits)
  qed (use assms h \<open>archive_resolve m rel = Inr dest\<close> dest in \<open>auto simp: Place_def Let_def place_write_def split: option.splits\<close>)
qed (use assms in \<open>simp add: Place_def\<close>)

lemma place_keeps:
  assumes "\<forall>x \<in> set us. place_write dest files0 x"
  shows "ar_source (fold apply_archive us d) = ar_source d \<and> ar_man (fold apply_archive us d) = ar_man d \<and>
    (\<forall>p. p \<noteq> tempPath dest \<and> (p = dest \<longrightarrow> files0 dest \<noteq> Absent) \<longrightarrow> ar_files (fold apply_archive us d) p = ar_files d p)"
  using assms
proof (induction us arbitrary: d)
  case (Cons x us)
  have x: "place_write dest files0 x" and us: "\<forall>x \<in> set us. place_write dest files0 x" using Cons.prems by simp_all
  have "ar_source (apply_archive x d) = ar_source d" "ar_man (apply_archive x d) = ar_man d"
    "\<forall>p. p \<noteq> tempPath dest \<and> (p = dest \<longrightarrow> files0 dest \<noteq> Absent) \<longrightarrow> ar_files (apply_archive x d) p = ar_files d p"
    using x by (auto simp: place_write_def)
  with Cons.IH [OF us, of "apply_archive x d"] show ?case by simp
qed simp

lemma Place_holds:
  assumes "Place m rel data (ar_files d) = (ws, Inr b)" shows "ar_files (fold apply_archive ws d) (Clean rel) = Regular data"
proof (cases "archive_resolve m rel")
  case (Inr dest)
  then have dest: "dest = Clean rel" by (auto simp: archive_resolve_def split: if_splits option.splits)
  note h = holds_tmp [of m _ dest _ data]
  have t: "holds m f dest data = Inr True \<Longrightarrow> f dest = Regular data" for f by (auto simp: holds_def split: option.splits entry.splits if_splits)
  show ?thesis
  proof (cases "holds m (ar_files d) dest data")
    case (Inr held)
    then show ?thesis using assms t h unfolding Place_def \<open>archive_resolve m rel = Inr dest\<close> dest [symmetric]
      by (cases held) (auto simp: Let_def split: option.splits if_splits sum.splits bool.splits)
  qed (use assms h \<open>archive_resolve m rel = Inr dest\<close> in \<open>auto simp: Place_def Let_def split: option.splits\<close>)
qed (use assms in \<open>simp add: Place_def\<close>)

section \<open>A plan is never lost\<close>

definition archive_dest :: "archive_disk \<Rightarrow> string" where
  "archive_dest d = Clean (archive_rel_of (ar_man d))"

text \<open>What any part of an attempt keeps: the run's copy goes only when the destination holds it, the destination stays
  where it is, and no file but belay's own temporary one is changed or removed.\<close>

definition plan_kept :: "archive_disk \<Rightarrow> archive_disk \<Rightarrow> bool" where
  "plan_kept d d' \<longleftrightarrow>
     (ar_source d' = ar_source d \<or>
       (\<exists>data. ar_source d = Some data \<and> ar_source d' = None \<and> ar_files d' (archive_dest d) = Regular data)) \<and>
     archive_dest d' = archive_dest d \<and>
     (\<forall>p. p \<noteq> tempPath (archive_dest d) \<and> ar_files d p \<noteq> Absent \<longrightarrow> ar_files d' p = ar_files d p)"

lemma plan_kept_refl [simp]: "plan_kept d d"
  by (simp add: plan_kept_def)

lemma plan_kept_trans:
  assumes "plan_kept a b" "plan_kept b c" shows "plan_kept a c"
proof -
  have d: "archive_dest b = archive_dest a" "archive_dest c = archive_dest a" using assms by (auto simp: plan_kept_def)
  have f: "\<And>p. p \<noteq> tempPath (archive_dest a) \<Longrightarrow> ar_files a p \<noteq> Absent \<Longrightarrow> ar_files c p = ar_files a p"
    "\<And>p. p \<noteq> tempPath (archive_dest a) \<Longrightarrow> ar_files b p \<noteq> Absent \<Longrightarrow> ar_files c p = ar_files b p"
    using assms d by (auto simp: plan_kept_def)
  have "ar_source c = ar_source a \<or> (\<exists>data. ar_source a = Some data \<and> ar_source c = None \<and> ar_files c (archive_dest a) = Regular data)"
  proof (cases "ar_source b = ar_source a")
    case True
    then show ?thesis using assms(2) d by (auto simp: plan_kept_def)
  next
    case False
    then obtain data where data: "ar_source a = Some data" "ar_source b = None" "ar_files b (archive_dest a) = Regular data"
      using assms(1) by (auto simp: plan_kept_def)
    moreover have "ar_source c = None" using assms(2) data(2) by (auto simp: plan_kept_def)
    moreover have "ar_files c (archive_dest a) = Regular data" using f(2) [of "archive_dest a"] data(3) by simp
    ultimately show ?thesis by blast
  qed
  then show ?thesis using d f(1) by (simp add: plan_kept_def)
qed

lemma archive_dest_recorded:
  "archive_rel_of (man\<lparr>M_ArchivedPlan := (M_ArchivedPlan man)\<lparr>A_Path := archive_rel_of man\<rparr>\<rparr>) = archive_rel_of man"
  by (simp add: archive_rel_of_def)

lemma plan_kept_source:
  assumes "ar_source d = Some data" "ar_files d (archive_dest d) = Regular data" "prefix us ws" "drop_source m = (ws, r)"
  shows "plan_kept d (fold apply_archive us d)"
  using assms by (auto simp: drop_source_def plan_kept_def archive_dest_def prefix_Cons split: option.splits)

lemma plan_kept_recorded:
  assumes "ar_source d = Some data" "ar_files d (archive_dest d) = Regular data" "prefix us ws"
    "record_and_drop m (archive_rel_of (ar_man d)) (ar_man d) = (ws, r)"
  shows "plan_kept d (fold apply_archive us d)"
proof -
  let ?man = "(ar_man d)\<lparr>M_ArchivedPlan := (M_ArchivedPlan (ar_man d))\<lparr>A_Path := archive_rel_of (ar_man d)\<rparr>\<rparr>"
  let ?d = "d\<lparr>ar_man := ?man\<rparr>"
  have dest: "archive_dest ?d = archive_dest d" using archive_dest_recorded by (simp add: archive_dest_def)
  have saved: "plan_kept d ?d" using dest by (simp add: plan_kept_def)
  obtain vs r' where v: "drop_source m = (vs, r')" by fastforce
  have "ws = [] \<or> ws = [SaveMan ?man] \<or> ws = SaveMan ?man # vs"
    using assms(4) v by (auto simp: record_and_drop_def Let_def split: if_splits)
  then consider "us = []" | ys where "us = SaveMan ?man # ys" "prefix ys vs" using assms(3) by (auto simp: prefix_Cons)
  then show ?thesis
  proof cases
    case 2
    have "plan_kept ?d (fold apply_archive ys ?d)" by (rule plan_kept_source [OF _ _ 2(2) v]) (use assms dest in simp_all)
    then show ?thesis using plan_kept_trans [OF saved] 2(1) by simp
  qed simp
qed

lemma plan_kept_placed:
  assumes "\<forall>x \<in> set us. place_write (archive_dest d) (ar_files d) x" shows "plan_kept d (fold apply_archive us d)"
  using place_keeps [OF assms, of d] by (auto simp: plan_kept_def archive_dest_def)

lemma Approved_source: "archive_Approved digest (Inr src) p = Inr data \<Longrightarrow> src = Some data"
  by (auto simp: archive_Approved_def split: sum.splits option.splits if_splits)

lemma File_keeps:
  assumes "File digest m plan d = (ws, r)" "prefix us ws" shows "plan_kept d (fold apply_archive us d)"
proof -
  let ?man = "ar_man d" and ?rel = "archive_rel_of (ar_man d)"
  consider "ws = []" | (finish) "finish_filing m (is_ok (PlanArtifact (P_Path plan))) ?rel d = (ws, r)"
    | (committed) data where "ar_source d = Some data" "missingFromCommit m ?rel data (ar_files d) = Inr None" "record_and_drop m ?rel ?man = (ws, r)"
    | (placed) data vs q where "ar_source d = Some data" "Place m ?rel data (ar_files d) = (vs, q)"
        "ws = vs \<or> (\<exists>b zs. q = Inr b \<and> record_and_drop m ?rel ?man = (zs, r) \<and> ws = vs @ zs)"
  proof (cases "am_load m \<noteq> None \<or> A_Dir (M_ArchivedPlan ?man) = [] \<or> am_state m \<noteq> None \<or> M_Status ?man \<noteq> RunStatusCompleted")
    case True
    then show thesis using assms(1) that(1) by (auto simp: File_def Let_def split: option.splits if_splits)
  next
    case False
    then have n: "am_load m = None" "A_Dir (M_ArchivedPlan ?man) \<noteq> []" "am_state m = None" "M_Status ?man = RunStatusCompleted" by simp_all
    show thesis
    proof (cases "A_Path (M_ArchivedPlan ?man) = []")
      case False
      then show thesis using assms(1) n finish by (simp add: File_def Let_def)
    next
      case path: True
      let ?src = "case am_source m of Some e \<Rightarrow> Inl e | None \<Rightarrow> Inr (ar_source d)"
      show thesis
      proof (cases "archive_Approved digest ?src plan")
        case (Inl e)
        then show thesis using assms(1) n path that(1) by (cases e) (simp_all add: File_def Let_def)
      next
        case (Inr data)
        have "am_source m = None"
          using Inr by (auto simp: archive_Approved_def split: sum.splits option.splits)
        then have src: "ar_source d = Some data" using Inr Approved_source by simp
        show thesis
        proof (cases "Branched (M_Output ?man)")
          case True
          then show thesis using assms(1) n path Inr that(1) committed [OF src]
            by (cases "missingFromCommit m ?rel data (ar_files d)") (auto simp: File_def Let_def split: option.splits)
        next
          case False
          obtain vs q where pl: "Place m ?rel data (ar_files d) = (vs, q)" by fastforce
          have e: "File digest m plan d = (case (vs, q) of (ws, Inl ArchiveOccupied) \<Rightarrow> (ws, Inr (Kept ''already a different file''))
             | (ws, Inl ArchiveOutside) \<Rightarrow> (ws, Inr (Kept ''leads outside'')) | (ws, Inl e) \<Rightarrow> (ws, Inl e)
             | (ws, Inr _) \<Rightarrow> (case record_and_drop m ?rel ?man of (ws', r) \<Rightarrow> (ws @ ws', r)))"
            using n path Inr False pl by (simp add: File_def Let_def)
          show thesis
          proof (cases q)
            case (Inl x)
            then show thesis using placed [OF src pl] e assms(1) by (cases x) simp_all
          next
            case (Inr b)
            obtain zs t where z: "record_and_drop m ?rel ?man = (zs, t)" by fastforce
            then have "ws = vs @ zs" "t = r" using e assms(1) Inr by simp_all
            with placed [OF src pl] z Inr show thesis by blast
          qed
        qed
      qed
    qed
  qed
  then show ?thesis
  proof cases
    case 1
    then show ?thesis using assms(2) by simp
  next
    case finish
    show ?thesis
    proof (cases "ws = []")
      case False
      then obtain data where data: "ar_source d = Some data" "holds m (ar_files d) (Clean ?rel) data = Inr True" "drop_source m = (ws, r)"
        using finish by (auto simp: finish_filing_def split: option.splits if_splits)
      then have "ar_files d (archive_dest d) = Regular data" by (auto simp: holds_def archive_dest_def split: option.splits entry.splits if_splits)
      from plan_kept_source [OF data(1) this assms(2) data(3)] show ?thesis .
    qed (use assms(2) in simp)
  next
    case (committed data)
    have "ar_files d (archive_dest d) = Regular data"
      using committed(2) by (auto simp: missingFromCommit_def holds_def archive_dest_def archive_resolve_def
        split: sum.splits option.splits entry.splits if_splits archive_error.splits)
    from plan_kept_recorded [OF committed(1) this assms(2) committed(3)] show ?thesis .
  next
    case (placed data vs q)
    note pw = Place_writes [OF placed(2), folded archive_dest_def]
    have part: "plan_kept d (fold apply_archive xs d)" if "prefix xs vs" for xs
      by (rule plan_kept_placed) (use pw set_mono_prefix [OF that] in blast)
    show ?thesis
    proof (cases "prefix us vs")
      case False
      then obtain b zs ys where z: "q = Inr b" "record_and_drop m ?rel ?man = (zs, r)" "us = vs @ ys" "prefix ys zs"
        using placed(3) assms(2) by (auto simp: prefix_append)
      let ?d = "fold apply_archive vs d"
      have same: "ar_source ?d = Some data" "ar_man ?d = ?man" using place_keeps [OF pw, of d] placed(1) by simp_all
      have at: "ar_files ?d (archive_dest ?d) = Regular data"
        using Place_holds placed(2) z(1) same(2) by (simp add: archive_dest_def)
      have "plan_kept ?d (fold apply_archive ys ?d)"
        by (rule plan_kept_recorded [OF same(1) at z(4)]) (use z(2) same(2) in simp)
      then show ?thesis using plan_kept_trans [OF part [OF prefix_order.refl]] z(3) by simp
    qed (rule part)
  qed
qed

text \<open>Any number of attempts at filing a plan, each killed after some prefix of its writes.\<close>

inductive archive_life :: "(string \<Rightarrow> string) \<Rightarrow> archive_disk \<Rightarrow> archive_disk \<Rightarrow> bool" for digest d where
  finished: "archive_life digest d d"
| attempt: "archive_life digest d d1 \<Longrightarrow> File digest m plan d1 = (ws, r) \<Longrightarrow> prefix us ws \<Longrightarrow>
    archive_life digest d (fold apply_archive us d1)"

text \<open>
  C16. A plan is never lost and nothing is written over. Over any number of attempts at filing a run's plan, each killed
  after any of its writes, the plan is where it was in the run or, with the run's copy gone, whole at its
  destination; and every file of the workspace but belay's own temporary one is what it was.
\<close>

theorem plan_is_never_lost:
  assumes "archive_life digest d d'" "ar_source d = Some data"
  shows "(ar_source d' = Some data \<or> ar_source d' = None \<and> ar_files d' (archive_dest d) = Regular data) \<and>
    (\<forall>p. p \<noteq> tempPath (archive_dest d) \<and> ar_files d p \<noteq> Absent \<longrightarrow> ar_files d' p = ar_files d p)"
proof -
  have "plan_kept d d'" using assms(1)
  proof (induction rule: archive_life.induct)
    case (attempt d1 m plan ws r us)
    from plan_kept_trans [OF attempt.IH File_keeps [OF attempt.hyps(2,3)]] show ?case .
  qed simp
  then show ?thesis using assms(2) by (auto simp: plan_kept_def)
qed

definition untroubled :: Meets_Archive where
  "untroubled = \<lparr>am_load = None, am_state = None, am_source = None, am_walk = None, am_stale = None, am_look = None, am_mkdir = None,
     am_temp = None, am_raced = None, am_link = None, am_untemp = None, am_sync = None, am_save = IO_ok, am_drop = None, am_dirsync = None\<rparr>"

definition filed_manifest :: Manifest where
  "filed_manifest = Manifest0\<lparr>RunID := ''r'', M_Goal := ''g'', M_Status := RunStatusCompleted, M_ArchivedPlan := \<lparr>A_Dir = ''docs'', A_Path = []\<rparr>\<rparr>"

definition before_filing :: archive_disk where
  "before_filing = \<lparr>ar_files = (\<lambda>p. if p = ''README'' then Regular ''x'' else Absent), ar_source = Some ''p'', ar_man = filed_manifest\<rparr>"

definition after_filing :: archive_disk where
  "after_filing = fold apply_archive (fst (File (\<lambda>_. ''d'') untroubled waiting_plan before_filing)) before_filing"

lemma untroubled_simps [simp]:
  "am_load untroubled = None" "am_state untroubled = None" "am_source untroubled = None" "am_walk untroubled = None"
  "am_stale untroubled = None" "am_look untroubled = None" "am_mkdir untroubled = None" "am_temp untroubled = None"
  "am_raced untroubled = None" "am_link untroubled = None" "am_untemp untroubled = None" "am_sync untroubled = None"
  "am_save untroubled = IO_ok" "am_drop untroubled = None" "am_dirsync untroubled = None"
  by (simp_all add: untroubled_def)

lemma filed_manifest_simps [simp]:
  "M_ArchivedPlan filed_manifest = \<lparr>A_Dir = ''docs'', A_Path = []\<rparr>" "M_Status filed_manifest = RunStatusCompleted"
  "RunID filed_manifest = ''r''" "M_Goal filed_manifest = ''g''" "\<not> Branched (M_Output filed_manifest)"
  by (simp_all add: filed_manifest_def Branched_def OutputBranch_def Manifest0_def)

lemma before_filing_simps [simp]:
  "ar_source before_filing = Some ''p''" "ar_man before_filing = filed_manifest" "ar_files before_filing ''docs/r-g.md'' = Absent"
  by (simp_all add: before_filing_def)

lemma filing_rel: "archive_Rel ''docs'' ''r'' ''g'' = ''docs/r-g.md''" "Clean ''docs/r-g.md'' = ''docs/r-g.md''"
  by (code_simp)+

lemma filing_dest: "archive_rel_of filed_manifest = ''docs/r-g.md''" "archive_dest before_filing = ''docs/r-g.md''"
  using filing_rel by (simp_all add: archive_rel_of_def archive_dest_def)

lemma filing_drops: "ar_source after_filing = None"
proof -
  have a: "archive_Approved (\<lambda>_. ''d'') (Inr (Some ''p'')) waiting_plan = Inr ''p''"
  proof -
    have "PlanArtifact plan_path = Inr plan_md" by code_simp
    then show ?thesis by (simp add: archive_Approved_def waiting_plan_def)
  qed
  have s: "split_path ''docs/r-g.md'' = [''docs'', ''r-g.md'']" by code_simp
  obtain vs b where p: "Place untroubled ''docs/r-g.md'' ''p'' (ar_files before_filing) = (vs, Inr b)"
    by (auto simp: Place_def archive_resolve_def s holds_def Let_def filing_rel)
  have "File (\<lambda>_. ''d'') untroubled waiting_plan before_filing =
      (vs @ [SaveMan (filed_manifest\<lparr>M_ArchivedPlan := (M_ArchivedPlan filed_manifest)\<lparr>A_Path := ''docs/r-g.md''\<rparr>\<rparr>), DropSource], Inr Filed)"
    using p a filing_dest(1) by (simp add: File_def Let_def record_and_drop_def drop_source_def)
  then show ?thesis by (simp add: after_filing_def)
qed

theorem plan_is_never_lost_witness: "ar_source after_filing = None \<and> ar_files after_filing ''docs/r-g.md'' = Regular ''p''"
proof -
  obtain ws r where f: "File (\<lambda>_. ''d'') untroubled waiting_plan before_filing = (ws, r)" by fastforce
  have "archive_life (\<lambda>_. ''d'') before_filing after_filing"
    using archive_life.attempt [OF archive_life.finished f prefix_order.refl] f by (simp add: after_filing_def)
  from plan_is_never_lost [OF this, of "''p''"] filing_drops filing_dest(2) show ?thesis by simp
qed

end
