(* ===== verification/Promote.thy ===== *)
theory Promote
  imports Plan_Archive Work_Loop
begin

text \<open>
  internal/nodes/promote, with the message of internal/vcs: the run's change, or its winner's, committed to the run's
  branch. The repository and the isolator are parameters, functions of a world \<open>'w\<close> they share with the files of
  the working trees; what the node does to that world is returned as a list of effects, in their order.
\<close>

section \<open>A cleaned path\<close>

definition plain_seg :: "string \<Rightarrow> bool" where
  "plain_seg s \<longleftrightarrow> s \<noteq> [] \<and> s \<noteq> ''.'' \<and> s \<noteq> ''..'' \<and> CHR ''/'' \<notin> set s"

definition tidy :: "bool \<Rightarrow> string list \<Rightarrow> bool" where
  "tidy rooted out \<longleftrightarrow> (\<exists>k ns. out = replicate k ''..'' @ ns \<and> (rooted \<longrightarrow> k = 0) \<and> list_all plain_seg ns)"

lemma tidyI: "out = replicate k ''..'' @ ns \<Longrightarrow> (rooted \<Longrightarrow> k = 0) \<Longrightarrow> list_all plain_seg ns \<Longrightarrow> tidy rooted out"
  unfolding tidy_def by blast

lemma clean_step_simps:
  "clean_step r [] out = out" "clean_step r ''.'' out = out" "plain_seg s \<Longrightarrow> clean_step r s out = out @ [s]"
  "clean_step r ''..'' (replicate k ''..'') = (if r \<and> k = 0 then [] else if k = 0 \<or> \<not> r then replicate (Suc k) ''..'' else replicate k ''..'')"
  "ns \<noteq> [] \<Longrightarrow> list_all plain_seg ns \<Longrightarrow> clean_step r ''..'' (up @ ns) = up @ butlast ns"
proof -
  show "clean_step r [] out = out" "clean_step r ''.'' out = out" "plain_seg s \<Longrightarrow> clean_step r s out = out @ [s]"
    by (simp_all add: clean_step_def plain_seg_def)
  show "clean_step r ''..'' (replicate k ''..'') = (if r \<and> k = 0 then [] else if k = 0 \<or> \<not> r then replicate (Suc k) ''..'' else replicate k ''..'')"
    by (cases k) (simp_all add: clean_step_def replicate_append_same)
  assume "ns \<noteq> []" "list_all plain_seg ns"
  then have "last ns \<noteq> ''..''" using last_in_set [of ns] by (auto simp: list_all_iff plain_seg_def)
  then show "clean_step r ''..'' (up @ ns) = up @ butlast ns" using \<open>ns \<noteq> []\<close> by (simp add: clean_step_def butlast_append)
qed

lemma tidy_step:
  assumes "tidy r out" "CHR ''/'' \<notin> set seg" shows "tidy r (clean_step r seg out)"
proof -
  obtain k ns where o: "out = replicate k ''..'' @ ns" "r \<Longrightarrow> k = 0" "list_all plain_seg ns" using assms(1) unfolding tidy_def by blast
  consider "seg = [] \<or> seg = ''.''" | "seg = ''..''" "ns = []" | "seg = ''..''" "ns \<noteq> []" | "plain_seg seg"
    using assms(2) unfolding plain_seg_def by blast
  then show ?thesis
  proof cases
    case 1
    then show ?thesis using assms(1) clean_step_simps(1,2) by metis
  next
    case 2
    show ?thesis
      by (rule tidyI [of _ "if r then k else Suc k" "[]"]) (use 2 o(1,2) clean_step_simps(4) [of r k] in \<open>cases r; cases k; simp\<close>)+
  next
    case 3
    have "list_all plain_seg (butlast ns)" using o(3) by (auto simp: list_all_iff dest: in_set_butlastD)
    then show ?thesis using clean_step_simps(5) [OF 3(2) o(3)] by (intro tidyI [of _ k "butlast ns"]) (simp_all add: 3(1) o(1,2))
  next
    case 4
    then show ?thesis by (intro tidyI [of _ k "ns @ [seg]"]) (simp_all add: clean_step_simps(3) o)
  qed
qed

lemma tidy_clean_segs: "tidy r (clean_segs r (split_path p))"
proof -
  have f: "tidy r (fold (clean_step r) segs out)" if "\<forall>s \<in> set segs. CHR ''/'' \<notin> set s" "tidy r out" for segs out
    using that by (induction segs arbitrary: out) (simp_all add: tidy_step)
  have "tidy r []" by (rule tidyI [of _ 0 "[]"]) simp_all
  moreover have "\<forall>s \<in> set (split_path p). CHR ''/'' \<notin> set s" unfolding split_path_def by (auto dest: split_at_free)
  ultimately show ?thesis unfolding clean_segs_def by (rule f [rotated])
qed

lemma tidy_segs:
  assumes "tidy r out" shows "\<forall>s \<in> set out. s \<noteq> [] \<and> CHR ''/'' \<notin> set s"
proof -
  obtain k ns where o: "out = replicate k ''..'' @ ns" "list_all plain_seg ns" using assms unfolding tidy_def by blast
  then have "\<forall>s \<in> set ns. s \<noteq> [] \<and> CHR ''/'' \<notin> set s" by (simp add: list_all_iff plain_seg_def)
  then show ?thesis using o(1) by auto
qed

lemma clean_segs_tidy:
  assumes "tidy r out" shows "clean_segs r out = out"
proof -
  obtain k ns where o: "out = replicate k ''..'' @ ns" "r \<Longrightarrow> k = 0" "list_all plain_seg ns" using assms unfolding tidy_def by blast
  have ups: "\<not> r \<Longrightarrow> fold (clean_step r) (replicate j ''..'') (replicate i ''..'') = replicate (i + j) ''..''" for i j
  proof (induction j arbitrary: i)
    case (Suc j)
    then show ?case using Suc.IH [of "Suc i"] clean_step_simps(4) [of r i] by simp
  qed simp
  have names: "fold (clean_step r) ns acc = acc @ ns" for acc
    using o(3) by (induction ns arbitrary: acc) (simp_all add: clean_step_simps(3))
  have "fold (clean_step r) (replicate k ''..'') [] = replicate k ''..''" using ups [of k 0] o(2) by (cases r) simp_all
  then show ?thesis using o(1) names by (simp add: clean_segs_def)
qed

lemma Clean_Clean [simp]: "Clean (Clean p) = Clean p"
proof -
  let ?r = "take 1 p = ''/''" let ?out = "clean_segs ?r (split_path p)"
  have t: "tidy ?r ?out" by (rule tidy_clean_segs)
  note segs = tidy_segs [OF t]
  have same: "clean_segs ?r ?out = ?out" by (rule clean_segs_tidy [OF t])
  have root: "Clean ''/'' = ''/''" "Clean ''.'' = ''.''" by (code_simp)+
  consider "?r" "?out = []" | "?r" "?out \<noteq> []" | "\<not> ?r" "?out = []" | "\<not> ?r" "?out \<noteq> []" by blast
  then show ?thesis
  proof cases
    case 1
    then have "Clean p = ''/''" by (simp add: Clean_def)
    then show ?thesis using root(1) by simp
  next
    case 2
    let ?q = "CHR ''/'' # join_segs ?out"
    have c: "Clean p = ?q" using 2 by (simp add: Clean_def Let_def)
    have "split_path ?q = [] # ?out" using split_join [OF 2(2)] segs by (simp add: split_path_def)
    moreover have "clean_segs True ([] # ?out) = ?out" using same 2(1) by (simp add: clean_segs_def clean_step_simps)
    ultimately have "Clean ?q = ?q" by (simp add: Clean_def Let_def)
    then show ?thesis using c by simp
  next
    case 3
    then have "Clean p = ''.''" by (simp add: Clean_def)
    then show ?thesis using root(2) by simp
  next
    case 4
    let ?q = "join_segs ?out"
    have c: "Clean p = ?q" using 4 by (simp add: Clean_def Let_def)
    obtain s ss where o: "?out = s # ss" using 4 by (cases ?out) auto
    then obtain d s' where "s = d # s'" "d \<noteq> CHR ''/''" using segs by (cases s) auto
    then have n: "take 1 ?q \<noteq> ''/''" using o by (cases ss) simp_all
    moreover have "split_path ?q = ?out" using split_join [OF 4(2)] segs by simp
    ultimately have "Clean ?q = ?q" using 4 same by (simp add: Clean_def Let_def)
    then show ?thesis using c by simp
  qed
qed

section \<open>The repository\<close>

record Message =
  Ms_Subject :: string
  Ms_Body :: string
  Ms_Trailers :: "(string \<times> string) list"

fun str_join :: "string \<Rightarrow> string list \<Rightarrow> string" where
  "str_join sep [] = []"
| "str_join sep [s] = s"
| "str_join sep (s # t # ts) = s @ sep @ str_join sep (t # ts)"

definition Message_Text :: "Message \<Rightarrow> string" where
  "Message_Text m =
     str_join [CHR 0x0A, CHR 0x0A]
       ([TrimSpace (Ms_Subject m)] @ (if TrimSpace (Ms_Body m) = [] then [] else [TrimSpace (Ms_Body m)]) @
        (if Ms_Trailers m = [] then [] else [str_join [CHR 0x0A] (map (\<lambda>(k, v). k @ '': '' @ v) (Ms_Trailers m))]))"

datatype commit_error = DirtyTarget | CommitFailed string

record Integration =
  In_Tip :: string
  In_Conflicts :: "string list"

datatype presence = Present | Gone | Unseen string

text \<open>\<open>pe_history\<close> and \<open>pe_branch\<close> are the interfaces only some repositories and isolators have. \<open>pe_files\<close> is what is at a path
  below a directory, \<open>pe_write\<close> one change of a file there, and \<open>pe_meets\<close> what placing a file meets.\<close>

record 'w History_Of =
  hi_Tip :: "string \<Rightarrow> 'w \<Rightarrow> (string, string) result"
  hi_Carries :: "string \<Rightarrow> (string \<times> string) list \<Rightarrow> 'w \<Rightarrow> (string, bool) result"

record 'w Promote_Env =
  pe_vcs :: bool
  pe_Changes :: "string \<Rightarrow> string \<Rightarrow> 'w \<Rightarrow> (string, string list) result"
  pe_Commit :: "string \<Rightarrow> Message \<Rightarrow> 'w \<Rightarrow> 'w \<times> (commit_error, string) result"
  pe_Integrate :: "string \<Rightarrow> string \<Rightarrow> Message \<Rightarrow> 'w \<Rightarrow> 'w \<times> (commit_error, Integration) result"
  pe_Changed :: "string \<Rightarrow> string \<Rightarrow> 'w \<Rightarrow> (string, string list) result"
  pe_history :: "'w History_Of option"
  pe_branch :: "(string \<Rightarrow> (string, string) result) option"
  pe_Destroy :: "Candidate \<Rightarrow> 'w \<Rightarrow> 'w \<times> string option"
  pe_stat :: "string \<Rightarrow> 'w \<Rightarrow> presence"
  pe_source :: "'w \<Rightarrow> (string, string option) result"
  pe_files :: "string \<Rightarrow> 'w \<Rightarrow> (string \<Rightarrow> entry)"
  pe_write :: "string \<Rightarrow> archive_write \<Rightarrow> 'w \<Rightarrow> 'w"
  pe_meets :: "'w \<Rightarrow> Meets_Archive"
  pe_tree :: "string \<Rightarrow> 'w \<Rightarrow> Workspace"

text \<open>A commit and a merge carry the world they are asked in.\<close>

datatype 'w effect = Committed string Message 'w | Integrated string string Message 'w | Placed string "archive_write list" | Destroyed string

section \<open>What is said\<close>

datatype promote_fault =
    PromoteCancelled | NotBranchOutput string | PromoteNoVCS | IncompleteOutput "string list" | RelativeWorkTree string
  | PromoteNoWinner | UnknownWinner string | Unpromotable string | WinnerMissing string | PromoteIO string | PromotePolicy policy_error

datatype promote_note =
    NotePromoted Promotion "string list" "string list" | NoteConflicted string string "string list" | NoteUnfinished
  | NoteUnaccounted string "string list" "string list" | NoteBreaks Policy_Rules.Report "Rule list"

definition trailers :: "string \<Rightarrow> string \<Rightarrow> (string \<times> string) list" where
  "trailers run candidate = (''Belay-Run'', run) # (if candidate = [] then [] else [(''Belay-Candidate'', candidate)])"

definition subjectWidth :: nat where "subjectWidth = 72"

definition describe :: "string \<Rightarrow> string \<Rightarrow> string \<times> string" where
  "describe goal run =
     (let full = TrimSpace goal in
      if full = [] then (''belay run '' @ run, [])
      else
        let subject = str_join '' '' (Fields (takeWhile (\<lambda>c. c \<noteq> CHR 0x0A) full));
            subject = (if subjectWidth < length (runes subject) then utf8 (take (subjectWidth - 3) (runes subject)) @ ''...'' else subject)
        in if subject = full then (subject, []) else (subject, full))"

definition unreported_body :: "string list \<Rightarrow> string" where
  "unreported_body files = [CHR 0x0A, CHR 0x0A] @
     ''These files changed during the run and the agent did not report them; belay recorded and judged them with the rest: '' @
     str_join '', '' files @ ''.''"

definition workMessage :: "RunContext \<Rightarrow> string \<Rightarrow> string list \<Rightarrow> Message" where
  "workMessage rc candidate unreported =
     (case describe (RC_Goal rc) (RC_RunID rc) of
        (subject, body) \<Rightarrow> \<lparr>Ms_Subject = subject,
          Ms_Body = (if unreported = [] then body else TrimSpace (body @ unreported_body unreported)),
          Ms_Trailers = trailers (RC_RunID rc) candidate\<rparr>)"

definition mergeMessage :: "RunContext \<Rightarrow> string \<Rightarrow> Message" where
  "mergeMessage rc candidate = \<lparr>Ms_Subject = ''Merge candidate '' @ candidate, Ms_Body = TrimSpace (RC_Goal rc),
     Ms_Trailers = trailers (RC_RunID rc) candidate\<rparr>"

section \<open>Guards\<close>

definition promote_failed :: Result where
  "promote_failed = ended StatusFailed Patch0 []"

definition checkOutput :: "'w Promote_Env \<Rightarrow> RunContext \<Rightarrow> promote_fault option" where
  "checkOutput E rc =
     (let out = RC_Output rc;
          missing = (if Branch out = [] then [''a branch''] else []) @ (if Base out = [] then [''a base commit''] else []) @
            (if WorkTree out = [] then [''a worktree''] else []) in
      if \<not> Branched out then Some (NotBranchOutput (O_Mode out))
      else if \<not> pe_vcs E then Some PromoteNoVCS
      else if missing \<noteq> [] then Some (IncompleteOutput missing)
      else if \<not> filepath_IsAbs (WorkTree out) then Some (RelativeWorkTree (WorkTree out))
      else None)"

text \<open>What the paths of a change are to the run: its own plan, outside the run's directory, not recorded, or recorded.\<close>

definition cut_prefix :: "string \<Rightarrow> string \<Rightarrow> string option" where
  "cut_prefix s p = (if has_prefix p s then Some (drop (length p) s) else None)"

definition archived_path :: "RunContext \<Rightarrow> string" where
  "archived_path rc = (if ArchiveDir rc = [] then [] else Prefix (RC_Output rc) @ archive_Rel (ArchiveDir rc) (RC_RunID rc) (RC_Goal rc))"

definition outside_of :: "RunContext \<Rightarrow> string list \<Rightarrow> string list" where
  "outside_of rc changed = filter (\<lambda>p. p \<noteq> archived_path rc \<and> cut_prefix p (Prefix (RC_Output rc)) = None) changed"

definition stray_of :: "RunContext \<Rightarrow> string list \<Rightarrow> string list \<Rightarrow> string list" where
  "stray_of rc recorded changed = filter (\<lambda>p. p \<noteq> archived_path rc \<and>
     (case cut_prefix p (Prefix (RC_Output rc)) of None \<Rightarrow> False | Some rel \<Rightarrow> rel \<notin> set recorded)) changed"

definition inside_of :: "RunContext \<Rightarrow> string list \<Rightarrow> string list \<Rightarrow> string list" where
  "inside_of rc recorded changed = List.map_filter (\<lambda>p. if p = archived_path rc then None
     else case cut_prefix p (Prefix (RC_Output rc)) of None \<Rightarrow> None | Some rel \<Rightarrow> if rel \<in> set recorded then Some rel else None) changed"

text \<open>The answer: a result to stop with, a fault, or neither.\<close>

definition accountFor :: "(promote_note \<Rightarrow> string) \<Rightarrow> Libs \<Rightarrow> 'w Promote_Env \<Rightarrow> RunContext \<Rightarrow> string \<Rightarrow> string \<Rightarrow> string list \<Rightarrow> 'w \<Rightarrow>
    (Result \<times> promote_fault option) option" where
  "accountFor say L E rc tree ws recorded w =
     (case pe_Changes E tree (Base (RC_Output rc)) w of
        Inl e \<Rightarrow> Some (promote_failed, Some (PromoteIO e))
      | Inr changed \<Rightarrow>
          let stray = stray_of rc recorded changed; outside = outside_of rc changed in
          if stray \<noteq> [] \<or> outside \<noteq> [] then Some (ended StatusPaused Patch0 (say (NoteUnaccounted tree stray outside)), None)
          else case RC_Policy rc of
            None \<Rightarrow> None
          | Some pin \<Rightarrow>
              (case Evaluate L (PP_Policy pin) (Baseline pin) (pe_tree E ws w) \<lparr>Ch_Files = inside_of rc recorded changed, Ch_FoldCase = FoldCase pin\<rparr> of
                 Inl e \<Rightarrow> Some (promote_failed, Some (PromotePolicy e))
               | Inr report \<Rightarrow>
                   if Report_Clean report then None
                   else Some (ended StatusPaused Patch0 (say (NoteBreaks report (rev (remdups (rev (map V_Rule report)))))), None)))"

section \<open>The plan in the commit\<close>

definition archive_plan :: "(string \<Rightarrow> string) \<Rightarrow> 'w Promote_Env \<Rightarrow> RunContext \<Rightarrow> string \<Rightarrow> string \<Rightarrow> (string \<times> string) list \<Rightarrow> 'w \<Rightarrow> 'w \<times> 'w effect list" where
  "archive_plan digest E rc dest_root dir mark w =
     (let rel = archive_Rel (ArchiveDir rc) (RC_RunID rc) (RC_Goal rc);
          carried = (case pe_history E of None \<Rightarrow> Inr False | Some h \<Rightarrow> hi_Carries h dir mark w) in
      if ArchiveDir rc = [] \<or> carried \<noteq> Inr False then (w, [])
      else case archive_Approved digest (pe_source E w) (B_Plan (RC_State rc)) of
        Inl _ \<Rightarrow> (w, [])
      | Inr plan \<Rightarrow>
          (let ws = fst (Place (pe_meets E w) rel plan (pe_files E dest_root w)) in
           (fold (pe_write E dest_root) ws w, [Placed dest_root ws])))"

section \<open>What was promoted\<close>

definition promote_record :: "'w Promote_Env \<Rightarrow> RunContext \<Rightarrow> string \<Rightarrow> string \<Rightarrow> 'w \<Rightarrow> (string, Promotion) result" where
  "promote_record E rc tip candidate w =
     (case pe_Changed E (Base (RC_Output rc)) tip w of
        Inl e \<Rightarrow> Inl e
      | Inr files \<Rightarrow> Inr \<lparr>Pr_Branch = Branch (RC_Output rc), Pr_Base = Base (RC_Output rc), Pr_Commit = tip,
          Pr_Candidate = candidate, Pr_Files = int (length files)\<rparr>)"

text \<open>\<open>clean\<close>: the workspaces that were kept, those that could not be removed, and what was destroyed.\<close>

fun clean_each :: "'w Promote_Env \<Rightarrow> string \<Rightarrow> bool \<Rightarrow> Candidate list \<Rightarrow> 'w \<Rightarrow> 'w \<times> 'w effect list \<times> string list \<times> string list" where
  "clean_each E winner recorded [] w = (w, [], [], [])"
| "clean_each E winner recorded (c # cs) w =
     (if \<not> Ephemeral c then clean_each E winner recorded cs w
      else if C_ID c = winner \<and> \<not> recorded then
        (case clean_each E winner recorded cs w of (w, fx, kept, leaked) \<Rightarrow> (w, fx, C_Dir c # kept, leaked))
      else case pe_Destroy E c w of
        (w, e) \<Rightarrow> (case clean_each E winner recorded cs w of
           (w, fx, kept, leaked) \<Rightarrow> (w, Destroyed (C_ID c) # fx, kept, if e = None then leaked else C_ID c # leaked)))"

definition promoted :: "(promote_note \<Rightarrow> string) \<Rightarrow> Promotion \<Rightarrow> string list \<Rightarrow> string list \<Rightarrow> Result" where
  "promoted say p kept leaked = routed End (Patch0\<lparr>Patch_Promotion := Some p\<rparr>) (say (NotePromoted p kept leaked))"

text \<open>What a commit or a merge that failed makes of the node.\<close>

definition unfinished :: "(promote_note \<Rightarrow> string) \<Rightarrow> commit_error \<Rightarrow> Result \<times> promote_fault option" where
  "unfinished say e = (case e of DirtyTarget \<Rightarrow> (ended StatusPaused Patch0 (say NoteUnfinished), None)
     | CommitFailed why \<Rightarrow> (promote_failed, Some (PromoteIO why)))"

section \<open>The node\<close>

type_synonym 'w promote_answer = "(Result \<times> promote_fault option) \<times> 'w effect list \<times> 'w"

definition promoteRun :: "(promote_note \<Rightarrow> string) \<Rightarrow> (string \<Rightarrow> string) \<Rightarrow> Libs \<Rightarrow> 'w Promote_Env \<Rightarrow> RunContext \<Rightarrow> 'w \<Rightarrow> 'w promote_answer" where
  "promoteRun say digest L E rc w =
     (let tree = WorkTree (RC_Output rc); code = B_Code (RC_State rc) in
      case accountFor say L E rc tree (RC_Workspace rc) (ChangedFiles code) w of
        Some stop \<Rightarrow> (stop, [], w)
      | None \<Rightarrow>
          (case archive_plan digest E rc (RC_Workspace rc) tree (trailers (RC_RunID rc) []) w of
             (w, placed) \<Rightarrow>
               (let msg = workMessage rc [] (Unreported code); fx = placed @ [Committed tree msg w] in
                case pe_Commit E tree msg w of
                  (w, Inl e) \<Rightarrow> (unfinished say e, fx, w)
                | (w, Inr tip) \<Rightarrow>
                    (case promote_record E rc tip [] w of
                       Inl e \<Rightarrow> ((promote_failed, Some (PromoteIO e)), fx, w)
                     | Inr p \<Rightarrow> ((promoted say p [] [], None), fx, w)))))"

definition findWinner :: "Blackboard \<Rightarrow> (promote_fault, Candidate) result" where
  "findWinner st =
     (if Winner st = [] then Inl PromoteNoWinner
      else case List.find (\<lambda>c. C_ID c = Winner st) (Candidates st) of
        None \<Rightarrow> Inl (UnknownWinner (Winner st))
      | Some c \<Rightarrow> Inr c)"

definition mergeable :: "'w Promote_Env \<Rightarrow> Candidate \<Rightarrow> (promote_fault, string \<times> 'w History_Of) result" where
  "mergeable E winner =
     (case pe_branch E of
        None \<Rightarrow> Inl (Unpromotable ''the isolator keeps no branches'')
      | Some branch \<Rightarrow>
          (case pe_history E of
             None \<Rightarrow> Inl (Unpromotable ''the repository has no history'')
           | Some h \<Rightarrow>
               if \<not> filepath_IsAbs (C_Dir winner) then Inl (Unpromotable (C_Dir winner))
               else (case branch (C_ID winner) of Inl e \<Rightarrow> Inl (Unpromotable e) | Inr b \<Rightarrow> Inr (b, h))))"

definition present :: "'w Promote_Env \<Rightarrow> Candidate \<Rightarrow> 'w \<Rightarrow> promote_fault option" where
  "present E winner w = (case pe_stat E (C_Dir winner) w of Present \<Rightarrow> None | Gone \<Rightarrow> Some (WinnerMissing (C_Dir winner))
     | Unseen e \<Rightarrow> Some (PromoteIO e))"

definition trim_suffix :: "string \<Rightarrow> string \<Rightarrow> string" where
  "trim_suffix s t = (if has_prefix (rev t) (rev s) then take (length s - length t) s else s)"

definition worktreeTop :: "string \<Rightarrow> string \<Rightarrow> string" where
  "worktreeTop dir pre = (if pre = [] then dir else trim_suffix (Clean dir) (CHR ''/'' # trim_suffix pre ''/''))"

text \<open>The end both ways to a promoted winner share: the tip, the record, and the workspaces.\<close>

definition finish_winner :: "(promote_note \<Rightarrow> string) \<Rightarrow> 'w Promote_Env \<Rightarrow> 'w History_Of \<Rightarrow> RunContext \<Rightarrow> Candidate \<Rightarrow> bool \<Rightarrow> 'w \<Rightarrow> 'w promote_answer" where
  "finish_winner say E h rc winner recorded w =
     (case hi_Tip h (WorkTree (RC_Output rc)) w of
        Inl e \<Rightarrow> ((promote_failed, Some (PromoteIO e)), [], w)
      | Inr tip \<Rightarrow>
          (case promote_record E rc tip (C_ID winner) w of
             Inl e \<Rightarrow> ((promote_failed, Some (PromoteIO e)), [], w)
           | Inr p \<Rightarrow>
               (case clean_each E (C_ID winner) recorded (Candidates (RC_State rc)) w of
                  (w, fx, kept, leaked) \<Rightarrow> ((promoted say p kept leaked, None), fx, w))))"

text \<open>The way of a winner the branch does not hold yet: account for it, commit it, merge it, ask again.\<close>

definition merge_winner :: "(promote_note \<Rightarrow> string) \<Rightarrow> (string \<Rightarrow> string) \<Rightarrow> Libs \<Rightarrow> 'w Promote_Env \<Rightarrow> 'w History_Of \<Rightarrow> RunContext \<Rightarrow> Candidate \<Rightarrow>
    string \<Rightarrow> 'w \<Rightarrow> 'w promote_answer" where
  "merge_winner say digest L E h rc winner branch w =
     (let mark = trailers (RC_RunID rc) (C_ID winner); tree = WorkTree (RC_Output rc) in
      case present E winner w of
        Some f \<Rightarrow> ((promote_failed, Some f), [], w)
      | None \<Rightarrow>
     (case accountFor say L E rc (worktreeTop (C_Dir winner) (Prefix (RC_Output rc))) (C_Dir winner) (C_ChangedFiles winner) w of
        Some stop \<Rightarrow> (stop, [], w)
      | None \<Rightarrow>
     (case archive_plan digest E rc (C_Dir winner) (C_Dir winner) mark w of
        (w, placed) \<Rightarrow>
          (let msg = workMessage rc (C_ID winner) (C_Unreported winner); fx = placed @ [Committed (C_Dir winner) msg w] in
           case pe_Commit E (C_Dir winner) msg w of
             (w, Inl e) \<Rightarrow> (unfinished say e, fx, w)
           | (w, Inr _) \<Rightarrow>
               (let fx = fx @ [Integrated tree branch (mergeMessage rc (C_ID winner)) w] in
                case pe_Integrate E tree branch (mergeMessage rc (C_ID winner)) w of
                  (w, Inl e) \<Rightarrow> (unfinished say e, fx, w)
                | (w, Inr merge) \<Rightarrow>
                    if In_Conflicts merge \<noteq> [] then
                      ((ended StatusPaused Patch0 (say (NoteConflicted (C_ID winner) branch (sort (In_Conflicts merge)))), None), fx, w)
                    else (case hi_Carries h tree mark w of
                       Inl e \<Rightarrow> ((promote_failed, Some (PromoteIO e)), fx, w)
                     | Inr recorded \<Rightarrow>
                         (case finish_winner say E h rc winner recorded w of (r, fx', w) \<Rightarrow> (r, fx @ fx', w))))))))"

definition promoteWinner :: "(promote_note \<Rightarrow> string) \<Rightarrow> (string \<Rightarrow> string) \<Rightarrow> Libs \<Rightarrow> 'w Promote_Env \<Rightarrow> RunContext \<Rightarrow> 'w \<Rightarrow> 'w promote_answer" where
  "promoteWinner say digest L E rc w =
     (case findWinner (RC_State rc) of
        Inl f \<Rightarrow> ((promote_failed, Some f), [], w)
      | Inr winner \<Rightarrow>
     (case mergeable E winner of
        Inl f \<Rightarrow> ((promote_failed, Some f), [], w)
      | Inr (branch, h) \<Rightarrow>
     (case hi_Carries h (WorkTree (RC_Output rc)) (trailers (RC_RunID rc) (C_ID winner)) w of
        Inl e \<Rightarrow> ((promote_failed, Some (PromoteIO e)), [], w)
      | Inr True \<Rightarrow> finish_winner say E h rc winner True w
      | Inr False \<Rightarrow> merge_winner say digest L E h rc winner branch w)))"

definition Promote_Run :: "(promote_note \<Rightarrow> string) \<Rightarrow> (string \<Rightarrow> string) \<Rightarrow> Libs \<Rightarrow> Meets \<Rightarrow> 'w Promote_Env \<Rightarrow> RunContext \<Rightarrow> 'w \<Rightarrow> 'w promote_answer" where
  "Promote_Run say digest L m E rc w =
     (if n_cancelled m then ((ended StatusAborted Patch0 [], Some PromoteCancelled), [], w)
      else case checkOutput E rc of
        Some f \<Rightarrow> ((promote_failed, Some f), [], w)
      | None \<Rightarrow> if Candidates (RC_State rc) = [] \<and> Winner (RC_State rc) = [] then promoteRun say digest L E rc w
          else promoteWinner say digest L E rc w)"

section \<open>What is committed was accounted for\<close>

lemma List_map_filter_set: "set (List.map_filter f xs) = {y. \<exists>x \<in> set xs. f x = Some y}"
  by (force simp: List.map_filter_def)

text \<open>A change the node may commit: every path of it the run recorded, its own plan aside, and the pinned policy obeyed.\<close>

definition accounted :: "Libs \<Rightarrow> 'w Promote_Env \<Rightarrow> RunContext \<Rightarrow> string \<Rightarrow> string \<Rightarrow> string list \<Rightarrow> 'w \<Rightarrow> bool" where
  "accounted L E rc tree ws recorded w \<longleftrightarrow> (\<exists>changed. pe_Changes E tree (Base (RC_Output rc)) w = Inr changed \<and>
     (\<forall>p \<in> set changed. p = archived_path rc \<or> (\<exists>rel \<in> set recorded. p = Prefix (RC_Output rc) @ rel)) \<and>
     (\<forall>pin. RC_Policy rc = Some pin \<longrightarrow> (\<exists>report. Report_Clean report \<and>
        Evaluate L (PP_Policy pin) (Baseline pin) (pe_tree E ws w) \<lparr>Ch_Files = inside_of rc recorded changed, Ch_FoldCase = FoldCase pin\<rparr> = Inr report)))"

lemma cut_prefix_Some: "cut_prefix p pre = Some rel \<Longrightarrow> p = pre @ rel"
  by (auto simp: cut_prefix_def has_prefix_def split: if_splits) (metis append_take_drop_id)

lemma filter_none: "filter F xs = [] \<Longrightarrow> x \<in> set xs \<Longrightarrow> \<not> F x"
  by (auto simp: filter_empty_conv)

lemma accountFor_None:
  assumes "accountFor say L E rc tree ws recorded w = None" shows "accounted L E rc tree ws recorded w"
proof -
  obtain changed where c: "pe_Changes E tree (Base (RC_Output rc)) w = Inr changed" "stray_of rc recorded changed = []" "outside_of rc changed = []"
    using assms by (auto simp: accountFor_def Let_def split: sum.splits if_splits)
  have paths: "p = archived_path rc \<or> (\<exists>rel \<in> set recorded. p = Prefix (RC_Output rc) @ rel)" if "p \<in> set changed" for p
  proof (cases "p = archived_path rc")
    case False
    have "cut_prefix p (Prefix (RC_Output rc)) \<noteq> None"
      using filter_none [OF c(3) [unfolded outside_of_def] that] False by simp
    then obtain rel where rel: "cut_prefix p (Prefix (RC_Output rc)) = Some rel" by blast
    then have "rel \<in> set recorded" using filter_none [OF c(2) [unfolded stray_of_def] that] False by simp
    then show ?thesis using cut_prefix_Some [OF rel] by blast
  qed simp
  have pol: "\<exists>report. Report_Clean report \<and> Evaluate L (PP_Policy pin) (Baseline pin) (pe_tree E ws w)
      \<lparr>Ch_Files = inside_of rc recorded changed, Ch_FoldCase = FoldCase pin\<rparr> = Inr report" if "RC_Policy rc = Some pin" for pin
    using assms c that by (auto simp: accountFor_def split: sum.splits if_splits)
  show ?thesis unfolding accounted_def using c(1) paths pol by blast
qed

text \<open>An effect that changes a branch, and the workspaces that were removed.\<close>

fun branches :: "'w effect \<Rightarrow> bool" where
  "branches (Committed d msg w) \<longleftrightarrow> True" | "branches (Integrated d b msg w) \<longleftrightarrow> True"
| "branches (Placed d ws) \<longleftrightarrow> False" | "branches (Destroyed c) \<longleftrightarrow> False"

definition destroys_of :: "'w effect list \<Rightarrow> string list" where
  "destroys_of fx = List.map_filter (\<lambda>f. case f of Destroyed c \<Rightarrow> Some c | _ \<Rightarrow> None) fx"

lemma destroys_append [simp]:
  "destroys_of (xs @ ys) = destroys_of xs @ destroys_of ys"
  "destroys_of (f # fs) = (case f of Destroyed c \<Rightarrow> [c] | _ \<Rightarrow> []) @ destroys_of fs" "destroys_of [] = []"
  by (simp_all add: destroys_of_def map_filter_simps List.map_filter_def split: effect.split)

text \<open>What archiving may change in a tree: the plan's path and the temporary file beside it.\<close>

definition plan_rel :: "RunContext \<Rightarrow> string" where
  "plan_rel rc = archive_Rel (ArchiveDir rc) (RC_RunID rc) (RC_Goal rc)"

definition archive_paths :: "RunContext \<Rightarrow> string set" where
  "archive_paths rc = (if ArchiveDir rc = [] then {} else {archived_path rc, Prefix (RC_Output rc) @ tempPath (plan_rel rc)})"

lemma plan_rel_clean [simp]: "Clean (plan_rel rc) = plan_rel rc"
  by (simp add: plan_rel_def archive_Rel_def path_Join_def Filename_def)

definition archive_writes :: "RunContext \<Rightarrow> archive_write list \<Rightarrow> bool" where
  "archive_writes rc ws \<longleftrightarrow> (ws \<noteq> [] \<longrightarrow> ArchiveDir rc \<noteq> []) \<and> (\<forall>x \<in> set ws. \<exists>e. x = SetFile (plan_rel rc) e \<or> x = SetFile (tempPath (plan_rel rc)) e)"

lemma archive_plan_effects:
  assumes "archive_plan digest E rc dest_root dir mark w = (w', fx)"
  shows "destroys_of fx = []" "f \<in> set fx \<Longrightarrow> \<not> branches f" "\<exists>ws. w' = fold (pe_write E dest_root) ws w \<and> archive_writes rc ws"
proof -
  consider "w' = w" "fx = []"
    | plan ws where "ArchiveDir rc \<noteq> []" "ws = fst (Place (pe_meets E w) (plan_rel rc) plan (pe_files E dest_root w))"
      "w' = fold (pe_write E dest_root) ws w" "fx = [Placed dest_root ws]"
  proof (cases "w' = w \<and> fx = []")
    case False
    let ?carried = "case pe_history E of None \<Rightarrow> Inr False | Some h \<Rightarrow> hi_Carries h dir mark w"
    have g: "\<not> (ArchiveDir rc = [] \<or> ?carried \<noteq> Inr False)"
      using False assms unfolding archive_plan_def Let_def by (metis prod.inject)
    then obtain plan where plan: "archive_Approved digest (pe_source E w) (B_Plan (RC_State rc)) = Inr plan"
      using False assms unfolding archive_plan_def Let_def by (cases "archive_Approved digest (pe_source E w) (B_Plan (RC_State rc))") simp_all
    show thesis
      by (rule that(2) [OF _ refl, of plan]) (use g plan assms in \<open>simp_all add: archive_plan_def Let_def plan_rel_def\<close>)
  qed (use that(1) in blast)
  then have "destroys_of fx = [] \<and> (\<forall>f \<in> set fx. \<not> branches f) \<and> (\<exists>ws. w' = fold (pe_write E dest_root) ws w \<and> archive_writes rc ws)"
  proof cases
    case 1
    then show ?thesis by (auto simp: archive_writes_def intro!: exI [of _ "[]"])
  next
    case (2 plan ws)
    have "\<forall>x \<in> set ws. place_write (plan_rel rc) (pe_files E dest_root w) x"
      using Place_writes [of "pe_meets E w" "plan_rel rc" plan "pe_files E dest_root w" ws] 2(2) by (metis plan_rel_clean prod.collapse)
    then have "archive_writes rc ws" using 2(1) by (fastforce simp: archive_writes_def place_write_def)
    then show ?thesis using 2 by auto
  qed
  then show "destroys_of fx = []" "f \<in> set fx \<Longrightarrow> \<not> branches f" "\<exists>ws. w' = fold (pe_write E dest_root) ws w \<and> archive_writes rc ws"
    by auto
qed

section \<open>What a tree holds when it is committed\<close>

text \<open>What a repository says of a working tree: a file is listed when it differs from the base, so changing some files below a
  directory of the tree adds at most those files to the listing.\<close>

definition tree_tracks :: "'w Promote_Env \<Rightarrow> RunContext \<Rightarrow> string \<Rightarrow> string \<Rightarrow> bool" where
  "tree_tracks E rc tree dir \<longleftrightarrow> (\<forall>ws w changed changed'.
     pe_Changes E tree (Base (RC_Output rc)) w = Inr changed \<and>
     pe_Changes E tree (Base (RC_Output rc)) (fold (pe_write E dir) ws w) = Inr changed' \<longrightarrow>
     set changed' \<subseteq> set changed \<union> {Prefix (RC_Output rc) @ p | p e. SetFile p e \<in> set ws})"

text \<open>In the world of a commit: every path the tree has changed is one the run recorded, its plan's, or the plan's temporary file's.\<close>

definition only_accounted :: "'w Promote_Env \<Rightarrow> RunContext \<Rightarrow> string \<Rightarrow> string list \<Rightarrow> 'w \<Rightarrow> bool" where
  "only_accounted E rc tree recorded w \<longleftrightarrow> (\<forall>changed. pe_Changes E tree (Base (RC_Output rc)) w = Inr changed \<longrightarrow>
     (\<forall>p \<in> set changed. p = archived_path rc \<or> p \<in> archive_paths rc \<or> (\<exists>rel \<in> set recorded. p = Prefix (RC_Output rc) @ rel)))"

lemma archived_path_rel: "ArchiveDir rc \<noteq> [] \<Longrightarrow> archived_path rc = Prefix (RC_Output rc) @ plan_rel rc"
  by (simp add: archived_path_def plan_rel_def)

lemma still_accounted:
  assumes "accounted L E rc tree ws0 recorded w" "archive_plan digest E rc dir d mark w = (w', fx)" "tree_tracks E rc tree dir"
  shows "only_accounted E rc tree recorded w'"
proof -
  obtain ws where ws: "w' = fold (pe_write E dir) ws w" "archive_writes rc ws" using archive_plan_effects(3) [OF assms(2)] by blast
  obtain changed where c: "pe_Changes E tree (Base (RC_Output rc)) w = Inr changed"
    "\<forall>p \<in> set changed. p = archived_path rc \<or> (\<exists>rel \<in> set recorded. p = Prefix (RC_Output rc) @ rel)"
    using assms(1) unfolding accounted_def by blast
  have "p = archived_path rc \<or> p \<in> archive_paths rc \<or> (\<exists>rel \<in> set recorded. p = Prefix (RC_Output rc) @ rel)"
    if n: "pe_Changes E tree (Base (RC_Output rc)) w' = Inr changed'" "p \<in> set changed'" for changed' p
  proof -
    from assms(3) c(1) n(1) have "set changed' \<subseteq> set changed \<union> {Prefix (RC_Output rc) @ p | p e. SetFile p e \<in> set ws}"
      unfolding tree_tracks_def ws(1) by blast
    then consider "p \<in> set changed" | q e where "p = Prefix (RC_Output rc) @ q" "SetFile q e \<in> set ws" using n(2) by blast
    then show ?thesis
    proof cases
      case (2 q e)
      then have "ArchiveDir rc \<noteq> []" "q = plan_rel rc \<or> q = tempPath (plan_rel rc)" using ws(2) by (auto simp: archive_writes_def)
      then show ?thesis using 2(1) archived_path_rel by (auto simp: archive_paths_def)
    qed (use c(2) in blast)
  qed
  then show ?thesis unfolding only_accounted_def by blast
qed

text \<open>A commit the node may ask for: the tree was accounted for, and in the world of the commit it still is.\<close>

definition commit_ok :: "Libs \<Rightarrow> 'w Promote_Env \<Rightarrow> RunContext \<Rightarrow> string \<Rightarrow> string \<Rightarrow> string list \<Rightarrow> 'w \<Rightarrow> 'w \<Rightarrow> bool" where
  "commit_ok L E rc tree ws recorded w wc \<longleftrightarrow> accounted L E rc tree ws recorded w \<and> (tree_tracks E rc tree ws \<longrightarrow> only_accounted E rc tree recorded wc)"

lemma commit_okI:
  assumes "accountFor say L E rc tree ws recorded w = None" "archive_plan digest E rc ws d mark w = (wc, fx)"
  shows "commit_ok L E rc tree ws recorded w wc"
  using accountFor_None [OF assms(1)] still_accounted [OF _ assms(2)] unfolding commit_ok_def by blast

lemma clean_effects:
  "clean_each E winner recorded cs w = (w', fx, kept, leaked) \<Longrightarrow>
     (\<forall>f \<in> set fx. \<not> branches f) \<and> set (destroys_of fx) \<subseteq> C_ID ` set (filter Ephemeral cs) \<and> (\<not> recorded \<longrightarrow> winner \<notin> set (destroys_of fx))"
proof (induction cs arbitrary: w w' fx kept leaked)
  case (Cons c cs)
  obtain w1 e where d: "pe_Destroy E c w = (w1, e)" by fastforce
  obtain w2 fx2 k2 l2 where a: "clean_each E winner recorded cs w = (w2, fx2, k2, l2)" by (metis prod_cases4)
  obtain w3 fx3 k3 l3 where b: "clean_each E winner recorded cs w1 = (w3, fx3, k3, l3)" by (metis prod_cases4)
  show ?case using Cons.prems Cons.IH [OF a] Cons.IH [OF b] a b d by (auto split: if_splits)
qed auto

lemma promoteRun_effects:
  assumes "promoteRun say digest L E rc w = (a, fx, w')"
  shows "destroys_of fx = []" "f \<in> set fx \<Longrightarrow> branches f \<Longrightarrow> \<exists>msg wc. f = Committed (WorkTree (RC_Output rc)) msg wc \<and>
    commit_ok L E rc (WorkTree (RC_Output rc)) (RC_Workspace rc) (ChangedFiles (B_Code (RC_State rc))) w wc"
proof -
  let ?tree = "WorkTree (RC_Output rc)" and ?code = "B_Code (RC_State rc)"
  let ?ok = "commit_ok L E rc ?tree (RC_Workspace rc) (ChangedFiles ?code) w"
  have "destroys_of fx = [] \<and> (\<forall>f \<in> set fx. branches f \<longrightarrow> (\<exists>msg wc. f = Committed ?tree msg wc \<and> ?ok wc))"
  proof (cases "accountFor say L E rc ?tree (RC_Workspace rc) (ChangedFiles ?code) w")
    case None
    obtain w1 placed where p: "archive_plan digest E rc (RC_Workspace rc) ?tree (trailers (RC_RunID rc) []) w = (w1, placed)" by fastforce
    have "fx = placed @ [Committed ?tree (workMessage rc [] (Unreported ?code)) w1]"
      using assms None p by (auto simp: promoteRun_def Let_def split: prod.splits sum.splits)
    then show ?thesis using archive_plan_effects(1,2) [OF p] commit_okI [OF None p] by auto
  qed (use assms in \<open>auto simp: promoteRun_def Let_def\<close>)
  then show "destroys_of fx = []" "f \<in> set fx \<Longrightarrow> branches f \<Longrightarrow> \<exists>msg wc. f = Committed ?tree msg wc \<and> ?ok wc" by blast+
qed

lemma finish_winner_effects:
  assumes "finish_winner say E h rc winner recorded w = (a, fx, w')"
  shows "f \<in> set fx \<Longrightarrow> \<not> branches f" "destroys_of fx \<noteq> [] \<Longrightarrow> snd a = None \<and> Patch_Promotion (Res_Patch (fst a)) \<noteq> None"
    "set (destroys_of fx) \<subseteq> C_ID ` set (filter Ephemeral (Candidates (RC_State rc)))"
    "\<not> recorded \<Longrightarrow> C_ID winner \<notin> set (destroys_of fx)"
proof -
  obtain w1 fx1 kept leaked where c: "clean_each E (C_ID winner) recorded (Candidates (RC_State rc)) w = (w1, fx1, kept, leaked)"
    by (metis prod_cases4)
  have "fx = [] \<or> fx = fx1 \<and> (\<exists>p. a = (promoted say p kept leaked, None))"
    using assms c by (auto simp: finish_winner_def split: sum.splits)
  then show "f \<in> set fx \<Longrightarrow> \<not> branches f" "destroys_of fx \<noteq> [] \<Longrightarrow> snd a = None \<and> Patch_Promotion (Res_Patch (fst a)) \<noteq> None"
    "set (destroys_of fx) \<subseteq> C_ID ` set (filter Ephemeral (Candidates (RC_State rc)))"
    "\<not> recorded \<Longrightarrow> C_ID winner \<notin> set (destroys_of fx)"
    using clean_effects [OF c] by (auto simp: promoted_def)
qed

text \<open>A winner's way, in one statement: what was placed, committed and merged, in which worlds, and what the end did.\<close>

lemma merge_winner_cases:
  assumes "merge_winner say digest L E h rc winner branch w = (a, fx, w')"
  obtains (nothing) "fx = []"
  | (tried) placed msg wc more fx1 where "fx = placed @ [Committed (C_Dir winner) msg wc] @ more @ fx1"
      "\<forall>f \<in> set placed. \<not> branches f" "destroys_of placed = []"
      "commit_ok L E rc (worktreeTop (C_Dir winner) (Prefix (RC_Output rc))) (C_Dir winner) (C_ChangedFiles winner) w wc"
      "more = [] \<or> (\<exists>tip wi. pe_Commit E (C_Dir winner) msg wc = (wi, Inr tip) \<and> more = [Integrated (WorkTree (RC_Output rc)) branch (mergeMessage rc (C_ID winner)) wi])"
      "fx1 = [] \<or> (\<exists>b w1. hi_Carries h (WorkTree (RC_Output rc)) (trailers (RC_RunID rc) (C_ID winner)) w1 = Inr b \<and>
         finish_winner say E h rc winner b w1 = (a, fx1, w'))"
proof (cases "present E winner w = None \<and> accountFor say L E rc (worktreeTop (C_Dir winner) (Prefix (RC_Output rc))) (C_Dir winner) (C_ChangedFiles winner) w = None")
  case False
  then have "fx = []" using assms by (auto simp: merge_winner_def Let_def split: option.splits)
  then show thesis by (rule nothing)
next
  case True
  let ?mark = "trailers (RC_RunID rc) (C_ID winner)" and ?tree = "WorkTree (RC_Output rc)"
  let ?msg = "workMessage rc (C_ID winner) (C_Unreported winner)" and ?mm = "mergeMessage rc (C_ID winner)"
  obtain w1 placed where p: "archive_plan digest E rc (C_Dir winner) (C_Dir winner) ?mark w = (w1, placed)" by fastforce
  have pe: "\<forall>f \<in> set placed. \<not> branches f" "destroys_of placed = []" using archive_plan_effects(1,2) [OF p] by simp_all
  have ok: "commit_ok L E rc (worktreeTop (C_Dir winner) (Prefix (RC_Output rc))) (C_Dir winner) (C_ChangedFiles winner) w w1"
    using commit_okI [OF _ p] True by blast
  obtain w2 c where c: "pe_Commit E (C_Dir winner) ?msg w1 = (w2, c)" by fastforce
  show thesis
  proof (cases c)
    case (Inl e)
    then have "fx = placed @ [Committed (C_Dir winner) ?msg w1] @ [] @ []" using assms True p c by (auto simp: merge_winner_def Let_def)
    then show thesis by (rule tried [OF _ pe ok]) simp_all
  next
    case (Inr tip)
    let ?more = "[Integrated ?tree branch ?mm w2]"
    have more: "?more = [] \<or> (\<exists>tip wi. pe_Commit E (C_Dir winner) ?msg w1 = (wi, Inr tip) \<and> ?more = [Integrated ?tree branch ?mm wi])"
      using c Inr by simp
    obtain w3 i where i: "pe_Integrate E ?tree branch ?mm w2 = (w3, i)" by fastforce
    show thesis
    proof (cases "\<exists>merge b. i = Inr merge \<and> In_Conflicts merge = [] \<and> hi_Carries h ?tree ?mark w3 = Inr b")
      case False
      then have "fx = placed @ [Committed (C_Dir winner) ?msg w1] @ ?more @ []"
        using assms True p c Inr i by (auto simp: merge_winner_def Let_def split: sum.splits if_splits)
      then show thesis by (rule tried [OF _ pe ok more]) simp
    next
      case nc: True
      then obtain merge b where m: "i = Inr merge" "In_Conflicts merge = []" "hi_Carries h ?tree ?mark w3 = Inr b" by blast
      obtain a1 fx1 w4 where f: "finish_winner say E h rc winner b w3 = (a1, fx1, w4)" by (metis prod_cases3)
      have e: "a = a1" "w' = w4" and "fx = placed @ [Committed (C_Dir winner) ?msg w1] @ ?more @ fx1"
        using assms True p c Inr i m f by (simp_all add: merge_winner_def Let_def)
      then show thesis by (intro tried [OF _ pe ok more]) (use m(3) f e in blast)+
    qed
  qed
qed

lemma finish_winner_cleans:
  assumes "finish_winner say E h rc winner recorded w = (a, fx, w')" "destroys_of fx \<noteq> []"
  shows "\<exists>kept leaked. clean_each E (C_ID winner) recorded (Candidates (RC_State rc)) w = (w', fx, kept, leaked)"
  using assms by (auto simp: finish_winner_def split: sum.splits prod.splits)

lemma findWinner_ok: "findWinner st = Inr c \<Longrightarrow> c \<in> set (Candidates st) \<and> C_ID c = Winner st \<and> Winner st \<noteq> []"
  by (auto simp: findWinner_def find_Some_iff split: if_splits option.splits)

lemma promoteWinner_cases:
  assumes "promoteWinner say digest L E rc w = (a, fx, w')" "fx \<noteq> []"
  obtains (held) c h where "findWinner (RC_State rc) = Inr c" "pe_history E = Some h"
      "hi_Carries h (WorkTree (RC_Output rc)) (trailers (RC_RunID rc) (C_ID c)) w = Inr True" "finish_winner say E h rc c True w = (a, fx, w')"
  | (merge) c h branch where "findWinner (RC_State rc) = Inr c" "pe_history E = Some h" "merge_winner say digest L E h rc c branch w = (a, fx, w')"
      "\<exists>keep. pe_branch E = Some keep \<and> keep (C_ID c) = Inr branch"
proof -
  obtain c where c: "findWinner (RC_State rc) = Inr c" using assms by (cases "findWinner (RC_State rc)") (auto simp: promoteWinner_def)
  obtain branch h where m: "mergeable E c = Inr (branch, h)" using assms c by (cases "mergeable E c") (auto simp: promoteWinner_def)
  then have h: "pe_history E = Some h" "\<exists>keep. pe_branch E = Some keep \<and> keep (C_ID c) = Inr branch"
    by (auto simp: mergeable_def split: option.splits if_splits sum.splits)
  obtain b where b: "hi_Carries h (WorkTree (RC_Output rc)) (trailers (RC_RunID rc) (C_ID c)) w = Inr b"
    using assms c m by (cases "hi_Carries h (WorkTree (RC_Output rc)) (trailers (RC_RunID rc) (C_ID c)) w") (auto simp: promoteWinner_def)
  show thesis
  proof (cases b)
    case True
    then show thesis using held [OF c h(1)] b assms(1) c m by (simp add: promoteWinner_def)
  next
    case False
    then show thesis using merge [OF c h(1) _ h(2)] b assms(1) c m by (simp add: promoteWinner_def)
  qed
qed

lemma Promote_Run_cases:
  assumes "Promote_Run say digest L m E rc w = (a, fx, w')" "fx \<noteq> []"
  obtains (run) "Candidates (RC_State rc) = []" "Winner (RC_State rc) = []" "promoteRun say digest L E rc w = (a, fx, w')"
  | (winner) "promoteWinner say digest L E rc w = (a, fx, w')"
  using assms by (auto simp: Promote_Run_def split: if_splits option.splits)


text \<open>
  C14. Nothing is thrown away before it is held. The node removes workspaces only on its way to a recorded promotion, only
  those of candidates that are temporary, and the winner's own only in a state of the repository in which the run's
  branch has just been found to carry a commit with the trailers of this run and this candidate.
\<close>

theorem winner_destroyed_only_when_held:
  assumes "Promote_Run say digest L m E rc w = (a, fx, w')" "destroys_of fx \<noteq> []"
  shows "snd a = None \<and> Patch_Promotion (Res_Patch (fst a)) \<noteq> None \<and>
    set (destroys_of fx) \<subseteq> C_ID ` set (filter Ephemeral (Candidates (RC_State rc))) \<and>
    (Winner (RC_State rc) \<in> set (destroys_of fx) \<longrightarrow>
      (\<exists>h w1 before fx1 kept leaked. pe_history E = Some h \<and> fx = before @ fx1 \<and> destroys_of before = [] \<and>
         hi_Carries h (WorkTree (RC_Output rc)) (trailers (RC_RunID rc) (Winner (RC_State rc))) w1 = Inr True \<and>
         clean_each E (Winner (RC_State rc)) True (Candidates (RC_State rc)) w1 = (w', fx1, kept, leaked)))"
proof -
  have "fx \<noteq> []" using assms(2) by auto
  from assms(1) this show ?thesis
  proof (cases rule: Promote_Run_cases)
    case run
    show ?thesis using promoteRun_effects(1) [OF run(3)] assms(2) by simp
  next
    case winner
    obtain c h w1 b before fx1 where p: "findWinner (RC_State rc) = Inr c" "pe_history E = Some h" "fx = before @ fx1" "destroys_of before = []"
      "hi_Carries h (WorkTree (RC_Output rc)) (trailers (RC_RunID rc) (C_ID c)) w1 = Inr b" "finish_winner say E h rc c b w1 = (a, fx1, w')"
      using winner \<open>fx \<noteq> []\<close>
    proof (cases rule: promoteWinner_cases)
      case (held c h)
      show thesis by (rule that [where before = "[]", OF held(1,2) _ _ held(3,4)]) simp_all
    next
      case (merge c h branch)
      from merge(3) show thesis
      proof (cases rule: merge_winner_cases)
        case (tried placed msg wc more fx1)
        let ?before = "placed @ [Committed (C_Dir c) msg wc] @ more"
        have b: "fx = ?before @ fx1" "destroys_of ?before = []" using tried(1,3,5) by auto
        then have "fx1 \<noteq> []" using assms(2) by auto
        then obtain b w1 where "hi_Carries h (WorkTree (RC_Output rc)) (trailers (RC_RunID rc) (C_ID c)) w1 = Inr b"
          "finish_winner say E h rc c b w1 = (a, fx1, w')" using tried(6) by blast
        then show thesis by (rule that [OF merge(1,2) b])
      qed (use assms(2) in auto)
    qed
    have w: "C_ID c = Winner (RC_State rc)" using findWinner_ok [OF p(1)] by simp
    have d: "destroys_of fx = destroys_of fx1" using p(3,4) by simp
    note fe = finish_winner_effects [OF p(6)]
    have carried: "\<exists>h w1 before fx1 kept leaked. pe_history E = Some h \<and> fx = before @ fx1 \<and> destroys_of before = [] \<and>
         hi_Carries h (WorkTree (RC_Output rc)) (trailers (RC_RunID rc) (Winner (RC_State rc))) w1 = Inr True \<and>
         clean_each E (Winner (RC_State rc)) True (Candidates (RC_State rc)) w1 = (w', fx1, kept, leaked)"
      if win: "Winner (RC_State rc) \<in> set (destroys_of fx)"
    proof -
      have b: "b" using fe(4) win d w by auto
      obtain kept leaked where "clean_each E (C_ID c) b (Candidates (RC_State rc)) w1 = (w', fx1, kept, leaked)"
        using finish_winner_cleans [OF p(6)] assms(2) d by auto
      then show ?thesis using p b w by (intro exI [of _ h] exI [of _ w1] exI [of _ before] exI [of _ fx1]) auto
    qed
    show ?thesis using fe(2,3) assms(2) d carried by simp
  qed
qed

section \<open>Two promotions\<close>

definition own_branch :: Output where
  "own_branch = \<lparr>O_Mode = OutputBranch, Repo = ''/r'', Branch = ''belay/r'', Base = ''b'', BaseRef = ''main'', WorkTree = ''/wt'', Prefix = [], PullRequest = False\<rparr>"

definition held_history :: "string list History_Of" where
  "held_history = \<lparr>hi_Tip = (\<lambda>_ _. Inr ''tip''), hi_Carries = (\<lambda>_ _ _. Inr True)\<rparr>"

text \<open>A repository whose world is the files a tree has changed.\<close>

definition one_file_repo :: "string list Promote_Env" where
  "one_file_repo = \<lparr>pe_vcs = True, pe_Changes = (\<lambda>_ _ w. Inr w), pe_Commit = (\<lambda>_ _ w. (w, Inr ''tip'')),
     pe_Integrate = (\<lambda>_ _ _ w. (w, Inr \<lparr>In_Tip = ''tip'', In_Conflicts = []\<rparr>)), pe_Changed = (\<lambda>_ _ w. Inr w),
     pe_history = Some held_history, pe_branch = Some (\<lambda>i. Inr i), pe_Destroy = (\<lambda>_ w. (w, None)), pe_stat = (\<lambda>_ _. Present),
     pe_source = (\<lambda>_. Inr (Some ''p'')), pe_files = (\<lambda>_ w p. if p \<in> set w then Regular ''x'' else Absent),
     pe_write = (\<lambda>_ x w. case x of SetFile p e \<Rightarrow> if e = Absent then removeAll p w else List.insert p w | _ \<Rightarrow> w),
     pe_meets = (\<lambda>_. untroubled), pe_tree = (\<lambda>_ _. small_workspace)\<rparr>"

definition winner_candidate :: Candidate where
  "winner_candidate = (sample_candidate ''c1'' True 0 0 1)\<lparr>Ephemeral := True, C_Dir := ''/c/c1'', C_ChangedFiles := [''a.go'']\<rparr>"

definition winner_board :: Blackboard where
  "winner_board = (NewState ''g'')\<lparr>Winner := ''c1'', Candidates := [winner_candidate]\<rparr>"

lemma winner_simps [simp]:
  "C_ID winner_candidate = ''c1''" "Ephemeral winner_candidate" "C_Dir winner_candidate = ''/c/c1''"
  "C_ChangedFiles winner_candidate = [''a.go'']" "Winner winner_board = ''c1''" "Candidates winner_board = [winner_candidate]"
  "hi_Carries held_history d t u = Inr True" "hi_Tip held_history d u = Inr ''tip''"
  by (simp_all add: winner_candidate_def sample_candidate_def winner_board_def held_history_def)

lemma one_file_repo_simps [simp]:
  "pe_vcs one_file_repo" "pe_Changes one_file_repo t v u = Inr u" "pe_Commit one_file_repo t msg u = (u, Inr ''tip'')"
  "pe_Changed one_file_repo b v u = Inr u" "pe_history one_file_repo = Some held_history" "pe_branch one_file_repo = Some (\<lambda>i. Inr i)"
  "pe_Destroy one_file_repo c u = (u, None)" "pe_source one_file_repo u = Inr (Some ''p'')" "pe_meets one_file_repo u = untroubled"
  "pe_write one_file_repo d (SetFile p e) u = (if e = Absent then removeAll p u else List.insert p u)"
  "pe_files one_file_repo d u p = (if p \<in> set u then Regular ''x'' else Absent)"
  by (simp_all add: one_file_repo_def)

text \<open>A repository without a history, which takes the plan into every commit.\<close>

definition plain_repo :: "string list Promote_Env" where
  "plain_repo = one_file_repo\<lparr>pe_history := None\<rparr>"

lemma plain_repo_simps [simp]:
  "pe_vcs plain_repo" "pe_Changes plain_repo t v u = Inr u" "pe_Commit plain_repo t msg u = (u, Inr ''tip'')"
  "pe_Changed plain_repo b v u = Inr u" "pe_history plain_repo = None" "pe_source plain_repo u = Inr (Some ''p'')" "pe_meets plain_repo u = untroubled"
  "pe_write plain_repo d (SetFile p e) u = (if e = Absent then removeAll p u else List.insert p u)"
  "pe_write plain_repo d x u = (case x of SetFile p e \<Rightarrow> if e = Absent then removeAll p u else List.insert p u | _ \<Rightarrow> u)"
  "pe_files plain_repo d u p = (if p \<in> set u then Regular ''x'' else Absent)"
  by (simp_all add: plain_repo_def one_file_repo_def)


definition run_board :: Blackboard where
  "run_board = (NewState ''g'')\<lparr>B_Plan := waiting_plan, B_Code := \<lparr>SessionID = [], LastDiff = [], ChangedFiles = [''a.go''], Unreported = []\<rparr>\<rparr>"

definition promote_context :: "string \<Rightarrow> Blackboard \<Rightarrow> RunContext" where
  "promote_context dir st = (sample_context st None)\<lparr>RC_RunID := ''r'', RC_Goal := ''g'', ArchiveDir := dir, RC_Output := own_branch\<rparr>"

definition promote_demo :: "string list Promote_Env \<Rightarrow> string \<Rightarrow> Blackboard \<Rightarrow> string list promote_answer" where
  "promote_demo E dir st = Promote_Run (\<lambda>_. []) (\<lambda>_. ''d'') plain_libs Gates.calm E (promote_context dir st) [''a.go'']"

lemma promote_context_simps [simp]:
  "RC_State (promote_context d st) = st" "RC_Output (promote_context d st) = own_branch" "RC_Policy (promote_context d st) = None"
  "ArchiveDir (promote_context d st) = d" "RC_RunID (promote_context d st) = ''r''" "RC_Goal (promote_context d st) = ''g''"
  by (simp_all add: promote_context_def sample_context_def)

lemma own_branch_simps [simp]:
  "Prefix own_branch = []" "WorkTree own_branch = ''/wt''" "Branched own_branch" "Base own_branch = ''b''"
  by (simp_all add: own_branch_def Branched_def)

lemma run_board_simps [simp]:
  "Candidates run_board = []" "Winner run_board = []" "ChangedFiles (B_Code run_board) = [''a.go'']" "B_Plan run_board = waiting_plan"
  by (simp_all add: run_board_def NewState_def)

lemma promote_output: "pe_vcs E \<Longrightarrow> checkOutput E (promote_context d st) = None"
  by (simp add: checkOutput_def) (simp add: own_branch_def filepath_IsAbs_def)




theorem winner_destroyed_only_when_held_witness:
  "destroys_of (fst (snd (promote_demo one_file_repo [] winner_board))) = [''c1''] \<and>
   Patch_Promotion (Res_Patch (fst (fst (promote_demo one_file_repo [] winner_board)))) \<noteq> None"
proof -
  obtain a fx w' where d: "promote_demo one_file_repo [] winner_board = (a, fx, w')" by (metis prod_cases3)
  have f: "findWinner winner_board = Inr winner_candidate" by (simp add: findWinner_def)
  have m: "mergeable one_file_repo winner_candidate = Inr (''c1'', held_history)"
    by (simp add: mergeable_def filepath_IsAbs_def)
  have "destroys_of fx = [''c1'']"
    using d f m promote_output [of one_file_repo]
    by (auto simp: promote_demo_def Promote_Run_def promoteWinner_def finish_winner_def promote_record_def)
  with winner_destroyed_only_when_held [OF d [unfolded promote_demo_def]] d show ?thesis by simp
qed

end
