(* ===== verification/Wiring.thy ===== *)
theory Wiring
  imports Promote
begin


text \<open>
  internal/nodes/wire.go and the resolveRegistry of internal/cli/wire.go: which nodes a run's graph has, in which order,
  and where each of them goes next. A wired node is its kind and the successor it was configured with; what it
  answers is the answer of the node's own definition.
\<close>

section \<open>Wired nodes\<close>

datatype wnode =
    WPlan string | WApprove string | WCode | WWrite string | WPolicy | WTest | WFix | WReview string | WFanout | WJoin string | WPromote

fun wname :: "wnode \<Rightarrow> string" where
  "wname (WPlan work) = NodePlan" | "wname (WApprove work) = NodeApprove" | "wname WCode = NodeCode"
| "wname (WWrite onVerified) = NodeWrite" | "wname WPolicy = NodePolicy" | "wname WTest = NodeTest" | "wname WFix = NodeFix"
| "wname (WReview onPass) = NodeReview" | "wname WFanout = NodeFanout" | "wname (WJoin onSelected) = NodeJoin" | "wname WPromote = NodePromote"

record wiring =
  wr_route :: "wnode list"
  wr_off :: "wnode list"
  wr_fanout :: bool
  wr_branch :: bool

definition workNodes :: "string list" where
  "workNodes = [NodeCode, NodeWrite, NodePolicy, NodeTest, NodeFix, NodeReview]"

fun replace_first :: "wnode \<Rightarrow> wnode list \<Rightarrow> wnode list" where
  "replace_first n [] = []"
| "replace_first n (m # ms) = (if wname m = wname n then n # ms else m # replace_first n ms)"

fun insert_after :: "string \<Rightarrow> wnode \<Rightarrow> wnode list \<Rightarrow> wnode list" where
  "insert_after before n [] = [n]"
| "insert_after before n (m # ms) = (if wname m = before then m # n # ms else m # insert_after before n ms)"

definition wr_replace :: "wnode \<Rightarrow> wiring \<Rightarrow> wiring" where
  "wr_replace n w = w\<lparr>wr_route := replace_first n (wr_route w), wr_off := replace_first n (wr_off w)\<rparr>"

definition wr_after :: "string \<Rightarrow> wnode \<Rightarrow> wiring \<Rightarrow> wiring" where
  "wr_after before n w = w\<lparr>wr_route := insert_after before n (wr_route w)\<rparr>"

section \<open>Options\<close>

datatype wire_option = WithBranchOutput | WithPolicyGate | WithFanout

fun apply_option :: "wire_option \<Rightarrow> wiring \<Rightarrow> wiring" where
  "apply_option WithBranchOutput w = wr_after NodeReview WPromote (wr_replace (WReview NodePromote) (w\<lparr>wr_branch := True\<rparr>))"
| "apply_option WithPolicyGate w = wr_after NodeWrite WPolicy (wr_replace (WWrite NodePolicy) w)"
| "apply_option WithFanout w = w\<lparr>wr_fanout := True\<rparr>"

definition fanOut :: "wiring \<Rightarrow> wiring" where
  "fanOut w =
     (let work = (\<lambda>n. wname n \<in> set workNodes);
          selected = WJoin (if wr_branch w then NodePromote else End);
          w = w\<lparr>wr_route := filter (\<lambda>n. \<not> work n) (wr_route w), wr_off := filter (\<lambda>n. \<not> work n) (wr_off w)\<rparr>;
          opening = (if NodeApprove \<in> set (map wname (wr_route w)) then NodeApprove else NodePlan)
      in wr_replace (WApprove NodeFanout) (wr_replace (WPlan NodeFanout) (wr_after NodeFanout selected (wr_after opening WFanout w))))"

definition start_wiring :: "bool \<Rightarrow> wiring" where
  "start_wiring approval =
     (let all = [WPlan NodeCode, WApprove NodeCode, WCode, WWrite NodeTest, WTest, WFix, WReview End]
      in if approval then \<lparr>wr_route = all, wr_off = [], wr_fanout = False, wr_branch = False\<rparr>
         else \<lparr>wr_route = filter (\<lambda>n. wname n \<noteq> NodeApprove) all, wr_off = [WApprove NodeCode], wr_fanout = False, wr_branch = False\<rparr>)"

definition finish_wiring :: "wiring \<Rightarrow> wiring" where
  "finish_wiring w = (if wr_fanout w then fanOut w else w)"

definition wire :: "Config \<Rightarrow> wire_option list \<Rightarrow> wiring" where
  "wire conf opts = finish_wiring (fold apply_option opts (start_wiring (Approval (Cfg_Graph conf))))"

datatype wire_error = CandidateFansOut | CandidateHolds string | WireRegister registry_error

definition candidate_wiring :: "wire_option list \<Rightarrow> (wire_error, wiring) result" where
  "candidate_wiring opts =
     (let w = fold apply_option opts \<lparr>wr_route = [WCode, WWrite NodeTest, WTest, WFix, WReview End], wr_off = [], wr_fanout = False, wr_branch = False\<rparr> in
      if wr_fanout w then Inl CandidateFansOut
      else case List.find (\<lambda>n. wname n \<notin> set workNodes) (wr_route w @ wr_off w) of
        Some n \<Rightarrow> Inl (CandidateHolds (wname n))
      | None \<Rightarrow> Inr w)"

text \<open>\<open>build\<close> is the node a wired node is: only its name matters to the registry.\<close>

fun register_all :: "(wnode \<Rightarrow> Node) \<Rightarrow> wnode list \<Rightarrow> Registry \<Rightarrow> (wire_error, Registry) result" where
  "register_all build [] reg = Inr reg"
| "register_all build (n # ns) reg = (case Register (build n) reg of Inl e \<Rightarrow> Inl (WireRegister e) | Inr reg \<Rightarrow> register_all build ns reg)"

definition wire_Default :: "(wnode \<Rightarrow> Node) \<Rightarrow> Config \<Rightarrow> wire_option list \<Rightarrow> (wire_error, Registry) result" where
  "wire_Default build conf opts = register_all build (wr_route (wire conf opts) @ wr_off (wire conf opts)) Map.empty"

definition wire_Route :: "Config \<Rightarrow> wire_option list \<Rightarrow> string list" where
  "wire_Route conf opts = map wname (wr_route (wire conf opts))"

definition wire_Candidate :: "(wnode \<Rightarrow> Node) \<Rightarrow> wire_option list \<Rightarrow> (wire_error, Registry) result" where
  "wire_Candidate build opts = (case candidate_wiring opts of Inl e \<Rightarrow> Inl e | Inr w \<Rightarrow> register_all build (wr_route w) Map.empty)"

definition wire_CandidateRoute :: "wire_option list \<Rightarrow> string list" where
  "wire_CandidateRoute opts = (case candidate_wiring opts of Inl _ \<Rightarrow> [] | Inr w \<Rightarrow> map wname (wr_route w))"

text \<open>The options \<open>resolveRegistry\<close> and \<open>resolveCandidates\<close> derive from the run's pins.\<close>

definition run_options :: "bool \<Rightarrow> bool \<Rightarrow> bool \<Rightarrow> wire_option list" where
  "run_options branched guarded fans = (if branched then [WithBranchOutput] else []) @ (if guarded then [WithPolicyGate] else []) @
     (if fans then [WithFanout] else [])"

definition candidate_options :: "bool \<Rightarrow> wire_option list" where
  "candidate_options guarded = (if guarded then [WithPolicyGate] else [])"

text \<open>What belay.yaml says now of the review and of the isolator, which are read live, and whether the run's output is refused:
  the three things a fanout is judged against. A refusal names its key and what it found.\<close>

record live_fanout =
  lf_review :: string
  lf_isolator :: string
  lf_outputRefused :: bool

datatype fanout_refusal = FanoutReviewKey string | FanoutIsolatorKey string

definition checkFanoutReview :: "live_fanout \<Rightarrow> Manifest \<Rightarrow> fanout_refusal list" where
  "checkFanoutReview live man =
     (if M_Fanout man \<noteq> None \<and> (lf_review live = ''sonar'' \<or> lf_review live = ''ai'') then [FanoutReviewKey (lf_review live)] else [])"

definition checkFanoutIsolator :: "live_fanout \<Rightarrow> Manifest \<Rightarrow> fanout_refusal list" where
  "checkFanoutIsolator live man =
     (if M_Fanout man = None \<or> lf_outputRefused live then []
      else if lf_isolator live = ''dircopy'' \<and> Branched (M_Output man) then [FanoutIsolatorKey ''dircopy'']
      else if lf_isolator live = ''worktree'' \<and> \<not> Branched (M_Output man) then [FanoutIsolatorKey ''worktree'']
      else [])"

definition isolatorName :: "live_fanout \<Rightarrow> Manifest \<Rightarrow> string" where
  "isolatorName live man =
     (if lf_isolator live \<noteq> ''auto'' then lf_isolator live
      else if Branched (M_Output man) then ''worktree'' else ''dircopy'')"

record resolved_graph =
  rg_route :: "string list"
  rg_registry :: "Registry option"
  rg_candidates :: "Registry option"
  rg_candidateRoute :: "string list"
  rg_blockers :: "wire_error list"
  rg_refusals :: "fanout_refusal list"

definition resolveRegistry :: "(wnode \<Rightarrow> Node) \<Rightarrow> Config \<Rightarrow> live_fanout \<Rightarrow> Manifest \<Rightarrow> resolved_graph" where
  "resolveRegistry build conf live man =
     (let guarded = (M_Policy man \<noteq> None); fans = (M_Fanout man \<noteq> None);
          opts = run_options (Branched (M_Output man)) guarded fans;
          g = \<lparr>rg_route = wire_Route conf opts, rg_registry = None, rg_candidates = None, rg_candidateRoute = [], rg_blockers = [],
            rg_refusals = []\<rparr> in
      case wire_Default build conf opts of
        Inl e \<Rightarrow> g\<lparr>rg_blockers := [e]\<rparr>
      | Inr reg \<Rightarrow>
          let g = g\<lparr>rg_registry := Some reg, rg_refusals := checkFanoutReview live man @ checkFanoutIsolator live man\<rparr> in
          if \<not> fans then g
          else let g = g\<lparr>rg_candidateRoute := wire_CandidateRoute (candidate_options guarded)\<rparr> in
            case wire_Candidate build (candidate_options guarded) of
              Inl e \<Rightarrow> g\<lparr>rg_blockers := [e]\<rparr>
            | Inr cands \<Rightarrow> g\<lparr>rg_candidates := Some cands\<rparr>)"

section \<open>Where a wired node goes\<close>

fun wtargets :: "wnode \<Rightarrow> string list" where
  "wtargets (WPlan work) = [NodeApprove, workEntry work]" | "wtargets (WApprove work) = [NodePlan, workEntry work]"
| "wtargets WCode = [NodeWrite]" | "wtargets (WWrite onVerified) = [if onVerified \<noteq> [] then onVerified else NodeTest]"
| "wtargets WPolicy = [NodeTest, NodeFix]" | "wtargets WTest = [NodeReview, NodeFix]" | "wtargets WFix = [NodeWrite]"
| "wtargets (WReview onPass) = [onPass, NodeFix]" | "wtargets WFanout = [NodeJoin]" | "wtargets (WJoin onSelected) = [onSelected]"
| "wtargets WPromote = [End]"

inductive node_answers :: "'w Promote_Env \<Rightarrow> wnode \<Rightarrow> Result \<Rightarrow> bool" for E where
  by_plan: "Plan_Run work say digest m read agent archived rc = ((r, None), doc) \<Longrightarrow> node_answers E (WPlan work) r"
| by_approve: "Approve_Run work asay digest m read rc = (r, None) \<Longrightarrow> node_answers E (WApprove work) r"
| by_code: "Code_Run say m read agent archived rc = (r, None) \<Longrightarrow> node_answers E WCode r"
| by_write: "Write_Run say m n fold_eq fs rootdir tr rc = (r, None) \<Longrightarrow> node_answers E (WWrite (wn_onVerified n)) r"
| by_policy: "Policy_Run T L m tr w rc = (r, None) \<Longrightarrow> node_answers E WPolicy r"
| by_test: "Test_Run say m runner rc = (r, None) \<Longrightarrow> node_answers E WTest r"
| by_fix: "Fix_Run say m agent archived rc = (r, None) \<Longrightarrow> node_answers E WFix r"
| by_review: "Review_Run say m onPass rconf linter reviewer rc = (r, None) \<Longrightarrow> node_answers E (WReview onPass) r"
| by_fanout: "Fanout_Run fsay m read pool rc = (r, None) \<Longrightarrow> node_answers E WFanout r"
| by_join: "Join_Run jsay m onSelected rc = (r, None) \<Longrightarrow> node_answers E (WJoin onSelected) r"
| by_promote: "Promote_Run psay digest L m E rc w = ((r, None), fx, w') \<Longrightarrow> node_answers E WPromote r"


lemma spent_status [simp]: "Res_Status (spent u) = StatusUnknown"
  by (simp add: spent_def)

lemma Promote_Run_next:
  assumes "Promote_Run say digest L m E rc w = ((r, None), fx, w')" "Res_Status r = StatusOK" shows "Res_Next r = End"
proof -
  have f: "Res_Next r = End" if "finish_winner say E h rc c b w0 = ((r, None), fx0, w1)" for h c b w0 fx0 w1
    using that by (auto simp: finish_winner_def promoted_def split: sum.splits prod.splits)
  have u: "unfinished say e = (r, None) \<Longrightarrow> False" for e
    using assms(2) by (auto simp: unfinished_def split: commit_error.splits)
  have acc: "accountFor say L E rc tree ws rec w0 \<noteq> Some (r, None)" for tree ws rec w0
    using assms(2) by (auto simp: accountFor_def Let_def split: sum.splits option.splits if_splits)
  have run: "promoteRun say digest L E rc w = ((r, None), fx, w') \<Longrightarrow> Res_Next r = End"
    using acc by (auto simp: promoteRun_def Let_def promoted_def dest: u split: option.splits prod.splits sum.splits)
  have merge: "Res_Next r = End" if "merge_winner say digest L E h rc c branch w = ((r, None), fx, w')" for h c branch
    using that acc assms(2)
    by (auto simp: merge_winner_def Let_def dest: u f split: option.splits prod.splits sum.splits if_splits)
  have "promoteWinner say digest L E rc w = ((r, None), fx, w') \<Longrightarrow> Res_Next r = End"
    using f merge by (auto simp: promoteWinner_def split: sum.splits bool.splits)
  with run show ?thesis using assms(1) by (auto simp: Promote_Run_def split: if_splits option.splits)
qed

lemma Fanout_Run_next:
  assumes "Fanout_Run say m read pool rc = (r, None)" "Res_Status r = StatusOK" shows "Res_Next r = NodeJoin"
proof -
  have p: "Res_Status (paused_result u t) \<noteq> StatusOK" for u t by (simp add: paused_result_def)
  have a: "after_run say m specs n ans = (r, None) \<Longrightarrow> Res_Next r = NodeJoin" for specs n ans
    using p assms(2) by (auto simp: after_run_def settled_def Let_def split: option.splits sum.splits if_splits prod.splits)
  show ?thesis using assms a p unfolding Fanout_Run_def
    by (auto simp: Let_def split: sum.splits if_splits prod.splits)
qed

text \<open>An answer that goes on goes where its node was wired to.\<close>

lemma answers_target:
  assumes "node_answers E n r" "Res_Status r = StatusOK" shows "Res_Next r \<in> set (wtargets n)"
  using assms
proof (induction rule: node_answers.induct)
  case (by_plan work say digest m read agent archived rc r doc)
  show ?case by (rule Plan_Run_ok [OF by_plan.hyps]) auto
next
  case (by_approve work asay digest m read rc r)
  show ?case by (rule Approve_Run_ok [OF by_approve.hyps]) (use by_approve.prems in auto)
next
  case (by_code say m read agent archived rc r)
  then show ?case using Code_Run_ok by fastforce
next
  case (by_write say m n fold_eq fs rootdir tr rc r)
  then show ?case using Write_Run_ok by (fastforce simp: write_next_def)
next
  case (by_policy T L m tr w rc r)
  then show ?case using Policy_Run_ok by fastforce
next
  case (by_test say m runner rc r)
  then show ?case using Test_Run_ok by fastforce
next
  case (by_fix say m agent archived rc r)
  then show ?case using Fix_Run_ok by fastforce
next
  case (by_review say m onPass rconf linter reviewer rc r)
  then show ?case using Review_Run_ok by fastforce
next
  case (by_fanout fsay m read pool rc r)
  then show ?case using Fanout_Run_next by simp
next
  case (by_join jsay m onSelected rc r)
  show ?case by (rule Join_Run_ok [OF by_join.hyps]) (use by_join.prems in auto)
next
  case (by_promote psay digest L m rc w r fx w')
  then show ?case using Promote_Run_next by fastforce
qed

section \<open>The graph is closed\<close>

definition names_ok :: "string list \<Rightarrow> bool" where
  "names_ok ns \<longleftrightarrow> distinct ns \<and> [] \<notin> set ns \<and> End \<notin> set ns"

lemma register_all_ok:
  assumes "\<And>n. N_Name (build n) = wname n" "names_ok (map wname ns)" "\<forall>n \<in> set ns. reg (wname n) = None"
  shows "\<exists>reg'. register_all build ns reg = Inr reg' \<and> dom reg' = dom reg \<union> set (map wname ns)"
  using assms(2,3)
proof (induction ns arbitrary: reg)
  case (Cons n ns)
  have r: "Register (build n) reg = Inr (reg(wname n \<mapsto> build n))"
    using Cons.prems assms(1) by (auto simp: Register_def names_ok_def)
  have "\<exists>reg'. register_all build ns (reg(wname n \<mapsto> build n)) = Inr reg' \<and> dom reg' = dom (reg(wname n \<mapsto> build n)) \<union> set (map wname ns)"
    by (rule Cons.IH) (use Cons.prems in \<open>auto simp: names_ok_def image_iff\<close>)
  then show ?case using r by auto
qed simp

definition closed_graph :: "wnode list \<Rightarrow> bool" where
  "closed_graph ns \<longleftrightarrow> names_ok (map wname ns) \<and> list_all (\<lambda>n. list_all (\<lambda>t. t = End \<or> t \<in> set (map wname ns)) (wtargets n)) ns"

definition all_nodes :: "wiring \<Rightarrow> wnode list" where
  "all_nodes w = wr_route w @ wr_off w"

lemma wire_closed: "closed_graph (all_nodes (wire conf (run_options b g f)))"
proof -
  have "\<forall>a b g f. closed_graph (all_nodes (finish_wiring (fold apply_option (run_options b g f) (start_wiring a))))" by code_simp
  then show ?thesis by (simp add: wire_def)
qed

lemma candidate_closed: "\<exists>w. candidate_wiring (candidate_options g) = Inr w \<and> wr_off w = [] \<and> closed_graph (wr_route w)"
proof -
  have "\<forall>g. case candidate_wiring (candidate_options g) of Inl _ \<Rightarrow> False | Inr w \<Rightarrow> wr_off w = [] \<and> closed_graph (wr_route w)" by code_simp
  then show ?thesis by (cases "candidate_wiring (candidate_options g)") (auto dest: spec [of _ g])
qed

lemma closed_names: "closed_graph ns \<Longrightarrow> names_ok (map wname ns)"
  by (simp add: closed_graph_def)

lemma closed_lands:
  assumes "closed_graph ns" "n \<in> set ns" "node_answers E n r" "Res_Status r = StatusOK"
  shows "Res_Next r = End \<or> Res_Next r \<in> set (map wname ns)"
  using assms(1,2) answers_target [OF assms(3,4)] by (auto simp: closed_graph_def list_all_iff)

definition pinned_wiring :: "Config \<Rightarrow> Manifest \<Rightarrow> wiring" where
  "pinned_wiring conf man = wire conf (run_options (Branched (M_Output man)) (M_Policy man \<noteq> None) (M_Fanout man \<noteq> None))"

lemma wire_Default_ok:
  assumes "\<And>n. N_Name (build n) = wname n"
  shows "\<exists>reg. wire_Default build conf (run_options b g f) = Inr reg \<and> dom reg = set (map wname (all_nodes (wire conf (run_options b g f))))"
  using register_all_ok [where build = build and ns = "all_nodes (wire conf (run_options b g f))" and reg = Map.empty, OF assms closed_names [OF wire_closed]]
  by (simp add: wire_Default_def all_nodes_def)

lemma wire_Candidate_ok:
  assumes "\<And>n. N_Name (build n) = wname n" "candidate_wiring (candidate_options g) = Inr w"
  shows "\<exists>reg. wire_Candidate build (candidate_options g) = Inr reg \<and> dom reg = set (map wname (wr_route w))"
proof -
  have "closed_graph (wr_route w)" using candidate_closed [of g] assms(2) by auto
  from register_all_ok [where build = build and reg = Map.empty, OF assms(1) closed_names [OF this]] assms(2)
  show ?thesis by (simp add: wire_Candidate_def)
qed

lemma resolveRegistry_ok:
  assumes "\<And>n. N_Name (build n) = wname n" "G = resolveRegistry build conf live man"
  shows "\<exists>reg. rg_registry G = Some reg \<and> dom reg = set (map wname (all_nodes (pinned_wiring conf man)))"
    "M_Fanout man \<noteq> None \<Longrightarrow> \<exists>cands w. rg_candidates G = Some cands \<and> candidate_wiring (candidate_options (M_Policy man \<noteq> None)) = Inr w \<and>
       dom cands = set (map wname (wr_route w))"
    "rg_route G = map wname (wr_route (pinned_wiring conf man))" "rg_blockers G = []"
proof -
  obtain reg where reg: "wire_Default build conf (run_options (Branched (M_Output man)) (M_Policy man \<noteq> None) (M_Fanout man \<noteq> None)) = Inr reg"
      "dom reg = set (map wname (all_nodes (pinned_wiring conf man)))"
    using wire_Default_ok [where build = build, OF assms(1)] unfolding pinned_wiring_def by blast
  obtain w where w: "candidate_wiring (candidate_options (M_Policy man \<noteq> None)) = Inr w" using candidate_closed by blast
  obtain cands where c: "wire_Candidate build (candidate_options (M_Policy man \<noteq> None)) = Inr cands" "dom cands = set (map wname (wr_route w))"
    using wire_Candidate_ok [where build = build, OF assms(1) w] by blast
  note G = assms(2) [unfolded resolveRegistry_def Let_def reg(1) c(1) sum.case]
  show "\<exists>reg. rg_registry G = Some reg \<and> dom reg = set (map wname (all_nodes (pinned_wiring conf man)))"
    using reg(2) by (simp add: G)
  show "M_Fanout man \<noteq> None \<Longrightarrow> \<exists>cands w. rg_candidates G = Some cands \<and> candidate_wiring (candidate_options (M_Policy man \<noteq> None)) = Inr w \<and>
       dom cands = set (map wname (wr_route w))"
    using w c(2) by (simp add: G)
  show "rg_route G = map wname (wr_route (pinned_wiring conf man))" "rg_blockers G = []"
    by (simp_all add: G wire_Route_def pinned_wiring_def)
qed

text \<open>A fanout that is not refused reviews by lint or not at all, and its isolator makes what the run's output can take up: a branch of
  the run's own, or a copy beside a run in place.\<close>

lemma unrefused_fanout:
  assumes "\<And>n. N_Name (build n) = wname n" "G = resolveRegistry build conf live man" "M_Fanout man \<noteq> None" "rg_refusals G = []"
    "\<not> lf_outputRefused live" "lf_isolator live \<in> {''auto'', ''dircopy'', ''worktree''}"
  shows "lf_review live \<notin> {''sonar'', ''ai''}" "isolatorName live man = (if Branched (M_Output man) then ''worktree'' else ''dircopy'')"
proof -
  have "rg_refusals G = checkFanoutReview live man @ checkFanoutIsolator live man"
    using resolveRegistry_ok [OF assms(1,2)] unfolding assms(2) by (auto simp: resolveRegistry_def Let_def split: sum.splits if_splits)
  then have c: "checkFanoutReview live man = []" "checkFanoutIsolator live man = []" using assms(4) by simp_all
  show "lf_review live \<notin> {''sonar'', ''ai''}" using c(1) assms(3) by (auto simp: checkFanoutReview_def split: if_splits)
  show "isolatorName live man = (if Branched (M_Output man) then ''worktree'' else ''dircopy'')"
    using c(2) assms(3,5,6) by (auto simp: checkFanoutIsolator_def isolatorName_def split: if_splits)
qed

text \<open>
  C18. Every route lands. Whatever the pins of a run (a branch, a policy, a fanout) and whether approval is on, belay's graph
  assembles without an error, the route it shows is of nodes it holds, and wherever one of its nodes sends the run,
  by the node's own definition, is a node of the graph or the end; the same holds of the graph of a fanout's candidates.
\<close>

theorem every_route_lands:
  assumes "\<And>n. N_Name (build n) = wname n" "G = resolveRegistry build conf live man"
  shows "\<exists>reg. rg_registry G = Some reg \<and> rg_blockers G = [] \<and> set (rg_route G) \<subseteq> dom reg \<and>
    (\<forall>n \<in> set (all_nodes (pinned_wiring conf man)). \<forall>r. node_answers E n r \<and> Res_Status r = StatusOK \<longrightarrow>
       Res_Next r = End \<or> Res_Next r \<in> dom reg) \<and>
    (M_Fanout man \<noteq> None \<longrightarrow> (\<exists>cands w. rg_candidates G = Some cands \<and> candidate_wiring (candidate_options (M_Policy man \<noteq> None)) = Inr w \<and>
       (\<forall>n \<in> set (wr_route w). \<forall>r. node_answers E n r \<and> Res_Status r = StatusOK \<longrightarrow> Res_Next r = End \<or> Res_Next r \<in> dom cands)))"
proof -
  note ok = resolveRegistry_ok [OF assms]
  obtain reg where reg: "rg_registry G = Some reg" "dom reg = set (map wname (all_nodes (pinned_wiring conf man)))" using ok(1) by blast
  have parent: "Res_Next r = End \<or> Res_Next r \<in> dom reg"
    if "n \<in> set (all_nodes (pinned_wiring conf man))" "node_answers E n r" "Res_Status r = StatusOK" for n r
    using closed_lands [OF wire_closed that [unfolded pinned_wiring_def]] reg(2) by (simp add: pinned_wiring_def)
  have child: "\<exists>cands w. rg_candidates G = Some cands \<and> candidate_wiring (candidate_options (M_Policy man \<noteq> None)) = Inr w \<and>
       (\<forall>n \<in> set (wr_route w). \<forall>r. node_answers E n r \<and> Res_Status r = StatusOK \<longrightarrow> Res_Next r = End \<or> Res_Next r \<in> dom cands)"
    if f: "M_Fanout man \<noteq> None"
  proof -
    obtain cands w where c: "rg_candidates G = Some cands" "candidate_wiring (candidate_options (M_Policy man \<noteq> None)) = Inr w"
        "dom cands = set (map wname (wr_route w))" using ok(2) [OF f] by blast
    have "closed_graph (wr_route w)" using candidate_closed [of "M_Policy man \<noteq> None"] c(2) by auto
    then show ?thesis using c closed_lands by blast
  qed
  have route: "set (rg_route G) \<subseteq> dom reg" using ok(3) reg(2) by (auto simp: all_nodes_def)
  show ?thesis using reg(1) ok(4) route parent child by blast
qed

definition named_node :: "wnode \<Rightarrow> Node" where
  "named_node n = \<lparr>N_Name = wname n, N_Unpriced = False, N_Supervisor = False, N_Run = (\<lambda>_ _. (Result0, None))\<rparr>"

definition lint_live :: live_fanout where
  "lint_live = \<lparr>lf_review = ''lint'', lf_isolator = ''auto'', lf_outputRefused = False\<rparr>"

definition fanning_manifest :: Manifest where
  "fanning_manifest = Manifest0\<lparr>M_Fanout := Some \<lparr>FP_Candidates = 2, FP_Select = ''fewest_issues''\<rparr>\<rparr>"

theorem every_route_lands_witness:
  "\<exists>reg cands. rg_registry (resolveRegistry named_node sample_config lint_live fanning_manifest) = Some reg \<and>
     rg_candidates (resolveRegistry named_node sample_config lint_live fanning_manifest) = Some cands"
  using every_route_lands [where build = named_node, OF _ refl, of sample_config lint_live fanning_manifest one_file_repo]
  by (auto simp: named_node_def fanning_manifest_def)

text \<open>Where a run's change is made: its own graph, or its candidates'.\<close>

definition making_nodes :: "Config \<Rightarrow> Manifest \<Rightarrow> wnode list" where
  "making_nodes conf man = (if M_Fanout man = None then all_nodes (pinned_wiring conf man)
     else case candidate_wiring (candidate_options (M_Policy man \<noteq> None)) of Inl _ \<Rightarrow> [] | Inr w \<Rightarrow> wr_route w)"

definition gated_nodes :: "wnode list \<Rightarrow> bool" where
  "gated_nodes ns \<longleftrightarrow> WPolicy \<in> set ns \<and> NodeWrite \<in> set (map wname ns) \<and>
     list_all (\<lambda>n. NodeTest \<in> set (wtargets n) \<longrightarrow> n = WPolicy) ns"

text \<open>
  C17. A pinned policy is in the way. When a run's manifest pins a policy, the graph its change is made in, its own or its
  candidates', holds the policy gate, and whatever a node of that graph answers, only the gate sends a change on to
  its tests.
\<close>

theorem policy_gate_in_the_way:
  assumes "M_Policy man \<noteq> None"
  shows "WPolicy \<in> set (making_nodes conf man) \<and> NodeWrite \<in> set (map wname (making_nodes conf man)) \<and>
    (\<forall>n \<in> set (making_nodes conf man). \<forall>r. node_answers E n r \<and> Res_Status r = StatusOK \<and> Res_Next r = NodeTest \<longrightarrow> n = WPolicy)"
proof -
  have own: "gated_nodes (all_nodes (wire conf (run_options b True False)))" for b
  proof -
    have "\<forall>a b. gated_nodes (all_nodes (finish_wiring (fold apply_option (run_options b True False) (start_wiring a))))" by code_simp
    then show ?thesis by (simp add: wire_def)
  qed
  have cands: "gated_nodes (case candidate_wiring (candidate_options True) of Inl _ \<Rightarrow> [] | Inr w \<Rightarrow> wr_route w)" by code_simp
  have "gated_nodes (making_nodes conf man)"
    using assms own cands by (auto simp: making_nodes_def pinned_wiring_def)
  then show ?thesis using answers_target by (fastforce simp: gated_nodes_def list_all_iff)
qed

theorem policy_gate_in_the_way_witness:
  "WPolicy \<in> set (making_nodes sample_config (fanning_manifest\<lparr>M_Policy := Some \<lparr>PP_Policy = PolicyRules0, Baseline = [], FoldCase = False\<rparr>\<rparr>))"
  using policy_gate_in_the_way [of "fanning_manifest\<lparr>M_Policy := Some \<lparr>PP_Policy = PolicyRules0, Baseline = [], FoldCase = False\<rparr>\<rparr>"
    sample_config one_file_repo] by simp

end
