(* ===== verification/Spec2Isabelle.thy ===== *)
theory Spec2Isabelle
  imports Dispatch_Runs Queue_Demo Work_Loop Children Wiring
begin

text \<open>
  A verification library for belay, a program that drives a coding agent through a graph of steps
  (plan, approve, code, test, fix, review, ...) and keeps every run durable: a run can be killed at
  any moment and resumed.

  The parts and how they fit. A run is a directory with four kinds of documents:
  an append-only journal (internal/journal over internal/ndjson), the blackboard state.json and the
  manifest manifest.json (internal/state), and the write-once snapshots of the blackboard. The dispatcher
  (internal/graph/dispatcher.go) reads them, decides where to go on, runs one node after another and
  makes every durable write; it charges what nodes spend to a ledger (internal/budget) and checks the
  ceiling before each. A node is a function of the context it is shown.

  The theories, from the bottom up:

  \<^item> \<open>Prelude\<close>: results of fallible Go functions as sums, int64 arithmetic written out
    (\<open>wrap64\<close>, \<open>quot64\<close>), and two interfaces as locales: \<open>event_log\<close>, a log replayed by a step that
    may refuse, and \<open>order_free\<close>, a fold whose order does not matter.
  \<^item> \<open>Float64\<close>: binary64 as exact rationals, infinities and NaN, with rounding to nearest even.
  \<^item> \<open>Belay\<close>: pkg/belay, the values components exchange: usage, severities and their text, counts,
    issues, quality reports; and the text functions of the Go library the source uses.
  \<^item> \<open>Ledger\<close>: internal/budget. Money is an integer of micro-dollars; the lemmas bound what the
    conversions lose, show that the order of reports does not matter, that a rebuilt ledger stands at the sums of what was reported
    or at the manifest's floor, and that affordability and partition keep to the ceiling.
  \<^item> \<open>Ndjson\<close> and \<open>Journal\<close>: the bytes of the log with torn writes, and the records: the validator is
    the journal's grammar, an interrupted append is repaired by the next open, and the resume decision
    is fixed by the last execution.
  \<^item> \<open>Blackboard\<close> and \<open>Manifest\<close>: internal/state: patches, pins, capabilities, snapshots, and what a document of each
    version is read as. What encoding/json does with the two keys decoding looks at is the hypothesis \<open>json_reads\<close>.
  \<^item> \<open>Graph\<close>: the node contract (internal/graph/node.go), the disk, and each durable operation with its
    three outcomes (done, refused without effect, landed but reported as failed).
  \<^item> \<open>Dispatcher\<close>: internal/graph/dispatcher.go, a definition per function. State is passed explicitly in
    a \<open>World\<close>: the disk, the list of durable writes so far (a crash keeps a prefix of it), the journal
    handle's counter, the moment and the executions so far.
  \<^item> \<open>Dispatch_Protocol\<close>: the abstract specification: which durable write may follow which, on the
    documents alone, and what every such sequence of writes keeps.
  \<^item> \<open>Dispatch_Safety\<close>: the dispatcher keeps to that protocol and shows each node what it must.
  \<^item> \<open>Dispatch_Runs\<close>: the properties of a run over any number of dispatches, crashes and resumes, with
    the small run of \<open>Dispatch_Demo\<close> as their instance.
  \<^item> \<open>Utf8\<close>: runes and their UTF-8 bytes, as Go converts between strings and rune slices.
  \<^item> \<open>Queue\<close>: internal/queue/record.go, fold.go and next.go: the records of the goal queue, the fold of its
    log, which accepts exactly the histories of a goal state machine, and what a worker does next.
  \<^item> \<open>Queue_Log\<close>: internal/queue/store.go and log.go: every operation of the store on the bytes of the log,
    with its faults; an append is crash safe.
  \<^item> \<open>Queue_Worker\<close>: internal/queue/worker.go: a worker's steps beside the commands of other processes, over
    the interfaces of its copier and driver, whose contract is the locale \<open>run_driver\<close>.
  \<^item> \<open>Queue_Driver\<close>: the driver and copier of internal/cli/queue.go and the approval of a parked goal;
    they satisfy the contract, so one run belongs to one goal and a parked run is left alone.
  \<^item> \<open>Queue_Drain\<close> and \<open>Queue_Demo\<close>: a worker with nothing failing below it ends drained; and a worked queue.

  \<^item> \<open>Gopath\<close> and \<open>Glob\<close>: the Go library's path.Clean and path.Match, written as its loops, and
    internal/glob over them: what a pattern compiles to, and that matching is the declarative reading
    of its segments.
  \<^item> \<open>Policy_Rules\<close>: internal/policy: the walk for dependencies, the reading of a changed file line by
    line, every rule, and that the evaluation decides the rules.
  \<^item> \<open>Changed_Files\<close>: files.go and diff.go of internal/nodes/code: the paths read from an agent's answer.
  \<^item> \<open>Gates\<close>: the nodes test, review, policy and fix; \<open>Work_Nodes\<close>: code and write, with the containment of
    every claimed path and the patch document.
  \<^item> \<open>Work_Loop\<close>: these nodes as a walk over the blackboard: it ends, and nothing leaves it ungated. The
    bound comes from the locale \<open>ranked_walk\<close>.
  \<^item> \<open>Join\<close>: internal/nodes/join: which candidate of a fanout wins, and that it is the one its strategy
    promises whatever the order the candidates were recorded in.
  \<^item> \<open>Fanout\<close>: internal/nodes/fanout: the envelopes, the candidates asked for, and what is recorded of each.
    The pool is the locale \<open>candidate_runner\<close>; a fanout that settles can be joined.
  \<^item> \<open>Children\<close>: internal/graph/children.go: the pool. A candidate's directory is a \<open>slot\<close>, its durable
    changes a list of writes, its own run the dispatcher again. The pool is the interpretation of
    \<open>candidate_runner\<close>; over any attempts and crashes a candidate goes on as what it was. A claim cut off while it
    stages a document leaves a directory every later claim refuses (\<open>staged_claim_refused\<close>).

  \<^item> \<open>Plan_Gate\<close>: internal/nodes/plan and approve, and what a person does to a waiting plan (internal/cli/plan.go):
    the gate as a walk of nodes, crashes before and after a node's patch, and acts; no work starts on a plan nobody approved, and a plan that was
    replaced is kept.
  \<^item> \<open>Plan_Archive\<close>: internal/planarchive: the plan of a finished run filed in the workspace, every durable
    change of an attempt being a write, so that it is never lost and writes over nothing.
  \<^item> \<open>Promote\<close>: internal/nodes/promote: the run's change or its winner's on the run's branch. The repository and the
    isolator are functions of a world, and what the node does to it is the list of its effects, each with the world it
    meets. Its archiving is \<open>Place\<close> of \<open>Plan_Archive\<close>. What git lists of a tree follows what is written below it
    (\<open>tree_tracks\<close>): then no commit and no merge takes anything the run did not record but its own
    plan and the temporary file an archiving that failed may leave beside it.
  \<^item> \<open>Wiring\<close>: internal/nodes/wire.go and the registries of internal/cli/wire.go: which nodes a run's graph and its
    candidates' have; every route lands, a pinned policy is in the way, and a fanout its review or its isolator cannot
    serve is refused.

  Bounds and fuel. The loop of the dispatcher may run for ever when no step cap is set, so it takes
  fuel; \<open>Dispatch_Runs.dispatch_within_max_steps\<close> shows that with a cap any fuel above the steps that are
  left gives an answer. The worker of the queue loops until a step says stop; \<open>Queue_Drain.Work_drains\<close>
  shows that three steps a queued goal, two a claimed and one an approved are enough. Every other recursion terminates and is total. Go's \<open>int\<close> is 64 bits wide and
  wraps around where the source can overflow; a sequence number (uint64) is a natural number.

  What is a parameter. JSON and YAML encoding, the clock, file operations' outcomes, processes to kill,
  cancellation, the workspace's fingerprint, the spelling and redaction of messages, what git and an isolator
  answer, where the links of a path lead and, in the dispatcher, the nodes' own code. Hypotheses about them are
  stated where they are used and say what their documentation says.

  Not modelled: the command line and presentation (internal/cli), the adapters that run other programs
  (agents, test runners, linters, git, isolators), configuration loading, project detection, forks of a run, and the
  plan as a Markdown document; apart from the forks they are terminal output, operating-system calls or heuristics on the
  text of other tools.
\<close>

end
